(* ===== verification/Prelude.thy ===== *)
theory Prelude
  imports Main "HOL-Library.Word"
begin

text \<open>
  Shared vocabulary of the development. The C++ fixed-width integers are words of the same width,
  a \<^verbatim>\<open>std::span<const std::byte>\<close>, a \<^verbatim>\<open>RawBytes\<close> buffer and the bytes of a \<^verbatim>\<open>std::string_view\<close>
  are lists of bytes, a \<^verbatim>\<open>std::size_t\<close> is a \<open>nat\<close>, and an \<^verbatim>\<open>int32_t\<close> is an \<open>int\<close> that every cast
  brings back into range with \<open>to_i32\<close>. The theory also holds the big-endian reads and writes that
  the binary formats share, and the interface \<open>codec\<close> of a self-delimiting encoding: HTTP/2
  frames, HPACK integers and strings, and WebSocket frames are its interpretations.
\<close>

unbundle bit_operations_syntax

type_synonym u8 = "8 word"
type_synonym u16 = "16 word"
type_synonym u32 = "32 word"
type_synonym u64 = "64 word"
type_synonym bytes = "u8 list"

named_theorems be_simps \<open>reads of what was written, and the lengths of what is written\<close>
named_theorems codec_simps \<open>decoders applied to what the matching encoder wrote\<close>
named_theorems inv_intros \<open>operations keep the invariant of their component\<close>

section \<open>Integer casts\<close>

text \<open>\<^verbatim>\<open>static_cast<int32_t>\<close> of a wider or unsigned value: two's complement.\<close>

definition to_i32 :: "int \<Rightarrow> int" where
  "to_i32 k = signed_take_bit 31 k"

abbreviation i32_max :: int where
  "i32_max \<equiv> 2147483647"

lemma to_i32_id: "- 2147483648 \<le> k \<Longrightarrow> k \<le> i32_max \<Longrightarrow> to_i32 k = k"
  by (simp add: to_i32_def signed_take_bit_int_eq_self)

lemma to_i32_range: "- 2147483648 \<le> to_i32 k \<and> to_i32 k \<le> i32_max"
  using signed_take_bit_int_greater_eq_minus_exp [of 31 k] signed_take_bit_int_less_exp [of 31 k]
  by (simp add: to_i32_def)

lemma uint_u32_lt: "uint (x :: u32) < 4294967296"
  using uint_bounded [of x] by simp

lemma uint_u32_ge: "0 \<le> uint (x :: u32)"
  by simp

lemma to_i32_diff:
  assumes "w \<le> i32_max" "uint (n :: u32) \<le> w"
  shows "to_i32 (w - to_i32 (uint n)) = w - uint n"
proof -
  have "to_i32 (uint n) = uint n" using assms uint_u32_ge [of n] by (intro to_i32_id) linarith+
  moreover have "to_i32 (w - uint n) = w - uint n"
    using assms uint_u32_ge [of n] by (intro to_i32_id) linarith+
  ultimately show ?thesis by simp
qed

lemma to_i32_sum:
  assumes "0 \<le> w" "w + uint (n :: u32) \<le> i32_max"
  shows "to_i32 (w + uint n) = w + uint n"
  using assms uint_u32_ge [of n] by (intro to_i32_id) linarith+

lemma unat_u8_lt: "unat (b :: u8) < 256"
  using unsigned_less [of b] by simp

lemma find_nth_unique:
  assumes "p < length xs" "P (xs ! p)" "\<And>i. i < p \<Longrightarrow> \<not> P (xs ! i)"
  shows "find P xs = Some (xs ! p)"
  using assms by (auto simp: find_Some_iff)

lemma find_upt_unique:
  assumes "p < n" "P p" "\<And>i. i < p \<Longrightarrow> \<not> P i"
  shows "find P [0..<n] = Some p"
  using find_nth_unique [of p "[0..<n]" P] assms by simp

lemma u8_allI: "list_all (\<lambda>n. P (word_of_nat n :: u8)) [0..<256] \<Longrightarrow> P b"
proof -
  assume a: "list_all (\<lambda>n. P (word_of_nat n :: u8)) [0..<256]"
  have "unat b \<in> set [0..<256]" using unsigned_less [of b] by simp
  with a have "P (word_of_nat (unat b))" unfolding list_all_iff by blast
  then show ?thesis by simp
qed

lemma unat_ucast_u8_u16 [simp]: "unat (ucast (b :: u8) :: u16) = unat b"
  and unat_ucast_u8_u32 [simp]: "unat (ucast (b :: u8) :: u32) = unat b"
  and unat_ucast_u8_u64 [simp]: "unat (ucast (b :: u8) :: u64) = unat b"
  using unat_u8_lt [of b] by (simp_all add: unsigned_ucast_eq take_bit_nat_eq_self)

section \<open>Spans\<close>

text \<open>\<^verbatim>\<open>span::subspan(offset, count)\<close>, called with \<open>offset + count \<le> size\<close>.\<close>

definition subspan :: "'a list \<Rightarrow> nat \<Rightarrow> nat \<Rightarrow> 'a list" where
  "subspan xs off n = take n (drop off xs)"

lemma length_subspan [simp]: "off + n \<le> length xs \<Longrightarrow> length (subspan xs off n) = n"
  by (simp add: subspan_def)

lemma subspan_all [simp]: "subspan xs 0 (length xs) = xs"
  by (simp add: subspan_def)

lemma subspan_append_mid: "subspan (xs @ ys @ zs) (length xs) (length ys) = ys"
  by (simp add: subspan_def)

lemma subspan_append_left: "off + n \<le> length xs \<Longrightarrow> subspan (xs @ ys) off n = subspan xs off n"
  by (simp add: subspan_def)

section \<open>Big-endian integers\<close>

lemma ucast_byte_of_low [be_simps]: "(ucast ((x :: u32) AND 0xFF) :: u8) = ucast x"
  and ucast_byte_of_low16 [be_simps]: "(ucast ((y :: u16) AND 0xFF) :: u8) = ucast y"
  and ucast_byte_of_low64 [be_simps]: "(ucast ((z :: u64) AND 0xFF) :: u8) = ucast z"
proof -
  have m: "(0xFF :: u32) = mask 8" "(0xFF :: u16) = mask 8" "(0xFF :: u64) = mask 8"
    by (simp_all add: mask_eq_exp_minus_1)
  show "(ucast (x AND 0xFF) :: u8) = ucast x" "(ucast (y AND 0xFF) :: u8) = ucast y"
    "(ucast (z AND 0xFF) :: u8) = ucast z"
    unfolding m by (auto intro!: bit_word_eqI simp: bit_and_iff bit_mask_iff bit_unsigned_iff)
qed

definition Read16BE :: "bytes \<Rightarrow> u16" where
  "Read16BE d = push_bit 8 (ucast (d ! 0)) OR ucast (d ! 1)"

definition Write16BE :: "u16 \<Rightarrow> bytes" where
  "Write16BE v = [ucast (drop_bit 8 v AND 0xFF), ucast (v AND 0xFF)]"

definition Read24BE :: "bytes \<Rightarrow> u32" where
  "Read24BE d = push_bit 16 (ucast (d ! 0)) OR push_bit 8 (ucast (d ! 1)) OR ucast (d ! 2)"

definition Write24BE :: "u32 \<Rightarrow> bytes" where
  "Write24BE v = [ucast (drop_bit 16 v AND 0xFF), ucast (drop_bit 8 v AND 0xFF), ucast (v AND 0xFF)]"

definition Read32BE :: "bytes \<Rightarrow> u32" where
  "Read32BE d = push_bit 24 (ucast (d ! 0)) OR push_bit 16 (ucast (d ! 1))
     OR push_bit 8 (ucast (d ! 2)) OR ucast (d ! 3)"

definition Write32BE :: "u32 \<Rightarrow> bytes" where
  "Write32BE v = [ucast (drop_bit 24 v AND 0xFF), ucast (drop_bit 16 v AND 0xFF),
     ucast (drop_bit 8 v AND 0xFF), ucast (v AND 0xFF)]"

lemma length_WriteBE [simp]:
  "length (Write16BE v) = 2" "length (Write24BE w) = 3" "length (Write32BE w) = 4"
  by (simp_all add: Write16BE_def Write24BE_def Write32BE_def)

lemmas bit_read_simps = bit_or_iff bit_push_bit_iff bit_unsigned_iff bit_drop_bit_eq

lemma Read16BE_Write16BE [be_simps]: "Read16BE (Write16BE v @ rest) = v"
proof (rule bit_word_eqI)
  fix n assume "n < LENGTH(16)"
  then consider "n < 8" | "8 \<le> n" "n < 16" by fastforce
  then show "bit (Read16BE (Write16BE v @ rest)) n \<longleftrightarrow> bit v n"
    by cases (auto simp: Read16BE_def Write16BE_def be_simps bit_read_simps)
qed

lemma Read32BE_Write32BE [be_simps]: "Read32BE (Write32BE v @ rest) = v"
proof (rule bit_word_eqI)
  fix n assume n: "n < LENGTH(32)"
  then consider "n < 8" | "8 \<le> n" "n < 16" | "16 \<le> n" "n < 24" | "24 \<le> n" "n < 32" by fastforce
  then show "bit (Read32BE (Write32BE v @ rest)) n \<longleftrightarrow> bit v n"
    using n by cases (auto simp: Read32BE_def Write32BE_def be_simps bit_read_simps)
qed

lemma bit_above_of_lt:
  assumes "uint (v :: u32) < 2 ^ k" and "bit v n" shows "n < k"
proof (rule ccontr)
  assume "\<not> n < k"
  have "take_bit k (uint v) = uint v" using assms(1) by (simp add: take_bit_int_eq_self)
  moreover have "bit (uint v) n" using assms(2) bit_imp_le_length [OF assms(2)] by (simp add: bit_uint_iff)
  ultimately have "bit (take_bit k (uint v)) n" by simp
  then show False using \<open>\<not> n < k\<close> by (simp add: bit_take_bit_iff)
qed

text \<open>Only 24 bits are written: the read gives the value back when it fits.\<close>

lemma Read24BE_Write24BE [be_simps]:
  assumes "uint v < 16777216" shows "Read24BE (Write24BE v @ rest) = v"
proof (rule bit_word_eqI)
  fix n assume n: "n < LENGTH(32)"
  have hi: "bit v n \<Longrightarrow> n < 24" using assms by (intro bit_above_of_lt [where k = 24]) auto
  consider "n < 8" | "8 \<le> n" "n < 16" | "16 \<le> n" "n < 24" | "24 \<le> n" by fastforce
  then show "bit (Read24BE (Write24BE v @ rest)) n \<longleftrightarrow> bit v n"
    using n hi by cases (auto simp: Read24BE_def Write24BE_def be_simps bit_read_simps)
qed

lemma and_31_bits: "uint (v :: u32) < 2147483648 \<Longrightarrow> v AND 0x7FFFFFFF = v"
proof -
  assume a: "uint v < 2147483648"
  have m: "(0x7FFFFFFF :: u32) = mask 31" by (simp add: mask_eq_exp_minus_1)
  have "bit v n \<Longrightarrow> n < 31" for n using a by (intro bit_above_of_lt [where k = 31]) auto
  then show ?thesis
    unfolding m by (auto intro!: bit_word_eqI simp: bit_and_iff bit_mask_iff)
qed

lemma uint_and_31_bits: "uint ((v :: u32) AND 0x7FFFFFFF) < 2147483648"
proof -
  have m: "(0x7FFFFFFF :: u32) = mask 31" by (simp add: mask_eq_exp_minus_1)
  have "v AND mask 31 = take_bit 31 v" by (simp add: take_bit_eq_mask)
  moreover have "uint (take_bit 31 v) = take_bit 31 (uint v)" by (simp add: unsigned_take_bit_eq)
  moreover have "take_bit 31 (uint v) < 2 ^ 31" by (rule take_bit_int_less_exp)
  ultimately show ?thesis unfolding m by simp
qed

lemma and_31_bits_idem [simp]: "(v AND 0x7FFFFFFF) AND 0x7FFFFFFF = (v AND 0x7FFFFFFF :: u32)"
  by (simp add: and.assoc)

text \<open>A value read from three bytes has 24 bits.\<close>

lemma uint_Read24BE: "uint (Read24BE d) < 16777216"
proof -
  have "bit (Read24BE d) n \<Longrightarrow> n < 24" for n
    by (auto simp: Read24BE_def bit_read_simps dest!: bit_imp_le_length)
  then have "Read24BE d = take_bit 24 (Read24BE d)"
    by (auto intro!: bit_word_eqI simp: bit_take_bit_iff)
  then have "uint (Read24BE d) = take_bit 24 (uint (Read24BE d))"
    by (metis unsigned_take_bit_eq)
  then show ?thesis using take_bit_int_less_exp [of 24 "uint (Read24BE d)"] by simp
qed

section \<open>Self-delimiting encodings\<close>

text \<open>
  The loop every consumer of a byte stream runs: decode one item, drop the bytes it took, go on.
  An item that takes no byte, and bytes that hold no item, stop it with \<open>None\<close>.
\<close>

function decode_all :: "(bytes \<Rightarrow> ('a \<times> nat) option) \<Rightarrow> bytes \<Rightarrow> 'a list option" where
  "decode_all dec bs =
     (if bs = [] then Some []
      else (case dec bs of
              None \<Rightarrow> None
            | Some (x, n) \<Rightarrow>
                (if n = 0 then None else map_option (Cons x) (decode_all dec (drop n bs)))))"
  by pat_completeness auto
termination
  by (relation "measure (\<lambda>(dec, bs). length bs)") auto

declare decode_all.simps [simp del]

text \<open>
  The interface: \<open>enc\<close> writes one item, \<open>dec\<close> reads one item off the front of the input and says how
  many bytes it took; \<open>valid\<close> are the items the format can carry.
\<close>

locale codec =
  fixes enc :: "'a \<Rightarrow> bytes"
    and dec :: "bytes \<Rightarrow> ('a \<times> nat) option"
    and valid :: "'a \<Rightarrow> bool"
  assumes dec_enc: "valid x \<Longrightarrow> dec (enc x @ rest) = Some (x, length (enc x))"
    and enc_nonempty: "valid x \<Longrightarrow> enc x \<noteq> []"
begin

lemma enc_append_inj:
  assumes "valid x" "valid y" "enc x @ r = enc y @ s" shows "x = y \<and> r = s"
proof -
  have "Some (x, length (enc x)) = Some (y, length (enc y))"
    using dec_enc [OF assms(1), of r] dec_enc [OF assms(2), of s] assms(3) by simp
  then show ?thesis using assms(3) by simp
qed

lemma enc_inj: "valid x \<Longrightarrow> valid y \<Longrightarrow> enc x = enc y \<Longrightarrow> x = y"
  using enc_append_inj [of x y "[]" "[]"] by simp

lemma decode_all_concat:
  "(\<And>x. x \<in> set xs \<Longrightarrow> valid x) \<Longrightarrow> decode_all dec (concat (map enc xs)) = Some xs"
proof (induction xs)
  case Nil
  then show ?case by (simp add: decode_all.simps)
next
  case (Cons x xs)
  have v: "valid x" using Cons.prems by simp
  have "decode_all dec (concat (map enc xs)) = Some xs" using Cons.prems by (intro Cons.IH) simp
  then show ?case
    using dec_enc [OF v] enc_nonempty [OF v] by (simp add: decode_all.simps [of dec "enc x @ _"])
qed

lemma concat_unique:
  assumes "\<And>x. x \<in> set xs \<Longrightarrow> valid x" "\<And>y. y \<in> set ys \<Longrightarrow> valid y"
    and "concat (map enc xs) = concat (map enc ys)"
  shows "xs = ys"
proof -
  have "decode_all dec (concat (map enc xs)) = Some xs" using assms(1) by (rule decode_all_concat)
  moreover have "decode_all dec (concat (map enc ys)) = Some ys" using assms(2) by (rule decode_all_concat)
  ultimately show ?thesis unfolding assms(3) by simp
qed

end

section \<open>Reachable states\<close>

text \<open>
  The states a component can be in: those it starts in, closed under its steps. The interface
  \<open>invariant_of\<close> is what a component shows once (its start states and its steps keep a predicate);
  the predicate then holds in every reachable state.
\<close>

inductive reachable :: "('s \<Rightarrow> bool) \<Rightarrow> ('s \<Rightarrow> 's \<Rightarrow> bool) \<Rightarrow> 's \<Rightarrow> bool"
  for init step where
  start: "init s \<Longrightarrow> reachable init step s"
| step: "reachable init step s \<Longrightarrow> step s t \<Longrightarrow> reachable init step t"

locale invariant_of =
  fixes init :: "'s \<Rightarrow> bool"
    and step :: "'s \<Rightarrow> 's \<Rightarrow> bool"
    and inv :: "'s \<Rightarrow> bool"
  assumes init_inv: "init s \<Longrightarrow> inv s"
    and step_inv: "step s t \<Longrightarrow> inv s \<Longrightarrow> inv t"
begin

lemma reachable_inv: "reachable init step s \<Longrightarrow> inv s"
  by (induction rule: reachable.induct) (blast intro: init_inv step_inv)+

lemma steps_inv: "step\<^sup>*\<^sup>* s t \<Longrightarrow> inv s \<Longrightarrow> inv t"
  by (induction rule: rtranclp_induct) (blast intro: step_inv)+

end

lemma nth_at: "n = length pre \<Longrightarrow> (pre @ x # post) ! n = x"
  by simp

end
