(* ===== verification/Http2_Frame_Types.thy ===== *)
theory Http2_Frame_Types
  imports Prelude
begin

text \<open>
  The protocol constants and enumerations of \<^verbatim>\<open>http2-frame-types.hpp\<close>. A C++ \<^verbatim>\<open>enum class\<close> with a
  fixed underlying type holds every value of that type, and the parser casts raw bytes to it:
  each enumeration therefore has one constructor per enumerator and one for the remaining
  values, with the two casts written out.
\<close>

section \<open>Frame types\<close>

datatype FrameType =
    FT_Data | FT_Headers | FT_Priority | FT_RstStream | FT_Settings | FT_PushPromise
  | FT_Ping | FT_GoAway | FT_WindowUpdate | FT_Continuation | FT_Other u8

fun FrameType_to_u8 :: "FrameType \<Rightarrow> u8" where
  "FrameType_to_u8 FT_Data = 0x00"
| "FrameType_to_u8 FT_Headers = 0x01"
| "FrameType_to_u8 FT_Priority = 0x02"
| "FrameType_to_u8 FT_RstStream = 0x03"
| "FrameType_to_u8 FT_Settings = 0x04"
| "FrameType_to_u8 FT_PushPromise = 0x05"
| "FrameType_to_u8 FT_Ping = 0x06"
| "FrameType_to_u8 FT_GoAway = 0x07"
| "FrameType_to_u8 FT_WindowUpdate = 0x08"
| "FrameType_to_u8 FT_Continuation = 0x09"
| "FrameType_to_u8 (FT_Other b) = b"

definition FrameType_of_u8 :: "u8 \<Rightarrow> FrameType" where
  "FrameType_of_u8 b =
     (if b = 0x00 then FT_Data else if b = 0x01 then FT_Headers else if b = 0x02 then FT_Priority
      else if b = 0x03 then FT_RstStream else if b = 0x04 then FT_Settings
      else if b = 0x05 then FT_PushPromise else if b = 0x06 then FT_Ping
      else if b = 0x07 then FT_GoAway else if b = 0x08 then FT_WindowUpdate
      else if b = 0x09 then FT_Continuation else FT_Other b)"

text \<open>The values of the C++ type: \<open>FT_Other\<close> stands for the unnamed values only.\<close>

fun FrameType_wf :: "FrameType \<Rightarrow> bool" where
  "FrameType_wf (FT_Other b) = (9 < b)"
| "FrameType_wf _ = True"

lemma FrameType_to_of [simp]: "FrameType_to_u8 (FrameType_of_u8 b) = b"
  by (simp add: FrameType_of_u8_def)

lemma FrameType_of_to [simp]: "FrameType_wf t \<Longrightarrow> FrameType_of_u8 (FrameType_to_u8 t) = t"
  by (cases t) (auto simp: FrameType_of_u8_def)

section \<open>Error codes\<close>

datatype ErrorCode =
    EC_NoError | EC_ProtocolError | EC_InternalError | EC_FlowControlError | EC_SettingsTimeout
  | EC_StreamClosed | EC_FrameSizeError | EC_RefusedStream | EC_Cancel | EC_CompressionError
  | EC_ConnectError | EC_EnhanceYourCalm | EC_InadequateSecurity | EC_Http11Required
  | EC_Other u32

fun ErrorCode_to_u32 :: "ErrorCode \<Rightarrow> u32" where
  "ErrorCode_to_u32 EC_NoError = 0x00"
| "ErrorCode_to_u32 EC_ProtocolError = 0x01"
| "ErrorCode_to_u32 EC_InternalError = 0x02"
| "ErrorCode_to_u32 EC_FlowControlError = 0x03"
| "ErrorCode_to_u32 EC_SettingsTimeout = 0x04"
| "ErrorCode_to_u32 EC_StreamClosed = 0x05"
| "ErrorCode_to_u32 EC_FrameSizeError = 0x06"
| "ErrorCode_to_u32 EC_RefusedStream = 0x07"
| "ErrorCode_to_u32 EC_Cancel = 0x08"
| "ErrorCode_to_u32 EC_CompressionError = 0x09"
| "ErrorCode_to_u32 EC_ConnectError = 0x0A"
| "ErrorCode_to_u32 EC_EnhanceYourCalm = 0x0B"
| "ErrorCode_to_u32 EC_InadequateSecurity = 0x0C"
| "ErrorCode_to_u32 EC_Http11Required = 0x0D"
| "ErrorCode_to_u32 (EC_Other w) = w"

definition ErrorCode_of_u32 :: "u32 \<Rightarrow> ErrorCode" where
  "ErrorCode_of_u32 w =
     (if w = 0x00 then EC_NoError else if w = 0x01 then EC_ProtocolError
      else if w = 0x02 then EC_InternalError else if w = 0x03 then EC_FlowControlError
      else if w = 0x04 then EC_SettingsTimeout else if w = 0x05 then EC_StreamClosed
      else if w = 0x06 then EC_FrameSizeError else if w = 0x07 then EC_RefusedStream
      else if w = 0x08 then EC_Cancel else if w = 0x09 then EC_CompressionError
      else if w = 0x0A then EC_ConnectError else if w = 0x0B then EC_EnhanceYourCalm
      else if w = 0x0C then EC_InadequateSecurity else if w = 0x0D then EC_Http11Required
      else EC_Other w)"

fun ErrorCode_wf :: "ErrorCode \<Rightarrow> bool" where
  "ErrorCode_wf (EC_Other w) = (0x0D < w)"
| "ErrorCode_wf _ = True"

lemma ErrorCode_to_of [simp]: "ErrorCode_to_u32 (ErrorCode_of_u32 w) = w"
  by (simp add: ErrorCode_of_u32_def)

lemma ErrorCode_of_to [simp]: "ErrorCode_wf e \<Longrightarrow> ErrorCode_of_u32 (ErrorCode_to_u32 e) = e"
  by (cases e) (auto simp: ErrorCode_of_u32_def)

section \<open>Settings parameters\<close>

datatype SettingsParameter =
    SP_HeaderTableSize | SP_EnablePush | SP_MaxConcurrentStreams | SP_InitialWindowSize
  | SP_MaxFrameSize | SP_MaxHeaderListSize | SP_Other u16

fun SettingsParameter_to_u16 :: "SettingsParameter \<Rightarrow> u16" where
  "SettingsParameter_to_u16 SP_HeaderTableSize = 0x01"
| "SettingsParameter_to_u16 SP_EnablePush = 0x02"
| "SettingsParameter_to_u16 SP_MaxConcurrentStreams = 0x03"
| "SettingsParameter_to_u16 SP_InitialWindowSize = 0x04"
| "SettingsParameter_to_u16 SP_MaxFrameSize = 0x05"
| "SettingsParameter_to_u16 SP_MaxHeaderListSize = 0x06"
| "SettingsParameter_to_u16 (SP_Other w) = w"

definition SettingsParameter_of_u16 :: "u16 \<Rightarrow> SettingsParameter" where
  "SettingsParameter_of_u16 w =
     (if w = 0x01 then SP_HeaderTableSize else if w = 0x02 then SP_EnablePush
      else if w = 0x03 then SP_MaxConcurrentStreams else if w = 0x04 then SP_InitialWindowSize
      else if w = 0x05 then SP_MaxFrameSize else if w = 0x06 then SP_MaxHeaderListSize
      else SP_Other w)"

fun SettingsParameter_wf :: "SettingsParameter \<Rightarrow> bool" where
  "SettingsParameter_wf (SP_Other w) = (w = 0 \<or> 0x06 < w)"
| "SettingsParameter_wf _ = True"

lemma SettingsParameter_to_of [simp]: "SettingsParameter_to_u16 (SettingsParameter_of_u16 w) = w"
  by (simp add: SettingsParameter_of_u16_def)

lemma SettingsParameter_of_to [simp]:
  "SettingsParameter_wf p \<Longrightarrow> SettingsParameter_of_u16 (SettingsParameter_to_u16 p) = p"
  by (cases p) (auto simp: SettingsParameter_of_u16_def)

section \<open>Flags, defaults and limits\<close>

abbreviation FlagNone :: u8 where "FlagNone \<equiv> 0x00"
abbreviation DataEndStream :: u8 where "DataEndStream \<equiv> 0x01"
abbreviation DataPadded :: u8 where "DataPadded \<equiv> 0x08"
abbreviation HeadersEndStream :: u8 where "HeadersEndStream \<equiv> 0x01"
abbreviation HeadersEndHeaders :: u8 where "HeadersEndHeaders \<equiv> 0x04"
abbreviation HeadersPadded :: u8 where "HeadersPadded \<equiv> 0x08"
abbreviation HeadersPriority :: u8 where "HeadersPriority \<equiv> 0x20"
abbreviation SettingsAck :: u8 where "SettingsAck \<equiv> 0x01"
abbreviation PingAck :: u8 where "PingAck \<equiv> 0x01"
abbreviation ContinuationEndHeaders :: u8 where "ContinuationEndHeaders \<equiv> 0x04"

definition kDefaultInitialWindowSize :: u32 where "kDefaultInitialWindowSize = 65535"
definition kMaxWindowSize :: u32 where "kMaxWindowSize = 2147483647"
definition kFrameHeaderSize :: nat where "kFrameHeaderSize = 9"

definition kConnectionPreface :: bytes where
  "kConnectionPreface = map (\<lambda>c. of_nat (of_char c))
     (''PRI * HTTP/2.0'' @ [CHR 0x0D, CHR 0x0A, CHR 0x0D, CHR 0x0A] @ ''SM''
        @ [CHR 0x0D, CHR 0x0A, CHR 0x0D, CHR 0x0A])"

definition IsClientStream :: "u32 \<Rightarrow> bool" where
  "IsClientStream sid \<longleftrightarrow> sid AND 1 \<noteq> 0"

definition IsServerStream :: "u32 \<Rightarrow> bool" where
  "IsServerStream sid \<longleftrightarrow> sid \<noteq> 0 \<and> sid AND 1 = 0"

lemma stream_initiator_exclusive: "sid \<noteq> 0 \<Longrightarrow> IsClientStream sid \<longleftrightarrow> \<not> IsServerStream sid"
  by (auto simp: IsClientStream_def IsServerStream_def)

lemma length_kConnectionPreface [simp]: "length kConnectionPreface = 24"
  by (simp add: kConnectionPreface_def)

section \<open>Stream states\<close>

datatype StreamState =
  SS_Idle | SS_ReservedLocal | SS_ReservedRemote | SS_Open | SS_HalfClosedLocal
| SS_HalfClosedRemote | SS_Closed

end
