(* ===== verification/Http2_Frame.thy ===== *)
theory Http2_Frame
  imports Http2_Frame_Types
begin

text \<open>
  The frame codec of \<^verbatim>\<open>http2-frame.hpp\<close> and \<^verbatim>\<open>http2-frame.cpp\<close>. A parser that fills an out-parameter
  and returns a \<^verbatim>\<open>FrameParseResult\<close> is a function into a sum: \<open>Inl\<close> the error, \<open>Inr\<close> the filled
  structure (\<^verbatim>\<open>Ok\<close>). A writer that appends to a \<^verbatim>\<open>RawBytes\<close> buffer and returns a byte count is a function
  from the buffer to the new buffer and the count. The theorems show that what each writer appends
  is read back by the frame splitter and the matching parser, and what each parser refuses.
\<close>

section \<open>Frame header\<close>

record FrameHeader =
  fhLength :: u32
  fhType :: FrameType
  fhFlags :: u8
  fhStreamId :: u32

definition hasFlag :: "FrameHeader \<Rightarrow> u8 \<Rightarrow> bool" where
  "hasFlag h flag \<longleftrightarrow> fhFlags h AND flag \<noteq> 0"

definition FrameHeader_isValid :: "FrameHeader \<Rightarrow> bool" where
  "FrameHeader_isValid h \<longleftrightarrow> fhLength h \<le> 0x00FFFFFF"

definition CreateFrameHeader :: "FrameType \<Rightarrow> u8 \<Rightarrow> u32 \<Rightarrow> u32 \<Rightarrow> FrameHeader" where
  "CreateFrameHeader type flags streamId payloadLength =
     \<lparr>fhLength = payloadLength, fhType = type, fhFlags = flags, fhStreamId = streamId\<rparr>"

definition ParseFrameHeader :: "bytes \<Rightarrow> FrameHeader" where
  "ParseFrameHeader data =
     CreateFrameHeader (FrameType_of_u8 (data ! 3)) (data ! 4)
       (Read32BE (drop 5 data) AND 0x7FFFFFFF) (Read24BE data)"

definition WriteFrameHeader :: "FrameHeader \<Rightarrow> bytes" where
  "WriteFrameHeader h =
     Write24BE (fhLength h) @ [FrameType_to_u8 (fhType h)] @ [fhFlags h]
       @ Write32BE (fhStreamId h AND 0x7FFFFFFF)"

definition WriteFrame :: "bytes \<Rightarrow> FrameType \<Rightarrow> u8 \<Rightarrow> u32 \<Rightarrow> u32 \<Rightarrow> bytes \<times> nat" where
  "WriteFrame buffer type flags streamId payloadSize =
     (buffer @ WriteFrameHeader (CreateFrameHeader type flags streamId payloadSize),
      kFrameHeaderSize + unat payloadSize)"

section \<open>Frame structures\<close>

record SettingsEntry =
  seId :: SettingsParameter
  seValue :: u32

record DataFrame =
  dfData :: bytes
  dfPadLength :: u8
  dfEndStream :: bool

record HeadersFrame =
  hfHeaderBlockFragment :: bytes
  hfStreamDependency :: u32
  hfWeight :: u16
  hfPadLength :: u8
  hfEndStream :: bool
  hfEndHeaders :: bool
  hfExclusive :: bool
  hfHasPriority :: bool

record PriorityFrame =
  pfStreamDependency :: u32
  pfWeight :: u16
  pfExclusive :: bool

record RstStreamFrame =
  rfErrorCode :: ErrorCode

definition kMaxEntries :: nat where "kMaxEntries = 16"

record SettingsFrame =
  sfEntries :: "SettingsEntry list"
  sfIsAck :: bool

record PingFrame =
  pgOpaqueData :: bytes
  pgIsAck :: bool

record GoAwayFrame =
  gfLastStreamId :: u32
  gfErrorCode :: ErrorCode
  gfDebugData :: bytes

record WindowUpdateFrame =
  wfWindowSizeIncrement :: u32

record ContinuationFrame =
  cfHeaderBlockFragment :: bytes
  cfEndHeaders :: bool

section \<open>Parsing\<close>

datatype FrameParseError = NeedMoreData | FrameSizeError | ProtocolError | InvalidPadding

definition ParseDataFrame :: "FrameHeader \<Rightarrow> bytes \<Rightarrow> FrameParseError + DataFrame" where
  "ParseDataFrame header payload =
     (let endStream = hasFlag header DataEndStream in
      if hasFlag header DataPadded then
        (if payload = [] then Inl FrameSizeError
         else let padLength = payload ! 0 in
           if unat padLength \<ge> length payload then Inl InvalidPadding
           else Inr \<lparr>dfData = subspan payload 1 (length payload - 1 - unat padLength),
                     dfPadLength = padLength, dfEndStream = endStream\<rparr>)
      else Inr \<lparr>dfData = payload, dfPadLength = 0, dfEndStream = endStream\<rparr>)"

definition ParseHeadersFrame :: "FrameHeader \<Rightarrow> bytes \<Rightarrow> FrameParseError + HeadersFrame" where
  "ParseHeadersFrame header payload =
     (let endStream = hasFlag header HeadersEndStream;
          endHeaders = hasFlag header HeadersEndHeaders;
          hasPriority = hasFlag header HeadersPriority;
          padded = hasFlag header HeadersPadded in
      if padded \<and> payload = [] then Inl FrameSizeError
      else let padLength = (if padded then payload ! 0 else 0);
               offset = (if padded then 1 else 0 :: nat) in
      if hasPriority \<and> length payload < offset + 5 then Inl FrameSizeError
      else let depAndExcl = Read32BE (drop offset payload);
               exclusive = (if hasPriority then depAndExcl AND 0x80000000 \<noteq> 0 else False);
               streamDependency = (if hasPriority then depAndExcl AND 0x7FFFFFFF else 0);
               weight = (if hasPriority then ucast (payload ! (offset + 4)) + 1 else 16);
               offset' = (if hasPriority then offset + 5 else offset) in
      if padLength > 0 \<and> offset' + unat padLength > length payload then Inl InvalidPadding
      else Inr \<lparr>hfHeaderBlockFragment =
                  subspan payload offset' (length payload - offset' - unat padLength),
                hfStreamDependency = streamDependency, hfWeight = weight, hfPadLength = padLength,
                hfEndStream = endStream, hfEndHeaders = endHeaders, hfExclusive = exclusive,
                hfHasPriority = hasPriority\<rparr>)"

definition ParsePriorityFrame :: "FrameHeader \<Rightarrow> bytes \<Rightarrow> FrameParseError + PriorityFrame" where
  "ParsePriorityFrame header payload =
     (if length payload \<noteq> 5 then Inl FrameSizeError
      else let depAndExcl = Read32BE payload in
        Inr \<lparr>pfStreamDependency = depAndExcl AND 0x7FFFFFFF,
             pfWeight = ucast (payload ! 4) + 1,
             pfExclusive = (depAndExcl AND 0x80000000 \<noteq> 0)\<rparr>)"

definition ParseRstStreamFrame :: "FrameHeader \<Rightarrow> bytes \<Rightarrow> FrameParseError + RstStreamFrame" where
  "ParseRstStreamFrame header payload =
     (if length payload \<noteq> 4 then Inl FrameSizeError
      else Inr \<lparr>rfErrorCode = ErrorCode_of_u32 (Read32BE payload)\<rparr>)"

definition ParseSettingsEntry :: "bytes \<Rightarrow> SettingsEntry" where
  "ParseSettingsEntry entry =
     \<lparr>seId = SettingsParameter_of_u16 (Read16BE entry), seValue = Read32BE (drop 2 entry)\<rparr>"

definition ParseSettingsFrame :: "FrameHeader \<Rightarrow> bytes \<Rightarrow> FrameParseError + SettingsFrame" where
  "ParseSettingsFrame header payload =
     (let isAck = hasFlag header SettingsAck in
      if isAck then
        (if payload \<noteq> [] then Inl FrameSizeError else Inr \<lparr>sfEntries = [], sfIsAck = True\<rparr>)
      else if length payload mod 6 \<noteq> 0 then Inl FrameSizeError
      else let numEntries = min (length payload div 6) kMaxEntries in
        Inr \<lparr>sfEntries = map (\<lambda>idx. ParseSettingsEntry (drop (idx * 6) payload)) [0..<numEntries],
             sfIsAck = False\<rparr>)"

definition ParsePingFrame :: "FrameHeader \<Rightarrow> bytes \<Rightarrow> FrameParseError + PingFrame" where
  "ParsePingFrame header payload =
     (if length payload \<noteq> 8 then Inl FrameSizeError
      else Inr \<lparr>pgOpaqueData = take 8 payload, pgIsAck = hasFlag header PingAck\<rparr>)"

definition ParseGoAwayFrame :: "FrameHeader \<Rightarrow> bytes \<Rightarrow> FrameParseError + GoAwayFrame" where
  "ParseGoAwayFrame header payload =
     (if length payload < 8 then Inl FrameSizeError
      else Inr \<lparr>gfLastStreamId = Read32BE payload AND 0x7FFFFFFF,
                gfErrorCode = ErrorCode_of_u32 (Read32BE (drop 4 payload)),
                gfDebugData = drop 8 payload\<rparr>)"

definition ParseWindowUpdateFrame :: "bytes \<Rightarrow> FrameParseError + WindowUpdateFrame" where
  "ParseWindowUpdateFrame payload =
     (if length payload \<noteq> 4 then Inl FrameSizeError
      else Inr \<lparr>wfWindowSizeIncrement = Read32BE payload AND 0x7FFFFFFF\<rparr>)"

definition ParseContinuationFrame :: "FrameHeader \<Rightarrow> bytes \<Rightarrow> ContinuationFrame" where
  "ParseContinuationFrame header payload =
     \<lparr>cfHeaderBlockFragment = payload, cfEndHeaders = hasFlag header ContinuationEndHeaders\<rparr>"

section \<open>Writing\<close>

definition ComputeHeaderFrameFlags :: "bool \<Rightarrow> bool \<Rightarrow> u8 \<Rightarrow> u8" where
  "ComputeHeaderFrameFlags endStream endHeaders init =
     (let init1 = (if endStream then init OR HeadersEndStream else init) in
      if endHeaders then init1 OR HeadersEndHeaders else init1)"

definition WriteDataFrame :: "bytes \<Rightarrow> u32 \<Rightarrow> bytes \<Rightarrow> bool \<Rightarrow> bytes \<times> nat" where
  "WriteDataFrame buffer streamId data endStream =
     (let flags = (if endStream then DataEndStream else FlagNone);
          (buf, ret) = WriteFrame buffer FT_Data flags streamId (of_nat (length data))
      in (buf @ data, ret))"

definition DepWithExcl :: "u32 \<Rightarrow> bool \<Rightarrow> u32" where
  "DepWithExcl streamDependency exclusive =
     (if exclusive then streamDependency OR 0x80000000 else streamDependency)"

definition WriteHeadersFrameWithPriority ::
  "bytes \<Rightarrow> u32 \<Rightarrow> bytes \<Rightarrow> u32 \<Rightarrow> u8 \<Rightarrow> bool \<Rightarrow> bool \<Rightarrow> bool \<Rightarrow> bytes \<times> nat" where
  "WriteHeadersFrameWithPriority buffer streamId headerBlock streamDependency weight exclusive
       endStream endHeaders =
     (let payloadSize = 5 + length headerBlock;
          hdr = CreateFrameHeader FT_Headers (ComputeHeaderFrameFlags endStream endHeaders HeadersPriority)
                  streamId (of_nat payloadSize)
      in (buffer @ WriteFrameHeader hdr @ Write32BE (DepWithExcl streamDependency exclusive)
            @ [weight] @ headerBlock,
          kFrameHeaderSize + payloadSize))"

definition WritePriorityFrame :: "bytes \<Rightarrow> u32 \<Rightarrow> u32 \<Rightarrow> u8 \<Rightarrow> bool \<Rightarrow> bytes \<times> nat" where
  "WritePriorityFrame buffer streamId streamDependency weight exclusive =
     (let (buf, ret) = WriteFrame buffer FT_Priority FlagNone streamId 5
      in (buf @ Write32BE (DepWithExcl streamDependency exclusive) @ [weight], ret))"

definition WriteRstStreamFrame :: "bytes \<Rightarrow> u32 \<Rightarrow> ErrorCode \<Rightarrow> bytes \<times> nat" where
  "WriteRstStreamFrame buffer streamId errorCode =
     (let (buf, ret) = WriteFrame buffer FT_RstStream FlagNone streamId 4
      in (buf @ Write32BE (ErrorCode_to_u32 errorCode), ret))"

definition WriteSettingsEntry :: "SettingsEntry \<Rightarrow> bytes" where
  "WriteSettingsEntry entry =
     Write16BE (SettingsParameter_to_u16 (seId entry)) @ Write32BE (seValue entry)"

definition WriteSettingsFrame :: "bytes \<Rightarrow> SettingsEntry list \<Rightarrow> bytes \<times> nat" where
  "WriteSettingsFrame buffer entries =
     (let payloadSize = length entries * 6
      in (buffer @ WriteFrameHeader (CreateFrameHeader FT_Settings FlagNone 0 (of_nat payloadSize))
            @ concat (map WriteSettingsEntry entries),
          kFrameHeaderSize + payloadSize))"

definition WriteSettingsAckFrame :: "bytes \<Rightarrow> bytes \<times> nat" where
  "WriteSettingsAckFrame buffer = WriteFrame buffer FT_Settings SettingsAck 0 0"

definition WritePingFrame :: "bytes \<Rightarrow> PingFrame \<Rightarrow> bytes \<times> nat" where
  "WritePingFrame buffer pingFrame =
     (let flags = (if pgIsAck pingFrame then PingAck else FlagNone);
          (buf, ret) = WriteFrame buffer FT_Ping flags 0 8
      in (buf @ take 8 (pgOpaqueData pingFrame), ret))"

definition WriteGoAwayFrame :: "bytes \<Rightarrow> u32 \<Rightarrow> ErrorCode \<Rightarrow> bytes \<Rightarrow> bytes \<times> nat" where
  "WriteGoAwayFrame buffer lastStreamId errorCode debugData =
     (let payloadSize = 8 + length debugData
      in (buffer @ WriteFrameHeader (CreateFrameHeader FT_GoAway FlagNone 0 (of_nat payloadSize))
            @ Write32BE lastStreamId @ Write32BE (ErrorCode_to_u32 errorCode) @ debugData,
          kFrameHeaderSize + payloadSize))"

definition WriteWindowUpdateFrame :: "bytes \<Rightarrow> u32 \<Rightarrow> u32 \<Rightarrow> bytes \<times> nat" where
  "WriteWindowUpdateFrame buffer streamId windowSizeIncrement =
     (let (buf, ret) = WriteFrame buffer FT_WindowUpdate FlagNone streamId 4
      in (buf @ Write32BE (windowSizeIncrement AND 0x7FFFFFFF), ret))"

definition WriteContinuationFrame :: "bytes \<Rightarrow> u32 \<Rightarrow> bytes \<Rightarrow> bool \<Rightarrow> bytes \<times> nat" where
  "WriteContinuationFrame buffer streamId headerBlock endHeaders =
     (let flags = (if endHeaders then ContinuationEndHeaders else FlagNone);
          (buf, ret) = WriteFrame buffer FT_Continuation flags streamId (of_nat (length headerBlock))
      in (buf @ headerBlock, ret))"

section \<open>Splitting a byte stream into frames\<close>

text \<open>
  The head of the loop in \<^verbatim>\<open>Http2Connection::processFrames\<close>: nothing while the nine header bytes or
  the payload are incomplete, else the header, its payload and the bytes they take.
\<close>

definition next_frame :: "bytes \<Rightarrow> ((FrameHeader \<times> bytes) \<times> nat) option" where
  "next_frame data =
     (if length data < kFrameHeaderSize then None
      else let header = ParseFrameHeader data;
               totalFrameSize = kFrameHeaderSize + unat (fhLength header) in
        if length data < totalFrameSize then None
        else Some ((header, subspan data kFrameHeaderSize (unat (fhLength header))), totalFrameSize))"

definition enc_frame :: "FrameHeader \<times> bytes \<Rightarrow> bytes" where
  "enc_frame f = WriteFrameHeader (fst f) @ snd f"

definition frame_ok :: "FrameHeader \<times> bytes \<Rightarrow> bool" where
  "frame_ok f \<longleftrightarrow> FrameType_wf (fhType (fst f)) \<and> uint (fhStreamId (fst f)) < 2147483648
     \<and> unat (fhLength (fst f)) = length (snd f) \<and> length (snd f) < 16777216"

lemma length_WriteFrameHeader [simp]: "length (WriteFrameHeader h) = 9"
  by (simp add: WriteFrameHeader_def)

lemma ParseFrameHeader_WriteFrameHeader [codec_simps]:
  assumes "FrameType_wf (fhType h)" "uint (fhStreamId h) < 2147483648" "uint (fhLength h) < 16777216"
  shows "ParseFrameHeader (WriteFrameHeader h @ rest) = h"
proof -
  obtain b0 b1 b2 where w24: "Write24BE (fhLength h) = [b0, b1, b2]"
    by (simp add: Write24BE_def)
  have "Read24BE ([b0, b1, b2] @ r) = fhLength h" for r
    using Read24BE_Write24BE [OF assms(3), of r] by (simp add: w24)
  moreover have "Read32BE (Write32BE (fhStreamId h AND 0x7FFFFFFF) @ rest) = fhStreamId h"
    by (simp add: be_simps and_31_bits [OF assms(2)])
  ultimately show ?thesis
    using assms by (simp add: ParseFrameHeader_def WriteFrameHeader_def CreateFrameHeader_def
        and_31_bits w24)
qed

lemma next_frame_enc_frame [codec_simps]:
  assumes "frame_ok f" shows "next_frame (enc_frame f @ rest) = Some (f, length (enc_frame f))"
proof -
  obtain h p where f: "f = (h, p)" by (cases f)
  have l: "unat (fhLength h) = length p" "length p < 16777216" using assms by (simp_all add: f frame_ok_def)
  then have "uint (fhLength h) < 16777216" by (simp add: uint_nat)
  then have "ParseFrameHeader (WriteFrameHeader h @ p @ rest) = h"
    using assms by (intro ParseFrameHeader_WriteFrameHeader) (simp_all add: f frame_ok_def)
  then show ?thesis
    using l subspan_append_mid [of "WriteFrameHeader h" p rest]
    by (simp add: next_frame_def enc_frame_def f kFrameHeaderSize_def)
qed

interpretation h2frame: codec enc_frame next_frame frame_ok
proof
  show "frame_ok f \<Longrightarrow> next_frame (enc_frame f @ rest) = Some (f, length (enc_frame f))" for f rest
    by (rule next_frame_enc_frame)
  show "frame_ok f \<Longrightarrow> enc_frame f \<noteq> []" for f
    by (auto simp: enc_frame_def WriteFrameHeader_def)
qed

lemma next_frame_bounds:
  assumes "next_frame data = Some ((h, p), n)"
  shows "n \<le> length data" "n = 9 + length p" "length p = unat (fhLength h)" "length p < 16777216"
    "uint (fhStreamId h) < 2147483648" "p = subspan data 9 (length p)"
proof -
  have h: "h = ParseFrameHeader data" and n: "n = 9 + unat (fhLength h)" and le: "n \<le> length data"
    and p: "p = subspan data 9 (unat (fhLength h))"
    using assms by (auto simp: next_frame_def Let_def kFrameHeaderSize_def split: if_splits)
  show "n \<le> length data" by (rule le)
  show lp: "length p = unat (fhLength h)" using le n p by simp
  show "n = 9 + length p" using n lp by simp
  have "uint (fhLength h) < 16777216"
    by (simp add: h ParseFrameHeader_def CreateFrameHeader_def uint_Read24BE)
  then have "int (unat (fhLength h)) < 16777216" by simp
  then show "length p < 16777216" unfolding lp by linarith
  show "uint (fhStreamId h) < 2147483648"
    by (simp add: h ParseFrameHeader_def CreateFrameHeader_def uint_and_31_bits)
  show "p = subspan data 9 (length p)" using p lp by simp
qed

lemma next_frame_append:
  assumes "next_frame data = Some x" shows "next_frame (data @ rest) = Some x"
proof -
  obtain h p n where x: "x = ((h, p), n)" by (cases x) auto
  note b = next_frame_bounds [OF assms [unfolded x]]
  have "data \<noteq> []" using b(1,2) by auto
  then have "ParseFrameHeader (data @ rest) = ParseFrameHeader data"
    using b(1,2) by (simp add: ParseFrameHeader_def Read24BE_def Read32BE_def nth_append)
  then show ?thesis
    using assms b(1,2) by (auto simp: x next_frame_def Let_def kFrameHeaderSize_def subspan_append_left
        split: if_splits)
qed

section \<open>What the writers append\<close>

lemma unat_of_nat_small: "n < 16777216 \<Longrightarrow> unat (of_nat n :: u32) = n"
  by (simp add: unat_of_nat take_bit_nat_eq_self)

lemma DepWithExcl_bits [codec_simps]:
  assumes "uint dep < 2147483648"
  shows "DepWithExcl dep ex AND 0x7FFFFFFF = dep" "(DepWithExcl dep ex AND 0x80000000 \<noteq> 0) = ex"
proof -
  have m: "(0x7FFFFFFF :: u32) = mask 31" by (simp add: mask_eq_exp_minus_1)
  have "(0x80000000 :: u32) = 2 ^ 31" by simp
  then have p: "bit (0x80000000 :: u32) n \<longleftrightarrow> n = 31" for n
    by (simp only: bit_exp_iff) auto
  have d: "bit dep n \<Longrightarrow> n < 31" for n using assms by (intro bit_above_of_lt [where k = 31]) auto
  show "DepWithExcl dep ex AND 0x7FFFFFFF = dep"
  proof (rule bit_word_eqI)
    fix n
    show "bit (DepWithExcl dep ex AND 0x7FFFFFFF) n = bit dep n"
      unfolding DepWithExcl_def m using d [of n] p [of n] by (auto simp: bit_and_iff bit_or_iff bit_mask_iff)
  qed
  have "bit (DepWithExcl dep ex AND 0x80000000) n \<longleftrightarrow> ex \<and> n = 31" for n
    unfolding DepWithExcl_def using d [of n] p [of n] by (auto simp: bit_and_iff bit_or_iff)
  then show "(DepWithExcl dep ex AND 0x80000000 \<noteq> 0) = ex"
    by (metis bit_0_eq bot_apply bot_bool_def bit_word_eqI)
qed

text \<open>
  Every frame one side can write, as one type: the wire image is the writer's output on an empty
  buffer, and reading goes through the splitter and the parser that
  \<^verbatim>\<open>Http2Connection::processFrame\<close> selects by frame type.
\<close>

datatype WFrame =
    W_Data u32 bytes bool
  | W_HeadersWithPriority u32 bytes u32 u8 bool bool bool
  | W_Priority u32 u32 u8 bool
  | W_RstStream u32 ErrorCode
  | W_Settings "SettingsEntry list"
  | W_SettingsAck
  | W_Ping PingFrame
  | W_GoAway u32 ErrorCode bytes
  | W_WindowUpdate u32 u32
  | W_Continuation u32 bytes bool

fun append_wframe :: "bytes \<Rightarrow> WFrame \<Rightarrow> bytes \<times> nat" where
  "append_wframe buf (W_Data sid d es) = WriteDataFrame buf sid d es"
| "append_wframe buf (W_HeadersWithPriority sid hb dep w ex es eh) =
     WriteHeadersFrameWithPriority buf sid hb dep w ex es eh"
| "append_wframe buf (W_Priority sid dep w ex) = WritePriorityFrame buf sid dep w ex"
| "append_wframe buf (W_RstStream sid ec) = WriteRstStreamFrame buf sid ec"
| "append_wframe buf (W_Settings es) = WriteSettingsFrame buf es"
| "append_wframe buf W_SettingsAck = WriteSettingsAckFrame buf"
| "append_wframe buf (W_Ping pf) = WritePingFrame buf pf"
| "append_wframe buf (W_GoAway sid ec d) = WriteGoAwayFrame buf sid ec d"
| "append_wframe buf (W_WindowUpdate sid inc) = WriteWindowUpdateFrame buf sid inc"
| "append_wframe buf (W_Continuation sid hb eh) = WriteContinuationFrame buf sid hb eh"

text \<open>What the protocol allows in each frame.\<close>

fun wframe_ok :: "WFrame \<Rightarrow> bool" where
  "wframe_ok (W_Data sid d es) = (uint sid < 2147483648 \<and> length d < 16777216)"
| "wframe_ok (W_HeadersWithPriority sid hb dep w ex es eh) =
     (uint sid < 2147483648 \<and> length hb + 5 < 16777216 \<and> uint dep < 2147483648)"
| "wframe_ok (W_Priority sid dep w ex) = (uint sid < 2147483648 \<and> uint dep < 2147483648)"
| "wframe_ok (W_RstStream sid ec) = (uint sid < 2147483648 \<and> ErrorCode_wf ec)"
| "wframe_ok (W_Settings es) = (length es \<le> kMaxEntries \<and> list_all (\<lambda>e. SettingsParameter_wf (seId e)) es)"
| "wframe_ok W_SettingsAck = True"
| "wframe_ok (W_Ping pf) = (length (pgOpaqueData pf) = 8)"
| "wframe_ok (W_GoAway sid ec d) = (uint sid < 2147483648 \<and> ErrorCode_wf ec \<and> length d + 8 < 16777216)"
| "wframe_ok (W_WindowUpdate sid inc) = (uint sid < 2147483648 \<and> uint inc < 2147483648)"
| "wframe_ok (W_Continuation sid hb eh) = (uint sid < 2147483648 \<and> length hb < 16777216)"

text \<open>The header and the payload a frame goes out with.\<close>

fun wframe_raw :: "WFrame \<Rightarrow> FrameHeader \<times> bytes" where
  "wframe_raw (W_Data sid d es) =
     (CreateFrameHeader FT_Data (if es then DataEndStream else FlagNone) sid (of_nat (length d)), d)"
| "wframe_raw (W_HeadersWithPriority sid hb dep w ex es eh) =
     (CreateFrameHeader FT_Headers (ComputeHeaderFrameFlags es eh HeadersPriority) sid
        (of_nat (5 + length hb)), Write32BE (DepWithExcl dep ex) @ [w] @ hb)"
| "wframe_raw (W_Priority sid dep w ex) =
     (CreateFrameHeader FT_Priority FlagNone sid 5, Write32BE (DepWithExcl dep ex) @ [w])"
| "wframe_raw (W_RstStream sid ec) =
     (CreateFrameHeader FT_RstStream FlagNone sid 4, Write32BE (ErrorCode_to_u32 ec))"
| "wframe_raw (W_Settings es) =
     (CreateFrameHeader FT_Settings FlagNone 0 (of_nat (length es * 6)), concat (map WriteSettingsEntry es))"
| "wframe_raw W_SettingsAck = (CreateFrameHeader FT_Settings SettingsAck 0 0, [])"
| "wframe_raw (W_Ping pf) =
     (CreateFrameHeader FT_Ping (if pgIsAck pf then PingAck else FlagNone) 0 8, take 8 (pgOpaqueData pf))"
| "wframe_raw (W_GoAway sid ec d) =
     (CreateFrameHeader FT_GoAway FlagNone 0 (of_nat (8 + length d)),
      Write32BE sid @ Write32BE (ErrorCode_to_u32 ec) @ d)"
| "wframe_raw (W_WindowUpdate sid inc) =
     (CreateFrameHeader FT_WindowUpdate FlagNone sid 4, Write32BE (inc AND 0x7FFFFFFF))"
| "wframe_raw (W_Continuation sid hb eh) =
     (CreateFrameHeader FT_Continuation (if eh then ContinuationEndHeaders else FlagNone) sid
        (of_nat (length hb)), hb)"

lemmas writer_defs = WriteDataFrame_def WriteHeadersFrameWithPriority_def WritePriorityFrame_def
  WriteRstStreamFrame_def WriteSettingsFrame_def WriteSettingsAckFrame_def WritePingFrame_def
  WriteGoAwayFrame_def WriteWindowUpdateFrame_def WriteContinuationFrame_def WriteFrame_def

text \<open>A writer appends exactly its frame and returns its size.\<close>

lemma length_WriteSettingsEntry [simp]: "length (WriteSettingsEntry e) = 6"
  by (simp add: WriteSettingsEntry_def)

lemma length_concat_entries [simp]: "length (concat (map WriteSettingsEntry es)) = 6 * length es"
  by (induction es) auto

lemma append_wframe_eq:
  "wframe_ok f \<Longrightarrow> append_wframe buf f = (buf @ enc_frame (wframe_raw f), length (enc_frame (wframe_raw f)))"
  by (cases f) (auto simp: writer_defs enc_frame_def kFrameHeaderSize_def unat_of_nat_small Let_def)

lemma unat_small_sums:
  "n < 16777211 \<Longrightarrow> unat (5 + of_nat n :: u32) = 5 + n"
  "n < 16777208 \<Longrightarrow> unat (8 + of_nat n :: u32) = 8 + n"
  "n \<le> 16 \<Longrightarrow> unat (of_nat n * 6 :: u32) = n * 6"
  using unat_of_nat_small [of "5 + n"] unat_of_nat_small [of "8 + n"] unat_of_nat_small [of "n * 6"]
  by simp_all

lemma wframe_raw_ok: "wframe_ok f \<Longrightarrow> frame_ok (wframe_raw f)"
  by (cases f) (auto simp: frame_ok_def CreateFrameHeader_def unat_of_nat_small unat_small_sums
      kMaxEntries_def)


definition parse_wframe :: "FrameHeader \<times> bytes \<Rightarrow> WFrame option" where
  "parse_wframe f =
     (let h = fst f; p = snd f; sid = fhStreamId h in
      case fhType h of
        FT_Data \<Rightarrow> (case ParseDataFrame h p of Inl _ \<Rightarrow> None
                    | Inr d \<Rightarrow> Some (W_Data sid (dfData d) (dfEndStream d)))
      | FT_Headers \<Rightarrow> (case ParseHeadersFrame h p of Inl _ \<Rightarrow> None
                    | Inr d \<Rightarrow> Some (W_HeadersWithPriority sid (hfHeaderBlockFragment d)
                        (hfStreamDependency d) (ucast (hfWeight d - 1)) (hfExclusive d)
                        (hfEndStream d) (hfEndHeaders d)))
      | FT_Priority \<Rightarrow> (case ParsePriorityFrame h p of Inl _ \<Rightarrow> None
                    | Inr d \<Rightarrow> Some (W_Priority sid (pfStreamDependency d) (ucast (pfWeight d - 1))
                        (pfExclusive d)))
      | FT_RstStream \<Rightarrow> (case ParseRstStreamFrame h p of Inl _ \<Rightarrow> None
                    | Inr d \<Rightarrow> Some (W_RstStream sid (rfErrorCode d)))
      | FT_Settings \<Rightarrow> (case ParseSettingsFrame h p of Inl _ \<Rightarrow> None
                    | Inr d \<Rightarrow> Some (if sfIsAck d then W_SettingsAck else W_Settings (sfEntries d)))
      | FT_Ping \<Rightarrow> (case ParsePingFrame h p of Inl _ \<Rightarrow> None | Inr d \<Rightarrow> Some (W_Ping d))
      | FT_GoAway \<Rightarrow> (case ParseGoAwayFrame h p of Inl _ \<Rightarrow> None
                    | Inr d \<Rightarrow> Some (W_GoAway (gfLastStreamId d) (gfErrorCode d) (gfDebugData d)))
      | FT_WindowUpdate \<Rightarrow> (case ParseWindowUpdateFrame p of Inl _ \<Rightarrow> None
                    | Inr d \<Rightarrow> Some (W_WindowUpdate sid (wfWindowSizeIncrement d)))
      | FT_Continuation \<Rightarrow> (let d = ParseContinuationFrame h p in
                    Some (W_Continuation sid (cfHeaderBlockFragment d) (cfEndHeaders d)))
      | _ \<Rightarrow> None)"

lemma ParseSettingsEntry_Write [codec_simps]:
  assumes "SettingsParameter_wf (seId e)"
  shows "ParseSettingsEntry (WriteSettingsEntry e @ rest) = e"
proof -
  have "Read16BE (Write16BE (SettingsParameter_to_u16 (seId e)) @ Write32BE (seValue e) @ rest)
          = SettingsParameter_to_u16 (seId e)"
    by (rule Read16BE_Write16BE)
  then show ?thesis
    using assms by (simp add: ParseSettingsEntry_def WriteSettingsEntry_def be_simps)
qed

lemma drop_entries:
  "i < length es \<Longrightarrow> drop (i * 6) (concat (map WriteSettingsEntry es)) =
     WriteSettingsEntry (es ! i) @ concat (map WriteSettingsEntry (drop (Suc i) es))"
proof (induction es arbitrary: i)
  case Nil
  then show ?case by simp
next
  case (Cons e es)
  then show ?case by (cases i) auto
qed

lemma parse_entries:
  assumes "list_all (\<lambda>e. SettingsParameter_wf (seId e)) es"
  shows "map (\<lambda>idx. ParseSettingsEntry (drop (idx * 6) (concat (map WriteSettingsEntry es)))) [0..<length es] = es"
  using assms
  by (auto intro!: nth_equalityI simp: drop_entries list_all_length ParseSettingsEntry_Write)

lemma weight_roundtrip [codec_simps]: "(ucast (ucast (w :: u8) :: u16) :: u8) = w"
  by (auto intro!: bit_word_eqI simp: bit_unsigned_iff dest: bit_imp_le_length)

lemma Read32BE_Write32BE_alone [codec_simps]: "Read32BE (Write32BE v) = v"
  using Read32BE_Write32BE [of v "[]"] by simp

lemma priority_headers_flags:
  "hasFlag (CreateFrameHeader t (ComputeHeaderFrameFlags es eh HeadersPriority) s l) HeadersEndStream = es"
  "hasFlag (CreateFrameHeader t (ComputeHeaderFrameFlags es eh HeadersPriority) s l) HeadersEndHeaders = eh"
  "hasFlag (CreateFrameHeader t (ComputeHeaderFrameFlags es eh HeadersPriority) s l) HeadersPriority"
  "\<not> hasFlag (CreateFrameHeader t (ComputeHeaderFrameFlags es eh HeadersPriority) s l) HeadersPadded"
  by (simp_all add: hasFlag_def CreateFrameHeader_def ComputeHeaderFrameFlags_def)

lemma hasFlag_Create [simp]: "hasFlag (CreateFrameHeader t fl s l) flag \<longleftrightarrow> fl AND flag \<noteq> 0"
  by (simp add: hasFlag_def CreateFrameHeader_def)

lemma CreateFrameHeader_sel [simp]:
  "fhType (CreateFrameHeader t fl s l) = t" "fhFlags (CreateFrameHeader t fl s l) = fl"
  "fhStreamId (CreateFrameHeader t fl s l) = s" "fhLength (CreateFrameHeader t fl s l) = l"
  by (simp_all add: CreateFrameHeader_def)

lemma ParseHeadersFrame_priority:
  assumes "uint dep < 2147483648"
  shows "ParseHeadersFrame (CreateFrameHeader FT_Headers (ComputeHeaderFrameFlags es eh HeadersPriority) sid l)
           (Write32BE (DepWithExcl dep ex) @ [w] @ hb)
         = Inr \<lparr>hfHeaderBlockFragment = hb, hfStreamDependency = dep, hfWeight = ucast w + 1,
               hfPadLength = 0, hfEndStream = es, hfEndHeaders = eh, hfExclusive = ex,
               hfHasPriority = True\<rparr>"
  using assms DepWithExcl_bits [OF assms, of ex]
  by (simp add: ParseHeadersFrame_def priority_headers_flags Let_def be_simps codec_simps
      nth_append subspan_def del: hasFlag_Create)

lemma parse_wframe_raw [codec_simps]: "wframe_ok f \<Longrightarrow> parse_wframe (wframe_raw f) = Some f"
proof (cases f)
  case (W_HeadersWithPriority sid hb dep w ex es eh)
  moreover assume "wframe_ok f"
  ultimately show ?thesis
    using ParseHeadersFrame_priority [of dep es eh sid "of_nat (5 + length hb)" ex w hb]
    by (simp add: parse_wframe_def codec_simps)
next
  case (W_Settings es)
  moreover assume "wframe_ok f"
  ultimately show ?thesis
    using parse_entries [of es] by (simp add: parse_wframe_def ParseSettingsFrame_def Let_def min_absorb1)
qed (auto simp: parse_wframe_def codec_simps be_simps Let_def ParseDataFrame_def ParsePriorityFrame_def
    ParseRstStreamFrame_def ParseSettingsFrame_def ParsePingFrame_def ParseGoAwayFrame_def
    ParseWindowUpdateFrame_def ParseContinuationFrame_def and_31_bits nth_append)


definition read_wframe :: "bytes \<Rightarrow> (WFrame \<times> nat) option" where
  "read_wframe bs = (case next_frame bs of None \<Rightarrow> None
     | Some (f, n) \<Rightarrow> map_option (\<lambda>w. (w, n)) (parse_wframe f))"

definition write_wframes :: "bytes \<Rightarrow> WFrame list \<Rightarrow> bytes" where
  "write_wframes buf fs = foldl (\<lambda>b f. fst (append_wframe b f)) buf fs"

interpretation wframe: codec "\<lambda>f. enc_frame (wframe_raw f)" read_wframe wframe_ok
proof
  show "read_wframe (enc_frame (wframe_raw f) @ rest) = Some (f, length (enc_frame (wframe_raw f)))"
    if "wframe_ok f" for f rest
    using next_frame_enc_frame [OF wframe_raw_ok [OF that], of rest] parse_wframe_raw [OF that]
    by (simp add: read_wframe_def)
  show "enc_frame (wframe_raw f) \<noteq> []" if "wframe_ok f" for f
    using h2frame.enc_nonempty wframe_raw_ok that by blast
qed

lemma write_wframes_eq:
  "list_all wframe_ok fs \<Longrightarrow> write_wframes buf fs = buf @ concat (map (\<lambda>f. enc_frame (wframe_raw f)) fs)"
  by (induction fs arbitrary: buf) (auto simp: write_wframes_def append_wframe_eq)

text \<open>
  C8. Frames written one after another into one output buffer by the frame writers are read back,
  in order and with nothing left over, by splitting the bytes at the frame headers and applying
  the parser of each frame type.
\<close>

theorem frame_stream_roundtrip:
  assumes "list_all wframe_ok fs"
  shows "decode_all read_wframe (write_wframes [] fs) = Some fs"
  using wframe.decode_all_concat [of fs] assms by (simp add: write_wframes_eq list_all_iff)

theorem frame_stream_roundtrip_witness:
  "decode_all read_wframe (write_wframes [] [W_Data 1 [10, 20, 30] True, W_WindowUpdate 0 1000,
      W_Settings [\<lparr>seId = SP_MaxFrameSize, seValue = 16384\<rparr>], W_RstStream 3 EC_Cancel])
   = Some [W_Data 1 [10, 20, 30] True, W_WindowUpdate 0 1000,
      W_Settings [\<lparr>seId = SP_MaxFrameSize, seValue = 16384\<rparr>], W_RstStream 3 EC_Cancel]"
  by (rule frame_stream_roundtrip) (simp add: kMaxEntries_def)

section \<open>What the parsers accept\<close>

lemma subspan_split: "off + n \<le> length xs \<Longrightarrow> xs = take off xs @ subspan xs off n @ drop (off + n) xs"
  unfolding subspan_def by (metis append_take_drop_id drop_drop add.commute)

text \<open>
  A DATA payload is accepted exactly when its padding fits, and then it is the pad-length byte
  (when the PADDED flag is set), the data handed to the application, and as many padding bytes as
  the pad length says: the parser neither drops nor invents a byte.
\<close>

lemma parse_data_partition:
  "(case ParseDataFrame h p of
      Inl e \<Rightarrow> hasFlag h DataPadded \<and> (p = [] \<and> e = FrameSizeError
                 \<or> p \<noteq> [] \<and> unat (p ! 0) \<ge> length p \<and> e = InvalidPadding)
    | Inr d \<Rightarrow> (\<exists>padding. length padding = unat (dfPadLength d)
          \<and> p = (if hasFlag h DataPadded then [dfPadLength d] else []) @ dfData d @ padding)
        \<and> dfEndStream d = hasFlag h DataEndStream)"
proof (cases "hasFlag h DataPadded \<and> p \<noteq> [] \<and> unat (p ! 0) < length p")
  case True
  define k where "k = length p - 1 - unat (p ! 0)"
  have k: "1 + k \<le> length p" "length p - (1 + k) = unat (p ! 0)" using True by (auto simp: k_def)
  then have "p = take 1 p @ subspan p 1 k @ drop (1 + k) p" by (intro subspan_split) simp
  moreover have "take 1 p = [p ! 0]" using True by (cases p) auto
  ultimately have "p = [p ! 0] @ subspan p 1 k @ drop (1 + k) p" by simp
  then show ?thesis
    using True k(2) unfolding k_def
    by (auto simp: ParseDataFrame_def Let_def intro!: exI [of _ "drop (1 + (length p - 1 - unat (p ! 0))) p"])
next
  case False
  then show ?thesis by (auto simp: ParseDataFrame_def Let_def)
qed

text \<open>
  A HEADERS payload that is accepted splits into the pad-length byte (PADDED), the five
  priority bytes (PRIORITY), the header block fragment and the padding, in this order; the weight
  is the wire value plus one, between 1 and 256.
\<close>

lemma parse_headers_partition:
  assumes "ParseHeadersFrame h p = Inr d"
  shows "(\<exists>prio padding. length padding = unat (hfPadLength d)
            \<and> length prio = (if hasFlag h HeadersPriority then 5 else 0)
            \<and> p = (if hasFlag h HeadersPadded then [hfPadLength d] else []) @ prio
                   @ hfHeaderBlockFragment d @ padding)
         \<and> 1 \<le> hfWeight d \<and> hfWeight d \<le> 256
         \<and> (hfEndHeaders d \<longleftrightarrow> hasFlag h HeadersEndHeaders) \<and> (hfEndStream d \<longleftrightarrow> hasFlag h HeadersEndStream)"
proof -
  define o1 :: nat where "o1 = (if hasFlag h HeadersPadded then 1 else 0)"
  define o2 where "o2 = (if hasFlag h HeadersPriority then o1 + 5 else o1)"
  define n where "n = length p - o2 - unat (hfPadLength d)"
  from assms have
    le: "o2 + unat (hfPadLength d) \<le> length p" and
    pad: "hfPadLength d = (if hasFlag h HeadersPadded then p ! 0 else 0)" and
    ne: "hasFlag h HeadersPadded \<Longrightarrow> p \<noteq> []" and
    frag: "hfHeaderBlockFragment d = subspan p o2 n" and
    w: "hfWeight d = (if hasFlag h HeadersPriority then ucast (p ! (o1 + 4)) + 1 else 16)" and
    fl: "hfEndHeaders d = hasFlag h HeadersEndHeaders" "hfEndStream d = hasFlag h HeadersEndStream"
    by (auto simp: ParseHeadersFrame_def Let_def o1_def o2_def n_def Suc_le_eq word_gt_0 split: if_splits)
  have "p = take o2 p @ subspan p o2 n @ drop (o2 + n) p" using le by (intro subspan_split) (simp add: n_def)
  moreover have "take o2 p = (if hasFlag h HeadersPadded then [hfPadLength d] else []) @ drop o1 (take o2 p)"
    using ne pad by (cases p) (auto simp: o1_def o2_def)
  ultimately have "p = (if hasFlag h HeadersPadded then [hfPadLength d] else []) @ drop o1 (take o2 p)
      @ hfHeaderBlockFragment d @ drop (o2 + n) p"
    unfolding frag by (metis append_assoc)
  moreover have "length (drop o1 (take o2 p)) = (if hasFlag h HeadersPriority then 5 else 0)"
    using le by (auto simp: o2_def o1_def)
  moreover have "length (drop (o2 + n) p) = unat (hfPadLength d)" using le by (auto simp: n_def)
  moreover have "1 \<le> hfWeight d \<and> hfWeight d \<le> 256"
  proof -
    have "unat (ucast (b :: u8) + 1 :: u16) = unat b + 1" for b
      using unat_u8_lt [of b] by (simp add: unat_word_ariths)
    then have "1 \<le> unat (ucast (b :: u8) + 1 :: u16) \<and> unat (ucast b + 1 :: u16) \<le> 256" for b
      using unat_u8_lt [of b] by simp
    then show ?thesis unfolding w by (auto simp: word_le_nat_alt)
  qed
  ultimately show ?thesis using fl by blast
qed

lemma parse_headers_partition_witness:
  "\<exists>d. ParseHeadersFrame (CreateFrameHeader FT_Headers 0x2D 5 9) [1, 0, 0, 0, 3, 7, 0x82, 0x84, 0] = Inr d
     \<and> hfHeaderBlockFragment d = [0x82, 0x84] \<and> hfWeight d = 8 \<and> hfWeight d \<le> 256"
proof -
  obtain d where d: "ParseHeadersFrame (CreateFrameHeader FT_Headers 0x2D 5 9)
      [1, 0, 0, 0, 3, 7, 0x82, 0x84, 0] = Inr d"
    and v: "hfHeaderBlockFragment d = [0x82, 0x84]" "hfWeight d = 8"
    by (simp add: ParseHeadersFrame_def subspan_def Let_def Read32BE_def)
  show ?thesis using d v parse_headers_partition [OF d] by blast
qed

text \<open>
  A SETTINGS frame yields at most sixteen entries, whatever its length, and its payload is
  refused unless it is empty (ACK) or a whole number of six-byte entries.
\<close>

lemma parse_settings_bounds:
  "(case ParseSettingsFrame h p of
      Inl e \<Rightarrow> e = FrameSizeError \<and> (if hasFlag h SettingsAck then p \<noteq> [] else length p mod 6 \<noteq> 0)
    | Inr f \<Rightarrow> sfIsAck f = hasFlag h SettingsAck
        \<and> length (sfEntries f) = (if sfIsAck f then 0 else min (length p div 6) 16))"
  by (simp add: ParseSettingsFrame_def Let_def kMaxEntries_def)

end
