(* ===== verification/Http2_Stream.thy ===== *)
theory Http2_Stream
  imports Http2_Frame
begin

text \<open>
  \<^verbatim>\<open>Http2Stream\<close> of \<^verbatim>\<open>http2-stream.hpp\<close> and \<^verbatim>\<open>http2-stream.cpp\<close>: the life cycle of one stream and its two
  flow-control windows. A member function that changes the object is a function to the returned
  code and the new object. The life cycle is shown to refine a pair of independent half-channels,
  and the windows to stay within the 31 bits the protocol gives them.
\<close>

record Http2Stream =
  stStreamId :: u32
  stErrorCode :: ErrorCode
  stSendWindow :: int
  stRecvWindow :: int
  stInitialSendWindow :: u32
  stStreamDependency :: u32
  stWeight :: u16
  stState :: StreamState
  stExclusive :: bool
  stClosedNotified :: bool

definition newHttp2Stream :: "u32 \<Rightarrow> u32 \<Rightarrow> Http2Stream" where
  "newHttp2Stream streamId initialWindowSize =
     \<lparr>stStreamId = streamId, stErrorCode = EC_NoError,
      stSendWindow = to_i32 (uint initialWindowSize), stRecvWindow = to_i32 (uint initialWindowSize),
      stInitialSendWindow = initialWindowSize, stStreamDependency = 0, stWeight = 16,
      stState = SS_Idle, stExclusive = False, stClosedNotified = False\<rparr>"

definition canSend :: "Http2Stream \<Rightarrow> bool" where
  "canSend s \<longleftrightarrow> stState s = SS_Open \<or> stState s = SS_HalfClosedRemote"

definition canReceive :: "Http2Stream \<Rightarrow> bool" where
  "canReceive s \<longleftrightarrow> stState s = SS_Open \<or> stState s = SS_HalfClosedLocal"

definition isClosed :: "Http2Stream \<Rightarrow> bool" where
  "isClosed s \<longleftrightarrow> stState s = SS_Closed"

definition markClosedNotified :: "Http2Stream \<Rightarrow> bool \<times> Http2Stream" where
  "markClosedNotified s =
     (if stClosedNotified s then (False, s) else (True, s\<lparr>stClosedNotified := True\<rparr>))"

section \<open>State transitions\<close>

definition onSendHeaders :: "Http2Stream \<Rightarrow> bool \<Rightarrow> ErrorCode \<times> Http2Stream" where
  "onSendHeaders s endStream =
     (case stState s of
        SS_Idle \<Rightarrow> (EC_NoError, s\<lparr>stState := (if endStream then SS_HalfClosedLocal else SS_Open)\<rparr>)
      | SS_ReservedLocal \<Rightarrow>
          (EC_NoError, s\<lparr>stState := (if endStream then SS_Closed else SS_HalfClosedRemote)\<rparr>)
      | SS_Open \<Rightarrow> (EC_NoError, if endStream then s\<lparr>stState := SS_HalfClosedLocal\<rparr> else s)
      | SS_HalfClosedRemote \<Rightarrow> (EC_NoError, if endStream then s\<lparr>stState := SS_Closed\<rparr> else s)
      | _ \<Rightarrow> (EC_StreamClosed, s))"

definition onRecvHeaders :: "Http2Stream \<Rightarrow> bool \<Rightarrow> ErrorCode \<times> Http2Stream" where
  "onRecvHeaders s endStream =
     (case stState s of
        SS_Idle \<Rightarrow> (EC_NoError, s\<lparr>stState := (if endStream then SS_HalfClosedRemote else SS_Open)\<rparr>)
      | SS_ReservedRemote \<Rightarrow>
          (EC_NoError, s\<lparr>stState := (if endStream then SS_Closed else SS_HalfClosedLocal)\<rparr>)
      | SS_Open \<Rightarrow> (EC_NoError, if endStream then s\<lparr>stState := SS_HalfClosedRemote\<rparr> else s)
      | SS_HalfClosedLocal \<Rightarrow> (EC_NoError, if endStream then s\<lparr>stState := SS_Closed\<rparr> else s)
      | _ \<Rightarrow> (EC_StreamClosed, s))"

definition onSendData :: "Http2Stream \<Rightarrow> bool \<Rightarrow> ErrorCode \<times> Http2Stream" where
  "onSendData s endStream =
     (case stState s of
        SS_Open \<Rightarrow> (EC_NoError, if endStream then s\<lparr>stState := SS_HalfClosedLocal\<rparr> else s)
      | SS_HalfClosedRemote \<Rightarrow> (EC_NoError, if endStream then s\<lparr>stState := SS_Closed\<rparr> else s)
      | _ \<Rightarrow> (EC_StreamClosed, s))"

definition onRecvData :: "Http2Stream \<Rightarrow> bool \<Rightarrow> ErrorCode \<times> Http2Stream" where
  "onRecvData s endStream =
     (case stState s of
        SS_Open \<Rightarrow> (EC_NoError, if endStream then s\<lparr>stState := SS_HalfClosedRemote\<rparr> else s)
      | SS_HalfClosedLocal \<Rightarrow> (EC_NoError, if endStream then s\<lparr>stState := SS_Closed\<rparr> else s)
      | _ \<Rightarrow> (EC_StreamClosed, s))"

definition onSendRstStream :: "Http2Stream \<Rightarrow> Http2Stream" where
  "onSendRstStream s = s\<lparr>stState := SS_Closed\<rparr>"

definition onRecvRstStream :: "Http2Stream \<Rightarrow> Http2Stream" where
  "onRecvRstStream s = s\<lparr>stState := SS_Closed\<rparr>"

definition onSendPushPromise :: "Http2Stream \<Rightarrow> ErrorCode" where
  "onSendPushPromise s =
     (if stState s = SS_Open \<or> stState s = SS_HalfClosedRemote then EC_NoError else EC_ProtocolError)"

definition onRecvPushPromise :: "Http2Stream \<Rightarrow> ErrorCode" where
  "onRecvPushPromise s =
     (if stState s = SS_Open \<or> stState s = SS_HalfClosedLocal then EC_NoError else EC_ProtocolError)"

section \<open>Flow control\<close>

text \<open>\<^verbatim>\<open>std::cmp_less\<close> compares the mathematical values of a signed and an unsigned operand.\<close>

definition consumeSendWindow :: "Http2Stream \<Rightarrow> u32 \<Rightarrow> bool \<times> Http2Stream" where
  "consumeSendWindow s bytes =
     (if stSendWindow s < uint bytes then (False, s)
      else (True, s\<lparr>stSendWindow := to_i32 (stSendWindow s - to_i32 (uint bytes))\<rparr>))"

definition consumeRecvWindow :: "Http2Stream \<Rightarrow> u32 \<Rightarrow> bool \<times> Http2Stream" where
  "consumeRecvWindow s bytes =
     (if stRecvWindow s < uint bytes then (False, s)
      else (True, s\<lparr>stRecvWindow := to_i32 (stRecvWindow s - to_i32 (uint bytes))\<rparr>))"

definition increaseSendWindow :: "Http2Stream \<Rightarrow> u32 \<Rightarrow> ErrorCode \<times> Http2Stream" where
  "increaseSendWindow s increment =
     (if increment = 0 then (EC_ProtocolError, s)
      else let newWindow = stSendWindow s + uint increment in
        if uint kMaxWindowSize < newWindow then (EC_FlowControlError, s)
        else (EC_NoError, s\<lparr>stSendWindow := to_i32 newWindow\<rparr>))"

definition increaseRecvWindow :: "Http2Stream \<Rightarrow> u32 \<Rightarrow> ErrorCode \<times> Http2Stream" where
  "increaseRecvWindow s increment =
     (let newWindow = stRecvWindow s + uint increment in
      if uint kMaxWindowSize < newWindow then (EC_FlowControlError, s)
      else (EC_NoError, s\<lparr>stRecvWindow := to_i32 newWindow\<rparr>))"

definition updateInitialWindowSize :: "Http2Stream \<Rightarrow> u32 \<Rightarrow> ErrorCode \<times> Http2Stream" where
  "updateInitialWindowSize s newInitialWindowSize =
     (let delta = uint newInitialWindowSize - uint (stInitialSendWindow s);
          newWindow = stSendWindow s + delta in
      if uint kMaxWindowSize < newWindow \<or> newWindow < 0 then (EC_FlowControlError, s)
      else (EC_NoError, s\<lparr>stSendWindow := to_i32 newWindow,
                           stInitialSendWindow := newInitialWindowSize\<rparr>))"

section \<open>Priority and error code\<close>

definition setPriority :: "Http2Stream \<Rightarrow> u32 \<Rightarrow> u16 \<Rightarrow> bool \<Rightarrow> Http2Stream" where
  "setPriority s streamDependency weight exclusive =
     s\<lparr>stStreamDependency := streamDependency, stWeight := weight, stExclusive := exclusive\<rparr>"

definition setErrorCode :: "Http2Stream \<Rightarrow> ErrorCode \<Rightarrow> Http2Stream" where
  "setErrorCode s code = s\<lparr>stErrorCode := code\<rparr>"

section \<open>The windows stay within 31 bits\<close>

definition stream_inv :: "Http2Stream \<Rightarrow> bool" where
  "stream_inv s \<longleftrightarrow> 0 \<le> stSendWindow s \<and> stSendWindow s \<le> i32_max
     \<and> 0 \<le> stRecvWindow s \<and> stRecvWindow s \<le> i32_max
     \<and> stState s \<noteq> SS_ReservedLocal \<and> stState s \<noteq> SS_ReservedRemote"

lemma uint_kMaxWindowSize [simp]: "uint kMaxWindowSize = i32_max"
  by (simp add: kMaxWindowSize_def)

lemma stream_inv_new [inv_intros]:
  "uint w \<le> i32_max \<Longrightarrow> stream_inv (newHttp2Stream sid w)"
  by (simp add: stream_inv_def newHttp2Stream_def to_i32_id order_trans [OF _ uint_u32_ge])

lemma consumeSendWindow_eq:
  "stream_inv s \<Longrightarrow> consumeSendWindow s n =
     (if uint n \<le> stSendWindow s then (True, s\<lparr>stSendWindow := stSendWindow s - uint n\<rparr>) else (False, s))"
  by (auto simp: consumeSendWindow_def stream_inv_def to_i32_diff)

lemma consumeRecvWindow_eq:
  "stream_inv s \<Longrightarrow> consumeRecvWindow s n =
     (if uint n \<le> stRecvWindow s then (True, s\<lparr>stRecvWindow := stRecvWindow s - uint n\<rparr>) else (False, s))"
  by (auto simp: consumeRecvWindow_def stream_inv_def to_i32_diff)

lemma increaseSendWindow_eq:
  "stream_inv s \<Longrightarrow> increaseSendWindow s n =
     (if n = 0 then (EC_ProtocolError, s)
      else if stSendWindow s + uint n \<le> i32_max then (EC_NoError, s\<lparr>stSendWindow := stSendWindow s + uint n\<rparr>)
      else (EC_FlowControlError, s))"
  by (auto simp: increaseSendWindow_def stream_inv_def to_i32_sum Let_def not_less)

lemma increaseRecvWindow_eq:
  "stream_inv s \<Longrightarrow> increaseRecvWindow s n =
     (if stRecvWindow s + uint n \<le> i32_max then (EC_NoError, s\<lparr>stRecvWindow := stRecvWindow s + uint n\<rparr>)
      else (EC_FlowControlError, s))"
  by (auto simp: increaseRecvWindow_def stream_inv_def to_i32_sum Let_def not_less)

lemma updateInitialWindowSize_eq:
  "stream_inv s \<Longrightarrow> updateInitialWindowSize s n =
     (let w = stSendWindow s + (uint n - uint (stInitialSendWindow s)) in
      if 0 \<le> w \<and> w \<le> i32_max then (EC_NoError, s\<lparr>stSendWindow := w, stInitialSendWindow := n\<rparr>)
      else (EC_FlowControlError, s))"
  by (auto simp: updateInitialWindowSize_def stream_inv_def to_i32_id Let_def not_less)

lemmas window_eqs = consumeSendWindow_eq consumeRecvWindow_eq increaseSendWindow_eq
  increaseRecvWindow_eq updateInitialWindowSize_eq

lemmas transition_defs = onSendHeaders_def onRecvHeaders_def onSendData_def onRecvData_def
  onSendRstStream_def onRecvRstStream_def

text \<open>One step of a stream is one call of a member function that changes it.\<close>

inductive stream_step :: "Http2Stream \<Rightarrow> Http2Stream \<Rightarrow> bool" where
  send_headers: "stream_step s (snd (onSendHeaders s es))"
| recv_headers: "stream_step s (snd (onRecvHeaders s es))"
| send_data: "stream_step s (snd (onSendData s es))"
| recv_data: "stream_step s (snd (onRecvData s es))"
| send_rst: "stream_step s (onSendRstStream s)"
| recv_rst: "stream_step s (onRecvRstStream s)"
| consume_send: "stream_step s (snd (consumeSendWindow s n))"
| consume_recv: "stream_step s (snd (consumeRecvWindow s n))"
| increase_send: "stream_step s (snd (increaseSendWindow s n))"
| increase_recv: "stream_step s (snd (increaseRecvWindow s n))"
| resize: "stream_step s (snd (updateInitialWindowSize s n))"
| priority: "stream_step s (setPriority s dep w ex)"
| error_code: "stream_step s (setErrorCode s ec)"
| notified: "stream_step s (snd (markClosedNotified s))"

definition stream_start :: "Http2Stream \<Rightarrow> bool" where
  "stream_start s \<longleftrightarrow> (\<exists>sid w. uint w \<le> i32_max \<and> s = newHttp2Stream sid w)"

lemma stream_inv_step: "stream_step s t \<Longrightarrow> stream_inv s \<Longrightarrow> stream_inv t"
proof (induction rule: stream_step.induct)
  case (consume_send s n)
  have "stSendWindow s - uint n \<le> stSendWindow s" by simp
  then have "stSendWindow s - uint n \<le> i32_max" using consume_send unfolding stream_inv_def by linarith
  then show ?case using consume_send by (simp add: window_eqs) (simp add: stream_inv_def)
next
  case (consume_recv s n)
  have "stRecvWindow s - uint n \<le> stRecvWindow s" by simp
  then have "stRecvWindow s - uint n \<le> i32_max" using consume_recv unfolding stream_inv_def by linarith
  then show ?case using consume_recv by (simp add: window_eqs) (simp add: stream_inv_def)
next
  case (increase_send s n)
  then show ?case by (simp add: window_eqs) (simp add: stream_inv_def)
next
  case (increase_recv s n)
  then show ?case by (simp add: window_eqs) (simp add: stream_inv_def)
next
  case (resize s n)
  then show ?case by (auto simp: window_eqs Let_def) (auto simp: stream_inv_def)
qed (auto simp: stream_inv_def transition_defs setPriority_def setErrorCode_def markClosedNotified_def
    split: StreamState.splits)

interpretation stream_life: invariant_of stream_start stream_step stream_inv
  by unfold_locales (auto simp: stream_start_def intro: inv_intros stream_inv_step)

text \<open>
  C31. In every state a stream can reach from its constructor (with an initial window the protocol
  allows) by any sequence of member calls, both flow-control windows are between 0 and 2^31 - 1,
  so no window arithmetic overflows its 32-bit field, and the two reserved states never occur.
\<close>

theorem stream_windows_bounded:
  assumes "reachable stream_start stream_step s"
  shows "0 \<le> stSendWindow s \<and> stSendWindow s \<le> i32_max \<and> 0 \<le> stRecvWindow s \<and> stRecvWindow s \<le> i32_max
     \<and> stState s \<noteq> SS_ReservedLocal \<and> stState s \<noteq> SS_ReservedRemote"
  using stream_life.reachable_inv [OF assms] by (simp add: stream_inv_def)

lemma stream_example_reachable:
  "reachable stream_start stream_step (snd (consumeSendWindow (snd (onSendHeaders (newHttp2Stream 1 65535) False)) 1000))"
proof -
  have "stream_start (newHttp2Stream 1 65535)"
    unfolding stream_start_def by (intro exI [of _ 1] exI [of _ 65535]) simp
  then have "reachable stream_start stream_step (newHttp2Stream 1 65535)" by (rule reachable.start)
  then have "reachable stream_start stream_step (snd (onSendHeaders (newHttp2Stream 1 65535) False))"
    by (rule reachable.step) (rule stream_step.send_headers)
  then show ?thesis by (rule reachable.step) (rule stream_step.consume_send)
qed

theorem stream_windows_bounded_witness:
  "stSendWindow (snd (consumeSendWindow (snd (onSendHeaders (newHttp2Stream 1 65535) False)) 1000)) = 64535
   \<and> stSendWindow (snd (consumeSendWindow (snd (onSendHeaders (newHttp2Stream 1 65535) False)) 1000)) \<le> i32_max"
  using stream_windows_bounded [OF stream_example_reachable]
  by (simp add: consumeSendWindow_def onSendHeaders_def newHttp2Stream_def to_i32_id)

section \<open>Two half-channels\<close>

text \<open>
  The specification of a stream's life cycle: before the first HEADERS it is idle, afterwards each
  direction is open until its side ends it. \<open>None\<close> is a frame the state does not allow.
\<close>

datatype Channel = Idle_Channel | Live_Channel (local_open: bool) (remote_open: bool)

fun ch_send_headers :: "Channel \<Rightarrow> bool \<Rightarrow> Channel option" where
  "ch_send_headers Idle_Channel fin = Some (Live_Channel (\<not> fin) True)"
| "ch_send_headers (Live_Channel l r) fin = (if l then Some (Live_Channel (\<not> fin) r) else None)"

fun ch_recv_headers :: "Channel \<Rightarrow> bool \<Rightarrow> Channel option" where
  "ch_recv_headers Idle_Channel fin = Some (Live_Channel True (\<not> fin))"
| "ch_recv_headers (Live_Channel l r) fin = (if r then Some (Live_Channel l (\<not> fin)) else None)"

fun ch_send_data :: "Channel \<Rightarrow> bool \<Rightarrow> Channel option" where
  "ch_send_data Idle_Channel fin = None"
| "ch_send_data (Live_Channel l r) fin = (if l then Some (Live_Channel (\<not> fin) r) else None)"

fun ch_recv_data :: "Channel \<Rightarrow> bool \<Rightarrow> Channel option" where
  "ch_recv_data Idle_Channel fin = None"
| "ch_recv_data (Live_Channel l r) fin = (if r then Some (Live_Channel l (\<not> fin)) else None)"

definition channel_of :: "Http2Stream \<Rightarrow> Channel" where
  "channel_of s = (case stState s of
      SS_Open \<Rightarrow> Live_Channel True True
    | SS_HalfClosedLocal \<Rightarrow> Live_Channel False True
    | SS_HalfClosedRemote \<Rightarrow> Live_Channel True False
    | SS_Closed \<Rightarrow> Live_Channel False False
    | _ \<Rightarrow> Idle_Channel)"

text \<open>A concrete transition implements an abstract one: it succeeds in the same states, moves the
  abstraction accordingly, and otherwise reports \<open>STREAM_CLOSED\<close> and changes nothing.\<close>

definition implements ::
  "(Http2Stream \<Rightarrow> bool \<Rightarrow> ErrorCode \<times> Http2Stream) \<Rightarrow> (Channel \<Rightarrow> bool \<Rightarrow> Channel option) \<Rightarrow>
     Http2Stream \<Rightarrow> bool \<Rightarrow> bool" where
  "implements conc spec s fin \<longleftrightarrow>
     (case spec (channel_of s) fin of
        None \<Rightarrow> conc s fin = (EC_StreamClosed, s)
      | Some ch \<Rightarrow> fst (conc s fin) = EC_NoError \<and> channel_of (snd (conc s fin)) = ch
          \<and> snd (conc s fin) = s\<lparr>stState := stState (snd (conc s fin))\<rparr>)"

text \<open>
  C32. The stream's HEADERS and DATA transitions refine two independent half-channels: sending is
  possible exactly while the local half is open, receiving exactly while the remote half is open,
  END_STREAM closes just that half, a refused frame changes nothing, and no transition touches
  another field of the stream.
\<close>

theorem stream_refines_half_channels:
  assumes "stState s \<noteq> SS_ReservedLocal" "stState s \<noteq> SS_ReservedRemote"
  shows "implements onSendHeaders ch_send_headers s fin \<and> implements onRecvHeaders ch_recv_headers s fin
     \<and> implements onSendData ch_send_data s fin \<and> implements onRecvData ch_recv_data s fin
     \<and> (canSend s \<longleftrightarrow> ch_send_data (channel_of s) fin \<noteq> None)
     \<and> (canReceive s \<longleftrightarrow> ch_recv_data (channel_of s) fin \<noteq> None)"
  using assms
  by (cases "stState s") (simp_all add: implements_def transition_defs channel_of_def canSend_def canReceive_def)

theorem stream_refines_half_channels_witness:
  "implements onSendData ch_send_data (snd (onRecvHeaders (newHttp2Stream 1 65535) True)) True
   \<and> \<not> canReceive (snd (onRecvHeaders (newHttp2Stream 1 65535) True))"
  using stream_refines_half_channels [of "snd (onRecvHeaders (newHttp2Stream 1 65535) True)" True]
  by (simp add: newHttp2Stream_def onRecvHeaders_def canReceive_def)

text \<open>
  A closed stream stays closed under every member call, and neither HEADERS nor DATA is
  accepted on it in either direction.
\<close>

lemma closed_stream_final:
  assumes "stream_step\<^sup>*\<^sup>* s t" "isClosed s"
  shows "isClosed t \<and> fst (onSendHeaders t es) = EC_StreamClosed \<and> fst (onRecvHeaders t es) = EC_StreamClosed
     \<and> fst (onSendData t es) = EC_StreamClosed \<and> fst (onRecvData t es) = EC_StreamClosed"
proof -
  have keep: "stream_step u v \<Longrightarrow> isClosed u \<Longrightarrow> isClosed v" for u v
    by (induction rule: stream_step.induct)
       (auto simp: isClosed_def transition_defs consumeSendWindow_def consumeRecvWindow_def
         increaseSendWindow_def increaseRecvWindow_def updateInitialWindowSize_def setPriority_def
         setErrorCode_def markClosedNotified_def Let_def)
  have "isClosed t" using assms by (induction rule: rtranclp_induct) (blast intro: keep)+
  then show ?thesis by (simp add: isClosed_def transition_defs)
qed

lemma closed_stream_final_witness:
  "isClosed (snd (markClosedNotified (onRecvRstStream (newHttp2Stream 7 10))))
   \<and> fst (onRecvData (snd (markClosedNotified (onRecvRstStream (newHttp2Stream 7 10)))) False) = EC_StreamClosed"
proof -
  have "stream_step\<^sup>*\<^sup>* (onRecvRstStream (newHttp2Stream 7 10))
      (snd (markClosedNotified (onRecvRstStream (newHttp2Stream 7 10))))"
    by (intro r_into_rtranclp stream_step.notified)
  from closed_stream_final [OF this, of False] show ?thesis
    by (simp add: isClosed_def onRecvRstStream_def)
qed

section \<open>The send-window ledger\<close>

datatype WindowOp = Consume u32 | Grant u32 | Resize u32

fun window_op :: "Http2Stream \<Rightarrow> WindowOp \<Rightarrow> bool \<times> Http2Stream" where
  "window_op s (Consume n) = consumeSendWindow s n"
| "window_op s (Grant n) = (case increaseSendWindow s n of (e, s') \<Rightarrow> (e = EC_NoError, s'))"
| "window_op s (Resize n) = (case updateInitialWindowSize s n of (e, s') \<Rightarrow> (e = EC_NoError, s'))"

text \<open>The stream after a sequence of calls, with the bytes granted and the bytes consumed by the
  calls that succeeded.\<close>

fun run_window_ops :: "Http2Stream \<Rightarrow> WindowOp list \<Rightarrow> Http2Stream \<times> int \<times> int" where
  "run_window_ops s [] = (s, 0, 0)"
| "run_window_ops s (op # ops) =
     (case window_op s op of (ok, s') \<Rightarrow>
        (case run_window_ops s' ops of (t, granted, consumed) \<Rightarrow>
           (t, (case op of Grant n \<Rightarrow> if ok then granted + uint n else granted | _ \<Rightarrow> granted),
               (case op of Consume n \<Rightarrow> if ok then consumed + uint n else consumed | _ \<Rightarrow> consumed))))"

lemma window_op_inv: "stream_inv s \<Longrightarrow> stream_inv (snd (window_op s op))"
proof (cases op)
  case (Consume n)
  then show "stream_inv s \<Longrightarrow> ?thesis" using stream_inv_step [OF consume_send [of s n]] by simp
next
  case (Grant n)
  then show "stream_inv s \<Longrightarrow> ?thesis" using stream_inv_step [OF increase_send [of s n]] by (simp add: case_prod_beta)
next
  case (Resize n)
  then show "stream_inv s \<Longrightarrow> ?thesis" using stream_inv_step [OF resize [of s n]] by (simp add: case_prod_beta)
qed

lemma window_op_ledger:
  assumes "stream_inv s" "window_op s op = (ok, s')"
  shows "stSendWindow s' - uint (stInitialSendWindow s') = stSendWindow s - uint (stInitialSendWindow s)
     + (case op of Grant n \<Rightarrow> if ok then uint n else 0 | Consume n \<Rightarrow> if ok then - uint n else 0 | _ \<Rightarrow> 0)"
  using assms by (cases op) (auto simp: window_eqs Let_def split: if_splits)

text \<open>
  C33. The send window is a ledger: after any sequence of sends, WINDOW_UPDATEs and SETTINGS
  changes it is the initial window size now in force plus the bytes granted minus the bytes sent,
  counting exactly the calls that reported success.
\<close>

theorem send_window_ledger:
  assumes "stream_inv s" "stSendWindow s = uint (stInitialSendWindow s)"
    and "run_window_ops s ops = (t, granted, consumed)"
  shows "stSendWindow t = uint (stInitialSendWindow t) + granted - consumed \<and> 0 \<le> stSendWindow t"
proof -
  have *: "stSendWindow t - uint (stInitialSendWindow t)
      = stSendWindow s - uint (stInitialSendWindow s) + granted - consumed \<and> stream_inv t"
    if "stream_inv s" "run_window_ops s ops = (t, granted, consumed)" for s
    using that
  proof (induction ops arbitrary: s granted consumed)
    case (Cons op ops)
    obtain ok s' where o: "window_op s op = (ok, s')" by (cases "window_op s op")
    obtain t' g c where r: "run_window_ops s' ops = (t', g, c)" by (cases "run_window_ops s' ops") auto
    have t: "t' = t" using Cons.prems(2) by (simp add: o r)
    have inv: "stream_inv s'" using window_op_inv [OF Cons.prems(1), of op] by (simp add: o)
    have "granted = (case op of Grant n \<Rightarrow> if ok then g + uint n else g | _ \<Rightarrow> g)"
      "consumed = (case op of Consume n \<Rightarrow> if ok then c + uint n else c | _ \<Rightarrow> c)"
      using Cons.prems(2) by (simp_all add: o r)
    then show ?case
      using Cons.IH [OF inv r [unfolded t]] window_op_ledger [OF Cons.prems(1) o]
      by (cases op) auto
  qed simp
  show ?thesis using * [OF assms(1,3)] assms(2) by (simp add: stream_inv_def)
qed

theorem send_window_ledger_witness:
  "stSendWindow (fst (run_window_ops (newHttp2Stream 1 100) [Consume 60, Grant 20, Consume 70, Resize 200]))
     = 200 + 20 - 60"
proof -
  have "run_window_ops (newHttp2Stream 1 100) [Consume 60, Grant 20, Consume 70, Resize 200]
    = ((newHttp2Stream 1 100)\<lparr>stSendWindow := 160, stInitialSendWindow := 200\<rparr>, 20, 60)"
    by (simp add: newHttp2Stream_def consumeSendWindow_def increaseSendWindow_def updateInitialWindowSize_def
        to_i32_id Let_def)
  note run = this
  have "stSendWindow (newHttp2Stream 1 100) = uint (stInitialSendWindow (newHttp2Stream 1 100))"
    by (simp add: newHttp2Stream_def to_i32_id)
  from send_window_ledger [OF stream_inv_new this run] show ?thesis unfolding run by simp
qed

end
