(* ===== verification/Ascii.thy ===== *)
theory Ascii
  imports Prelude
begin

text \<open>
  Case-insensitive ASCII text: \<^verbatim>\<open>toupperlower.hpp\<close>, \<^verbatim>\<open>tolower-str.hpp\<close>, \<^verbatim>\<open>string-equal-ignore-case.hpp\<close>, \<^verbatim>\<open>string-trim.hpp\<close> and
  the header merge policy of \<^verbatim>\<open>mergeable-headers.hpp\<close>. A \<^verbatim>\<open>char\<close> is a byte; where the code compares
  \<^verbatim>\<open>char\<close> values they are signed, as on the primary platform (x86-64). The SSE2 routines are written
  lane by lane. The theorems show that the blockwise comparison equals the bytewise one, that the
  hash of the header maps respects it, and that the binary search in the merge table finds exactly
  what a linear scan would.
\<close>

section \<open>Characters\<close>

definition bytes_of :: "string \<Rightarrow> bytes" where
  "bytes_of s = map of_char s"

definition tolower :: "u8 \<Rightarrow> u8" where
  "tolower ch = (if 0x41 \<le> ch \<and> ch \<le> 0x5A then ch OR 0x20 else ch)"

definition toupper :: "u8 \<Rightarrow> u8" where
  "toupper ch = (if 0x61 \<le> ch \<and> ch \<le> 0x7A then ch AND 0xDF else ch)"

text \<open>\<^verbatim>\<open>TrimOws\<close>: spaces and tabs off both ends.\<close>

definition is_ows :: "u8 \<Rightarrow> bool" where
  "is_ows ch \<longleftrightarrow> ch = 0x20 \<or> ch = 0x09"

definition TrimOws :: "bytes \<Rightarrow> bytes" where
  "TrimOws sv =
     (if sv = [] \<or> (\<not> is_ows (hd sv) \<and> \<not> is_ows (last sv)) then sv
      else rev (dropWhile is_ows (rev (dropWhile is_ows sv))))"

section \<open>Lowercasing a machine word\<close>

text \<open>\<^verbatim>\<open>std::memcpy\<close> of eight bytes into a \<^verbatim>\<open>uint64_t\<close> on a little-endian machine, and back.\<close>

fun load_le :: "bytes \<Rightarrow> u64" where
  "load_le [] = 0"
| "load_le (b # bs) = ucast b OR push_bit 8 (load_le bs)"

definition store_le :: "u64 \<Rightarrow> bytes" where
  "store_le w = map (\<lambda>i. ucast (drop_bit (i * 8) w)) [0..<8]"

text \<open>The loop of \<^verbatim>\<open>BytewiseLower\<close> over the byte positions, the portable path.\<close>

definition BytewiseLower :: "u64 \<Rightarrow> u64" where
  "BytewiseLower input =
     foldl (\<lambda>result bytePos.
        result OR push_bit (bytePos * 8) (ucast (tolower (ucast (drop_bit (bytePos * 8) input))))) 0 [0..<8]"

text \<open>One lane of the SSE2 and AVX2 code: signed comparisons against \<open>'A' - 1\<close> and \<open>'Z' + 1\<close>.\<close>

definition simd_lower :: "u8 \<Rightarrow> u8" where
  "simd_lower b = b OR ((if sint (0x40 :: u8) < sint b \<and> sint b < sint (0x5B :: u8) then 0xFF else 0) AND 0x20)"

text \<open>The x86-64 path of \<^verbatim>\<open>AsciiLowerMask\<close>, and the 32-byte AVX2 one.\<close>

definition AsciiLowerMask :: "u64 \<Rightarrow> u64" where
  "AsciiLowerMask val = load_le (map simd_lower (store_le val))"

definition AsciiLowerMask4 :: "bytes \<Rightarrow> bytes" where
  "AsciiLowerMask4 src = map simd_lower src"

definition AsciiLowerEqual16 :: "bytes \<Rightarrow> bytes \<Rightarrow> bool" where
  "AsciiLowerEqual16 lhs rhs \<longleftrightarrow> map simd_lower (take 16 lhs) = map simd_lower (take 16 rhs)"

definition AsciiLowerEqual8 :: "bytes \<Rightarrow> bytes \<Rightarrow> bool" where
  "AsciiLowerEqual8 lhs rhs \<longleftrightarrow>
     AsciiLowerMask (load_le (take 8 lhs)) = AsciiLowerMask (load_le (take 8 rhs))"

section \<open>Lowercasing a buffer\<close>

text \<open>
  A loop over whole blocks: the state is what was written and what remains. \<^verbatim>\<open>tolower(buf, len)\<close> first
  reaches an aligned address, then takes 32 bytes at a time where AVX2 is there, then 8, then single
  bytes; \<^verbatim>\<open>tolower_n\<close> copies and aligns only when both buffers share their misalignment.
\<close>

function lower_blocks :: "nat \<Rightarrow> (bytes \<Rightarrow> bytes) \<Rightarrow> bytes \<times> bytes \<Rightarrow> bytes \<times> bytes" where
  "lower_blocks k f (out, rest) =
     (if 0 < k \<and> k \<le> length rest then lower_blocks k f (out @ f (take k rest), drop k rest) else (out, rest))"
  by pat_completeness auto
termination
  by (relation "measure (\<lambda>(k, f, out, rest). length rest)") auto

declare lower_blocks.simps [simp del]

definition lower_word_block :: "bytes \<Rightarrow> bytes" where
  "lower_word_block bs = store_le (AsciiLowerMask (load_le bs))"

definition lower_tail :: "bytes \<times> bytes \<Rightarrow> bytes" where
  "lower_tail st = fst st @ map tolower (snd st)"

definition tolower_buf :: "bool \<Rightarrow> nat \<Rightarrow> bytes \<Rightarrow> bytes" where
  "tolower_buf hasAvx2 misalignment buf =
     (let head = (if misalignment = 0 then 0 else min (length buf) (8 - misalignment));
          st0 = (map tolower (take head buf), drop head buf);
          st1 = (if hasAvx2 then lower_blocks 32 AsciiLowerMask4 st0 else st0);
          st2 = lower_blocks 8 lower_word_block st1
      in lower_tail st2)"

definition tolower_n :: "nat \<Rightarrow> nat \<Rightarrow> bytes \<Rightarrow> bytes" where
  "tolower_n fromMisalign toMisalign from_bytes =
     (let head = (if fromMisalign = toMisalign \<and> fromMisalign \<noteq> 0 then min (length from_bytes) (8 - fromMisalign) else 0);
          st0 = (map tolower (take head from_bytes), drop head from_bytes)
      in lower_tail (lower_blocks 8 lower_word_block st0))"

section \<open>Case-insensitive comparison\<close>

text \<open>
  The loop both fast paths run: whole blocks of \<open>k\<close> bytes from the front, then, when a partial block
  is left, one block that ends at the end of the text and overlaps what was compared.
\<close>

function block_loop :: "nat \<Rightarrow> (bytes \<Rightarrow> bytes \<Rightarrow> bool) \<Rightarrow> bytes \<Rightarrow> bytes \<Rightarrow> nat \<Rightarrow> bool" where
  "block_loop k eqk lhs rhs pos =
     (let len = length lhs in
      if 0 < k \<and> pos + k \<le> len then
        (if \<not> eqk (drop pos lhs) (drop pos rhs) then False else block_loop k eqk lhs rhs (pos + k))
      else if pos \<noteq> len then eqk (drop (len - k) lhs) (drop (len - k) rhs)
      else True)"
  by pat_completeness auto
termination
  by (relation "measure (\<lambda>(k, eqk, lhs, rhs, pos). length lhs - pos)") auto

declare block_loop.simps [simp del]

definition CaseInsensitiveEqual :: "bytes \<Rightarrow> bytes \<Rightarrow> bool" where
  "CaseInsensitiveEqual lhs rhs =
     (let len = length lhs in
      if len \<noteq> length rhs then False
      else if len \<ge> 16 then block_loop 16 AsciiLowerEqual16 lhs rhs 0
      else if len \<ge> 8 then block_loop 8 AsciiLowerEqual8 lhs rhs 0
      else list_all (\<lambda>i. tolower (lhs ! i) = tolower (rhs ! i)) [0..<len])"

fun CaseInsensitiveLess :: "bytes \<Rightarrow> bytes \<Rightarrow> bool" where
  "CaseInsensitiveLess (l # lhs) (r # rhs) =
     (let lc = tolower l; rc = tolower r in
      if lc \<noteq> rc then sint lc < sint rc else CaseInsensitiveLess lhs rhs)"
| "CaseInsensitiveLess lhs rhs = (length lhs < length rhs)"

definition CaseInsensitiveHashFunc :: "bytes \<Rightarrow> u64" where
  "CaseInsensitiveHashFunc str =
     foldl (\<lambda>hash ch. (hash XOR ucast (tolower ch)) * 1099511628211) 14695981039346656037 str"

section \<open>The blockwise comparison is the bytewise one\<close>

lemma bit_load_le:
  "length bs \<le> 8 \<Longrightarrow> bit (load_le bs) n \<longleftrightarrow> n div 8 < length bs \<and> bit (bs ! (n div 8)) (n mod 8)"
proof (induction bs arbitrary: n)
  case Nil
  then show ?case by simp
next
  case (Cons b bs)
  show ?case
  proof (cases "n < 8")
    case True
    then show ?thesis by (simp add: bit_or_iff bit_push_bit_iff bit_unsigned_iff)
  next
    case False
    then obtain m where m: "n = m + 8" by (metis le_add_diff_inverse2 not_less)
    have idx: "n div 8 = Suc (m div 8)" "n mod 8 = m mod 8" using m by simp_all
    have small: "m div 8 < length bs \<Longrightarrow> n < 64" using Cons.prems m by (simp add: div_less_iff_less_mult)
    have nb: "\<not> bit b n" using False bit_imp_le_length [of b n] by (auto simp: not_less)
    have IH: "bit (load_le bs) m \<longleftrightarrow> m div 8 < length bs \<and> bit (bs ! (m div 8)) (m mod 8)"
      using Cons by simp
    have "bit (load_le (b # bs)) n \<longleftrightarrow> n < 64 \<and> bit (load_le bs) m"
      using nb m by (simp add: bit_or_iff bit_push_bit_iff bit_unsigned_iff)
    then show ?thesis unfolding IH idx using small by auto
  qed
qed

lemma byte_of_load_le:
  assumes "length bs \<le> 8" "i < length bs"
  shows "(ucast (drop_bit (i * 8) (load_le bs)) :: u8) = bs ! i"
proof (rule bit_word_eqI)
  fix n assume "n < LENGTH(8)"
  then have "(i * 8 + n) div 8 = i" "(i * 8 + n) mod 8 = n" by auto
  then show "bit (ucast (drop_bit (i * 8) (load_le bs)) :: u8) n \<longleftrightarrow> bit (bs ! i) n"
    using assms \<open>n < LENGTH(8)\<close> by (simp add: bit_unsigned_iff bit_drop_bit_eq bit_load_le)
qed

lemma store_load_le: "length bs = 8 \<Longrightarrow> store_le (load_le bs) = bs"
  by (intro nth_equalityI) (simp_all add: store_le_def byte_of_load_le)

lemma load_le_inj:
  assumes "length xs = 8" "length ys = 8"
  shows "load_le xs = load_le ys \<longleftrightarrow> xs = ys"
  using store_load_le [OF assms(1)] store_load_le [OF assms(2)] by metis

lemma load_le_8: "length bs = 8 \<Longrightarrow>
   load_le bs = foldl (\<lambda>r i. r OR push_bit (i * 8) (ucast (bs ! i))) 0 [0..<8]"
proof -
  assume "length bs = 8"
  then obtain a b c d e f g h where "bs = [a, b, c, d, e, f, g, h]"
    by (auto simp: numeral_eq_Suc length_Suc_conv)
  then show ?thesis
    by (simp add: upt_rec push_bit_or push_bit_push_bit or.assoc)
qed

lemma simd_lower_eq: "simd_lower = tolower"
proof
  fix b
  have "list_all (\<lambda>n. simd_lower (word_of_nat n) = tolower (word_of_nat n)) [0..<256]"
    by code_simp
  then show "simd_lower b = tolower b" by (rule u8_allI)
qed

lemma store_le_nth: "i < 8 \<Longrightarrow> store_le w ! i = ucast (drop_bit (i * 8) w)"
  by (simp add: store_le_def)

lemma length_store_le [simp]: "length (store_le w) = 8"
  by (simp add: store_le_def)

lemma AsciiLowerMask_load: "length bs = 8 \<Longrightarrow> AsciiLowerMask (load_le bs) = load_le (map tolower bs)"
  by (simp add: AsciiLowerMask_def store_load_le simd_lower_eq)

lemma AsciiLowerMask_bytewise: "AsciiLowerMask val = BytewiseLower val"
proof -
  have "foldl (\<lambda>r i. r OR push_bit (i * 8) (ucast (map tolower (store_le val) ! i))) (0 :: u64) [0..<8] = BytewiseLower val"
    unfolding BytewiseLower_def by (intro foldl_cong) (auto simp: store_le_nth)
  then show ?thesis by (simp add: AsciiLowerMask_def load_le_8 simd_lower_eq)
qed

lemma AsciiLowerEqual8_iff:
  assumes "8 \<le> length lhs" "8 \<le> length rhs"
  shows "AsciiLowerEqual8 lhs rhs \<longleftrightarrow> map tolower (take 8 lhs) = map tolower (take 8 rhs)"
proof -
  have "AsciiLowerEqual8 lhs rhs \<longleftrightarrow> load_le (map tolower (take 8 lhs)) = load_le (map tolower (take 8 rhs))"
    using assms by (simp add: AsciiLowerEqual8_def AsciiLowerMask_load)
  also have "\<dots> \<longleftrightarrow> map tolower (take 8 lhs) = map tolower (take 8 rhs)"
    using load_le_inj [of "map tolower (take 8 lhs)" "map tolower (take 8 rhs)"] assms by simp
  finally show ?thesis .
qed

lemma AsciiLowerEqual16_iff:
  "AsciiLowerEqual16 lhs rhs \<longleftrightarrow> map tolower (take 16 lhs) = map tolower (take 16 rhs)"
  by (simp add: AsciiLowerEqual16_def simd_lower_eq)

lemma lower_word_block_eq: "length bs = 8 \<Longrightarrow> lower_word_block bs = map tolower bs"
  by (simp add: lower_word_block_def AsciiLowerMask_load store_load_le)

lemma lower_tail_blocks:
  assumes "\<And>bs. length bs = k \<Longrightarrow> f bs = map tolower bs"
  shows "lower_tail (lower_blocks k f st) = lower_tail st"
proof (induction "length (snd st)" arbitrary: st rule: less_induct)
  case less
  obtain out rest where st: "st = (out, rest)" by fastforce
  show ?case
  proof (cases "0 < k \<and> k \<le> length rest")
    case True
    then have "lower_tail (lower_blocks k f (out @ f (take k rest), drop k rest))
        = lower_tail (out @ f (take k rest), drop k rest)" using st by (intro less) auto
    also have "\<dots> = lower_tail st"
      using assms [of "take k rest"] True st by (simp add: lower_tail_def flip: map_append)
    finally show ?thesis using True st by (simp add: lower_blocks.simps [of k f out rest])
  next
    case False
    then show ?thesis using st by (auto simp: lower_blocks.simps [of k f out rest])
  qed
qed

text \<open>Lowercasing a buffer in place or into another one, for every alignment of the buffers and with or
  without AVX2, lowercases every byte and changes nothing else.\<close>

theorem tolower_buffers_correct:
  "tolower_buf hasAvx2 misalignment buf = map tolower buf \<and> tolower_n fromMis toMis buf = map tolower buf"
proof -
  have h: "lower_tail (map tolower (take n buf), drop n buf) = map tolower buf" for n
    by (simp add: lower_tail_def flip: map_append)
  have b8: "lower_tail (lower_blocks 8 lower_word_block st) = lower_tail st" for st
    by (rule lower_tail_blocks) (rule lower_word_block_eq)
  have b32: "lower_tail (lower_blocks 32 AsciiLowerMask4 st) = lower_tail st" for st
    by (rule lower_tail_blocks) (simp add: AsciiLowerMask4_def simd_lower_eq)
  show ?thesis by (simp add: tolower_buf_def tolower_n_def Let_def b8 b32 h)
qed

text \<open>A block comparison that decides \<open>tolower\<close>-equality of its first \<open>k\<close> bytes decides it on the whole text.\<close>

lemma block_loop_iff:
  assumes eqk: "\<And>l r. k \<le> length l \<Longrightarrow> k \<le> length r \<Longrightarrow>
                   eqk l r \<longleftrightarrow> map tolower (take k l) = map tolower (take k r)"
    and k: "0 < k" "k \<le> length lhs" and len: "length rhs = length lhs"
  shows "pos \<le> length lhs \<Longrightarrow> map tolower (take pos lhs) = map tolower (take pos rhs) \<Longrightarrow>
         block_loop k eqk lhs rhs pos \<longleftrightarrow> map tolower lhs = map tolower rhs"
proof (induction "length lhs - pos" arbitrary: pos rule: less_induct)
  case less
  let ?l = "map tolower lhs" and ?r = "map tolower rhs"
  have pre: "take pos ?l = take pos ?r" using less.prems by (simp add: take_map)
  have blk: "eqk (drop p lhs) (drop p rhs) \<longleftrightarrow> take k (drop p ?l) = take k (drop p ?r)"
    if "p + k \<le> length lhs" for p
    using that len eqk [of "drop p lhs" "drop p rhs"] by (simp add: take_map drop_map)
  consider (step) "pos + k \<le> length lhs" | (tail) "length lhs < pos + k" "pos \<noteq> length lhs"
    | (fin) "length lhs < pos + k" "pos = length lhs" by linarith
  then show ?case
  proof cases
    case step
    show ?thesis
    proof (cases "eqk (drop pos lhs) (drop pos rhs)")
      case True
      then have "take (pos + k) ?l = take (pos + k) ?r" using blk [OF step] pre by (simp add: take_add)
      then have "map tolower (take (pos + k) lhs) = map tolower (take (pos + k) rhs)" by (simp add: take_map)
      then have "block_loop k eqk lhs rhs (pos + k) \<longleftrightarrow> ?l = ?r" using less.hyps k step by simp
      then show ?thesis using True step k by (simp add: block_loop.simps [of k eqk lhs rhs pos])
    next
      case False
      then have "?l \<noteq> ?r" using blk [OF step] by metis
      then show ?thesis using False step k by (simp add: block_loop.simps [of k eqk lhs rhs pos])
    qed
  next
    case tail
    let ?p = "length lhs - k"
    have all: "take k (drop ?p xs) = drop ?p xs" if "length xs = length lhs" for xs :: bytes
      using that k by simp
    have "block_loop k eqk lhs rhs pos \<longleftrightarrow> drop ?p ?l = drop ?p ?r"
      using tail blk [of ?p] k len all [of ?l] all [of ?r]
      by (simp add: Let_def block_loop.simps [of k eqk lhs rhs pos])
    moreover have "take ?p ?l = take ?p ?r" 
    proof -
      have "?p \<le> pos" using tail by linarith
      then have "take ?p ?l = take ?p (take pos ?l)" "take ?p ?r = take ?p (take pos ?r)" by (simp_all add: min_def)
      with pre show ?thesis by simp
    qed
    ultimately show ?thesis by (metis append_take_drop_id)
  next
    case fin
    then show ?thesis using less.prems len by (simp add: block_loop.simps [of k eqk lhs rhs "length lhs"])
  qed
qed

lemma CaseInsensitiveEqual_iff: "CaseInsensitiveEqual lhs rhs \<longleftrightarrow> map tolower lhs = map tolower rhs"
proof (cases "length lhs = length rhs")
  case True
  have b16: "16 \<le> length lhs \<Longrightarrow> block_loop 16 AsciiLowerEqual16 lhs rhs 0 \<longleftrightarrow> map tolower lhs = map tolower rhs"
    by (rule block_loop_iff) (simp_all add: AsciiLowerEqual16_iff True)
  have b8: "8 \<le> length lhs \<Longrightarrow> block_loop 8 AsciiLowerEqual8 lhs rhs 0 \<longleftrightarrow> map tolower lhs = map tolower rhs"
    by (rule block_loop_iff) (simp_all add: AsciiLowerEqual8_iff True)
  have "list_all (\<lambda>i. tolower (lhs ! i) = tolower (rhs ! i)) [0..<length lhs] \<longleftrightarrow> map tolower lhs = map tolower rhs"
    unfolding list_all_iff list_eq_iff_nth_eq [of "map tolower lhs"] using True by (simp add: Ball_def)
  then show ?thesis unfolding CaseInsensitiveEqual_def Let_def
    using b16 b8 True by (cases "16 \<le> length lhs"; cases "8 \<le> length lhs") simp_all
next
  case False
  then show ?thesis by (auto simp: CaseInsensitiveEqual_def dest: arg_cong [where f = length])
qed

section \<open>Order and hash\<close>

text \<open>The order reads the lowercase texts only, lexicographically by the signed value of a byte.\<close>

fun sless :: "bytes \<Rightarrow> bytes \<Rightarrow> bool" where
  "sless [] ys \<longleftrightarrow> ys \<noteq> []"
| "sless (x # xs) [] \<longleftrightarrow> False"
| "sless (x # xs) (y # ys) \<longleftrightarrow> (if x = y then sless xs ys else sint x < sint y)"

lemma sless_Nil [simp]: "\<not> sless xs []"
  by (cases xs) auto

lemma CaseInsensitiveLess_lower: "CaseInsensitiveLess lhs rhs \<longleftrightarrow> sless (map tolower lhs) (map tolower rhs)"
  by (induction lhs rhs rule: CaseInsensitiveLess.induct) (auto simp: Let_def)

lemma sless_irrefl: "\<not> sless xs xs"
  by (induction xs) auto

lemma sless_trans: "sless xs ys \<Longrightarrow> sless ys zs \<Longrightarrow> sless xs zs"
proof (induction xs ys arbitrary: zs rule: sless.induct)
  case (3 x xs y ys)
  then show ?case by (cases zs) (auto split: if_splits)
qed (auto elim: sless.elims)

lemma sless_total: "sless xs ys \<or> xs = ys \<or> sless ys xs"
proof (induction xs ys rule: sless.induct)
  case (1 ys) then show ?case by (cases ys) auto
next
  case (3 x xs y ys)
  have "sint x \<noteq> sint y" if "x \<noteq> y" using that signed_word_eqI by blast
  with 3 show ?case by (cases "x = y") auto
qed auto

section \<open>Merge policy of repeated request headers\<close>

text \<open>\<^verbatim>\<open>kEntries\<close>: header name and separator byte (\<open>0\<close> forbids a duplicate, \<open>'O'\<close> keeps the last).\<close>

definition hentry :: "string \<Rightarrow> u8 \<Rightarrow> bytes \<times> u8" where
  "hentry name sep = (bytes_of name, sep)"

definition kEntries :: "(bytes \<times> u8) list" where
  "kEntries =
     [hentry ''Accept'' 0x2C, hentry ''Accept-Charset'' 0x2C, hentry ''Accept-Datetime'' 0x2C,
      hentry ''accept-encoding'' 0x2C, hentry ''Accept-Language'' 0x2C, hentry ''Authorization'' 0x4F,
      hentry ''cache-control'' 0x2C, hentry ''connection'' 0x2C, hentry ''content-length'' 0, hentry ''Content-MD5'' 0,
      hentry ''Content-Transfer-Encoding'' 0, hentry ''content-type'' 0x4F, hentry ''Cookie'' 0x3B, hentry ''DNT'' 0x2C,
      hentry ''Expect'' 0x2C, hentry ''Forwarded'' 0x2C, hentry ''From'' 0x4F, hentry ''Host'' 0, hentry ''If-Match'' 0x2C,
      hentry ''If-Modified-Since'' 0x4F, hentry ''If-None-Match'' 0x2C, hentry ''If-Range'' 0x4F,
      hentry ''If-Unmodified-Since'' 0x4F, hentry ''Max-Forwards'' 0x4F, hentry ''Origin'' 0x2C, hentry ''Pragma'' 0x2C,
      hentry ''Prefer'' 0x2C, hentry ''Proxy-Authorization'' 0x4F, hentry ''range'' 0x4F, hentry ''Referer'' 0x4F,
      hentry ''Save-Data'' 0x2C, hentry ''Sec-Fetch-Dest'' 0x2C, hentry ''Sec-Fetch-Mode'' 0x2C,
      hentry ''Sec-Fetch-Site'' 0x2C, hentry ''Sec-Fetch-User'' 0x2C, hentry ''Sec-WebSocket-Extensions'' 0x2C,
      hentry ''Sec-WebSocket-Protocol'' 0x2C, hentry ''te'' 0x2C, hentry ''trailer'' 0x2C, hentry ''transfer-encoding'' 0x2C,
      hentry ''upgrade'' 0x2C, hentry ''Upgrade-Insecure-Requests'' 0, hentry ''user-agent'' 0x20, hentry ''vary'' 0x2C,
      hentry ''Via'' 0x2C, hentry ''Warning'' 0x2C]"

text \<open>\<^verbatim>\<open>std::ranges::partition_point\<close>: halving of the range \<open>first, len\<close>.\<close>

function partition_point :: "('a \<Rightarrow> bool) \<Rightarrow> 'a list \<Rightarrow> nat \<Rightarrow> nat \<Rightarrow> nat" where
  "partition_point pred xs first len =
     (if len = 0 then first
      else let half = len div 2; middle = first + half in
        if pred (xs ! middle) then partition_point pred xs (middle + 1) (len - half - 1)
        else partition_point pred xs first half)"
  by pat_completeness auto
termination
  by (relation "measure (\<lambda>(pred, xs, first, len). len)") auto

declare partition_point.simps [simp del]

definition ReqHeaderValueSeparator :: "bytes \<Rightarrow> bool \<Rightarrow> u8" where
  "ReqHeaderValueSeparator headerName mergeAllowedForUnknownRequestHeaders =
     (let it = partition_point (\<lambda>entry. CaseInsensitiveLess (fst entry) headerName) kEntries 0 (length kEntries) in
      if it \<noteq> length kEntries \<and> CaseInsensitiveEqual (fst (kEntries ! it)) headerName then snd (kEntries ! it)
      else if mergeAllowedForUnknownRequestHeaders then 0x2C else 0)"

lemma partition_point_spec:
  assumes "first + len \<le> length xs"
    and "\<And>i. i < first \<Longrightarrow> pred (xs ! i)" "\<And>i. first + len \<le> i \<Longrightarrow> i < length xs \<Longrightarrow> \<not> pred (xs ! i)"
    and mono: "\<And>i j. i \<le> j \<Longrightarrow> j < length xs \<Longrightarrow> pred (xs ! j) \<Longrightarrow> pred (xs ! i)"
  shows "\<exists>p. partition_point pred xs first len = p \<and> p \<le> length xs \<and>
           (\<forall>i < p. pred (xs ! i)) \<and> (\<forall>i. p \<le> i \<and> i < length xs \<longrightarrow> \<not> pred (xs ! i))"
  using assms(1-3)
proof (induction len arbitrary: first rule: less_induct)
  case (less len)
  show ?case
  proof (cases "len = 0")
    case True
    then show ?thesis using less.prems by (simp add: partition_point.simps [of pred xs first 0])
  next
    case False
    let ?half = "len div 2" let ?m = "first + ?half"
    have m: "?m < length xs" "?half < len" using False less.prems(1) by linarith+
    show ?thesis
    proof (cases "pred (xs ! ?m)")
      case True
      have "i < Suc ?m \<Longrightarrow> pred (xs ! i)" for i using mono [of i ?m] m True by simp
      moreover have "?m + 1 + (len - ?half - 1) = first + len" using m by simp
      ultimately show ?thesis using less.IH [of "len - ?half - 1" "?m + 1"] True False m less.prems
        by (simp add: partition_point.simps [of pred xs first len] Let_def)
    next
      case False2: False
      have "?m \<le> i \<Longrightarrow> i < length xs \<Longrightarrow> \<not> pred (xs ! i)" for i using mono [of ?m i] False2 by auto
      then show ?thesis using less.IH [of ?half first] False False2 m less.prems
        by (simp add: partition_point.simps [of pred xs first len] Let_def)
    qed
  qed
qed

lemma kEntries_sorted: "sorted_wrt (\<lambda>x y. sless x y) (map (\<lambda>e. map tolower (fst e)) kEntries)"
proof -
  have "successively sless (map (\<lambda>e. map tolower (fst e)) kEntries)" by code_simp
  moreover have "transp sless" by (auto intro: transpI sless_trans)
  ultimately show ?thesis by (simp add: successively_conv_sorted_wrt)
qed

lemma hash_lower: "CaseInsensitiveHashFunc s =
   foldl (\<lambda>hash ch. (hash XOR ucast ch) * 1099511628211) 14695981039346656037 (map tolower s)"
  by (simp add: CaseInsensitiveHashFunc_def foldl_map)

text \<open>C34. \<^verbatim>\<open>CaseInsensitiveEqual\<close>, with its 16-byte SSE2 path, its 8-byte word path, the overlapping last
  block and the bytewise loop, holds exactly of texts whose bytewise lowercase forms are equal.\<close>

theorem case_insensitive_equal_correct: "CaseInsensitiveEqual lhs rhs \<longleftrightarrow> map tolower lhs = map tolower rhs"
  by (rule CaseInsensitiveEqual_iff)

text \<open>The order and the hash of the case-insensitive header maps agree with their equality: equal
  names have equal hashes, and of any two names exactly one of \<open>less\<close>, \<open>equal\<close>, \<open>greater\<close> holds.\<close>

lemma case_insensitive_order_hash:
  "if CaseInsensitiveEqual a b
   then CaseInsensitiveHashFunc a = CaseInsensitiveHashFunc b \<and> \<not> CaseInsensitiveLess a b \<and> \<not> CaseInsensitiveLess b a
   else CaseInsensitiveLess a b \<noteq> CaseInsensitiveLess b a"
proof -
  have "sless x y \<Longrightarrow> \<not> sless y x" for x y using sless_trans sless_irrefl by blast
  then show ?thesis
    using sless_total [of "map tolower a" "map tolower b"] hash_lower [of a] hash_lower [of b] sless_irrefl
    by (auto simp: CaseInsensitiveLess_lower CaseInsensitiveEqual_iff)
qed

text \<open>C35. The binary search of \<^verbatim>\<open>ReqHeaderValueSeparator\<close> returns, for every header name in any letter case, the
  separator a linear scan of the table finds, and the fallback exactly for names not in the table.\<close>

theorem req_header_separator_lookup:
  "ReqHeaderValueSeparator name merge =
     (case find (\<lambda>e. map tolower (fst e) = map tolower name) kEntries of
        Some e \<Rightarrow> snd e | None \<Rightarrow> if merge then 0x2C else 0)"
proof -
  let ?P = "\<lambda>e. CaseInsensitiveLess (fst e) name" and ?E = "\<lambda>e. map tolower (fst e) = map tolower name"
  let ?lw = "\<lambda>i. map tolower (fst (kEntries ! i))" and ?n = "map tolower name"
  have lt: "?P e \<longleftrightarrow> sless (map tolower (fst e)) ?n" for e by (rule CaseInsensitiveLess_lower)
  have so: "sless (?lw i) (?lw j)" if "i < j" "j < length kEntries" for i j
    using kEntries_sorted that by (simp add: sorted_wrt_iff_nth_less)
  have mono: "?P (kEntries ! i)" if "i \<le> j" "j < length kEntries" "?P (kEntries ! j)" for i j
    using that so [of i j] sless_trans unfolding lt by (cases "i = j") (auto simp: le_less)
  obtain p where p: "partition_point ?P kEntries 0 (length kEntries) = p" "p \<le> length kEntries"
      "\<And>i. i < p \<Longrightarrow> ?P (kEntries ! i)" "\<And>i. p \<le> i \<Longrightarrow> i < length kEntries \<Longrightarrow> \<not> ?P (kEntries ! i)"
    using partition_point_spec [of 0 "length kEntries" kEntries ?P] mono by auto
  have before: "\<not> ?E (kEntries ! i)" if "i < p" for i
    using p(3) [OF that] sless_irrefl unfolding lt by auto
  have after: "\<not> ?E (kEntries ! i)" if "p < i" "i < length kEntries" for i
    using so [OF that] p(4) [of p] that unfolding lt by auto
  show ?thesis
  proof (cases "p < length kEntries \<and> ?E (kEntries ! p)")
    case True
    then have "find ?E kEntries = Some (kEntries ! p)" using before by (intro find_nth_unique) auto
    with True show ?thesis
      by (simp add: ReqHeaderValueSeparator_def Let_def p(1) CaseInsensitiveEqual_iff)
  next
    case False
    have "\<not> ?E (kEntries ! i)" if "i < length kEntries" for i
      using before [of i] after [of i] False that by (cases i p rule: linorder_cases) auto
    then have "find ?E kEntries = None" unfolding find_None_iff in_set_conv_nth by blast
    with False p(2) show ?thesis
      by (auto simp: ReqHeaderValueSeparator_def Let_def p(1) CaseInsensitiveEqual_iff)
  qed
qed

end
