(* ===== verification/Hpack_Huffman.thy ===== *)
theory Hpack_Huffman
  imports Prelude "HOL-Library.Sublist"
begin

text \<open>
  The Huffman code of HPACK (\<^verbatim>\<open>hpack.cpp\<close>): the code table, the nine-bit decode table built from it, the
  bit-buffer decoder and the encoder, with their 64-bit accumulators as words. The reference is a
  decoder on lists of bits that repeatedly strips the code at the front. The theorems show that the
  table-driven decoder computes the reference on every input, that encoding then decoding is the
  identity, and that the output buffers both routines allocate are large enough.
\<close>

section \<open>Code table\<close>

text \<open>\<^verbatim>\<open>kHuffmanCodes\<close>: code and bit length of the symbols 0 to 255 and of EOS, 256.\<close>

definition kHuffmanCodes :: "(u32 \<times> nat) list" where
  "kHuffmanCodes =
     [(0x1ff8, 13), (0x7fffd8, 23), (0xfffffe2, 28), (0xfffffe3, 28), (0xfffffe4, 28), (0xfffffe5, 28),
      (0xfffffe6, 28), (0xfffffe7, 28), (0xfffffe8, 28), (0xffffea, 24), (0x3ffffffc, 30), (0xfffffe9, 28),
      (0xfffffea, 28), (0x3ffffffd, 30), (0xfffffeb, 28), (0xfffffec, 28), (0xfffffed, 28), (0xfffffee, 28),
      (0xfffffef, 28), (0xffffff0, 28), (0xffffff1, 28), (0xffffff2, 28), (0x3ffffffe, 30), (0xffffff3, 28),
      (0xffffff4, 28), (0xffffff5, 28), (0xffffff6, 28), (0xffffff7, 28), (0xffffff8, 28), (0xffffff9, 28),
      (0xffffffa, 28), (0xffffffb, 28), (0x14, 6), (0x3f8, 10), (0x3f9, 10), (0xffa, 12), (0x1ff9, 13),
      (0x15, 6), (0xf8, 8), (0x7fa, 11), (0x3fa, 10), (0x3fb, 10), (0xf9, 8), (0x7fb, 11), (0xfa, 8), (0x16, 6),
      (0x17, 6), (0x18, 6), (0x0, 5), (0x1, 5), (0x2, 5), (0x19, 6), (0x1a, 6), (0x1b, 6), (0x1c, 6), (0x1d, 6),
      (0x1e, 6), (0x1f, 6), (0x5c, 7), (0xfb, 8), (0x7ffc, 15), (0x20, 6), (0xffb, 12), (0x3fc, 10),
      (0x1ffa, 13), (0x21, 6), (0x5d, 7), (0x5e, 7), (0x5f, 7), (0x60, 7), (0x61, 7), (0x62, 7), (0x63, 7),
      (0x64, 7), (0x65, 7), (0x66, 7), (0x67, 7), (0x68, 7), (0x69, 7), (0x6a, 7), (0x6b, 7), (0x6c, 7),
      (0x6d, 7), (0x6e, 7), (0x6f, 7), (0x70, 7), (0x71, 7), (0x72, 7), (0xfc, 8), (0x73, 7), (0xfd, 8),
      (0x1ffb, 13), (0x7fff0, 19), (0x1ffc, 13), (0x3ffc, 14), (0x22, 6), (0x7ffd, 15), (0x3, 5), (0x23, 6),
      (0x4, 5), (0x24, 6), (0x5, 5), (0x25, 6), (0x26, 6), (0x27, 6), (0x6, 5), (0x74, 7), (0x75, 7), (0x28, 6),
      (0x29, 6), (0x2a, 6), (0x7, 5), (0x2b, 6), (0x76, 7), (0x2c, 6), (0x8, 5), (0x9, 5), (0x2d, 6), (0x77, 7),
      (0x78, 7), (0x79, 7), (0x7a, 7), (0x7b, 7), (0x7ffe, 15), (0x7fc, 11), (0x3ffd, 14), (0x1ffd, 13),
      (0xffffffc, 28), (0xfffe6, 20), (0x3fffd2, 22), (0xfffe7, 20), (0xfffe8, 20), (0x3fffd3, 22),
      (0x3fffd4, 22), (0x3fffd5, 22), (0x7fffd9, 23), (0x3fffd6, 22), (0x7fffda, 23), (0x7fffdb, 23),
      (0x7fffdc, 23), (0x7fffdd, 23), (0x7fffde, 23), (0xffffeb, 24), (0x7fffdf, 23), (0xffffec, 24),
      (0xffffed, 24), (0x3fffd7, 22), (0x7fffe0, 23), (0xffffee, 24), (0x7fffe1, 23), (0x7fffe2, 23),
      (0x7fffe3, 23), (0x7fffe4, 23), (0x1fffdc, 21), (0x3fffd8, 22), (0x7fffe5, 23), (0x3fffd9, 22),
      (0x7fffe6, 23), (0x7fffe7, 23), (0xffffef, 24), (0x3fffda, 22), (0x1fffdd, 21), (0xfffe9, 20),
      (0x3fffdb, 22), (0x3fffdc, 22), (0x7fffe8, 23), (0x7fffe9, 23), (0x1fffde, 21), (0x7fffea, 23),
      (0x3fffdd, 22), (0x3fffde, 22), (0xfffff0, 24), (0x1fffdf, 21), (0x3fffdf, 22), (0x7fffeb, 23),
      (0x7fffec, 23), (0x1fffe0, 21), (0x1fffe1, 21), (0x3fffe0, 22), (0x1fffe2, 21), (0x7fffed, 23),
      (0x3fffe1, 22), (0x7fffee, 23), (0x7fffef, 23), (0xfffea, 20), (0x3fffe2, 22), (0x3fffe3, 22),
      (0x3fffe4, 22), (0x7ffff0, 23), (0x3fffe5, 22), (0x3fffe6, 22), (0x7ffff1, 23), (0x3ffffe0, 26),
      (0x3ffffe1, 26), (0xfffeb, 20), (0x7fff1, 19), (0x3fffe7, 22), (0x7ffff2, 23), (0x3fffe8, 22),
      (0x1ffffec, 25), (0x3ffffe2, 26), (0x3ffffe3, 26), (0x3ffffe4, 26), (0x7ffffde, 27), (0x7ffffdf, 27),
      (0x3ffffe5, 26), (0xfffff1, 24), (0x1ffffed, 25), (0x7fff2, 19), (0x1fffe3, 21), (0x3ffffe6, 26),
      (0x7ffffe0, 27), (0x7ffffe1, 27), (0x3ffffe7, 26), (0x7ffffe2, 27), (0xfffff2, 24), (0x1fffe4, 21),
      (0x1fffe5, 21), (0x3ffffe8, 26), (0x3ffffe9, 26), (0xffffffd, 28), (0x7ffffe3, 27), (0x7ffffe4, 27),
      (0x7ffffe5, 27), (0xfffec, 20), (0xfffff3, 24), (0xfffed, 20), (0x1fffe6, 21), (0x3fffe9, 22),
      (0x1fffe7, 21), (0x1fffe8, 21), (0x7ffff3, 23), (0x3fffea, 22), (0x3fffeb, 22), (0x1ffffee, 25),
      (0x1ffffef, 25), (0xfffff4, 24), (0xfffff5, 24), (0x3ffffea, 26), (0x7ffff4, 23), (0x3ffffeb, 26),
      (0x7ffffe6, 27), (0x3ffffec, 26), (0x3ffffed, 26), (0x7ffffe7, 27), (0x7ffffe8, 27), (0x7ffffe9, 27),
      (0x7ffffea, 27), (0x7ffffeb, 27), (0xffffffe, 28), (0x7ffffec, 27), (0x7ffffed, 27), (0x7ffffee, 27),
      (0x7ffffef, 27), (0x7fffff0, 27), (0x3ffffee, 26), (0x3fffffff, 30)]"

definition kHuffmanLevel1Bits :: nat where "kHuffmanLevel1Bits = 9"

definition kHuffmanLevel1Size :: nat where "kHuffmanLevel1Size = 2 ^ kHuffmanLevel1Bits"

text \<open>
  \<^verbatim>\<open>kHuffmanDecodeTable\<close>: every entry starts as \<open>(0xFFFF, 0)\<close>; a code of at most nine bits fills the
  entries whose top bits it is.
\<close>

definition fill_code :: "(nat \<times> nat) list \<Rightarrow> nat \<Rightarrow> (nat \<times> nat) list" where
  "fill_code table symb =
     (let (code, bitLen) = kHuffmanCodes ! symb in
      if bitLen \<le> kHuffmanLevel1Bits then
        (let shift = kHuffmanLevel1Bits - bitLen; baseIdx = push_bit shift (unat code) in
         foldl (\<lambda>table iter. table[baseIdx + iter := (symb, bitLen)]) table [0..<2 ^ shift])
      else table)"

definition kHuffmanDecodeTable :: "(nat \<times> nat) list" where
  "kHuffmanDecodeTable =
     foldl fill_code (replicate kHuffmanLevel1Size (0xFFFF, 0)) [0..<length kHuffmanCodes]"

text \<open>The scan of \<^verbatim>\<open>DecodeHuffmanSymbol\<close>: the first symbol with that length and code.\<close>

definition DecodeHuffmanSymbol :: "u32 \<Rightarrow> nat \<Rightarrow> nat" where
  "DecodeHuffmanSymbol code numBits =
     (case find (\<lambda>symb. snd (kHuffmanCodes ! symb) = numBits \<and> fst (kHuffmanCodes ! symb) = code)
             [0..<length kHuffmanCodes] of
        Some symb \<Rightarrow> symb | None \<Rightarrow> 0xFFFF)"

section \<open>Decoder\<close>

text \<open>The refill loop: bytes go below the bits already in the buffer.\<close>

fun refill :: "u64 \<Rightarrow> nat \<Rightarrow> bytes \<Rightarrow> u64 \<times> nat \<times> bytes" where
  "refill bitBuffer bitsInBuffer [] = (bitBuffer, bitsInBuffer, [])"
| "refill bitBuffer bitsInBuffer (b # rest) =
     (if bitsInBuffer \<le> 56
      then refill (bitBuffer OR push_bit (56 - bitsInBuffer) (ucast b)) (bitsInBuffer + 8) rest
      else (bitBuffer, bitsInBuffer, b # rest))"

text \<open>The slow path: lengths from \<open>numBits\<close> up, at most 30 and at most what the buffer holds.\<close>

function slow_search :: "u64 \<Rightarrow> nat \<Rightarrow> nat \<Rightarrow> (nat \<times> nat) option" where
  "slow_search bitBuffer bitsInBuffer numBits =
     (if numBits \<le> 30 \<and> numBits \<le> bitsInBuffer then
        (let code = ucast (drop_bit (64 - numBits) bitBuffer); symb = DecodeHuffmanSymbol code numBits in
         if symb \<noteq> 0xFFFF then Some (symb, numBits) else slow_search bitBuffer bitsInBuffer (numBits + 1))
      else None)"
  by pat_completeness auto
termination
  by (relation "measure (\<lambda>(bitBuffer, bitsInBuffer, numBits). 31 - numBits)") auto

declare slow_search.simps [simp del]

definition level1_lookup :: "u64 \<Rightarrow> nat \<Rightarrow> (nat \<times> nat) option" where
  "level1_lookup bitBuffer bitsInBuffer =
     (if kHuffmanLevel1Bits \<le> bitsInBuffer then
        (let entry = kHuffmanDecodeTable ! unat (drop_bit (64 - kHuffmanLevel1Bits) bitBuffer) in
         if snd entry \<noteq> 0 \<and> snd entry \<le> bitsInBuffer then Some entry else None)
      else None)"

text \<open>The padding check after the loop: fewer than eight bits left, all ones.\<close>

definition check_padding :: "u64 \<Rightarrow> nat \<Rightarrow> bytes \<Rightarrow> bytes option" where
  "check_padding bitBuffer bitsInBuffer buf =
     (if bitsInBuffer > 0 then
        (if bitsInBuffer > 7 then None
         else if (ucast (drop_bit (64 - bitsInBuffer) bitBuffer) :: u8) \<noteq> word_of_nat (2 ^ bitsInBuffer - 1) then None
         else Some buf)
      else Some buf)"

text \<open>
  The loop of \<^verbatim>\<open>decodeHuffman\<close> over the bytes not yet in the buffer; \<open>buf\<close> is what was decoded. \<open>None\<close> is the null
  view that signals an error.
\<close>

lemma refill_measure: "refill b n bs = (b', n', bs') \<Longrightarrow> 8 * length bs' + n' = 8 * length bs + n"
  by (induction b n bs rule: refill.induct) (auto split: if_splits)

lemma slow_search_le: "slow_search b n k = Some (symb, m) \<Longrightarrow> k \<le> m \<and> m \<le> n \<and> m \<le> 30"
proof (induction b n k rule: slow_search.induct)
  case (1 b n k)
  note IH = "1.IH" [OF _ refl refl]
  show ?case
    using "1.prems" IH by (auto simp: slow_search.simps [of b n k] Let_def split: if_splits)
qed

function huffman_loop :: "u64 \<Rightarrow> nat \<Rightarrow> bytes \<Rightarrow> bytes \<Rightarrow> bytes option" where
  "huffman_loop bitBuffer0 bitsInBuffer0 rest0 buf =
     (if rest0 \<noteq> [] \<or> bitsInBuffer0 \<ge> 5 then
        (let (bitBuffer, bitsInBuffer, rest) = refill bitBuffer0 bitsInBuffer0 rest0 in
         case level1_lookup bitBuffer bitsInBuffer of
           Some (symbol, bitsUsed) \<Rightarrow>
             huffman_loop (push_bit bitsUsed bitBuffer) (bitsInBuffer - bitsUsed) rest (buf @ [word_of_nat symbol])
         | None \<Rightarrow>
             (let startBits = (if kHuffmanLevel1Bits \<le> bitsInBuffer then 10 else 5) in
              case slow_search bitBuffer bitsInBuffer startBits of
                Some (symb, numBits) \<Rightarrow>
                  if symb = 256 then None
                  else huffman_loop (push_bit numBits bitBuffer) (bitsInBuffer - numBits) rest (buf @ [word_of_nat symb])
              | None \<Rightarrow> if bitsInBuffer \<ge> 30 then None else check_padding bitBuffer bitsInBuffer buf))
      else check_padding bitBuffer0 bitsInBuffer0 buf)"
  by pat_completeness auto
termination
proof (relation "measure (\<lambda>(b, n, rest, buf). 8 * length rest + n)", goal_cases)
  case 1
  show ?case by simp
next
  case (2 b0 n0 rest0 buf x bb y n rest start z symb bits)
  then have "8 * length rest + n = 8 * length rest0 + n0" by (metis refill_measure)
  moreover have "start \<le> bits" "bits \<le> n" using 2 slow_search_le by blast+
  moreover have "0 < start" using 2 by simp
  ultimately show ?case by simp
next
  case (3 b0 n0 rest0 buf x bb y n rest z symb bits)
  then have "8 * length rest + n = 8 * length rest0 + n0" by (metis refill_measure)
  moreover have "0 < bits" "bits \<le> n" using 3 by (auto simp: level1_lookup_def Let_def split: if_splits)
  ultimately show ?case by simp
qed

declare huffman_loop.simps [simp del]

definition decodeHuffman :: "bytes \<Rightarrow> bytes option" where
  "decodeHuffman data = huffman_loop 0 0 data []"

section \<open>Encoder\<close>

definition HuffmanEncodedLength :: "bytes \<Rightarrow> nat" where
  "HuffmanEncodedLength str = foldl (\<lambda>acc ch. acc + snd (kHuffmanCodes ! unat ch)) 7 str div 8"

text \<open>The inner loop that emits whole bytes, the loop over the characters and the final padding.\<close>

fun emit_bytes :: "u64 \<Rightarrow> nat \<Rightarrow> bytes \<Rightarrow> nat \<times> bytes" where
  "emit_bytes currentCode currentBits out =
     (if currentBits \<ge> 8
      then emit_bytes currentCode (currentBits - 8) (out @ [ucast (drop_bit (currentBits - 8) currentCode AND 0xFF)])
      else (currentBits, out))"

declare emit_bytes.simps [simp del]

fun encode_chars :: "u64 \<Rightarrow> nat \<Rightarrow> bytes \<Rightarrow> bytes \<Rightarrow> u64 \<times> nat \<times> bytes" where
  "encode_chars currentCode currentBits out [] = (currentCode, currentBits, out)"
| "encode_chars currentCode currentBits out (ch # str) =
     (let (code, bitLength) = kHuffmanCodes ! unat ch;
          currentCode' = push_bit bitLength currentCode OR ucast code;
          (currentBits', out') = emit_bytes currentCode' (currentBits + bitLength) out
      in encode_chars currentCode' currentBits' out' str)"

definition EncodeHuffman :: "bytes \<Rightarrow> bytes \<Rightarrow> bytes" where
  "EncodeHuffman output str =
     (let (currentCode, currentBits, out) = encode_chars 0 0 output str in
      if currentBits > 0
      then out @ [ucast (push_bit (8 - currentBits) currentCode) OR word_of_nat (2 ^ (8 - currentBits) - 1)]
      else out)"

section \<open>Codes as lists of bits\<close>

definition code_bits :: "u32 \<times> nat \<Rightarrow> bool list" where
  "code_bits cl = map (\<lambda>i. bit (fst cl) (snd cl - 1 - i)) [0..<snd cl]"

definition code_of :: "nat \<Rightarrow> bool list" where
  "code_of symb = code_bits (kHuffmanCodes ! symb)"

lemma length_code_bits [simp]: "length (code_bits cl) = snd cl"
  by (simp add: code_bits_def)

lemma length_kHuffmanCodes: "length kHuffmanCodes = 257"
  by code_simp

lemma code_lengths: "list_all (\<lambda>cl. 5 \<le> snd cl \<and> snd cl \<le> 30) kHuffmanCodes"
  by code_simp

lemma code_bounds: "list_all (\<lambda>cl. uint (fst cl) < 2 ^ snd cl) kHuffmanCodes"
  by code_simp

lemma code_facts:
  assumes "s < 257"
  shows "5 \<le> snd (kHuffmanCodes ! s)" "snd (kHuffmanCodes ! s) \<le> 30"
    "uint (fst (kHuffmanCodes ! s)) < 2 ^ snd (kHuffmanCodes ! s)"
  using code_lengths code_bounds assms by (simp_all add: list_all_length length_kHuffmanCodes)

lemma code_high_bits: "uint (c :: u32) < 2 ^ l \<Longrightarrow> l \<le> n \<Longrightarrow> \<not> bit c n"
  using bit_above_of_lt [of c l n] by auto

text \<open>The codes as disjoint intervals of 30-bit numbers; disjoint intervals make the code prefix-free.\<close>

definition code_interval :: "u32 \<times> nat \<Rightarrow> int \<times> int" where
  "code_interval cl = (let w = 2 ^ (30 - snd cl) in (uint (fst cl) * w, uint (fst cl) * w + w))"

fun disjoint_ivs :: "(int \<times> int) list \<Rightarrow> bool" where
  "disjoint_ivs [] \<longleftrightarrow> True"
| "disjoint_ivs (x # xs) \<longleftrightarrow>
     list_all (\<lambda>y. snd x \<le> fst y) (filter (\<lambda>y. \<not> snd y \<le> fst x) xs) \<and>
     disjoint_ivs (filter (\<lambda>y. snd y \<le> fst x) xs) \<and>
     disjoint_ivs (filter (\<lambda>y. \<not> snd y \<le> fst x) xs)"

lemma codes_disjoint: "disjoint_ivs (map code_interval kHuffmanCodes)"
  by code_simp

definition apart :: "int \<times> int \<Rightarrow> int \<times> int \<Rightarrow> bool" where
  "apart x y \<longleftrightarrow> snd y \<le> fst x \<or> snd x \<le> fst y"

lemma sorted_wrt_split:
  assumes "sorted_wrt P (filter A xs)" "sorted_wrt P (filter (\<lambda>y. \<not> A y) xs)"
    and "\<And>y z. y \<in> set xs \<Longrightarrow> z \<in> set xs \<Longrightarrow> A y \<Longrightarrow> \<not> A z \<Longrightarrow> P y z \<and> P z y"
  shows "sorted_wrt P xs"
  using assms
proof (induction xs)
  case (Cons x xs)
  then have "sorted_wrt P xs" by (auto split: if_splits)
  with Cons.prems show ?case by (cases "A x") auto
qed simp

lemma disjoint_ivs_apart:
  "disjoint_ivs xs \<Longrightarrow> \<forall>x\<in>set xs. fst x \<le> snd x \<Longrightarrow> sorted_wrt apart xs"
proof (induction xs rule: disjoint_ivs.induct)
  case (2 x xs)
  let ?A = "\<lambda>y. snd y \<le> fst x"
  have r: "\<And>z. z \<in> set xs \<Longrightarrow> \<not> ?A z \<Longrightarrow> snd x \<le> fst z"
    using 2(3) unfolding disjoint_ivs.simps list_all_iff set_filter by blast
  have "sorted_wrt apart (filter ?A xs)" "sorted_wrt apart (filter (\<lambda>y. \<not> ?A y) xs)" using 2 by simp_all
  moreover have "apart y z \<and> apart z y" if "z \<in> set xs" "?A y" "\<not> ?A z" for y z
    using r [OF that(1,3)] that 2(4) by (auto simp: apart_def)
  ultimately have "sorted_wrt apart xs" by (rule sorted_wrt_split)
  moreover have "apart x z" if "z \<in> set xs" for z using r [OF that] by (auto simp: apart_def)
  ultimately show ?case by simp
qed simp

lemma codes_apart:
  assumes "s < 257" "t < 257" "s \<noteq> t"
  shows "apart (code_interval (kHuffmanCodes ! s)) (code_interval (kHuffmanCodes ! t))"
proof -
  have "\<forall>x\<in>set (map code_interval kHuffmanCodes). fst x \<le> snd x" by (auto simp: code_interval_def Let_def)
  then have so: "sorted_wrt apart (map code_interval kHuffmanCodes)"
    by (rule disjoint_ivs_apart [OF codes_disjoint])
  have sym_apart: "apart x y \<Longrightarrow> apart y x" for x y by (auto simp: apart_def)
  have "i < j \<Longrightarrow> j < 257 \<Longrightarrow> apart (code_interval (kHuffmanCodes ! i)) (code_interval (kHuffmanCodes ! j))" for i j
    using so by (simp add: sorted_wrt_iff_nth_less length_kHuffmanCodes)
  then show ?thesis using assms sym_apart by (cases s t rule: linorder_cases) auto
qed

lemma prefix_code_shift:
  fixes c d :: u32
  assumes "uint c < 2 ^ l" "uint d < 2 ^ m" and p: "prefix (code_bits (c, l)) (code_bits (d, m))"
  shows "drop_bit (m - l) d = c"
proof (rule bit_word_eqI)
  fix n assume "n < LENGTH(32)"
  have lm: "l \<le> m" using prefix_length_le [OF p] by simp
  show "bit (drop_bit (m - l) d) n \<longleftrightarrow> bit c n"
  proof (cases "n < l")
    case True
    let ?i = "l - 1 - n"
    have "code_bits (d, m) ! ?i = code_bits (c, l) ! ?i"
      using p True lm by (auto simp: prefix_def nth_append)
    moreover have "m - 1 - ?i = m - l + n" "l - 1 - ?i = n" using True lm by linarith+
    ultimately show ?thesis using True lm by (simp add: code_bits_def bit_drop_bit_eq)
  next
    case False
    then have "m \<le> m - l + n" using lm by linarith
    then show ?thesis using code_high_bits assms(1,2) False by (simp add: bit_drop_bit_eq not_less)
  qed
qed

lemma prefix_not_apart:
  assumes "uint c < 2 ^ l" "uint d < 2 ^ m" "l \<le> 30" "m \<le> 30" and p: "prefix (code_bits (c, l)) (code_bits (d, m))"
  shows "\<not> apart (code_interval (c, l)) (code_interval (d, m))"
proof -
  have lm: "l \<le> m" using prefix_length_le [OF p] by simp
  have q: "uint c = uint d div 2 ^ (m - l)"
  proof -
    have "uint c = drop_bit (m - l) (uint d)"
      using arg_cong [OF prefix_code_shift [OF assms(1,2) p], of uint] uint_u32_lt [of d]
      by (simp add: unsigned_drop_bit_eq take_bit_int_eq_self)
    then show ?thesis by (simp add: drop_bit_eq_div)
  qed
  let ?k = "2 ^ (m - l) :: int" and ?w = "2 ^ (30 - m) :: int"
  have w: "2 ^ (30 - l) = ?k * ?w" using lm assms(4) by (simp flip: power_add)
  have m: "0 \<le> uint d mod ?k" "uint d mod ?k < ?k" by simp_all
  have "uint c * ?k \<le> uint d" "uint d < uint c * ?k + ?k"
    unfolding q using div_mult_mod_eq [of "uint d" ?k] m by linarith+
  then have A: "uint c * ?k * ?w \<le> uint d * ?w" and "uint d * ?w < (uint c * ?k + ?k) * ?w" by simp_all
  then have B: "uint d * ?w < uint c * ?k * ?w + ?k * ?w" by (simp only: distrib_right)
  have W: "0 < ?w" by simp
  have i1: "code_interval (c, l) = (uint c * ?k * ?w, uint c * ?k * ?w + ?k * ?w)"
    by (simp add: code_interval_def Let_def w mult.assoc)
  have i2: "code_interval (d, m) = (uint d * ?w, uint d * ?w + ?w)"
    by (simp add: code_interval_def Let_def)
  show ?thesis unfolding apart_def i1 i2 fst_conv snd_conv using A B W by linarith
qed

lemma prefix_free:
  assumes "s < 257" "t < 257" "prefix (code_of s) (code_of t)" shows "s = t"
  using codes_apart [of s t] prefix_not_apart assms code_facts [OF assms(1)] code_facts [OF assms(2)]
  unfolding code_of_def by (metis prod.collapse)

section \<open>The bit buffer\<close>

text \<open>The \<open>n\<close> most significant bits of the buffer, first bit first.\<close>

definition top_bits :: "u64 \<Rightarrow> nat \<Rightarrow> bool list" where
  "top_bits b n = map (\<lambda>i. bit b (63 - i)) [0..<n]"

lemma length_top_bits [simp]: "length (top_bits b n) = n"
  by (simp add: top_bits_def)

lemma take_top_bits: "m \<le> n \<Longrightarrow> take m (top_bits b n) = top_bits b m"
  by (simp add: top_bits_def take_map)

lemma prefix_top_bits: "m \<le> n \<Longrightarrow> prefix (top_bits b m) (top_bits b n)"
  using take_is_prefix [of m "top_bits b n"] by (simp add: take_top_bits)

lemma length_code_of [simp]: "length (code_of s) = snd (kHuffmanCodes ! s)"
  by (simp add: code_of_def)

lemma prefix_code_top: "prefix (code_of s) (top_bits b n) \<longleftrightarrow>
    snd (kHuffmanCodes ! s) \<le> n \<and> code_of s = top_bits b (snd (kHuffmanCodes ! s))"
proof -
  have "prefix xs ys \<longleftrightarrow> length xs \<le> length ys \<and> xs = take (length xs) ys" for xs ys :: "bool list"
    by (metis prefix_def append_eq_conv_conj append_take_drop_id le_add1 length_append take_all_iff nle_le)
  then show ?thesis by (metis length_code_of length_top_bits take_top_bits)
qed

lemma match_code:
  assumes "s < 257" "kHuffmanCodes ! s = (c, l)"
  shows "(ucast (drop_bit (64 - l) b) :: u32) = c \<longleftrightarrow> code_of s = top_bits b l"
proof
  have l: "5 \<le> l" "l \<le> 30" "uint c < 2 ^ l" using code_facts [OF assms(1)] assms(2) by simp_all
  {
    assume c: "(ucast (drop_bit (64 - l) b) :: u32) = c"
    show "code_of s = top_bits b l"
    proof (rule nth_equalityI)
      fix i assume "i < length (code_of s)"
      then have i: "i < l" using assms(2) by simp
      have "64 - l + (l - Suc i) = 63 - i" using i l by linarith
      moreover have "l - Suc i < 32" using l by linarith
      ultimately show "code_of s ! i = top_bits b l ! i"
        using i assms(2) unfolding c [symmetric] code_of_def
        by (simp add: code_bits_def top_bits_def bit_unsigned_iff bit_drop_bit_eq flip: c)
    qed (simp add: assms(2))
  next
    assume e: "code_of s = top_bits b l"
    show "(ucast (drop_bit (64 - l) b) :: u32) = c"
    proof (rule bit_word_eqI)
      fix n assume "n < LENGTH(32)"
      show "bit (ucast (drop_bit (64 - l) b) :: u32) n \<longleftrightarrow> bit c n"
      proof (cases "n < l")
        case True
        have "code_of s ! (l - 1 - n) = top_bits b l ! (l - 1 - n)" by (simp add: e)
        moreover have "63 - (l - 1 - n) = 64 - l + n" "l - 1 - (l - 1 - n) = n" using True l by linarith+
        ultimately show ?thesis using True l assms(2)
          by (simp add: code_of_def code_bits_def top_bits_def bit_unsigned_iff bit_drop_bit_eq)
      next
        case False
        then have "\<not> bit b (64 - l + n)" using l by (intro notI) (auto dest!: bit_imp_le_length)
        then show ?thesis using False code_high_bits [OF l(3)] by (simp add: bit_unsigned_iff bit_drop_bit_eq)
      qed
    qed
  }
qed

section \<open>Symbol search\<close>

lemma code_top_unique:
  assumes "s < 257" "t < 257" "prefix (code_of s) bs" "prefix (code_of t) bs" shows "s = t"
  using prefix_same_cases [OF assms(3,4)] prefix_free assms(1,2) by blast

lemma DecodeHuffmanSymbol_hit:
  assumes "s < 257" "code_of s = top_bits b m"
  shows "DecodeHuffmanSymbol (ucast (drop_bit (64 - m) b)) m = s"
proof -
  have "m = snd (kHuffmanCodes ! s)" using arg_cong [OF assms(2), of length] by simp
  then obtain c where c: "kHuffmanCodes ! s = (c, m)" by (metis prod.collapse)
  let ?P = "\<lambda>t. snd (kHuffmanCodes ! t) = m \<and> fst (kHuffmanCodes ! t) = ucast (drop_bit (64 - m) b)"
  have only: "t = s" if t: "t < 257" and p: "?P t" for t
  proof -
    obtain d where d: "kHuffmanCodes ! t = (d, m)" using p by (metis prod.collapse)
    then have "code_of t = code_of s" using match_code [OF t d, of b] p assms(2) by simp
    then show ?thesis using prefix_free [OF t assms(1)] by simp
  qed
  have "find ?P [0..<257] = Some s"
  proof -
    have "?P s" using match_code [OF assms(1) c, of b] assms(2) c by simp
    moreover have "\<not> ?P i" if "i < s" for i using only [of i] that assms(1) by auto
    ultimately show ?thesis using assms(1) by (intro find_upt_unique)
  qed
  then show ?thesis by (simp add: DecodeHuffmanSymbol_def length_kHuffmanCodes)
qed

lemma DecodeHuffmanSymbol_miss:
  assumes "\<And>s. s < 257 \<Longrightarrow> code_of s \<noteq> top_bits b m"
  shows "DecodeHuffmanSymbol (ucast (drop_bit (64 - m) b)) m = 0xFFFF"
proof -
  let ?P = "\<lambda>t. snd (kHuffmanCodes ! t) = m \<and> fst (kHuffmanCodes ! t) = ucast (drop_bit (64 - m) b)"
  have "\<not> ?P t" if "t < 257" for t
    using match_code [OF that, of "fst (kHuffmanCodes ! t)" m b] assms [OF that] by (metis prod.collapse)
  then have "find ?P [0..<257] = None" by (auto simp: find_None_iff)
  then show ?thesis by (simp add: DecodeHuffmanSymbol_def length_kHuffmanCodes)
qed

lemma slow_search_iff:
  "slow_search b n k = Some (s, m) \<longleftrightarrow>
     s < 257 \<and> m = snd (kHuffmanCodes ! s) \<and> k \<le> m \<and> prefix (code_of s) (top_bits b n)"
proof (induction b n k rule: slow_search.induct)
  case (1 b n k)
  note IH = "1.IH" [OF _ refl refl]
  show ?case
  proof (cases "k \<le> 30 \<and> k \<le> n")
    case in_range: True
    show ?thesis
    proof (cases "\<exists>t < 257. code_of t = top_bits b k")
      case True
      then obtain t where t: "t < 257" "code_of t = top_bits b k" by blast
      have tk: "snd (kHuffmanCodes ! t) = k" using arg_cong [OF t(2), of length] by simp
      have "slow_search b n k = Some (t, k)"
        using in_range DecodeHuffmanSymbol_hit [OF t] t(1)
        by (simp add: slow_search.simps [of b n k] Let_def)
      moreover have "prefix (code_of t) (top_bits b n)" using t in_range by (simp add: prefix_top_bits)
      ultimately show ?thesis using code_top_unique t(1) tk by auto
    next
      case False
      then have miss: "DecodeHuffmanSymbol (ucast (drop_bit (64 - k) b)) k = 0xFFFF"
        by (intro DecodeHuffmanSymbol_miss) auto
      have "snd (kHuffmanCodes ! s) \<noteq> k" if "s < 257" "prefix (code_of s) (top_bits b n)"
        using False that by (auto simp: prefix_code_top)
      then show ?thesis using in_range miss IH
        by (auto simp: slow_search.simps [of b n k] Let_def)
    qed
  next
    case False
    then show ?thesis using code_facts(2) [of s]
      by (auto simp: slow_search.simps [of b n k] prefix_code_top)
  qed
qed

section \<open>The nine-bit table\<close>

lemma length_fill: "length (foldl (\<lambda>t i. t[base + i := v]) t is) = length t"
  by (induction "is" arbitrary: t) simp_all

lemma nth_fill:
  "j < length t \<Longrightarrow> foldl (\<lambda>t i. t[base + i := v]) t [0..<cnt] ! j = (if base \<le> j \<and> j < base + cnt then v else t ! j)"
proof (induction cnt)
  case (Suc cnt)
  then show ?case by (cases "j = base + cnt") (auto simp: length_fill)
qed auto

lemma length_fill_code [simp]: "length (fill_code t s) = length t"
  by (simp add: fill_code_def Let_def length_fill split: prod.split)

lemma div_range: "j div 2 ^ k = (c :: nat) \<longleftrightarrow> c * 2 ^ k \<le> j \<and> j < c * 2 ^ k + 2 ^ k"
proof
  assume "j div 2 ^ k = c"
  moreover have "j mod 2 ^ k < 2 ^ k" by simp
  ultimately show "c * 2 ^ k \<le> j \<and> j < c * 2 ^ k + 2 ^ k" using div_mult_mod_eq [of j "2 ^ k"]
    by (metis add_less_cancel_left le_add1)
next
  assume "c * 2 ^ k \<le> j \<and> j < c * 2 ^ k + 2 ^ k"
  then show "j div 2 ^ k = c" by (intro div_nat_eqI) (simp_all add: mult.commute)
qed

lemma unat_drop_bit_u64: "unat (drop_bit k (b :: u64)) = unat b div 2 ^ k"
proof -
  have "unat b < 2 ^ 64" using unsigned_less [of b] by simp
  then show ?thesis by (simp add: unsigned_drop_bit_eq take_bit_nat_eq_self drop_bit_eq_div [where 'a = nat])
qed

lemma unat_drop_bit_lt: "m \<le> 64 \<Longrightarrow> unat (drop_bit (64 - m) (b :: u64)) < 2 ^ m"
proof -
  assume m: "m \<le> 64"
  have "unat b < 2 ^ 64" using unsigned_less [of b] by simp
  also have "(2 :: nat) ^ 64 = 2 ^ m * 2 ^ (64 - m)" using m by (simp flip: power_add)
  finally show ?thesis by (simp add: unat_drop_bit_u64 less_mult_imp_div_less)
qed

lemma level1_index_match:
  assumes "s < 257" "kHuffmanCodes ! s = (c, l)" "l \<le> 9"
  shows "unat (drop_bit 55 b) div 2 ^ (9 - l) = unat c \<longleftrightarrow> code_of s = top_bits b l"
proof -
  let ?w = "drop_bit (64 - l) b"
  have "(55 :: nat) + (9 - l) = 64 - l" using assms(3) by simp
  then have "unat (drop_bit 55 b) div 2 ^ (9 - l) = unat ?w"
    by (simp only: unat_drop_bit_u64 flip: div_mult2_eq power_add)
  moreover have "unat ?w = unat c \<longleftrightarrow> (ucast ?w :: u32) = c"
  proof -
    have "unat ?w < 2 ^ l" using assms(3) by (intro unat_drop_bit_lt) simp
    also have "\<dots> \<le> (2 :: nat) ^ 32" using assms(3) by (intro power_increasing) simp_all
    finally have "unat (ucast ?w :: u32) = unat ?w" by (simp add: unsigned_ucast_eq take_bit_nat_eq_self)
    then show ?thesis by (metis word_eq_iff_unsigned)
  qed
  ultimately show ?thesis using match_code [OF assms(1,2)] by simp
qed

definition level1_hit :: "u64 \<Rightarrow> nat \<Rightarrow> bool" where
  "level1_hit b s \<longleftrightarrow> snd (kHuffmanCodes ! s) \<le> 9 \<and> code_of s = top_bits b (snd (kHuffmanCodes ! s))"

lemma level1_hit_iff: "9 \<le> n \<Longrightarrow> level1_hit b s \<longleftrightarrow> snd (kHuffmanCodes ! s) \<le> 9 \<and> prefix (code_of s) (top_bits b n)"
  unfolding level1_hit_def prefix_code_top by auto

lemma level1_hit_unique: "s < 257 \<Longrightarrow> t < 257 \<Longrightarrow> level1_hit b s \<Longrightarrow> level1_hit b t \<Longrightarrow> s = t"
  using code_top_unique [of s t "top_bits b 9"] by (simp add: level1_hit_iff [of 9])

lemma fill_code_nth:
  assumes "s < 257" "j = unat (drop_bit 55 (b :: u64))" "j < length t"
  shows "fill_code t s ! j = (if level1_hit b s then (s, snd (kHuffmanCodes ! s)) else t ! j)"
proof -
  obtain c l where cl: "kHuffmanCodes ! s = (c, l)" by fastforce
  show ?thesis
  proof (cases "l \<le> 9")
    case True
    have "fill_code t s ! j = (if j div 2 ^ (9 - l) = unat c then (s, l) else t ! j)"
      using True assms(3) unfolding fill_code_def cl Let_def prod.case div_range
      by (simp add: nth_fill kHuffmanLevel1Bits_def push_bit_eq_mult)
    then show ?thesis using level1_index_match [OF assms(1) cl True, of b] assms(2) cl True
      by (simp add: level1_hit_def)
  next
    case False
    then show ?thesis by (simp add: fill_code_def cl kHuffmanLevel1Bits_def level1_hit_def)
  qed
qed

lemma decode_table_prefix:
  assumes "n \<le> 257" "j = unat (drop_bit 55 (b :: u64))" "j < 512"
  defines "t \<equiv> foldl fill_code (replicate 512 (0xFFFF, 0)) [0..<n]"
  shows "(\<forall>s < n. level1_hit b s \<longrightarrow> t ! j = (s, snd (kHuffmanCodes ! s))) \<and>
         ((\<forall>s < n. \<not> level1_hit b s) \<longrightarrow> t ! j = (0xFFFF, 0)) \<and> length t = 512"
  using assms(1) unfolding t_def
proof (induction n)
  case 0
  then show ?case using assms(3) by simp
next
  case (Suc n)
  let ?t = "foldl fill_code (replicate 512 (0xFFFF, 0)) [0..<n]"
  have n: "n < 257" "n \<le> 257" using Suc.prems by simp_all
  note IH = Suc.IH [OF n(2)]
  have nth: "fill_code ?t n ! j = (if level1_hit b n then (n, snd (kHuffmanCodes ! n)) else ?t ! j)"
    using fill_code_nth [OF n(1) assms(2)] IH assms(3) by simp
  show ?case
  proof (cases "level1_hit b n")
    case True
    then have "s = n" if "s < Suc n" "level1_hit b s" for s
      using level1_hit_unique [of s n b] that n(1) by simp
    then show ?thesis using True nth IH by auto
  next
    case False
    then show ?thesis using nth IH by (auto simp: less_Suc_eq)
  qed
qed

lemma level1_lookup_iff:
  "level1_lookup b n = Some (s, m) \<longleftrightarrow>
     9 \<le> n \<and> s < 257 \<and> m = snd (kHuffmanCodes ! s) \<and> m \<le> 9 \<and> prefix (code_of s) (top_bits b n)"
proof (cases "9 \<le> n")
  case n: True
  let ?j = "unat (drop_bit 55 b)"
  have j: "?j < 512" using unat_drop_bit_lt [of 9 b] by simp
  have t: "kHuffmanDecodeTable = foldl fill_code (replicate 512 (0xFFFF, 0)) [0..<257]"
    unfolding kHuffmanDecodeTable_def kHuffmanLevel1Size_def kHuffmanLevel1Bits_def length_kHuffmanCodes by simp
  note tab = decode_table_prefix [OF order_refl refl j, folded t]
  let ?e = "kHuffmanDecodeTable ! ?j"
  have lk: "level1_lookup b n = (if snd ?e \<noteq> 0 \<and> snd ?e \<le> n then Some ?e else None)"
    using n by (simp add: level1_lookup_def kHuffmanLevel1Bits_def Let_def)
  show ?thesis
  proof (cases "\<exists>t < 257. level1_hit b t")
    case True
    then obtain u where u: "u < 257" "level1_hit b u" by blast
    have e: "?e = (u, snd (kHuffmanCodes ! u))" using tab u by simp
    have "0 < snd (kHuffmanCodes ! u)" "snd (kHuffmanCodes ! u) \<le> n"
      using code_facts(1) [OF u(1)] u(2) n by (simp_all add: level1_hit_def)
    then have lu: "level1_lookup b n = Some (u, snd (kHuffmanCodes ! u))" unfolding lk e by simp
    note hu = u(2) [unfolded level1_hit_iff [OF n]]
    show ?thesis
    proof
      assume "level1_lookup b n = Some (s, m)"
      with lu have "s = u" "m = snd (kHuffmanCodes ! u)" by simp_all
      with u(1) hu n show "9 \<le> n \<and> s < 257 \<and> m = snd (kHuffmanCodes ! s) \<and> m \<le> 9 \<and> prefix (code_of s) (top_bits b n)"
        by simp
    next
      assume r: "9 \<le> n \<and> s < 257 \<and> m = snd (kHuffmanCodes ! s) \<and> m \<le> 9 \<and> prefix (code_of s) (top_bits b n)"
      then have "s = u" using level1_hit_unique [OF _ u(1) _ u(2), of s] level1_hit_iff [OF n, of b s] by blast
      with r lu show "level1_lookup b n = Some (s, m)" by simp
    qed
  next
    case False
    then have "level1_lookup b n = None" using tab unfolding lk by simp
    then show ?thesis using False level1_hit_iff [OF n, of b s] by (metis option.distinct(1))
  qed
next
  case False
  then show ?thesis by (simp add: level1_lookup_def kHuffmanLevel1Bits_def)
qed

section \<open>The decoder computes the reference\<close>

definition byte_bits :: "u8 \<Rightarrow> bool list" where
  "byte_bits b = map (\<lambda>i. bit b (7 - i)) [0..<8]"

definition bits_of :: "bytes \<Rightarrow> bool list" where
  "bits_of bs = concat (map byte_bits bs)"

text \<open>The symbol whose code starts the text, if there is one.\<close>

definition first_symbol :: "bool list \<Rightarrow> nat option" where
  "first_symbol bs = find (\<lambda>s. prefix (code_of s) bs) [0..<257]"

lemma first_symbol_iff: "first_symbol bs = Some s \<longleftrightarrow> s < 257 \<and> prefix (code_of s) bs"
proof
  assume "first_symbol bs = Some s"
  then show "s < 257 \<and> prefix (code_of s) bs" unfolding first_symbol_def find_Some_iff by auto
next
  assume a: "s < 257 \<and> prefix (code_of s) bs"
  then have "\<not> prefix (code_of i) bs" if "i < s" for i using code_top_unique [of i s bs] that by auto
  then show "first_symbol bs = Some s" unfolding first_symbol_def using a by (intro find_upt_unique) auto
qed

lemma first_symbol_None: "first_symbol bs = None \<longleftrightarrow> (\<forall>s < 257. \<not> prefix (code_of s) bs)"
  by (metis first_symbol_iff option.exhaust option.distinct(1))

text \<open>RFC 7541, section 5.2: strip codes from the front; at most seven bits of ones may be left.\<close>

function huffman_spec :: "bool list \<Rightarrow> bytes option" where
  "huffman_spec bs =
     (case first_symbol bs of
        Some s \<Rightarrow> if s = 256 then None
                  else map_option (Cons (word_of_nat s)) (huffman_spec (drop (length (code_of s)) bs))
      | None \<Rightarrow> if length bs \<le> 7 \<and> list_all id bs then Some [] else None)"
  by pat_completeness auto
termination
proof (relation "measure length", goal_cases)
  case (2 bs s)
  then have "s < 257" "prefix (code_of s) bs" by (simp_all add: first_symbol_iff)
  then show ?case using code_facts(1) [of s] prefix_length_le [of "code_of s" bs] by simp
qed simp

declare huffman_spec.simps [simp del]

definition low_clear :: "u64 \<Rightarrow> nat \<Rightarrow> bool" where
  "low_clear b n \<longleftrightarrow> n \<le> 64 \<and> (\<forall>k < 64 - n. \<not> bit b k)"

lemma refill_step:
  assumes "low_clear b n" "n \<le> 56"
  shows "top_bits (b OR push_bit (56 - n) (ucast x)) (n + 8) = top_bits b n @ byte_bits x"
    and "low_clear (b OR push_bit (56 - n) (ucast x)) (n + 8)"
proof -
  show "top_bits (b OR push_bit (56 - n) (ucast x)) (n + 8) = top_bits b n @ byte_bits x"
  proof (rule nth_equalityI)
    fix i assume "i < length (top_bits (b OR push_bit (56 - n) (ucast x)) (n + 8))"
    then have i: "i < n + 8" by simp
    have bx: "bit x j \<Longrightarrow> j < 8" for j using bit_imp_le_length [of x j] by simp
    have q: "bit (b OR push_bit (56 - n) (ucast x)) (63 - i) \<longleftrightarrow>
        bit b (63 - i) \<or> (56 - n \<le> 63 - i \<and> bit x (63 - i - (56 - n)))"
      using i assms(2) by (auto simp: bit_or_iff bit_push_bit_iff bit_unsigned_iff dest: bx)
    show "top_bits (b OR push_bit (56 - n) (ucast x)) (n + 8) ! i = (top_bits b n @ byte_bits x) ! i"
    proof (cases "i < n")
      case True
      then have "\<not> bit x (63 - i - (56 - n))" using bx [of "63 - i - (56 - n)"] assms(2) by (intro notI) linarith
      then show ?thesis using True i q by (simp add: top_bits_def nth_append)
    next
      case False
      then have "\<not> bit b (63 - i)" using assms i by (simp add: low_clear_def)
      moreover have "63 - i - (56 - n) = 7 - (i - n)" "56 - n \<le> 63 - i" "i - n < 8" using False i assms(2) by linarith+
      ultimately show ?thesis using False i q by (simp add: top_bits_def byte_bits_def nth_append)
    qed
  qed (simp add: byte_bits_def)
  show "low_clear (b OR push_bit (56 - n) (ucast x)) (n + 8)"
    using assms by (auto simp: low_clear_def bit_or_iff bit_push_bit_iff)
qed

lemma refill_spec:
  "low_clear b n \<Longrightarrow> refill b n bs = (b', n', bs') \<Longrightarrow>
     low_clear b' n' \<and> top_bits b' n' @ bits_of bs' = top_bits b n @ bits_of bs \<and> (bs' = [] \<or> 56 < n')"
proof (induction b n bs rule: refill.induct)
  case (2 b n x rest)
  show ?case
  proof (cases "n \<le> 56")
    case True
    then have "refill (b OR push_bit (56 - n) (ucast x)) (n + 8) rest = (b', n', bs')" using 2 by simp
    from "2.IH" [OF True refill_step(2) [OF 2(2) True] this] show ?thesis
      by (simp add: refill_step(1) [OF 2(2) True] bits_of_def)
  next
    case False
    then show ?thesis using 2 by auto
  qed
qed auto

lemma shift_buffer:
  assumes "low_clear b n" "k \<le> n"
  shows "top_bits (push_bit k b) (n - k) = drop k (top_bits b n)" "low_clear (push_bit k b) (n - k)"
proof -
  have n: "n \<le> 64" using assms(1) by (simp add: low_clear_def)
  show "top_bits (push_bit k b) (n - k) = drop k (top_bits b n)"
  proof (rule nth_equalityI)
    fix i assume "i < length (top_bits (push_bit k b) (n - k))"
    then have i: "i < n - k" by simp
    then have "k \<le> 63 - i" "63 - i - k = 63 - (k + i)" "k + i < n" "63 - i < 64" using n by linarith+
    then show "top_bits (push_bit k b) (n - k) ! i = drop k (top_bits b n) ! i"
      using i assms(2) by (simp add: top_bits_def bit_push_bit_iff)
  qed simp
  have "\<not> bit (push_bit k b) j" if "j < 64 - (n - k)" for j
  proof (cases "k \<le> j")
    case True
    then have "j - k < 64 - n" using that assms(2) n by linarith
    then show ?thesis using assms(1) by (simp add: low_clear_def bit_push_bit_iff)
  qed (simp add: bit_push_bit_iff)
  then show "low_clear (push_bit k b) (n - k)" using n by (simp add: low_clear_def)
qed

lemma ones_iff:
  assumes "n \<le> 7"
  shows "(ucast (drop_bit (64 - n) b) :: u8) = word_of_nat (2 ^ n - 1) \<longleftrightarrow> list_all id (top_bits b n)"
proof -
  have m: "(word_of_nat (2 ^ n - 1) :: u8) = mask n" by (simp add: mask_eq_exp_minus_1 of_nat_diff)
  have hi: "\<not> bit b (64 - n + k)" if "n \<le> k" for k
    using that assms bit_imp_le_length [of b "64 - n + k"] by (intro notI) simp
  have "(ucast (drop_bit (64 - n) b) :: u8) = mask n \<longleftrightarrow> (\<forall>k < n. bit b (64 - n + k))"
  proof -
    have "(ucast (drop_bit (64 - n) b) :: u8) = mask n \<longleftrightarrow> (\<forall>k < 8. bit b (64 - n + k) \<longleftrightarrow> k < n)"
      using assms by (auto simp: bit_eq_iff bit_unsigned_iff bit_drop_bit_eq bit_mask_iff)
    moreover have "(\<forall>k < 8. P k \<longleftrightarrow> k < n) \<longleftrightarrow> (\<forall>k < n. P k)" if "\<And>k. n \<le> k \<Longrightarrow> \<not> P k" for P
      using that assms by (auto simp: not_less [symmetric])
    ultimately show ?thesis using hi by simp
  qed
  also have "\<dots> \<longleftrightarrow> (\<forall>i < n. bit b (63 - i))"
  proof (intro iffI allI impI)
    fix i assume "\<forall>k < n. bit b (64 - n + k)" "i < n"
    moreover have "63 - i = 64 - n + (n - 1 - i)" "n - 1 - i < n" using \<open>i < n\<close> assms by linarith+
    ultimately show "bit b (63 - i)" by metis
  next
    fix k assume "\<forall>i < n. bit b (63 - i)" "k < n"
    moreover have "64 - n + k = 63 - (n - 1 - k)" "n - 1 - k < n" using \<open>k < n\<close> assms by linarith+
    ultimately show "bit b (64 - n + k)" by metis
  qed
  also have "\<dots> \<longleftrightarrow> list_all id (top_bits b n)" by (simp add: top_bits_def list_all_length)
  finally show ?thesis unfolding m .
qed

lemma check_padding_spec:
  "check_padding b n buf = (if n \<le> 7 \<and> list_all id (top_bits b n) then Some buf else None)"
  using ones_iff [of n b] by (auto simp: check_padding_def top_bits_def)

lemma append_snoc: "append (xs @ [x]) = (\<lambda>ys. xs @ x # ys)"
  by auto

lemma eos_length: "snd (kHuffmanCodes ! 256) = 30"
  by code_simp

lemma huffman_loop_spec:
  "low_clear b n \<Longrightarrow> huffman_loop b n rest buf = map_option (append buf) (huffman_spec (top_bits b n @ bits_of rest))"
proof (induction "8 * length rest + n" arbitrary: b n rest buf rule: less_induct)
  case (less n0 rest0 b0 buf)
  show ?case
  proof (cases "rest0 \<noteq> [] \<or> 5 \<le> n0")
    case False
    have "\<not> prefix (code_of s) (top_bits b0 n0)" if "s < 257" for s
      using False code_facts(1) [OF that] by (simp add: prefix_code_top)
    then have none: "first_symbol (top_bits b0 n0) = None" by (simp add: first_symbol_None)
    show ?thesis using False none
      by (simp add: huffman_loop.simps [of b0 n0 "[]" buf] huffman_spec.simps [of "top_bits b0 n0"] bits_of_def
          check_padding_spec)
  next
    case True
    obtain b n rest where rf: "refill b0 n0 rest0 = (b, n, rest)" using prod_cases3 by blast
    let ?bs = "top_bits b n @ bits_of rest"
    from refill_spec [OF less.prems rf] have lc: "low_clear b n"
      and eq: "?bs = top_bits b0 n0 @ bits_of rest0" and full: "rest = [] \<or> 56 < n" by auto
    have pre: "prefix (code_of s) ?bs \<longleftrightarrow> prefix (code_of s) (top_bits b n)" if "s < 257" for s
    proof (cases "rest = []")
      case False
      then have "length (code_of s) \<le> length (top_bits b n)" using full code_facts(2) [OF that] by simp
      then show ?thesis by (auto intro: prefix_prefix dest: prefix_length_prefix [of _ ?bs "top_bits b n"])
    qed (simp add: bits_of_def)
    let ?start = "if 9 \<le> n then 10 else (5 :: nat)"
    show ?thesis
    proof (cases "first_symbol ?bs")
      case (Some s)
      let ?l = "snd (kHuffmanCodes ! s)"
      from Some have s: "s < 257" "prefix (code_of s) (top_bits b n)" using pre by (auto simp: first_symbol_iff)
      have l: "5 \<le> ?l" "?l \<le> n" using code_facts(1) [OF s(1)] s(2) by (simp_all add: prefix_code_top)
      have m: "8 * length rest + (n - ?l) < 8 * length rest0 + n0" using refill_measure [OF rf] l by linarith
      have step: "huffman_loop b0 n0 rest0 buf =
          (if s = 256 then None else huffman_loop (push_bit ?l b) (n - ?l) rest (buf @ [word_of_nat s]))"
      proof (cases "9 \<le> n \<and> ?l \<le> 9")
        case short: True
        then have "level1_lookup b n = Some (s, ?l)" using s by (simp add: level1_lookup_iff)
        moreover have "s \<noteq> 256" using short eos_length by auto
        ultimately show ?thesis using True rf by (simp add: huffman_loop.simps [of b0 n0 rest0 buf])
      next
        case False
        then have "?start \<le> ?l" using l by auto
        then have "slow_search b n ?start = Some (s, ?l)" using s by (simp add: slow_search_iff)
        moreover have "level1_lookup b n = None"
          using level1_lookup_iff [of b n] code_top_unique [OF _ s(1) _ s(2)] False by (metis not_None_eq surj_pair)
        ultimately show ?thesis using True rf
          by (simp add: huffman_loop.simps [of b0 n0 rest0 buf] kHuffmanLevel1Bits_def)
      qed
      have "huffman_loop (push_bit ?l b) (n - ?l) rest (buf @ [word_of_nat s])
          = map_option (\<lambda>x. buf @ word_of_nat s # x) (huffman_spec (drop ?l ?bs))"
        using less.hyps [OF m] shift_buffer [OF lc l(2)] l(2) by (simp add: append_snoc)
      then show ?thesis using step Some unfolding eq [symmetric]
        by (simp add: huffman_spec.simps [of ?bs] option.map_comp comp_def)
    next
      case None
      then have no: "\<not> prefix (code_of s) (top_bits b n)" if "s < 257" for s
        using pre that by (auto simp: first_symbol_None)
      have l1: "level1_lookup b n = None"
        using level1_lookup_iff [of b n] no by (metis not_None_eq surj_pair)
      have sl: "slow_search b n k = None" for k
        using slow_search_iff [of b n k] no by (metis not_None_eq surj_pair)
      have "huffman_loop b0 n0 rest0 buf = (if 30 \<le> n then None else check_padding b n buf)"
        using True rf l1 sl by (simp add: huffman_loop.simps [of b0 n0 rest0 buf])
      moreover have "rest = []" if "n < 30" using full that by simp
      moreover have "huffman_spec ?bs = (if length ?bs \<le> 7 \<and> list_all id ?bs then Some [] else None)"
        using None by (simp add: huffman_spec.simps [of ?bs])
      ultimately show ?thesis unfolding eq [symmetric]
        by (cases "n < 30") (auto simp: check_padding_spec bits_of_def)
    qed
  qed
qed


section \<open>The encoder\<close>

text \<open>The low \<open>n\<close> bits of the accumulator, most significant first.\<close>

definition acc_bits :: "u64 \<Rightarrow> nat \<Rightarrow> bool list" where
  "acc_bits w n = map (\<lambda>i. bit w (n - 1 - i)) [0..<n]"

lemma length_acc_bits [simp]: "length (acc_bits w n) = n"
  by (simp add: acc_bits_def)

lemma acc_bits_push:
  assumes "s < 257" "kHuffmanCodes ! s = (c, l)" "n \<le> 7"
  shows "acc_bits (push_bit l w OR ucast c) (n + l) = acc_bits w n @ code_of s"
proof (rule nth_equalityI)
  have l: "5 \<le> l" "l \<le> 30" "uint c < 2 ^ l" using code_facts [OF assms(1)] assms(2) by simp_all
  fix i assume "i < length (acc_bits (push_bit l w OR ucast c) (n + l))"
  then have i: "i < n + l" by simp
  let ?k = "n + l - 1 - i"
  have b: "bit (push_bit l w OR ucast c) ?k \<longleftrightarrow> (l \<le> ?k \<and> bit w (?k - l)) \<or> bit c ?k"
    using i l assms(3) by (auto simp: bit_or_iff bit_push_bit_iff bit_unsigned_iff)
  show "acc_bits (push_bit l w OR ucast c) (n + l) ! i = (acc_bits w n @ code_of s) ! i"
  proof (cases "i < n")
    case True
    then have "\<not> bit c ?k" using code_high_bits [OF l(3), of ?k] by simp
    moreover have "l \<le> ?k" "?k - l = n - 1 - i" using True by linarith+
    ultimately show ?thesis using True i b by (simp add: acc_bits_def nth_append)
  next
    case False
    have "\<not> l \<le> ?k" "?k = l - 1 - (i - n)" "i - n < l" using False i l by linarith+
    then show ?thesis using False i b assms(2) by (simp add: acc_bits_def nth_append code_of_def code_bits_def)
  qed
qed (simp add: assms(2))

lemma emit_byte_bits:
  assumes "8 \<le> n" "n \<le> 64"
  shows "byte_bits (ucast (drop_bit (n - 8) w AND 0xFF)) @ acc_bits w (n - 8) = acc_bits w n"
proof (rule nth_equalityI)
  let ?x = "ucast (drop_bit (n - 8) w AND 0xFF) :: u8"
  have ff: "(0xFF :: u64) = mask 8" by (simp add: mask_eq_exp_minus_1)
  fix i assume "i < length (byte_bits ?x @ acc_bits w (n - 8))"
  then have i: "i < n" using assms by (simp add: byte_bits_def)
  show "(byte_bits ?x @ acc_bits w (n - 8)) ! i = acc_bits w n ! i"
  proof (cases "i < 8")
    case True
    then have "n - 8 + (7 - i) = n - 1 - i" "7 - i < 8" using assms by linarith+
    then have "bit ?x (7 - i) \<longleftrightarrow> bit w (n - 1 - i)"
      unfolding ff by (simp add: bit_unsigned_iff bit_and_iff bit_mask_iff bit_drop_bit_eq)
    then show ?thesis using True i by (simp add: byte_bits_def acc_bits_def nth_append)
  next
    case False
    have "n - 8 - 1 - (i - 8) = n - 1 - i" "i - 8 < n - 8" using False i by linarith+
    then show ?thesis using False i by (simp add: byte_bits_def acc_bits_def nth_append)
  qed
qed (use assms in \<open>simp add: byte_bits_def\<close>)

lemma emit_bytes_spec:
  "emit_bytes w n out = (n', out') \<Longrightarrow> n \<le> 64 \<Longrightarrow>
     n' \<le> 7 \<and> (\<exists>em. out' = out @ em \<and> bits_of em @ acc_bits w n' = acc_bits w n)"
proof (induction w n out rule: emit_bytes.induct)
  case (1 w n out)
  show ?case
  proof (cases "8 \<le> n")
    case True
    let ?x = "ucast (drop_bit (n - 8) w AND 0xFF) :: u8"
    have "emit_bytes w (n - 8) (out @ [?x]) = (n', out')" using 1(2) True by (simp add: emit_bytes.simps [of w n out])
    from "1.IH" [OF True this] 1(3) obtain em where em: "n' \<le> 7" "out' = (out @ [?x]) @ em"
        "bits_of em @ acc_bits w n' = acc_bits w (n - 8)" by (auto simp: le_diff_conv)
    have "byte_bits ?x @ acc_bits w (n - 8) = acc_bits w n" using True 1(3) by (rule emit_byte_bits)
    with em show ?thesis by (intro conjI exI [of _ "?x # em"]) (simp_all add: bits_of_def)
  next
    case False
    then show ?thesis using 1(2) by (auto simp: emit_bytes.simps [of w n out] bits_of_def)
  qed
qed

lemma encode_chars_spec:
  "encode_chars w n out str = (w', n', out') \<Longrightarrow> n \<le> 7 \<Longrightarrow>
     n' \<le> 7 \<and> (\<exists>em. out' = out @ em \<and>
       bits_of em @ acc_bits w' n' = acc_bits w n @ concat (map (\<lambda>ch. code_of (unat ch)) str))"
proof (induction w n out str rule: encode_chars.induct)
  case (2 w n out ch str)
  obtain c l where cl: "kHuffmanCodes ! unat ch = (c, l)" by fastforce
  have s: "unat ch < 257" using unat_u8_lt [of ch] by simp
  let ?w = "push_bit l w OR ucast c"
  obtain n1 out1 where e: "emit_bytes ?w (n + l) out = (n1, out1)" by fastforce
  have "n + l \<le> 64" using 2(3) code_facts(2) [OF s] cl by simp
  from emit_bytes_spec [OF e this] obtain em1 where em1: "n1 \<le> 7" "out1 = out @ em1"
      "bits_of em1 @ acc_bits ?w n1 = acc_bits ?w (n + l)" by blast
  have "encode_chars ?w n1 out1 str = (w', n', out')" using 2(2) cl e by (simp add: Let_def)
  from "2.IH" [OF cl [symmetric] refl refl e [symmetric] refl this em1(1)] obtain em2 where em2: "n' \<le> 7" "out' = out1 @ em2"
      "bits_of em2 @ acc_bits w' n' = acc_bits ?w n1 @ concat (map (\<lambda>ch. code_of (unat ch)) str)" by blast
  have "bits_of (em1 @ em2) @ acc_bits w' n' = acc_bits w n @ code_of (unat ch) @ concat (map (\<lambda>ch. code_of (unat ch)) str)"
    using em1(3) em2(3) acc_bits_push [OF s cl 2(3), of w] by (simp add: bits_of_def)
  with em1 em2 show ?case by (intro conjI exI [of _ "em1 @ em2"]) simp_all
qed (auto simp: bits_of_def)

definition huffman_bits :: "bytes \<Rightarrow> bool list" where
  "huffman_bits str = concat (map (\<lambda>ch. code_of (unat ch)) str)"

lemma final_byte_bits:
  assumes "0 < n" "n \<le> 7"
  shows "byte_bits (ucast (push_bit (8 - n) w) OR word_of_nat (2 ^ (8 - n) - 1)) = acc_bits w n @ replicate (8 - n) True"
    (is "byte_bits ?x = _")
proof (rule nth_equalityI)
  have m: "(word_of_nat (2 ^ (8 - n) - 1) :: u8) = mask (8 - n)" by (simp add: mask_eq_exp_minus_1 of_nat_diff)
  fix i assume "i < length (byte_bits ?x)"
  then have i: "i < 8" by (simp add: byte_bits_def)
  have b: "bit ?x (7 - i) \<longleftrightarrow> (8 - n \<le> 7 - i \<and> bit w (7 - i - (8 - n))) \<or> 7 - i < 8 - n"
    unfolding m using i by (auto simp: bit_or_iff bit_unsigned_iff bit_push_bit_iff bit_mask_iff)
  show "byte_bits ?x ! i = (acc_bits w n @ replicate (8 - n) True) ! i"
  proof (cases "i < n")
    case True
    then have "8 - n \<le> 7 - i" "7 - i - (8 - n) = n - 1 - i" "\<not> 7 - i < 8 - n" using assms by linarith+
    then show ?thesis using True i b by (simp add: byte_bits_def acc_bits_def nth_append)
  next
    case False
    then have "7 - i < 8 - n" using i by linarith
    moreover have "i - n < 8 - n" using False i assms by linarith
    ultimately show ?thesis using False i b by (simp add: byte_bits_def nth_append)
  qed
qed (use assms in \<open>simp add: byte_bits_def\<close>)

lemma EncodeHuffman_spec:
  "\<exists>em k. EncodeHuffman output str = output @ em \<and> k \<le> 7 \<and> bits_of em = huffman_bits str @ replicate k True"
proof -
  obtain w n out where e: "encode_chars 0 0 output str = (w, n, out)" using prod_cases3 by blast
  from encode_chars_spec [OF e] obtain em where em: "n \<le> 7" "out = output @ em"
      "bits_of em @ acc_bits w n = huffman_bits str" by (auto simp: huffman_bits_def acc_bits_def)
  show ?thesis
  proof (cases "0 < n")
    case True
    let ?x = "ucast (push_bit (8 - n) w) OR word_of_nat (2 ^ (8 - n) - 1) :: u8"
    have "bits_of (em @ [?x]) = huffman_bits str @ replicate (8 - n) True"
      using final_byte_bits [OF True em(1), of w] em(3) by (simp add: bits_of_def)
    moreover have "EncodeHuffman output str = output @ em @ [?x]" using e em(2) True by (simp add: EncodeHuffman_def)
    moreover have "8 - n \<le> 7" using True by simp
    ultimately show ?thesis by blast
  next
    case False
    then have "EncodeHuffman output str = output @ em" "bits_of em = huffman_bits str @ replicate 0 True"
      using e em by (simp_all add: EncodeHuffman_def acc_bits_def)
    then show ?thesis by blast
  qed
qed

lemma eos_code: "code_of 256 = replicate 30 True"
  by code_simp

lemma no_symbol_in_padding:
  assumes "k \<le> 7" shows "first_symbol (replicate k True) = None"
  unfolding first_symbol_None
proof (intro allI impI notI)
  fix s assume s: "s < 257" "prefix (code_of s) (replicate k True)"
  have "replicate 30 True = replicate k True @ replicate (30 - k) True"
    using assms by (simp flip: replicate_add)
  then have "prefix (replicate k True) (code_of 256)" unfolding eos_code by (metis prefix_def)
  then have "prefix (code_of s) (code_of 256)" using s(2) prefix_order.trans by blast
  then have "s = 256" using prefix_free s(1) by simp
  then show False using prefix_length_le [OF s(2)] eos_length assms by simp
qed

lemma huffman_spec_codes: "k \<le> 7 \<Longrightarrow> huffman_spec (huffman_bits str @ replicate k True) = Some str"
proof (induction str)
  case Nil
  then show ?case
    using no_symbol_in_padding [of k] by (simp add: huffman_bits_def huffman_spec.simps [of "replicate k True"] list_all_length)
next
  case (Cons ch str)
  let ?bs = "huffman_bits (ch # str) @ replicate k True"
  have u: "unat ch < 256" by (rule unat_u8_lt)
  then have "first_symbol ?bs = Some (unat ch)" by (simp add: first_symbol_iff huffman_bits_def)
  then have "huffman_spec ?bs = map_option (Cons ch) (huffman_spec (huffman_bits str @ replicate k True))"
    using u by (simp add: huffman_spec.simps [of ?bs]) (simp add: huffman_bits_def)
  then show ?case using Cons by simp
qed

lemma decodeHuffman_spec: "decodeHuffman data = huffman_spec (bits_of data)"
  using huffman_loop_spec [of 0 0 data "[]"]
  by (cases "huffman_spec (bits_of data)") (simp_all add: decodeHuffman_def low_clear_def top_bits_def)

lemma length_bits_of [simp]: "length (bits_of bs) = 8 * length bs"
  by (induction bs) (simp_all add: bits_of_def byte_bits_def)

lemma foldl_code_lengths:
  "foldl (\<lambda>acc ch. acc + snd (kHuffmanCodes ! unat ch)) a str = a + length (huffman_bits str)"
  by (induction str arbitrary: a) (simp_all add: huffman_bits_def)

lemma EncodeHuffman_facts:
  obtains em where "EncodeHuffman output str = output @ em" "length em = HuffmanEncodedLength str"
    "decodeHuffman em = Some str"
proof -
  obtain em k where e: "EncodeHuffman output str = output @ em" "k \<le> 7" "bits_of em = huffman_bits str @ replicate k True"
    using EncodeHuffman_spec by blast
  from arg_cong [OF e(3), of length] have "8 * length em = length (huffman_bits str) + k" by simp
  then have "length em = HuffmanEncodedLength str" using e(2) by (simp add: HuffmanEncodedLength_def foldl_code_lengths)
  moreover have "decodeHuffman em = Some str" using e huffman_spec_codes by (simp add: decodeHuffman_spec)
  ultimately show ?thesis using that e(1) by blast
qed

lemma huffman_spec_length: "huffman_spec bs = Some s \<Longrightarrow> 5 * length s \<le> length bs"
proof (induction bs arbitrary: s rule: huffman_spec.induct)
  case (1 bs)
  show ?case
  proof (cases "first_symbol bs")
    case (Some x)
    then have x: "x < 257" "prefix (code_of x) bs" by (simp_all add: first_symbol_iff)
    from Some "1.prems" obtain s' where "x \<noteq> 256" "s = word_of_nat x # s'" "huffman_spec (drop (length (code_of x)) bs) = Some s'"
      by (auto simp: huffman_spec.simps [of bs] split: if_splits)
    with "1.IH" [OF Some] code_facts(1) [OF x(1)] prefix_length_le [OF x(2)] show ?thesis by fastforce
  next
    case None
    then show ?thesis using "1.prems" by (auto simp: huffman_spec.simps [of bs] split: if_splits)
  qed
qed

section \<open>Properties\<close>

text \<open>C36. The table-driven Huffman decoder, with its 64-bit bit buffer, nine-bit lookup table and slow path, computes
  on every input the reference decoder, which strips from the bit string the one code that starts it:
  same text, and an error exactly on an EOS code, an unknown code or wrong padding.\<close>

theorem huffman_decoder_correct: "decodeHuffman data = huffman_spec (bits_of data)"
  by (rule decodeHuffman_spec)

text \<open>C37. Huffman encoding appends to the output exactly the number of bytes that \<^verbatim>\<open>HuffmanEncodedLength\<close>
  reserves, and decoding these bytes gives the text back, for every text.\<close>

theorem huffman_roundtrip:
  "take (length output) (EncodeHuffman output str) = output \<and>
   length (EncodeHuffman output str) = length output + HuffmanEncodedLength str \<and>
   decodeHuffman (drop (length output) (EncodeHuffman output str)) = Some str"
proof -
  obtain em where "EncodeHuffman output str = output @ em" "length em = HuffmanEncodedLength str"
    "decodeHuffman em = Some str" by (rule EncodeHuffman_facts)
  then show ?thesis by simp
qed

text \<open>A decoded text never exceeds the \<open>8 * n div 5\<close> bytes that \<^verbatim>\<open>decodeHuffman\<close> allocates for \<open>n\<close> bytes of input.\<close>

theorem huffman_decoded_fits:
  "case decodeHuffman data of None \<Rightarrow> True | Some str \<Rightarrow> length str \<le> length data * 8 div 5"
proof (cases "decodeHuffman data")
  case (Some str)
  then have "5 * length str \<le> 8 * length data" using huffman_spec_length by (fastforce simp: decodeHuffman_spec)
  then show ?thesis using Some by simp
qed simp

end
