(* ===== verification/Hpack_Tables.thy ===== *)
theory Hpack_Tables
  imports Ascii
begin

text \<open>
  The header tables of HPACK (\<^verbatim>\<open>hpack.cpp\<close>): the static table with its hash index, the dynamic table with
  its size accounting and eviction, and the search the encoder runs in both. Object sizes are natural
  numbers: every size here is that of data held in memory. The theorems show that the size accounting
  is exact and never exceeds the limit, that the hash index answers every query as a scan of the
  static table would, and that what the search returns is what the decoder's lookup finds there.
\<close>

type_synonym header = "bytes \<times> bytes"

section \<open>Static table\<close>

definition hview :: "string \<Rightarrow> string \<Rightarrow> header" where
  "hview name value = (bytes_of name, bytes_of value)"

definition kStaticTable :: "header list" where
  "kStaticTable =
     [hview '':authority'' '''', hview '':method'' ''GET'', hview '':method'' ''POST'',
      hview '':path'' ''/'', hview '':path'' ''/index.html'', hview '':scheme'' ''http'',
      hview '':scheme'' ''https'', hview '':status'' ''200'', hview '':status'' ''204'',
      hview '':status'' ''206'', hview '':status'' ''304'', hview '':status'' ''400'',
      hview '':status'' ''404'', hview '':status'' ''500'', hview ''accept-charset'' '''',
      hview ''accept-encoding'' ''gzip, deflate'', hview ''accept-language'' '''',
      hview ''accept-ranges'' '''', hview ''accept'' '''', hview ''access-control-allow-origin'' '''',
      hview ''age'' '''', hview ''allow'' '''', hview ''authorization'' '''', hview ''cache-control'' '''',
      hview ''content-disposition'' '''', hview ''content-encoding'' '''', hview ''content-language'' '''',
      hview ''content-length'' '''', hview ''content-location'' '''', hview ''content-range'' '''',
      hview ''content-type'' '''', hview ''cookie'' '''', hview ''date'' '''', hview ''etag'' '''',
      hview ''expect'' '''', hview ''expires'' '''', hview ''from'' '''', hview ''host'' '''',
      hview ''if-match'' '''', hview ''if-modified-since'' '''', hview ''if-none-match'' '''',
      hview ''if-range'' '''', hview ''if-unmodified-since'' '''', hview ''last-modified'' '''',
      hview ''link'' '''', hview ''location'' '''', hview ''max-forwards'' '''',
      hview ''proxy-authenticate'' '''', hview ''proxy-authorization'' '''', hview ''range'' '''',
      hview ''referer'' '''', hview ''refresh'' '''', hview ''retry-after'' '''', hview ''server'' '''',
      hview ''set-cookie'' '''', hview ''strict-transport-security'' '''', hview ''transfer-encoding'' '''',
      hview ''user-agent'' '''', hview ''vary'' '''', hview ''via'' '''', hview ''www-authenticate'' '''']"

text \<open>The same table as bytes, which evaluation uses.\<close>

lemma kStaticTable_bytes [code]:
  "kStaticTable =
     [([58, 97, 117, 116, 104, 111, 114, 105, 116, 121], []),
      ([58, 109, 101, 116, 104, 111, 100], [71, 69, 84]),
      ([58, 109, 101, 116, 104, 111, 100], [80, 79, 83, 84]), ([58, 112, 97, 116, 104], [47]),
      ([58, 112, 97, 116, 104], [47, 105, 110, 100, 101, 120, 46, 104, 116, 109, 108]),
      ([58, 115, 99, 104, 101, 109, 101], [104, 116, 116, 112]),
      ([58, 115, 99, 104, 101, 109, 101], [104, 116, 116, 112, 115]),
      ([58, 115, 116, 97, 116, 117, 115], [50, 48, 48]), ([58, 115, 116, 97, 116, 117, 115], [50, 48, 52]),
      ([58, 115, 116, 97, 116, 117, 115], [50, 48, 54]), ([58, 115, 116, 97, 116, 117, 115], [51, 48, 52]),
      ([58, 115, 116, 97, 116, 117, 115], [52, 48, 48]), ([58, 115, 116, 97, 116, 117, 115], [52, 48, 52]),
      ([58, 115, 116, 97, 116, 117, 115], [53, 48, 48]),
      ([97, 99, 99, 101, 112, 116, 45, 99, 104, 97, 114, 115, 101, 116], []),
      ([97, 99, 99, 101, 112, 116, 45, 101, 110, 99, 111, 100, 105, 110, 103], [103, 122, 105, 112, 44, 32, 100, 101, 102, 108, 97, 116, 101]),
      ([97, 99, 99, 101, 112, 116, 45, 108, 97, 110, 103, 117, 97, 103, 101], []),
      ([97, 99, 99, 101, 112, 116, 45, 114, 97, 110, 103, 101, 115], []), ([97, 99, 99, 101, 112, 116], []),
      ([97, 99, 99, 101, 115, 115, 45, 99, 111, 110, 116, 114, 111, 108, 45, 97, 108, 108, 111, 119, 45, 111, 114, 105, 103, 105, 110], []),
      ([97, 103, 101], []), ([97, 108, 108, 111, 119], []),
      ([97, 117, 116, 104, 111, 114, 105, 122, 97, 116, 105, 111, 110], []),
      ([99, 97, 99, 104, 101, 45, 99, 111, 110, 116, 114, 111, 108], []),
      ([99, 111, 110, 116, 101, 110, 116, 45, 100, 105, 115, 112, 111, 115, 105, 116, 105, 111, 110], []),
      ([99, 111, 110, 116, 101, 110, 116, 45, 101, 110, 99, 111, 100, 105, 110, 103], []),
      ([99, 111, 110, 116, 101, 110, 116, 45, 108, 97, 110, 103, 117, 97, 103, 101], []),
      ([99, 111, 110, 116, 101, 110, 116, 45, 108, 101, 110, 103, 116, 104], []),
      ([99, 111, 110, 116, 101, 110, 116, 45, 108, 111, 99, 97, 116, 105, 111, 110], []),
      ([99, 111, 110, 116, 101, 110, 116, 45, 114, 97, 110, 103, 101], []),
      ([99, 111, 110, 116, 101, 110, 116, 45, 116, 121, 112, 101], []), ([99, 111, 111, 107, 105, 101], []),
      ([100, 97, 116, 101], []), ([101, 116, 97, 103], []), ([101, 120, 112, 101, 99, 116], []),
      ([101, 120, 112, 105, 114, 101, 115], []), ([102, 114, 111, 109], []), ([104, 111, 115, 116], []),
      ([105, 102, 45, 109, 97, 116, 99, 104], []),
      ([105, 102, 45, 109, 111, 100, 105, 102, 105, 101, 100, 45, 115, 105, 110, 99, 101], []),
      ([105, 102, 45, 110, 111, 110, 101, 45, 109, 97, 116, 99, 104], []),
      ([105, 102, 45, 114, 97, 110, 103, 101], []),
      ([105, 102, 45, 117, 110, 109, 111, 100, 105, 102, 105, 101, 100, 45, 115, 105, 110, 99, 101], []),
      ([108, 97, 115, 116, 45, 109, 111, 100, 105, 102, 105, 101, 100], []), ([108, 105, 110, 107], []),
      ([108, 111, 99, 97, 116, 105, 111, 110], []),
      ([109, 97, 120, 45, 102, 111, 114, 119, 97, 114, 100, 115], []),
      ([112, 114, 111, 120, 121, 45, 97, 117, 116, 104, 101, 110, 116, 105, 99, 97, 116, 101], []),
      ([112, 114, 111, 120, 121, 45, 97, 117, 116, 104, 111, 114, 105, 122, 97, 116, 105, 111, 110], []),
      ([114, 97, 110, 103, 101], []), ([114, 101, 102, 101, 114, 101, 114], []),
      ([114, 101, 102, 114, 101, 115, 104], []), ([114, 101, 116, 114, 121, 45, 97, 102, 116, 101, 114], []),
      ([115, 101, 114, 118, 101, 114], []), ([115, 101, 116, 45, 99, 111, 111, 107, 105, 101], []),
      ([115, 116, 114, 105, 99, 116, 45, 116, 114, 97, 110, 115, 112, 111, 114, 116, 45, 115, 101, 99, 117, 114, 105, 116, 121], []),
      ([116, 114, 97, 110, 115, 102, 101, 114, 45, 101, 110, 99, 111, 100, 105, 110, 103], []),
      ([117, 115, 101, 114, 45, 97, 103, 101, 110, 116], []), ([118, 97, 114, 121], []), ([118, 105, 97], []),
      ([119, 119, 119, 45, 97, 117, 116, 104, 101, 110, 116, 105, 99, 97, 116, 101], [])]"
  by (simp add: kStaticTable_def hview_def bytes_of_def of_char_def)

text \<open>The order of \<^verbatim>\<open>std::string_view\<close>, by unsigned byte values.\<close>

fun sv_less :: "bytes \<Rightarrow> bytes \<Rightarrow> bool" where
  "sv_less [] ys \<longleftrightarrow> ys \<noteq> []"
| "sv_less (x # xs) [] \<longleftrightarrow> False"
| "sv_less (x # xs) (y # ys) \<longleftrightarrow> (if x = y then sv_less xs ys else x < y)"

definition by_name_less :: "bytes \<times> nat \<Rightarrow> bytes \<times> nat \<Rightarrow> bool" where
  "by_name_less lhs rhs = (if fst lhs \<noteq> fst rhs then sv_less (fst lhs) (fst rhs) else snd lhs < snd rhs)"

text \<open>\<^verbatim>\<open>std::ranges::sort\<close> on keys that are all different: the sorted permutation.\<close>

fun insert_sorted :: "('a \<Rightarrow> 'a \<Rightarrow> bool) \<Rightarrow> 'a \<Rightarrow> 'a list \<Rightarrow> 'a list" where
  "insert_sorted lt x [] = [x]"
| "insert_sorted lt x (y # ys) = (if lt y x then y # insert_sorted lt x ys else x # y # ys)"

definition kStaticTableByName :: "(bytes \<times> nat) list" where
  "kStaticTableByName =
     foldr (insert_sorted by_name_less)
       (map (\<lambda>idx. (fst (kStaticTable ! idx), idx)) [0..<length kStaticTable]) []"

definition kStaticHeaderNameMinLen :: nat where
  "kStaticHeaderNameMinLen = foldl min (length (fst (kStaticTable ! 0))) (map (length \<circ> fst) kStaticTable)"

definition kStaticHeaderNameMaxLen :: nat where
  "kStaticHeaderNameMaxLen = foldl max (length (fst (kStaticTable ! 0))) (map (length \<circ> fst) kStaticTable)"

definition FnvHash :: "bytes \<Rightarrow> u32" where
  "FnvHash sv = foldl (\<lambda>hash ch. (hash XOR ucast ch) * 16777619) 2166136261 sv"

text \<open>
  \<^verbatim>\<open>kStaticNameHashTable\<close>: 64 slots of name, first position in the sorted table and count; an empty name
  is a free slot. Each run of equal names goes to the first free slot from its hash on; \<open>fuel\<close> is the
  number of slots, which the probe never exceeds.
\<close>

type_synonym hash_entry = "bytes \<times> nat \<times> nat"

definition kStaticNameHashSize :: nat where "kStaticNameHashSize = 64"

definition hash_slot :: "bytes \<Rightarrow> nat" where
  "hash_slot name = unat (FnvHash name AND 63)"

fun free_slot :: "nat \<Rightarrow> hash_entry list \<Rightarrow> nat \<Rightarrow> nat option" where
  "free_slot 0 table slot = None"
| "free_slot (Suc fuel) table slot =
     (if fst (table ! slot) \<noteq> [] then free_slot fuel table ((slot + 1) mod 64) else Some slot)"

function fill_hash_table :: "nat \<Rightarrow> (bytes \<times> nat) list \<Rightarrow> hash_entry list \<Rightarrow> hash_entry list option" where
  "fill_hash_table idx [] table = Some table"
| "fill_hash_table idx (e # rest) table =
     (let name = fst e; cnt = Suc (length (takeWhile (\<lambda>e. fst e = name) rest))
      in case free_slot kStaticNameHashSize table (hash_slot name) of
           None \<Rightarrow> None
         | Some slot \<Rightarrow>
             fill_hash_table (idx + cnt) (dropWhile (\<lambda>e. fst e = name) rest) (table[slot := (name, idx, cnt)]))"
  by pat_completeness auto
termination
  by (relation "measure (\<lambda>(idx, rest, table). length rest)") (auto simp: less_Suc_eq_le length_dropWhile_le)

definition kStaticNameHashTable :: "hash_entry list" where
  "kStaticNameHashTable =
     (case fill_hash_table 0 kStaticTableByName (replicate kStaticNameHashSize ([], 0, 0)) of
        Some table \<Rightarrow> table | None \<Rightarrow> [])"

text \<open>The two derived tables as the compiler computes them, which evaluation uses.\<close>

lemma kStaticTableByName_eq [code]:
  "kStaticTableByName = map (\<lambda>idx. (fst (kStaticTable ! idx), idx))
     ([0..<14] @ [18, 14, 15, 16, 17] @ [19..<61])"
  by code_simp

definition hash_slots :: "(bytes \<times> nat) list \<Rightarrow> (nat \<times> nat) list \<Rightarrow> hash_entry list" where
  "hash_slots byName slots = map (\<lambda>(start, cnt). (if cnt = 0 then [] else fst (byName ! start), start, cnt)) slots"

lemma kStaticNameHashTable_eq [code]:
  "kStaticNameHashTable = hash_slots kStaticTableByName
     [(33, 1), (41, 1), (60, 1), (35, 1), (0, 0), (58, 1),
      (0, 0), (0, 0), (1, 2), (25, 1), (29, 1), (42, 1), (56, 1), (23, 1), (0, 0), (0, 0), (0, 0), (0, 0),
      (49, 1), (26, 1), (53, 1), (30, 1), (17, 1), (7, 7), (34, 1), (16, 1), (32, 1), (46, 1), (20, 1), (24, 1),
      (0, 1), (27, 1), (59, 1), (55, 1), (0, 0), (0, 0), (0, 0), (0, 0), (18, 1), (45, 1), (15, 1), (14, 1),
      (5, 2), (38, 1), (19, 1), (39, 1), (3, 2), (28, 1), (37, 1), (43, 1), (21, 1), (44, 1), (47, 1), (36, 1),
      (50, 1), (40, 1), (51, 1), (52, 1), (54, 1), (48, 1), (57, 1), (0, 0), (22, 1), (31, 1)]"
  by code_simp

section \<open>Dynamic table\<close>

definition kHpackOverhead :: nat where "kHpackOverhead = 32"

record HpackDynamicTable =
  entries :: "header list"
  currentSize :: nat
  maxSize :: nat

definition newHpackDynamicTable :: "nat \<Rightarrow> HpackDynamicTable" where
  "newHpackDynamicTable n = \<lparr>entries = [], currentSize = 0, maxSize = n\<rparr>"

definition header_size :: "header \<Rightarrow> nat" where
  "header_size h = length (fst h) + length (snd h)"

definition evict :: "HpackDynamicTable \<Rightarrow> HpackDynamicTable" where
  "evict t = t\<lparr>entries := butlast (entries t),
               currentSize := currentSize t - (header_size (last (entries t)) + kHpackOverhead)\<rparr>"

definition clear :: "HpackDynamicTable \<Rightarrow> HpackDynamicTable" where
  "clear t = t\<lparr>entries := [], currentSize := 0\<rparr>"

text \<open>
  The eviction loops of \<^verbatim>\<open>add\<close> and \<^verbatim>\<open>setMaxSize\<close>: evict while \<open>maxSize < currentSize + extra\<close>. Evicting from an empty table
  is undefined in the code; the model stops there, and \<open>evict_until_fits\<close> below shows that it never happens.
\<close>

function evict_until :: "nat \<Rightarrow> HpackDynamicTable \<Rightarrow> HpackDynamicTable" where
  "evict_until extra t =
     (if maxSize t < currentSize t + extra \<and> entries t \<noteq> [] then evict_until extra (evict t) else t)"
  by pat_completeness auto
termination
  by (relation "measure (\<lambda>(extra, t). length (entries t))") (auto simp: evict_def)

declare evict_until.simps [simp del]

definition table_add :: "HpackDynamicTable \<Rightarrow> bytes \<Rightarrow> bytes \<Rightarrow> bool \<times> HpackDynamicTable" where
  "table_add t name value =
     (let entrySize = length name + length value + kHpackOverhead in
      if maxSize t < entrySize then (False, clear t)
      else (let t' = evict_until entrySize t in
        (True, t'\<lparr>entries := (name, value) # entries t', currentSize := currentSize t' + entrySize\<rparr>)))"

definition setMaxSize :: "HpackDynamicTable \<Rightarrow> nat \<Rightarrow> HpackDynamicTable" where
  "setMaxSize t n = evict_until 0 (t\<lparr>maxSize := n\<rparr>)"

section \<open>Lookup and search\<close>

text \<open>\<^verbatim>\<open>lookupIndex\<close> of the decoder; the index of a dynamic entry is cut to 32 bits.\<close>

definition lookupIndex :: "HpackDynamicTable \<Rightarrow> nat \<Rightarrow> header" where
  "lookupIndex t index =
     (if index \<le> length kStaticTable then kStaticTable ! (index - 1)
      else (let dynamicIndex = (index - length kStaticTable - 1) mod 2 ^ 32 in
        if dynamicIndex \<ge> length (entries t) then ([], []) else entries t ! dynamicIndex))"

datatype Match = NoMatch | NameOnly | FullMatch

text \<open>The probe of the hash index, in at most 64 steps; \<open>None\<close> means that these were not enough.\<close>

fun probe :: "hash_entry list \<Rightarrow> nat \<Rightarrow> bytes \<Rightarrow> nat \<Rightarrow> hash_entry option option" where
  "probe table 0 name slot = None"
| "probe table (Suc fuel) name slot =
     (let e = table ! slot in
      if fst e \<noteq> [] then
        (if fst e = name then Some (Some e) else probe table fuel name ((slot + 1) mod 64))
      else Some None)"

fun scan_static :: "bytes \<Rightarrow> nat list \<Rightarrow> Match \<times> nat \<Rightarrow> Match \<times> nat" where
  "scan_static value [] result = result"
| "scan_static value (entryIdx # is) result =
     (let result' = (if fst result = NoMatch then (NameOnly, 1 + entryIdx) else result) in
      if snd (kStaticTable ! entryIdx) = value then (FullMatch, 1 + entryIdx)
      else scan_static value is result')"

fun scan_dynamic :: "bytes \<Rightarrow> bytes \<Rightarrow> nat \<Rightarrow> header list \<Rightarrow> Match \<times> nat \<Rightarrow> Match \<times> nat" where
  "scan_dynamic name value idx [] result = result"
| "scan_dynamic name value idx (entry # es) result =
     (if fst entry = name then
        (let index = length kStaticTable + 1 + idx in
         if snd entry = value then (FullMatch, index)
         else scan_dynamic name value (idx + 1) es (NameOnly, index))
      else scan_dynamic name value (idx + 1) es result)"

text \<open>The static table indices the hash entry of a name stands for.\<close>

definition hash_candidates :: "hash_entry list \<Rightarrow> (bytes \<times> nat) list \<Rightarrow> bytes \<Rightarrow> nat list" where
  "hash_candidates table byName name =
     (case probe table kStaticNameHashSize name (hash_slot name) of
        Some (Some (_, sortedStart, cnt)) \<Rightarrow> map (\<lambda>ii. snd (byName ! (sortedStart + ii))) [0..<cnt]
      | _ \<Rightarrow> [])"

definition static_candidates :: "bytes \<Rightarrow> nat list" where
  "static_candidates name =
     (if kStaticHeaderNameMinLen \<le> length name \<and> length name \<le> kStaticHeaderNameMaxLen
      then hash_candidates kStaticNameHashTable kStaticTableByName name else [])"

definition findHeader :: "HpackDynamicTable \<Rightarrow> bytes \<Rightarrow> bytes \<Rightarrow> Match \<times> nat" where
  "findHeader t name value =
     (let result = scan_static value (static_candidates name) (NoMatch, 0) in
      if fst result = FullMatch then result else scan_dynamic name value 0 (entries t) result)"

section \<open>The hash index is a scan of the static table\<close>

lemma length_kStaticTable [simp]: "length kStaticTable = 61"
  by code_simp

lemma name_lengths: "kStaticHeaderNameMinLen = 3" "kStaticHeaderNameMaxLen = 27"
  by code_simp+

definition same_name :: "header list \<Rightarrow> bytes \<Rightarrow> nat list" where
  "same_name table name = map fst (filter (\<lambda>e. fst (snd e) = name) (enumerate 0 table))"

definition index_complete :: "hash_entry list \<Rightarrow> (bytes \<times> nat) list \<Rightarrow> header list \<Rightarrow> bool" where
  "index_complete ht byName table =
     list_all (\<lambda>e. let name = fst e in 3 \<le> length name \<and> length name \<le> 27 \<and> hash_candidates ht byName name = same_name table name) table"

lemma index_complete_static: "index_complete kStaticNameHashTable kStaticTableByName kStaticTable"
  by code_simp

definition index_sound :: "hash_entry list \<Rightarrow> header list \<Rightarrow> bool" where
  "index_sound ht table = list_all (\<lambda>e. fst e = [] \<or> list_ex (\<lambda>h. fst h = fst e) table) ht"

lemma index_sound_static: "index_sound kStaticNameHashTable kStaticTable"
  by code_simp

lemma length_hash_table: "length kStaticNameHashTable = 64"
  by code_simp

lemma free_slot_4: "fst (kStaticNameHashTable ! 4) = []"
  by code_simp

lemma probe_result: "probe table fuel name slot = Some (Some e) \<Longrightarrow> slot < 64 \<Longrightarrow> 64 \<le> length table \<Longrightarrow> fst e = name \<and> e \<in> set table \<and> name \<noteq> []"
  by (induction table fuel name slot rule: probe.induct) (auto simp: Let_def split: if_splits)

lemma probe_ends:
  "fst (table ! ((slot + k) mod 64)) = [] \<Longrightarrow> k < fuel \<Longrightarrow> slot < 64 \<Longrightarrow> probe table fuel name slot \<noteq> None"
proof (induction table fuel name slot arbitrary: k rule: probe.induct)
  case (2 table fuel name slot)
  show ?case
  proof (cases "k = 0")
    case False
    then have "slot + k = (slot + 1) + (k - 1)" by simp
    then have "(slot + k) mod 64 = ((slot + 1) mod 64 + (k - 1)) mod 64" by (metis mod_add_left_eq)
    then have "fst (table ! (((slot + 1) mod 64 + (k - 1)) mod 64)) = []" "k - 1 < fuel" using 2 False by simp_all
    then show ?thesis using "2.IH" [OF refl, of "k - 1"] by (auto simp: Let_def)
  qed (use 2 in auto)
qed simp

lemma hash_slot_lt: "hash_slot name < 64"
proof -
  have m: "(63 :: u32) = mask 6" by (simp add: mask_eq_exp_minus_1)
  have "FnvHash name AND mask 6 < 2 ^ 6" by (rule and_mask_less_size) (simp add: word_size)
  then have "unat (FnvHash name AND mask 6) < unat ((2 :: u32) ^ 6)" by (simp only: word_less_nat_alt)
  then show ?thesis unfolding hash_slot_def m by simp
qed

text \<open>The probe always ends at the name or at a free slot: slot 4 is free.\<close>

lemma probe_static: "\<exists>r. probe kStaticNameHashTable kStaticNameHashSize name (hash_slot name) = Some r"
proof -
  let ?k = "(68 - hash_slot name) mod 64"
  have "(hash_slot name + ?k) mod 64 = 4" using hash_slot_lt [of name] by (simp add: mod_simps)
  then have "fst (kStaticNameHashTable ! ((hash_slot name + ?k) mod 64)) = []" by (simp add: free_slot_4)
  from probe_ends [OF this, of 64] show ?thesis using hash_slot_lt [of name] by (auto simp: kStaticNameHashSize_def)
qed

lemma static_candidates_eq: "static_candidates name = same_name kStaticTable name"
proof (cases "name \<in> fst ` set kStaticTable")
  case True
  then obtain h where "h \<in> set kStaticTable" "fst h = name" by auto
  then show ?thesis using index_complete_static
    by (auto simp: index_complete_def list_all_iff Let_def static_candidates_def name_lengths)
next
  case False
  have "probe kStaticNameHashTable kStaticNameHashSize name (hash_slot name) \<noteq> Some (Some e)" for e
  proof
    assume "probe kStaticNameHashTable kStaticNameHashSize name (hash_slot name) = Some (Some e)"
    from probe_result [OF this hash_slot_lt] have "fst e = name" "e \<in> set kStaticNameHashTable" "name \<noteq> []"
      by (simp_all add: length_hash_table)
    then show False using index_sound_static False by (force simp: index_sound_def list_all_iff list_ex_iff)
  qed
  then have "static_candidates name = []"
    by (auto simp: static_candidates_def hash_candidates_def split: option.split)
  moreover have "same_name kStaticTable name = []"
  proof -
    have "fst (kStaticTable ! i) \<noteq> name" if "i < 61" for i using False that nth_mem [of i kStaticTable] by auto
    then show ?thesis by (auto simp: same_name_def filter_empty_conv in_set_enumerate_eq) (metis fst_conv)
  qed
  ultimately show ?thesis by simp
qed

lemma in_same_name: "i \<in> set (same_name table name) \<Longrightarrow> i < length table \<and> fst (table ! i) = name"
  by (auto simp: same_name_def in_set_enumerate_eq)

text \<open>Where a search result points.\<close>

definition points_to :: "HpackDynamicTable \<Rightarrow> bytes \<Rightarrow> bytes \<Rightarrow> Match \<times> nat \<Rightarrow> bool" where
  "points_to t name value r =
     (case fst r of
        NoMatch \<Rightarrow> True
      | NameOnly \<Rightarrow> 0 < snd r \<and> snd r \<le> 61 + length (entries t) \<and> fst (lookupIndex t (snd r)) = name
      | FullMatch \<Rightarrow> 0 < snd r \<and> snd r \<le> 61 + length (entries t) \<and> lookupIndex t (snd r) = (name, value))"

lemma scan_static_points:
  "\<forall>i\<in>set is. i < 61 \<and> fst (kStaticTable ! i) = name \<Longrightarrow> points_to t name v r \<Longrightarrow>
     points_to t name v (scan_static v is r)"
proof (induction v "is" r rule: scan_static.induct)
  case (2 v i "is" r)
  have "points_to t name v (NameOnly, Suc i)" using 2 by (simp add: points_to_def lookupIndex_def)
  then have r': "points_to t name v (if fst r = NoMatch then (NameOnly, 1 + i) else r)" using 2 by simp
  show ?case
  proof (cases "snd (kStaticTable ! i) = v")
    case True
    then show ?thesis using 2 by (auto simp: points_to_def lookupIndex_def prod_eq_iff)
  next
    case False
    then show ?thesis using 2(1) [OF refl _ _ r'] 2(2) by simp
  qed
qed simp

lemma scan_dynamic_points:
  assumes "length (entries t) < 2 ^ 32"
  shows "drop idx (entries t) = es \<Longrightarrow> idx \<le> length (entries t) \<Longrightarrow> points_to t name v r \<Longrightarrow>
     points_to t name v (scan_dynamic name v idx es r)"
proof (induction name v idx es r rule: scan_dynamic.induct)
  case (2 name v idx e es r)
  have idx: "idx < length (entries t)" "entries t ! idx = e" "drop (idx + 1) (entries t) = es"
  proof -
    show lt: "idx < length (entries t)" using arg_cong [OF 2(3), of length] by simp
    show "entries t ! idx = e" "drop (idx + 1) (entries t) = es"
      using 2(3) Cons_nth_drop_Suc [OF lt] by simp_all
  qed
  then have lk: "lookupIndex t (62 + idx) = e" using assms by (simp add: lookupIndex_def Let_def)
  show ?case
  proof (cases "fst e = name")
    case name: True
    then have "points_to t name v (NameOnly, 62 + idx)" using lk idx by (simp add: points_to_def)
    then have no: "snd e \<noteq> v \<Longrightarrow> points_to t name v (scan_dynamic name v (idx + 1) es (NameOnly, 62 + idx))"
      using 2(1) [OF name refl _ idx(3)] idx by simp
    show ?thesis
    proof (cases "snd e = v")
      case True
      then have "points_to t name v (FullMatch, 62 + idx)" using lk idx name by (auto simp: points_to_def)
      then show ?thesis using True name by simp
    next
      case False
      then show ?thesis using no name by simp
    qed
  next
    case False
    then show ?thesis using 2(2) [OF False idx(3)] 2(5) idx by simp
  qed
qed simp

section \<open>Size accounting of the dynamic table\<close>

definition total_size :: "header list \<Rightarrow> nat" where
  "total_size hs = sum_list (map (\<lambda>h. header_size h + kHpackOverhead) hs)"

lemma total_size_simps [simp]:
  "total_size [] = 0" "total_size (h # hs) = header_size h + kHpackOverhead + total_size hs"
  "total_size (xs @ ys) = total_size xs + total_size ys"
  by (simp_all add: total_size_def)

definition table_exact :: "HpackDynamicTable \<Rightarrow> bool" where
  "table_exact t \<longleftrightarrow> currentSize t = total_size (entries t)"

definition table_inv :: "HpackDynamicTable \<Rightarrow> bool" where
  "table_inv t \<longleftrightarrow> table_exact t \<and> currentSize t \<le> maxSize t"

lemma evict_exact:
  assumes "table_exact t" "entries t \<noteq> []"
  shows "table_exact (evict t)" "maxSize (evict t) = maxSize t"
    "currentSize (evict t) + header_size (last (entries t)) + kHpackOverhead = currentSize t"
proof -
  have "total_size (entries t) = total_size (butlast (entries t)) + header_size (last (entries t)) + kHpackOverhead"
    using arg_cong [OF append_butlast_last_id [OF assms(2)], of total_size] by simp
  then show "table_exact (evict t)" "maxSize (evict t) = maxSize t"
    "currentSize (evict t) + header_size (last (entries t)) + kHpackOverhead = currentSize t"
    using assms by (simp_all add: table_exact_def evict_def)
qed

text \<open>
  The eviction loop never meets an empty table that is still too large, and it keeps the longest run
  of newest entries that fits.
\<close>

lemma evict_until_fits:
  assumes "table_exact t" "extra \<le> maxSize t"
  shows "\<exists>k. let t' = evict_until extra t in
           entries t' = take k (entries t) \<and> table_exact t' \<and> maxSize t' = maxSize t \<and>
           currentSize t' + extra \<le> maxSize t \<and> k \<le> length (entries t) \<and>
           (k < length (entries t) \<longrightarrow> maxSize t < total_size (take (Suc k) (entries t)) + extra)"
  using assms
proof (induction extra t rule: evict_until.induct)
  case (1 extra t)
  show ?case
  proof (cases "maxSize t < currentSize t + extra \<and> entries t \<noteq> []")
    case True
    note ev = evict_exact [OF 1(2) conjunct2 [OF True]]
    have e: "entries (evict t) = take (length (entries t) - 1) (entries t)" by (simp add: evict_def butlast_conv_take)
    from "1.IH" [OF True ev(1)] 1(3) ev(2) obtain k where k: "let t' = evict_until extra (evict t) in
           entries t' = take k (entries (evict t)) \<and> table_exact t' \<and> maxSize t' = maxSize (evict t) \<and>
           currentSize t' + extra \<le> maxSize (evict t) \<and> k \<le> length (entries (evict t)) \<and>
           (k < length (entries (evict t)) \<longrightarrow> maxSize (evict t) < total_size (take (Suc k) (entries (evict t))) + extra)"
      by auto
    have st: "evict_until extra t = evict_until extra (evict t)" using True by (simp add: evict_until.simps [of extra t])
    have kl: "k < length (entries t)" using k True e by (cases "entries t") (auto simp: Let_def)
    have "maxSize t < total_size (take (Suc k) (entries t)) + extra"
    proof (cases "k = length (entries t) - 1")
      case last: True
      then have "take (Suc k) (entries t) = entries t" using kl by simp
      then show ?thesis using True 1(2) by (simp add: table_exact_def)
    next
      case False
      then have "min (Suc k) (length (entries t) - 1) = Suc k" using kl by simp
      then show ?thesis using k False kl e ev(2) by (simp add: Let_def)
    qed
    moreover have "take k (take (length (entries t) - 1) (entries t)) = take k (entries t)"
    proof -
      have "min k (length (entries t) - 1) = k" using kl by simp
      then show ?thesis by (simp only: take_take)
    qed
    ultimately show ?thesis using k kl e ev(2) st by (intro exI [of _ k]) (simp add: Let_def)
  next
    case False
    then have "evict_until extra t = t" by (subst evict_until.simps) (simp only: if_False)
    then show ?thesis using False 1 by (intro exI [of _ "length (entries t)"]) (auto simp: Let_def table_exact_def)
  qed
qed

lemma table_inv_add: "table_inv t \<Longrightarrow> table_inv (snd (table_add t name v))"
proof -
  assume t: "table_inv t"
  show ?thesis
  proof (cases "maxSize t < length name + length v + kHpackOverhead")
    case True
    then show ?thesis by (simp add: table_add_def clear_def table_inv_def table_exact_def)
  next
    case False
    then show ?thesis using evict_until_fits [of t "length name + length v + kHpackOverhead"] t
      by (auto simp: table_add_def Let_def table_inv_def table_exact_def header_size_def)
  qed
qed

lemma table_inv_setMaxSize: "table_inv t \<Longrightarrow> table_inv (setMaxSize t n)"
  using evict_until_fits [of "t\<lparr>maxSize := n\<rparr>" 0]
  by (auto simp: setMaxSize_def table_inv_def table_exact_def Let_def)

lemma table_inv_clear: "table_inv (clear t)"
  by (simp add: clear_def table_inv_def table_exact_def)

lemma table_entry_bound: "table_inv t \<Longrightarrow> kHpackOverhead * length (entries t) \<le> maxSize t"
proof -
  have "kHpackOverhead * length hs \<le> total_size hs" for hs by (induction hs) auto
  then show "table_inv t \<Longrightarrow> kHpackOverhead * length (entries t) \<le> maxSize t"
    unfolding table_inv_def table_exact_def using le_trans by metis
qed

inductive table_step :: "HpackDynamicTable \<Rightarrow> HpackDynamicTable \<Rightarrow> bool" where
  "table_step t (snd (table_add t name v))"
| "table_step t (setMaxSize t n)"
| "table_step t (clear t)"

definition table_start :: "HpackDynamicTable \<Rightarrow> bool" where
  "table_start t \<longleftrightarrow> t = newHpackDynamicTable (maxSize t)"

interpretation table_life: invariant_of table_start table_step table_inv
proof
  show "table_inv t" if "table_start t" for t
    using that unfolding table_start_def
    by (metis HpackDynamicTable.select_convs le0 newHpackDynamicTable_def table_exact_def table_inv_def total_size_simps(1))
  show "table_inv t'" if "table_inv t" "table_step t t'" for t t'
    using that(2,1) by cases (auto intro: table_inv_add table_inv_setMaxSize table_inv_clear)
qed

lemma findHeader_points:
  assumes "length (entries t) < 2 ^ 32"
  shows "points_to t name v (findHeader t name v)"
proof -
  have "points_to t name v (scan_static v (static_candidates name) (NoMatch, 0))"
    using in_same_name [of _ kStaticTable name]
    by (intro scan_static_points) (auto simp: static_candidates_eq points_to_def)
  then show ?thesis
    using scan_dynamic_points [OF assms, of 0 "entries t" name v] by (simp add: findHeader_def Let_def)
qed

section \<open>Properties\<close>

text \<open>C39. In every state the dynamic table can reach, its recorded size is exactly the sum over the entries of name
  length, value length and 32, it does not exceed the maximum, and so bounds the number of entries.\<close>

theorem dynamic_table_accounting:
  assumes "reachable table_start table_step t"
  shows "currentSize t = sum_list (map (\<lambda>h. length (fst h) + length (snd h) + 32) (entries t)) \<and>
         currentSize t \<le> maxSize t \<and> 32 * length (entries t) \<le> maxSize t"
  using table_life.reachable_inv [OF assms] table_entry_bound [of t]
  by (simp add: table_inv_def table_exact_def total_size_def header_size_def kHpackOverhead_def)

theorem dynamic_table_accounting_witness:
  "entries (snd (table_add (newHpackDynamicTable 100) [1, 2] [3])) = [([1, 2], [3])] \<and>
   currentSize (snd (table_add (newHpackDynamicTable 100) [1, 2] [3])) = 35"
proof -
  let ?t = "snd (table_add (newHpackDynamicTable 100) [1, 2] [3])"
  have "table_start (newHpackDynamicTable 100)" by (simp add: table_start_def newHpackDynamicTable_def)
  then have "reachable table_start table_step ?t" by (blast intro: reachable.intros table_step.intros)
  from dynamic_table_accounting [OF this] show ?thesis by code_simp
qed

text \<open>Adding an entry that fits evicts as few of the oldest entries as make room: what stays is the longest run
  of newest entries for which old and new together fit. An entry that does not fit empties the table.\<close>

theorem dynamic_table_add_evicts_least:
  assumes "table_inv t"
  shows "let sz = length name + length v + 32 in
         if maxSize t < sz then table_add t name v = (False, t\<lparr>entries := [], currentSize := 0\<rparr>)
         else \<exists>k \<le> length (entries t). fst (table_add t name v) \<and>
           entries (snd (table_add t name v)) = (name, v) # take k (entries t) \<and>
           total_size (take k (entries t)) + sz \<le> maxSize t \<and>
           (k = length (entries t) \<or> maxSize t < total_size (take (Suc k) (entries t)) + sz)"
proof (cases "maxSize t < length name + length v + 32")
  case False
  let ?sz = "length name + length v + 32"
  obtain k where "let t' = evict_until ?sz t in
           entries t' = take k (entries t) \<and> table_exact t' \<and> maxSize t' = maxSize t \<and>
           currentSize t' + ?sz \<le> maxSize t \<and> k \<le> length (entries t) \<and>
           (k < length (entries t) \<longrightarrow> maxSize t < total_size (take (Suc k) (entries t)) + ?sz)"
    using evict_until_fits [of t ?sz] assms False by (auto simp: table_inv_def)
  then show ?thesis using False
    by (auto simp: table_add_def Let_def kHpackOverhead_def table_exact_def intro!: exI [of _ k])
qed (simp add: table_add_def clear_def kHpackOverhead_def)

theorem dynamic_table_add_evicts_least_witness:
  "table_add \<lparr>entries = [([1], [2]), ([3], [4])], currentSize = 68, maxSize = 80\<rparr> [5] [6] =
     (True, \<lparr>entries = [([5], [6]), ([1], [2])], currentSize = 68, maxSize = 80\<rparr>)"
proof -
  let ?t = "\<lparr>entries = [([1], [2]), ([3], [4])], currentSize = 68, maxSize = 80\<rparr> :: HpackDynamicTable"
  have "table_inv ?t" by code_simp
  from dynamic_table_add_evicts_least [OF this, of "[5]" "[6]"] have "fst (table_add ?t [5] [6])"
    by (auto simp: Let_def)
  moreover have "snd (table_add ?t [5] [6]) = \<lparr>entries = [([5], [6]), ([1], [2])], currentSize = 68, maxSize = 80\<rparr>"
    by code_simp
  ultimately show ?thesis by (simp add: prod_eq_iff)
qed

text \<open>C40. The hash index of the static table answers every query as a scan of the whole table would: the search
  finds, for every name, exactly the indices of that name in increasing order, and ends for every name.\<close>

theorem static_hash_index_correct:
  "static_candidates name = map fst (filter (\<lambda>e. fst (snd e) = name) (enumerate 0 kStaticTable)) \<and>
   (\<exists>r. probe kStaticNameHashTable kStaticNameHashSize name (hash_slot name) = Some r)"
  using static_candidates_eq probe_static by (simp add: same_name_def)

text \<open>What the encoder's search returns is what the decoder's lookup finds: a full match is the index of that very
  header in the combined table, a name match the index of an entry with that name.\<close>

lemma find_header_sound:
  assumes "length (entries t) < 2 ^ 32" and "findHeader t name v = (m, i)"
  shows "case m of NoMatch \<Rightarrow> True | NameOnly \<Rightarrow> 0 < i \<and> fst (lookupIndex t i) = name
           | FullMatch \<Rightarrow> 0 < i \<and> lookupIndex t i = (name, v)"
  using findHeader_points [OF assms(1), of name v] assms(2) by (simp add: points_to_def split: Match.splits)

lemma find_header_sound_witness:
  "lookupIndex \<lparr>entries = [([1], [2]), ([3], [4])], currentSize = 68, maxSize = 80\<rparr> 63 = ([3], [4])"
proof -
  let ?t = "\<lparr>entries = [([1], [2]), ([3], [4])], currentSize = 68, maxSize = 80\<rparr> :: HpackDynamicTable"
  have "length (entries ?t) < 2 ^ 32" by simp
  moreover have "findHeader ?t [3] [4] = (FullMatch, 63)" by code_simp
  ultimately show ?thesis using find_header_sound [of ?t "[3]" "[4]" FullMatch 63] by simp
qed

end
