(* ===== verification/Hpack.thy ===== *)
theory Hpack
  imports Hpack_Huffman Hpack_Tables
begin

text \<open>
  HPACK (\<^verbatim>\<open>hpack.cpp\<close>): prefix-coded integers, string literals, the decoder and the encoder of header
  blocks. The decoded integers are natural numbers; \<open>DecodeInteger_bound\<close> shows that they stay below
  2 to the 57, so the 64-bit arithmetic of the code never wraps and its error marker is no value. The map of
  decoded headers is an association list searched with \<^verbatim>\<open>CaseInsensitiveEqual\<close>. The theorems show that
  integers and strings decode to what was encoded, and that a decoder whose table equals the
  encoder's reads back every header block and ends with an equal table again.
\<close>

section \<open>Integers\<close>

definition kMaxContinuationBytes :: nat where "kMaxContinuationBytes = 8"

function decode_continuation :: "bytes \<Rightarrow> nat \<Rightarrow> nat \<Rightarrow> nat \<Rightarrow> (nat \<times> nat) option" where
  "decode_continuation data pos multiplier value0 =
     (if pos < length data then
        (if pos > kMaxContinuationBytes then None
         else (let currByte = data ! pos; value1 = value0 + unat (currByte AND 0x7F) * multiplier in
           if currByte AND 0x80 = 0 then Some (value1, pos + 1)
           else decode_continuation data (pos + 1) (multiplier * 128) value1))
      else None)"
  by pat_completeness auto
termination
  by (relation "measure (\<lambda>(data, pos, multiplier, value0). length data - pos)") auto

declare decode_continuation.simps [simp del]

definition DecodeInteger :: "bytes \<Rightarrow> nat \<Rightarrow> (nat \<times> nat) option" where
  "DecodeInteger data prefixBits =
     (if data = [] then None
      else (let prefixMask = 2 ^ prefixBits - 1; value0 = unat (data ! 0 AND word_of_nat prefixMask) in
        if value0 < prefixMask then Some (value0, 1)
        else decode_continuation data 1 1 value0))"

function encode_continuation :: "nat \<Rightarrow> bytes" where
  "encode_continuation v =
     (if v \<ge> 128 then ((word_of_nat v AND 0x7F) OR 0x80) # encode_continuation (v div 128) else [word_of_nat v])"
  by pat_completeness auto
termination
  by (relation "measure id") auto

declare encode_continuation.simps [simp del]

definition EncodeInteger :: "bytes \<Rightarrow> nat \<Rightarrow> nat \<Rightarrow> u8 \<Rightarrow> bytes" where
  "EncodeInteger output v prefixBits prefixMask =
     (let maxPrefix = 2 ^ prefixBits - 1 in
      if v < maxPrefix then output @ [prefixMask OR word_of_nat v]
      else output @ (prefixMask OR word_of_nat maxPrefix) # encode_continuation (v - maxPrefix))"

section \<open>Strings\<close>

definition decodeString :: "bytes \<Rightarrow> (bytes \<times> nat) option" where
  "decodeString data =
     (case DecodeInteger data 7 of
        None \<Rightarrow> None
      | Some (len, consumed) \<Rightarrow>
          if length data < consumed + len then None
          else (let stringData = subspan data consumed len in
            if data ! 0 AND 0x80 \<noteq> 0 then map_option (\<lambda>str. (str, len + consumed)) (decodeHuffman stringData)
            else Some (stringData, len + consumed)))"

definition EncodeString :: "bytes \<Rightarrow> bytes \<Rightarrow> bytes" where
  "EncodeString output str =
     (let huffmanLen = HuffmanEncodedLength str in
      if huffmanLen < length str then EncodeHuffman (EncodeInteger output huffmanLen 7 0x80) str
      else EncodeInteger output (length str) 7 0x00 @ str)"

section \<open>Decoder\<close>

text \<open>One constructor per error message of \<^verbatim>\<open>HpackDecoder::decode\<close>, in source order.\<close>

datatype HpackError =
    BadIndexedFieldIndex | IndexZero | IndexOutOfBounds | BadSizeUpdate | BadLiteralIndex | BadLiteralName
  | NameIndexOutOfBounds | BadLiteralValue | DuplicateForbidden

definition storeHeader :: "bool \<Rightarrow> header list \<Rightarrow> header \<Rightarrow> HpackError + header list" where
  "storeHeader mergeUnknown hs h =
     (case find (\<lambda>i. CaseInsensitiveEqual (fst (hs ! i)) (fst h)) [0..<length hs] of
        None \<Rightarrow> Inr (hs @ [h])
      | Some i \<Rightarrow>
          (let existing = hs ! i; mergeSep = ReqHeaderValueSeparator (fst existing) mergeUnknown in
           if mergeSep = 0 then Inl DuplicateForbidden
           else Inr (hs[i := (fst existing, snd existing @ [mergeSep] @ snd h)])))"

text \<open>One representation at the front of \<open>data\<close>: the table, the headers and the bytes consumed.\<close>

definition decode_literal ::
  "bool \<Rightarrow> HpackDynamicTable \<Rightarrow> header list \<Rightarrow> bytes \<Rightarrow> bool \<Rightarrow> bytes \<Rightarrow> nat \<Rightarrow>
     HpackError + HpackDynamicTable \<times> header list \<times> nat" where
  "decode_literal mergeUnknown t hs data withIndexing name pos =
     (case decodeString (drop pos data) of
        None \<Rightarrow> Inl BadLiteralValue
      | Some (str, consumed) \<Rightarrow>
          (case storeHeader mergeUnknown hs (name, str) of
             Inl e \<Rightarrow> Inl e
           | Inr hs' \<Rightarrow> Inr (if withIndexing then snd (table_add t name str) else t, hs', pos + consumed)))"

definition decode_field ::
  "bool \<Rightarrow> HpackDynamicTable \<Rightarrow> header list \<Rightarrow> bytes \<Rightarrow> HpackError + HpackDynamicTable \<times> header list \<times> nat" where
  "decode_field mergeUnknown t hs data =
     (let firstByte = data ! 0 in
      if firstByte AND 0x80 \<noteq> 0 then
        (case DecodeInteger data 7 of
           None \<Rightarrow> Inl BadIndexedFieldIndex
         | Some (index, consumed) \<Rightarrow>
             if index = 0 then Inl IndexZero
             else (let h = lookupIndex t index in
               if fst h = [] then Inl IndexOutOfBounds
               else case storeHeader mergeUnknown hs h of
                 Inl e \<Rightarrow> Inl e | Inr hs' \<Rightarrow> Inr (t, hs', consumed)))
      else if firstByte AND 0xE0 = 0x20 then
        (case DecodeInteger data 5 of
           None \<Rightarrow> Inl BadSizeUpdate
         | Some (newSize, consumed) \<Rightarrow> Inr (setMaxSize t newSize, hs, consumed))
      else
        (let withIndexing = (firstByte AND 0xC0 = 0x40); prefixBits = (if withIndexing then 6 else 4) in
         case DecodeInteger data prefixBits of
           None \<Rightarrow> Inl BadLiteralIndex
         | Some (index, pos) \<Rightarrow>
             if index = 0 then
               (case decodeString (drop pos data) of
                  None \<Rightarrow> Inl BadLiteralName
                | Some (name, consumed) \<Rightarrow>
                    decode_literal mergeUnknown t hs data withIndexing name (pos + consumed))
             else (let h = lookupIndex t index in
               if fst h = [] then Inl NameIndexOutOfBounds
               else decode_literal mergeUnknown t hs data withIndexing (fst h) pos)))"

lemma decode_continuation_consumed:
  "decode_continuation data pos m v = Some (w, n) \<Longrightarrow> pos < n \<and> n \<le> length data \<and> n \<le> Suc kMaxContinuationBytes"
proof (induction data pos m v rule: decode_continuation.induct)
  case (1 data pos m v)
  note IH = "1.IH" [OF _ _ refl refl]
  show ?case using "1.prems" IH
    by (auto simp: decode_continuation.simps [of data pos m v] Let_def split: if_splits)
qed

lemma DecodeInteger_consumed:
  "DecodeInteger data p = Some (v, n) \<Longrightarrow> 0 < n \<and> n \<le> length data"
  by (cases data) (auto simp: DecodeInteger_def Let_def dest!: decode_continuation_consumed split: if_splits)

lemma decode_field_consumed:
  "decode_field mrg t hs data = Inr (t', hs', n) \<Longrightarrow> 0 < n"
  by (auto simp: decode_field_def decode_literal_def Let_def dest!: DecodeInteger_consumed
      split: if_splits option.splits prod.splits sum.splits)

function decode_loop ::
  "bool \<Rightarrow> HpackDynamicTable \<Rightarrow> header list \<Rightarrow> bytes \<Rightarrow> HpackError option \<times> header list \<times> HpackDynamicTable" where
  "decode_loop mergeUnknown t hs data =
     (if data = [] then (None, hs, t)
      else case decode_field mergeUnknown t hs data of
        Inl e \<Rightarrow> (Some e, hs, t)
      | Inr (t', hs', consumed) \<Rightarrow> decode_loop mergeUnknown t' hs' (drop consumed data))"
  by pat_completeness auto
termination
  by (relation "measure (\<lambda>(mrg, t, hs, data). length data)") (auto dest: decode_field_consumed)

declare decode_loop.simps [simp del]

record HpackDecoder =
  dec_table :: HpackDynamicTable
  dec_merge :: bool

definition newHpackDecoder :: "nat \<Rightarrow> bool \<Rightarrow> HpackDecoder" where
  "newHpackDecoder maxDynamicTableSize mergeUnknown =
     \<lparr>dec_table = newHpackDynamicTable maxDynamicTableSize, dec_merge = mergeUnknown\<rparr>"

definition hpack_decode :: "HpackDecoder \<Rightarrow> bytes \<Rightarrow> (HpackError option \<times> header list) \<times> HpackDecoder" where
  "hpack_decode d data =
     (let (err, hs, t) = decode_loop (dec_merge d) (dec_table d) [] data in ((err, hs), d\<lparr>dec_table := t\<rparr>))"

definition decoder_setMaxDynamicTableSize :: "HpackDecoder \<Rightarrow> nat \<Rightarrow> HpackDecoder" where
  "decoder_setMaxDynamicTableSize d n = d\<lparr>dec_table := setMaxSize (dec_table d) n\<rparr>"

section \<open>Encoder\<close>

datatype IndexingMode = Indexed | WithoutIndexing | NeverIndexed

text \<open>\<open>None\<close> is the maximal \<^verbatim>\<open>size_t\<close> that stands for no pending size update.\<close>

record HpackEncoder =
  enc_table :: HpackDynamicTable
  pendingTableSizeUpdate :: "nat option"

definition newHpackEncoder :: "nat \<Rightarrow> HpackEncoder" where
  "newHpackEncoder maxDynamicTableSize =
     \<lparr>enc_table = newHpackDynamicTable maxDynamicTableSize, pendingTableSizeUpdate = None\<rparr>"

definition encoder_setMaxDynamicTableSize :: "HpackEncoder \<Rightarrow> nat \<Rightarrow> HpackEncoder" where
  "encoder_setMaxDynamicTableSize e n = e\<lparr>pendingTableSizeUpdate := Some n\<rparr>"

definition encodeDynamicTableSizeUpdate :: "HpackEncoder \<Rightarrow> bytes \<Rightarrow> nat \<Rightarrow> HpackEncoder \<times> bytes" where
  "encodeDynamicTableSizeUpdate e output newSize =
     (e\<lparr>enc_table := setMaxSize (enc_table e) newSize\<rparr>, EncodeInteger output newSize 5 0x20)"

text \<open>A literal representation: the name by index or as a string, then the value.\<close>

definition encode_literal :: "bytes \<Rightarrow> Match \<times> nat \<Rightarrow> bytes \<Rightarrow> bytes \<Rightarrow> nat \<Rightarrow> u8 \<Rightarrow> bytes" where
  "encode_literal output lookup name val prefixBits pattern =
     (let out1 = (if fst lookup = NameOnly then EncodeInteger output (snd lookup) prefixBits pattern
                  else EncodeString (output @ [pattern]) name)
      in EncodeString out1 val)"

definition hpack_encode :: "HpackEncoder \<Rightarrow> bytes \<Rightarrow> bytes \<Rightarrow> bytes \<Rightarrow> IndexingMode \<Rightarrow> HpackEncoder \<times> bytes" where
  "hpack_encode e0 output0 name val mode =
     (let (e, output) = (case pendingTableSizeUpdate e0 of
            None \<Rightarrow> (e0, output0)
          | Some n \<Rightarrow> (let (e1, out1) = encodeDynamicTableSizeUpdate e0 output0 n
                       in (e1\<lparr>pendingTableSizeUpdate := None\<rparr>, out1)));
          lookup = findHeader (enc_table e) name val
      in if fst lookup = FullMatch then (e, EncodeInteger output (snd lookup) 7 0x80)
         else case mode of
           Indexed \<Rightarrow> (e\<lparr>enc_table := snd (table_add (enc_table e) name val)\<rparr>,
                       encode_literal output lookup name val 6 0x40)
         | NeverIndexed \<Rightarrow> (e, encode_literal output lookup name val 4 0x10)
         | WithoutIndexing \<Rightarrow> (e, encode_literal output lookup name val 4 0x00))"

section \<open>Integers round trip\<close>

lemma unat_and_mask: "unat ((x :: u8) AND word_of_nat (2 ^ p - 1)) = unat x mod 2 ^ p"
proof -
  have "(word_of_nat (2 ^ p - 1) :: u8) = mask p" by (simp add: mask_eq_exp_minus_1 of_nat_diff)
  then show ?thesis
    by (simp only: take_bit_eq_mask [symmetric] unsigned_take_bit_eq) (simp add: take_bit_eq_mod)
qed

lemma unat_and_7F: "unat ((x :: u8) AND 0x7F) = unat x mod 128"
  using unat_and_mask [of x 7] by simp

lemma continuation_byte:
  "unat (((word_of_nat v AND 0x7F) OR 0x80 :: u8) AND 0x7F) = v mod 128"
  "((word_of_nat v AND 0x7F) OR 0x80 :: u8) AND 0x80 \<noteq> 0"
proof -
  have b: "((x AND 0x7F) OR 0x80) AND 0x7F = x AND 0x7F \<and> ((x AND 0x7F) OR 0x80) AND 0x80 \<noteq> 0" for x :: u8
  proof -
    have "list_all (\<lambda>n. (((word_of_nat n :: u8) AND 0x7F) OR 0x80) AND 0x7F = word_of_nat n AND 0x7F \<and>
        ((word_of_nat n AND 0x7F) OR 0x80) AND (0x80 :: u8) \<noteq> 0) [0..<256]" by code_simp
    then show ?thesis by (rule u8_allI)
  qed
  have "unat (word_of_nat v :: u8) mod 128 = v mod 128"
    by (simp add: unsigned_of_nat take_bit_eq_mod mod_mod_cancel)
  then show "unat (((word_of_nat v AND 0x7F) OR 0x80 :: u8) AND 0x7F) = v mod 128"
    using b by (simp add: unat_and_7F)
  show "((word_of_nat v AND 0x7F) OR 0x80 :: u8) AND 0x80 \<noteq> 0" using b by simp
qed

lemma last_byte:
  assumes "v < 128"
  shows "unat ((word_of_nat v :: u8) AND 0x7F) = v" "(word_of_nat v :: u8) AND 0x80 = 0"
proof -
  show "unat ((word_of_nat v :: u8) AND 0x7F) = v"
    using assms by (simp add: unat_and_7F unsigned_of_nat take_bit_eq_mod)
  have "list_all (\<lambda>n. (word_of_nat n :: u8) AND 0x80 = 0) [0..<128]" by code_simp
  then have "\<forall>n \<in> set [0..<128]. (word_of_nat n :: u8) AND 0x80 = 0" unfolding list_all_iff .
  moreover have "v \<in> set [0..<128]" using assms by (simp only: set_upt atLeastLessThan_iff) simp
  ultimately show "(word_of_nat v :: u8) AND 0x80 = 0" by blast
qed

lemma length_encode_continuation: "v < 128 ^ k \<Longrightarrow> 0 < k \<Longrightarrow> length (encode_continuation v) \<le> k"
proof (induction v arbitrary: k rule: encode_continuation.induct)
  case (1 v)
  show ?case
  proof (cases "128 \<le> v")
    case True
    obtain j where j: "k = Suc j" using 1 by (cases k) auto
    have "0 < j" using True 1 j by (cases j) auto
    then have "length (encode_continuation (v div 128)) \<le> j"
      using "1.IH" [OF True, of j] 1 j by (simp add: less_mult_imp_div_less mult.commute)
    then show ?thesis using True j by (simp add: encode_continuation.simps [of v])
  next
    case False
    then show ?thesis using 1 by (simp add: encode_continuation.simps [of v])
  qed
qed

lemma decode_encode_continuation:
  "length pre = pos \<Longrightarrow> pos + length (encode_continuation v) \<le> 9 \<Longrightarrow>
   decode_continuation (pre @ encode_continuation v @ rest) pos m a =
     Some (a + v * m, pos + length (encode_continuation v))"
proof (induction v arbitrary: pre pos m a rule: encode_continuation.induct)
  case (1 v)
  let ?d = "pre @ encode_continuation v @ rest"
  show ?case
  proof (cases "128 \<le> v")
    case True
    let ?b = "(word_of_nat v AND 0x7F) OR 0x80 :: u8"
    have e: "encode_continuation v = ?b # encode_continuation (v div 128)"
      using True by (simp add: encode_continuation.simps [of v])
    have "?d ! pos = ?b" "pos < length ?d" using 1(2) e by (simp_all add: nth_append)
    moreover have "pos \<le> 8" using 1(3) e by simp
    ultimately have "decode_continuation ?d pos m a =
        decode_continuation ?d (pos + 1) (m * 128) (a + v mod 128 * m)"
      using continuation_byte [of v] by (simp add: decode_continuation.simps [of ?d pos] Let_def kMaxContinuationBytes_def)
    also have "\<dots> = Some (a + v mod 128 * m + v div 128 * (m * 128), pos + 1 + length (encode_continuation (v div 128)))"
      using "1.IH" [OF True, of "pre @ [?b]" "pos + 1" "m * 128" "a + v mod 128 * m"] 1(2,3) e by simp
    also have "a + v mod 128 * m + v div 128 * (m * 128) = a + (v mod 128 + v div 128 * 128) * m"
      by (simp only: distrib_right mult.assoc mult.commute [of 128] add.assoc)
    also have "\<dots> = a + v * m" by (simp only: mod_div_mult_eq)
    finally show ?thesis using e by simp
  next
    case False
    then have e: "encode_continuation v = [word_of_nat v]" by (simp add: encode_continuation.simps [of v])
    have "?d ! pos = word_of_nat v" "pos < length ?d" using 1(2) e by (simp_all add: nth_append)
    then show ?thesis using last_byte [of v] False 1(3)
      unfolding decode_continuation.simps [of ?d pos] by (simp add: e Let_def kMaxContinuationBytes_def)
  qed
qed

text \<open>The first byte: the representation's bits are above the prefix and leave it alone.\<close>

definition prefix_ok :: "nat \<Rightarrow> u8 \<Rightarrow> bool" where
  "prefix_ok p pm \<longleftrightarrow> 1 \<le> p \<and> p \<le> 8 \<and> pm AND word_of_nat (2 ^ p - 1) = 0"

lemma first_byte:
  assumes "prefix_ok p pm" "v < 2 ^ p"
  shows "unat ((pm OR word_of_nat v) AND word_of_nat (2 ^ p - 1)) = v"
proof -
  have m: "(word_of_nat (2 ^ p - 1) :: u8) = mask p" by (simp add: mask_eq_exp_minus_1 of_nat_diff)
  have p: "p \<le> 8" "pm AND mask p = 0" using assms(1) unfolding prefix_ok_def m by auto
  have "(2 :: nat) ^ p \<le> 2 ^ 8" using p(1) by (intro power_increasing) simp_all
  then have v: "v mod 256 = v" using assms(2) by simp
  have "(pm OR word_of_nat v) AND mask p = (word_of_nat v :: u8) AND mask p"
    using p(2) by (simp add: bit.conj_disj_distrib2)
  then have "unat ((pm OR word_of_nat v) AND mask p) = take_bit p (unat (word_of_nat v :: u8))"
    by (simp only: take_bit_eq_mask [symmetric] unsigned_take_bit_eq)
  then show ?thesis unfolding m using assms(2) v by (simp add: unsigned_of_nat take_bit_eq_mod)
qed

lemma EncodeInteger_append: "EncodeInteger output v p pm = output @ EncodeInteger [] v p pm"
  by (simp add: EncodeInteger_def Let_def)

lemma EncodeInteger_nonempty: "EncodeInteger [] v p pm \<noteq> []"
  by (simp add: EncodeInteger_def Let_def)

lemma DecodeInteger_EncodeInteger:
  assumes "prefix_ok p pm" "v < 2 ^ 56"
  shows "DecodeInteger (EncodeInteger [] v p pm @ rest) p = Some (v, length (EncodeInteger [] v p pm))"
proof (cases "v < 2 ^ p - 1")
  case True
  then show ?thesis using first_byte [OF assms(1), of v] by (simp add: EncodeInteger_def DecodeInteger_def Let_def)
next
  case False
  let ?M = "2 ^ p - 1 :: nat" let ?b = "pm OR word_of_nat ?M :: u8"
  have M: "?M < 2 ^ p" by simp
  have "v - ?M < 128 ^ 8" using assms(2) le_less_trans [OF diff_le_self [of v ?M], of "2 ^ 56"] by simp
  then have "length (encode_continuation (v - ?M)) \<le> 8" by (rule length_encode_continuation) simp
  then have "decode_continuation ([?b] @ encode_continuation (v - ?M) @ rest) 1 1 ?M
      = Some (?M + (v - ?M) * 1, 1 + length (encode_continuation (v - ?M)))"
    by (intro decode_encode_continuation) simp_all
  then show ?thesis using False first_byte [OF assms(1) M] by (simp add: EncodeInteger_def DecodeInteger_def Let_def)
qed

text \<open>No decoded integer reaches 2 to the 57: the 64-bit sums of the code do not wrap.\<close>

lemma decode_continuation_bound:
  "decode_continuation data pos m a = Some (v, n) \<Longrightarrow> v + m \<le> a + m * 128 ^ (n - pos)"
proof (induction data pos m a rule: decode_continuation.induct)
  case (1 data pos m a)
  note IH = "1.IH" [OF _ _ refl refl]
  let ?x = "unat (data ! pos AND 0x7F)"
  have x: "?x * m + m \<le> m * 128" 
  proof -
    have "?x \<le> 127" by (simp add: unat_and_7F less_Suc_eq_le [symmetric])
    then have "?x * m \<le> 127 * m" by (rule mult_le_mono1)
    then show ?thesis by simp
  qed
  show ?case
  proof (cases "data ! pos AND 0x80 = 0")
    case True
    then show ?thesis using "1.prems" x
      by (auto simp: decode_continuation.simps [of data pos m a] Let_def split: if_splits)
  next
    case False
    then have r: "decode_continuation data (pos + 1) (m * 128) (a + ?x * m) = Some (v, n)" "pos < length data"
        "\<not> pos > kMaxContinuationBytes"
      using "1.prems" by (auto simp: decode_continuation.simps [of data pos m a] Let_def split: if_splits)
    have "n - pos = Suc (n - (pos + 1))" using decode_continuation_consumed [OF r(1)] by linarith
    then have "m * 128 ^ (n - pos) = m * 128 * 128 ^ (n - (pos + 1))" by simp
    moreover have "v + m * 128 \<le> a + ?x * m + m * 128 * 128 ^ (n - (pos + 1))" using IH [OF r(2,3) False r(1)] .
    ultimately show ?thesis using x by linarith
  qed
qed

lemma DecodeInteger_bound:
  assumes "DecodeInteger data p = Some (v, n)" "p \<le> 8" shows "v < 2 ^ 57"
proof -
  have x: "unat (data ! 0 AND word_of_nat (2 ^ p - 1)) < 256" by (rule unat_u8_lt)
  show ?thesis
  proof (cases "decode_continuation data 1 1 (unat (data ! 0 AND word_of_nat (2 ^ p - 1))) = Some (v, n)")
    case True
    from decode_continuation_consumed [OF True] have "(128 :: nat) ^ (n - 1) \<le> 128 ^ 8"
      by (intro power_increasing) (auto simp: kMaxContinuationBytes_def)
    then show ?thesis using decode_continuation_bound [OF True] x by simp
  next
    case False
    then show ?thesis using assms x by (auto simp: DecodeInteger_def Let_def split: if_splits)
  qed
qed

lemma EncodeInteger_first: "EncodeInteger [] v p pm ! 0 = pm OR word_of_nat (min v (2 ^ p - 1))"
  by (simp add: EncodeInteger_def Let_def min_def)

lemma EncodeInteger_first_append: "(EncodeInteger [] v p pm @ rest) ! 0 = pm OR word_of_nat (min v (2 ^ p - 1))"
  using EncodeInteger_nonempty [of v p pm] by (simp add: nth_append EncodeInteger_first)

lemma first_byte_high:
  assumes "p \<le> 8" "(hm :: u8) AND word_of_nat (2 ^ p - 1) = 0"
  shows "(EncodeInteger [] v p pm @ rest) ! 0 AND hm = pm AND hm"
proof -
  let ?w = "word_of_nat (min v (2 ^ p - 1)) :: u8"
  have m: "(word_of_nat (2 ^ p - 1) :: u8) = mask p" by (simp add: mask_eq_exp_minus_1 of_nat_diff)
  have "unat ?w < 2 ^ p"
  proof -
    have "min v (2 ^ p - 1) \<le> 2 ^ p - 1" by simp
    also have "\<dots> < 2 ^ p" by simp
    finally have "min v (2 ^ p - 1) < 2 ^ p" .
    moreover have "unat ?w \<le> min v (2 ^ p - 1)" by (simp only: unsigned_of_nat take_bit_eq_mod of_nat_id mod_less_eq_dividend)
    ultimately show ?thesis by (rule le_less_trans [rotated])
  qed
  then have "take_bit p (unat ?w) = unat ?w" by (rule take_bit_nat_eq_self)
  then have "unat (take_bit p ?w) = unat ?w" by (simp only: unsigned_take_bit_eq)
  then have "?w = ?w AND mask p" by (metis take_bit_eq_mask unsigned_word_eqI)
  then have "?w AND hm = ?w AND (mask p AND hm)" by (metis and.assoc)
  also have "mask p AND hm = 0" using assms(2) by (simp only: m and.commute)
  finally show ?thesis unfolding EncodeInteger_first_append by (simp add: bit.conj_disj_distrib2)
qed

section \<open>Strings round trip\<close>

interpretation hpack_int: codec "\<lambda>v. EncodeInteger [] v 7 0" "\<lambda>data. DecodeInteger data 7" "\<lambda>v. v < 2 ^ 56"
  by unfold_locales (simp_all add: DecodeInteger_EncodeInteger prefix_ok_def EncodeInteger_nonempty)

lemma HuffmanEncodedLength_le: "HuffmanEncodedLength str < length str \<Longrightarrow> length str < 2 ^ 56 \<Longrightarrow> HuffmanEncodedLength str < 2 ^ 56"
  by simp

lemma emit_bytes_append: "emit_bytes w n (out0 @ out) = map_prod id (append out0) (emit_bytes w n out)"
proof (induction w n out rule: emit_bytes.induct)
  case (1 w n out)
  then show ?case by (simp add: emit_bytes.simps [of w n "out0 @ out"] emit_bytes.simps [of w n out])
qed

lemma encode_chars_append:
  "encode_chars w n (out0 @ out) str = map_prod id (map_prod id (append out0)) (encode_chars w n out str)"
  by (induction w n out str rule: encode_chars.induct) (auto simp: emit_bytes_append Let_def split: prod.split)

lemma EncodeHuffman_append: "EncodeHuffman output str = output @ EncodeHuffman [] str"
  using encode_chars_append [of 0 0 "output" "[]" str]
  by (cases "encode_chars 0 0 [] str") (auto simp: EncodeHuffman_def Let_def)

lemma huffman_encoded:
  "length (EncodeHuffman [] str) = HuffmanEncodedLength str" "decodeHuffman (EncodeHuffman [] str) = Some str"
proof -
  obtain em where "EncodeHuffman [] str = [] @ em" "length em = HuffmanEncodedLength str" "decodeHuffman em = Some str"
    by (rule EncodeHuffman_facts)
  then show "length (EncodeHuffman [] str) = HuffmanEncodedLength str" "decodeHuffman (EncodeHuffman [] str) = Some str"
    by simp_all
qed

lemma EncodeString_append: "EncodeString output str = output @ EncodeString [] str"
proof (cases "HuffmanEncodedLength str < length str")
  case True
  let ?i = "\<lambda>out. EncodeInteger out (HuffmanEncodedLength str) 7 0x80"
  have "EncodeHuffman (?i output) str = output @ EncodeHuffman (?i []) str"
    using EncodeHuffman_append [of "?i output" str] EncodeHuffman_append [of "?i []" str]
      EncodeInteger_append [of "output" "HuffmanEncodedLength str" 7 "0x80"] by simp
  then show ?thesis using True by (simp add: EncodeString_def)
next
  case False
  then show ?thesis using EncodeInteger_append [of "output" "length str" 7 0] by (simp add: EncodeString_def)
qed

lemma EncodeString_nonempty: "EncodeString [] str \<noteq> []"
  using EncodeInteger_nonempty EncodeHuffman_append [of "EncodeInteger [] _ 7 _" str]
  by (auto simp: EncodeString_def Let_def)

lemma subspan_encoded: "subspan (xs @ ys @ zs) (length xs) (length ys) = ys"
  by (simp add: subspan_def)

lemma decodeString_EncodeString:
  assumes "length str < 2 ^ 56"
  shows "decodeString (EncodeString [] str @ rest) = Some (str, length (EncodeString [] str))"
proof (cases "HuffmanEncodedLength str < length str")
  case True
  let ?i = "EncodeInteger [] (HuffmanEncodedLength str) 7 0x80" and ?em = "EncodeHuffman [] str"
  have e: "EncodeString [] str @ rest = ?i @ ?em @ rest" "EncodeString [] str = ?i @ ?em"
    using True EncodeHuffman_append [of ?i str] by (simp_all add: EncodeString_def)
  have "prefix_ok 7 0x80" by (simp add: prefix_ok_def)
  then have "DecodeInteger (?i @ ?em @ rest) 7 = Some (HuffmanEncodedLength str, length ?i)"
    using assms True by (intro DecodeInteger_EncodeInteger) simp_all
  moreover have "(?i @ ?em @ rest) ! 0 AND 0x80 \<noteq> 0"
    using first_byte_high [of 7 "0x80" "HuffmanEncodedLength str" "0x80" "?em @ rest"] by simp
  ultimately show ?thesis unfolding e decodeString_def
    using huffman_encoded [of str] subspan_encoded [of ?i ?em rest] by simp
next
  case False
  let ?i = "EncodeInteger [] (length str) 7 0"
  have e: "EncodeString [] str @ rest = ?i @ str @ rest" "EncodeString [] str = ?i @ str"
    using False by (simp_all add: EncodeString_def)
  have "DecodeInteger (?i @ str @ rest) 7 = Some (length str, length ?i)"
    using assms by (rule hpack_int.dec_enc)
  moreover have "(?i @ str @ rest) ! 0 AND 0x80 = 0"
    using first_byte_high [of 7 "0x80" "length str" 0 "str @ rest"] by simp
  ultimately show ?thesis unfolding e decodeString_def using subspan_encoded [of ?i str rest] by simp
qed

interpretation hpack_string: codec "EncodeString []" decodeString "\<lambda>s. length s < 2 ^ 56"
  by unfold_locales (simp_all add: decodeString_EncodeString EncodeString_nonempty)

lemma DecodeInteger_nine: "DecodeInteger data p = Some (v, n) \<Longrightarrow> n \<le> 9"
  by (cases data) (auto simp: DecodeInteger_def Let_def kMaxContinuationBytes_def dest!: decode_continuation_consumed
      split: if_splits)

section \<open>Header fields round trip\<close>

definition header_ok :: "header \<Rightarrow> bool" where
  "header_ok h \<longleftrightarrow> fst h \<noteq> [] \<and> length (fst h) < 2 ^ 56 \<and> length (snd h) < 2 ^ 56"

definition stored :: "bool \<Rightarrow> header list \<Rightarrow> header \<Rightarrow> HpackDynamicTable \<Rightarrow> nat \<Rightarrow> HpackError + HpackDynamicTable \<times> header list \<times> nat" where
  "stored mrg hs h t n = (case storeHeader mrg hs h of Inl e \<Rightarrow> Inl e | Inr hs' \<Rightarrow> Inr (t, hs', n))"

lemma field_indexed:
  assumes "0 < i" "i < 2 ^ 56" "lookupIndex t i = h" "fst h \<noteq> []"
  shows "decode_field mrg t hs (EncodeInteger [] i 7 0x80 @ rest) = stored mrg hs h t (length (EncodeInteger [] i 7 0x80))"
proof -
  have "prefix_ok 7 0x80" by (simp add: prefix_ok_def)
  note d = DecodeInteger_EncodeInteger [OF this assms(2), of rest]
  have "(EncodeInteger [] i 7 0x80 @ rest) ! 0 AND 0x80 \<noteq> 0" using first_byte_high [of 7 "0x80" i "0x80" rest] by simp
  then show ?thesis using d assms by (simp add: decode_field_def stored_def Let_def)
qed

lemma field_size_update:
  assumes "n < 2 ^ 56"
  shows "decode_field mrg t hs (EncodeInteger [] n 5 0x20 @ rest) = Inr (setMaxSize t n, hs, length (EncodeInteger [] n 5 0x20))"
proof -
  have "prefix_ok 5 0x20" by (simp add: prefix_ok_def)
  note d = DecodeInteger_EncodeInteger [OF this assms, of rest]
  have "(EncodeInteger [] n 5 0x20 @ rest) ! 0 AND 0x80 = 0" "(EncodeInteger [] n 5 0x20 @ rest) ! 0 AND 0xE0 = 0x20"
    using first_byte_high [of 5 "0x80" n "0x20" rest] first_byte_high [of 5 "0xE0" n "0x20" rest] by simp_all
  then show ?thesis using d by (simp add: decode_field_def)
qed

text \<open>The bit patterns of the three literal representations.\<close>

definition literal_pattern :: "nat \<Rightarrow> u8 \<Rightarrow> bool \<Rightarrow> bool" where
  "literal_pattern p pat ix \<longleftrightarrow> (p, pat, ix) \<in> {(6, 0x40, True), (4, 0x10, False), (4, 0, False)}"

lemma literal_prefix:
  assumes "literal_pattern p pat ix" shows "p = (if ix then 6 else 4)" "prefix_ok p pat"
  using assms by (auto simp: literal_pattern_def prefix_ok_def)

lemma literal_first_byte:
  assumes "literal_pattern p pat ix"
  shows "(EncodeInteger [] i p pat @ rest) ! 0 AND 0x80 = 0" "(EncodeInteger [] i p pat @ rest) ! 0 AND 0xE0 \<noteq> 0x20"
    "(EncodeInteger [] i p pat @ rest) ! 0 AND 0xC0 = 0x40 \<longleftrightarrow> ix"
proof -
  let ?b = "(EncodeInteger [] i p pat @ rest) ! 0"
  have c: "?b AND 0xC0 = pat AND 0xC0" "?b AND 0x80 = pat AND 0x80"
    using assms first_byte_high [of p "0xC0" i pat rest] first_byte_high [of p "0x80" i pat rest]
    by (auto simp: literal_pattern_def)
  show "?b AND 0x80 = 0" "?b AND 0xC0 = 0x40 \<longleftrightarrow> ix"
    using assms unfolding c by (auto simp: literal_pattern_def)
  show "?b AND 0xE0 \<noteq> 0x20"
  proof
    assume e: "?b AND 0xE0 = 0x20"
    show False
    proof (cases ix)
      case True
      have "?b AND 0xC0 = (?b AND 0xE0) AND 0xC0" by (simp add: and.assoc)
      then show False using e c assms True by (auto simp: literal_pattern_def)
    next
      case False
      then have "p = 4" "pat = 0x10 \<or> pat = 0" using assms by (auto simp: literal_pattern_def)
      then show False using first_byte_high [of 4 "0xE0" i pat rest] e by auto
    qed
  qed
qed

lemma literal_value:
  assumes "length v < 2 ^ 56"
  shows "decode_literal mrg t hs (pre @ EncodeString [] v @ rest) ix name (length pre) =
    stored mrg hs (name, v) (if ix then snd (table_add t name v) else t) (length pre + length (EncodeString [] v))"
  using decodeString_EncodeString [OF assms, of rest] by (simp add: decode_literal_def stored_def split: sum.split)

lemma encode_literal_eq:
  "encode_literal [] lk name v p pat =
     (if fst lk = NameOnly then EncodeInteger [] (snd lk) p pat @ EncodeString [] v
      else EncodeInteger [] 0 p pat @ EncodeString [] name @ EncodeString [] v)" if "1 < p"
proof -
  have "(1 :: nat) < 2 ^ p" using that by (intro one_less_power) simp_all
  then have "EncodeInteger [] 0 p pat = [pat]" by (simp add: EncodeInteger_def Let_def)
  then show ?thesis
    using EncodeString_append [of "EncodeInteger [] (snd lk) p pat" v] EncodeString_append [of "EncodeString [pat] name" v]
      EncodeString_append [of "[pat]" name]
    by (simp add: encode_literal_def Let_def)
qed

lemma encode_literal_append: "encode_literal output lk name v p pat = output @ encode_literal [] lk name v p pat"
  using EncodeInteger_append [of "output" "snd lk" p pat] EncodeString_append [of "output @ [pat]" name]
    EncodeString_append [of "[pat]" name] EncodeString_append [of "output @ EncodeInteger [] (snd lk) p pat" v]
    EncodeString_append [of "EncodeInteger [] (snd lk) p pat" v]
    EncodeString_append [of "output @ EncodeString [pat] name" v] EncodeString_append [of "EncodeString [pat] name" v]
  by (simp add: encode_literal_def Let_def)

lemma encode_literal_nonempty: "encode_literal [] lk name v p pat \<noteq> []"
  using EncodeString_nonempty [of v] EncodeString_append [of "EncodeInteger [] (snd lk) p pat" v]
    EncodeString_append [of "EncodeString [pat] name" v]
  by (simp add: encode_literal_def Let_def)

lemma field_literal:
  assumes pat: "literal_pattern p pat ix" and h: "header_ok (name, v)"
    and lk: "points_to t name v lk" "fst lk \<noteq> FullMatch" "length (entries t) < 2 ^ 32"
  shows "decode_field mrg t hs (encode_literal [] lk name v p pat @ rest) =
    stored mrg hs (name, v) (if ix then snd (table_add t name v) else t) (length (encode_literal [] lk name v p pat))"
proof -
  have v: "length v < 2 ^ 56" "length name < 2 ^ 56" "name \<noteq> []" using h by (simp_all add: header_ok_def)
  have p: "1 < p" using pat by (auto simp: literal_pattern_def)
  note pr = literal_prefix [OF pat]
  show ?thesis
  proof (cases "fst lk = NameOnly")
    case True
    let ?i = "EncodeInteger [] (snd lk) p pat"
    have i: "0 < snd lk" "snd lk < 2 ^ 56" "fst (lookupIndex t (snd lk)) = name"
      using lk True by (auto simp: points_to_def)
    note fb = literal_first_byte [OF pat, of "snd lk" "EncodeString [] v @ rest"]
    note d = DecodeInteger_EncodeInteger [OF pr(2) i(2), of "EncodeString [] v @ rest"]
    have "decode_field mrg t hs (?i @ EncodeString [] v @ rest) =
        decode_literal mrg t hs (?i @ EncodeString [] v @ rest) ix name (length ?i)"
      using fb d i(1,3) v(3) unfolding pr(1) by (simp add: decode_field_def Let_def)
    then show ?thesis unfolding encode_literal_eq [OF p] using True literal_value [OF v(1), of mrg t hs ?i rest ix name]
      by simp
  next
    case False
    let ?i = "EncodeInteger [] 0 p pat" and ?n = "EncodeString [] name"
    note fb = literal_first_byte [OF pat, of 0 "?n @ EncodeString [] v @ rest"]
    have "(0 :: nat) < 2 ^ 56" by simp
    note d = DecodeInteger_EncodeInteger [OF pr(2) this, of "?n @ EncodeString [] v @ rest"]
    have s: "decodeString (?n @ EncodeString [] v @ rest) = Some (name, length ?n)"
      using v(2) by (rule decodeString_EncodeString)
    have "decode_field mrg t hs (?i @ ?n @ EncodeString [] v @ rest) =
        decode_literal mrg t hs (?i @ ?n @ EncodeString [] v @ rest) ix name (length ?i + length ?n)"
      using fb d s unfolding pr(1) by (simp add: decode_field_def Let_def)
    then show ?thesis unfolding encode_literal_eq [OF p]
      using False literal_value [OF v(1), of mrg t hs "?i @ ?n" rest ix name] by (simp add: add.assoc)
  qed
qed

section \<open>Header blocks round trip\<close>

text \<open>A header block: the fields in order, through the encoder; and the map a decoder must build from them.\<close>

fun encode_block :: "HpackEncoder \<Rightarrow> bytes \<Rightarrow> (header \<times> IndexingMode) list \<Rightarrow> HpackEncoder \<times> bytes" where
  "encode_block e output [] = (e, output)"
| "encode_block e output ((h, mode) # fs) =
     (let (e', output') = hpack_encode e output (fst h) (snd h) mode in encode_block e' output' fs)"

fun store_all :: "bool \<Rightarrow> header list \<Rightarrow> header list \<Rightarrow> HpackError + header list" where
  "store_all mrg hs [] = Inr hs"
| "store_all mrg hs (h # fs) = (case storeHeader mrg hs h of Inl err \<Rightarrow> Inl err | Inr hs' \<Rightarrow> store_all mrg hs' fs)"

text \<open>Table sizes are 32-bit settings values; a pending update is one too.\<close>

definition encoder_ok :: "HpackEncoder \<Rightarrow> bool" where
  "encoder_ok e \<longleftrightarrow> table_inv (enc_table e) \<and> maxSize (enc_table e) < 2 ^ 32 \<and>
     (case pendingTableSizeUpdate e of None \<Rightarrow> True | Some n \<Rightarrow> n < 2 ^ 32)"

lemma maxSize_evict_until [simp]: "maxSize (evict_until extra t) = maxSize t"
  by (induction extra t rule: evict_until.induct) (subst evict_until.simps, simp add: evict_def)

lemma maxSize_simps [simp]: "maxSize (snd (table_add t name v)) = maxSize t" "maxSize (setMaxSize t n) = n"
  by (simp_all add: table_add_def clear_def setMaxSize_def Let_def)

lemma few_entries: "table_inv t \<Longrightarrow> maxSize t < 2 ^ 32 \<Longrightarrow> length (entries t) < 2 ^ 32"
  using table_entry_bound [of t] by (simp add: kHpackOverhead_def)

lemma decode_loop_step:
  assumes "decode_field mrg t hs (fb @ rest) = Inr (t', hs', length fb)" "fb \<noteq> []"
  shows "decode_loop mrg t hs (fb @ rest) = decode_loop mrg t' hs' rest"
  using assms by (simp add: decode_loop.simps [of mrg t hs "fb @ rest"])

text \<open>The field part of \<open>hpack_encode\<close>, after any size update.\<close>

lemma encode_field_decodes:
  assumes e: "encoder_ok e" "pendingTableSizeUpdate e = None" and h: "header_ok (name, v)"
  obtains fb e' where "hpack_encode e output name v mode = (e', output @ fb)" "fb \<noteq> []"
    "\<And>mrg hs rest. decode_field mrg (enc_table e) hs (fb @ rest) = stored mrg hs (name, v) (enc_table e') (length fb)"
    "encoder_ok e'" "pendingTableSizeUpdate e' = None"
proof -
  let ?t = "enc_table e" and ?lk = "findHeader (enc_table e) name v"
  have len: "length (entries ?t) < 2 ^ 32" using e(1) few_entries by (simp add: encoder_ok_def)
  have pt: "points_to ?t name v ?lk" by (rule findHeader_points [OF len])
  show ?thesis
  proof (cases "fst ?lk = FullMatch")
    case True
    have i: "0 < snd ?lk" "snd ?lk < 2 ^ 56" "lookupIndex ?t (snd ?lk) = (name, v)"
      using pt True len by (auto simp: points_to_def)
    let ?fb = "EncodeInteger [] (snd ?lk) 7 0x80"
    have fi: "decode_field mrg ?t hs (?fb @ rest) = stored mrg hs (name, v) ?t (length ?fb)" for mrg hs rest
      using field_indexed [OF i] h by (simp add: header_ok_def)
    have "hpack_encode e output name v mode = (e, output @ ?fb)"
      using True e(2) EncodeInteger_append [of "output" "snd ?lk" 7 "0x80"] by (simp add: hpack_encode_def Let_def)
    from that [OF this EncodeInteger_nonempty fi e] show ?thesis .
  next
    case False
    let ?b = "\<lambda>p pat. encode_literal [] ?lk name v p pat"
    have ne: "?b p pat \<noteq> []" for p pat by (rule encode_literal_nonempty)
    have fl: "decode_field mrg ?t hs (?b p pat @ rest) =
        stored mrg hs (name, v) (if ix then snd (table_add ?t name v) else ?t) (length (?b p pat))"
      if "literal_pattern p pat ix" for p pat ix mrg hs rest
      using field_literal [OF that h pt False len] .
    note enc = hpack_encode_def Let_def encode_literal_append [of "output" ?lk name v]
    show ?thesis
    proof (cases mode)
      case Indexed
      let ?e = "e\<lparr>enc_table := snd (table_add ?t name v)\<rparr>"
      have he: "hpack_encode e output name v mode = (?e, output @ ?b 6 0x40)" using Indexed False e(2) by (simp add: enc)
      have ok: "encoder_ok ?e" "pendingTableSizeUpdate ?e = None" using e by (simp_all add: encoder_ok_def table_inv_add)
      have "decode_field mrg ?t hs (?b 6 0x40 @ rest) = stored mrg hs (name, v) (enc_table ?e) (length (?b 6 0x40))"
        for mrg hs rest using fl [of 6 "0x40" True] by (simp add: literal_pattern_def)
      from that [OF he ne this ok] show ?thesis .
    next
      case NeverIndexed
      have he: "hpack_encode e output name v mode = (e, output @ ?b 4 0x10)" using NeverIndexed False e(2) by (simp add: enc)
      have "decode_field mrg ?t hs (?b 4 0x10 @ rest) = stored mrg hs (name, v) ?t (length (?b 4 0x10))"
        for mrg hs rest using fl [of 4 "0x10" False] by (simp add: literal_pattern_def)
      from that [OF he ne this e] show ?thesis .
    next
      case WithoutIndexing
      have he: "hpack_encode e output name v mode = (e, output @ ?b 4 0)" using WithoutIndexing False e(2) by (simp add: enc)
      have "decode_field mrg ?t hs (?b 4 0 @ rest) = stored mrg hs (name, v) ?t (length (?b 4 0))"
        for mrg hs rest using fl [of 4 0 False] by (simp add: literal_pattern_def)
      from that [OF he ne this e] show ?thesis .
    qed
  qed
qed

text \<open>A pending size update is one more representation before the field.\<close>

lemma encode_pending:
  assumes "encoder_ok e" "pendingTableSizeUpdate e = Some n"
  defines "e1 \<equiv> e\<lparr>enc_table := setMaxSize (enc_table e) n, pendingTableSizeUpdate := None\<rparr>"
  shows "hpack_encode e output name v mode = hpack_encode e1 (output @ EncodeInteger [] n 5 0x20) name v mode"
    "encoder_ok e1" "pendingTableSizeUpdate e1 = None" "enc_table e1 = setMaxSize (enc_table e) n" "n < 2 ^ 56"
proof -
  show "hpack_encode e output name v mode = hpack_encode e1 (output @ EncodeInteger [] n 5 0x20) name v mode"
    using assms(2) EncodeInteger_append [of "output" n 5 "0x20"]
    by (simp add: hpack_encode_def encodeDynamicTableSizeUpdate_def e1_def)
  show "encoder_ok e1" "pendingTableSizeUpdate e1 = None" "enc_table e1 = setMaxSize (enc_table e) n" "n < 2 ^ 56"
    using assms by (simp_all add: encoder_ok_def e1_def table_inv_setMaxSize)
qed

lemma encode_one_decodes:
  assumes e: "encoder_ok e" and h: "header_ok h" and s: "storeHeader mrg hs h = Inr hs'"
  obtains fb e' where "hpack_encode e output (fst h) (snd h) mode = (e', output @ fb)" "encoder_ok e'"
    "\<And>rest. decode_loop mrg (enc_table e) hs (fb @ rest) = decode_loop mrg (enc_table e') hs' rest"
proof -
  have h': "header_ok (fst h, snd h)" using h by simp
  have step: "decode_loop mrg t hs (fb @ rest) = decode_loop mrg t' hs' rest"
    if "decode_field mrg t hs (fb @ rest) = stored mrg hs (fst h, snd h) t' (length fb)" "fb \<noteq> []" for t t' fb rest
    using that s by (intro decode_loop_step) (simp_all add: stored_def)
  show ?thesis
  proof (cases "pendingTableSizeUpdate e")
    case None
    obtain fb e' where r: "hpack_encode e output (fst h) (snd h) mode = (e', output @ fb)" "fb \<noteq> []"
      "\<And>mrg hs rest. decode_field mrg (enc_table e) hs (fb @ rest) = stored mrg hs (fst h, snd h) (enc_table e') (length fb)"
      "encoder_ok e'" using encode_field_decodes [OF e None h'] by metis
    show ?thesis by (rule that [OF r(1,4) step [OF r(3,2)]])
  next
    case (Some n)
    let ?u = "EncodeInteger [] n 5 0x20"
    note p = encode_pending [OF e Some]
    obtain fb e' where r: "hpack_encode e output (fst h) (snd h) mode = (e', (output @ ?u) @ fb)" "fb \<noteq> []"
      "\<And>mrg hs rest. decode_field mrg (setMaxSize (enc_table e) n) hs (fb @ rest) =
         stored mrg hs (fst h, snd h) (enc_table e') (length fb)" "encoder_ok e'"
      using encode_field_decodes [OF p(2,3) h'] p(4) p(1) [of "output"] by metis
    have "decode_loop mrg (enc_table e) hs ((?u @ fb) @ rest) = decode_loop mrg (enc_table e') hs' rest" for rest
      using decode_loop_step [OF field_size_update [OF p(5)] EncodeInteger_nonempty, of mrg "enc_table e" hs "fb @ rest"]
        step [OF r(3,2)] by simp
    from that [of e' "?u @ fb", OF _ r(4) this] r(1) show ?thesis by simp
  qed
qed

lemma encode_block_decodes:
  assumes "encoder_ok e" "\<forall>f\<in>set fs. header_ok (fst f)" "store_all mrg hs (map fst fs) = Inr hs'"
  shows "\<exists>e' bs. encode_block e out fs = (e', out @ bs) \<and> encoder_ok e' \<and>
           (\<forall>rest. decode_loop mrg (enc_table e) hs (bs @ rest) = decode_loop mrg (enc_table e') hs' rest)"
  using assms
proof (induction fs arbitrary: e hs out)
  case Nil
  then show ?case by simp
next
  case (Cons f fs)
  obtain h mode where f: "f = (h, mode)" by fastforce
  obtain hs1 where s: "storeHeader mrg hs h = Inr hs1" "store_all mrg hs1 (map fst fs) = Inr hs'"
    using Cons.prems(3) f by (auto split: sum.splits)
  have h: "header_ok h" using Cons.prems(2) f by simp
  obtain e1 fb where r: "hpack_encode e out (fst h) (snd h) mode = (e1, out @ fb)" "encoder_ok e1"
    "\<And>rest. decode_loop mrg (enc_table e) hs (fb @ rest) = decode_loop mrg (enc_table e1) hs1 rest"
    using encode_one_decodes [OF Cons.prems(1) h s(1)] by metis
  from Cons.IH [OF r(2) _ s(2), of "out @ fb"] Cons.prems(2) obtain e' bs where
    "encode_block e1 (out @ fb) fs = (e', (out @ fb) @ bs)" "encoder_ok e'"
    "\<forall>rest. decode_loop mrg (enc_table e1) hs1 (bs @ rest) = decode_loop mrg (enc_table e') hs' rest" by auto
  then show ?case using r f by (intro exI [of _ e'] exI [of _ "fb @ bs"]) simp
qed

lemma hpack_decode_block:
  assumes "encoder_ok e" "\<forall>f\<in>set fs. header_ok (fst f)" "store_all (dec_merge d) [] (map fst fs) = Inr hs"
    and "dec_table d = enc_table e" and "encode_block e [] fs = (e', bs)"
  shows "hpack_decode d bs = ((None, hs), d\<lparr>dec_table := enc_table e'\<rparr>)" "encoder_ok e'"
proof -
  from encode_block_decodes [OF assms(1-3), of "[]"] assms(5)
  have r: "encoder_ok e'" "\<And>rest. decode_loop (dec_merge d) (enc_table e) [] (bs @ rest) =
      decode_loop (dec_merge d) (enc_table e') hs rest" by auto
  have "decode_loop (dec_merge d) (enc_table e) [] bs = (None, hs, enc_table e')"
    using r(2) [of "[]"] by (simp add: decode_loop.simps [of _ _ hs "[]"])
  then show "hpack_decode d bs = ((None, hs), d\<lparr>dec_table := enc_table e'\<rparr>)" "encoder_ok e'"
    using assms(4) r(1) by (simp_all add: hpack_decode_def)
qed

section \<open>Sessions\<close>

text \<open>
  A connection's use of the two ends: header blocks, each encoded by one end and decoded by the other,
  with changes of the table size limit in between.
\<close>

datatype SessionOp = Block "(header \<times> IndexingMode) list" | Resize nat

fun run_session :: "HpackEncoder \<Rightarrow> HpackDecoder \<Rightarrow> SessionOp list \<Rightarrow> (HpackError option \<times> header list) list" where
  "run_session e d [] = []"
| "run_session e d (Block fs # ops) =
     (let (e', bs) = encode_block e [] fs; (r, d') = hpack_decode d bs in r # run_session e' d' ops)"
| "run_session e d (Resize n # ops) = run_session (encoder_setMaxDynamicTableSize e n) d ops"

fun session_ok :: "bool \<Rightarrow> SessionOp list \<Rightarrow> bool" where
  "session_ok mrg [] \<longleftrightarrow> True"
| "session_ok mrg (Block fs # ops) \<longleftrightarrow>
     list_all (\<lambda>f. header_ok (fst f)) fs \<and> isl (store_all mrg [] (map fst fs)) = False \<and> session_ok mrg ops"
| "session_ok mrg (Resize n # ops) \<longleftrightarrow> n < 2 ^ 32 \<and> session_ok mrg ops"

fun expected :: "bool \<Rightarrow> SessionOp list \<Rightarrow> (HpackError option \<times> header list) list" where
  "expected mrg [] = []"
| "expected mrg (Block fs # ops) = (None, projr (store_all mrg [] (map fst fs))) # expected mrg ops"
| "expected mrg (Resize n # ops) = expected mrg ops"

lemma run_session_sync:
  "encoder_ok e \<Longrightarrow> dec_table d = enc_table e \<Longrightarrow> session_ok (dec_merge d) ops \<Longrightarrow>
     run_session e d ops = expected (dec_merge d) ops"
proof (induction e d ops rule: run_session.induct)
  case (2 e d fs ops)
  obtain e' bs where eb: "encode_block e [] fs = (e', bs)" by fastforce
  obtain hs where st: "store_all (dec_merge d) [] (map fst fs) = Inr hs"
    using 2 by (cases "store_all (dec_merge d) [] (map fst fs)") auto
  have ok: "\<forall>f\<in>set fs. header_ok (fst f)" using 2 by (simp add: list_all_iff)
  note db = hpack_decode_block [OF 2(2) ok st 2(3) eb]
  show ?case using "2.IH" [OF eb [symmetric] refl db(1) [symmetric] refl db(2)] 2 st eb db by simp
next
  case (3 e d n ops)
  then show ?case by (simp add: encoder_setMaxDynamicTableSize_def encoder_ok_def)
qed simp

lemma storeHeader_new:
  "(\<forall>g\<in>set hs. map tolower (fst g) \<noteq> map tolower (fst h)) \<Longrightarrow> storeHeader mrg hs h = Inr (hs @ [h])"
proof -
  assume "\<forall>g\<in>set hs. map tolower (fst g) \<noteq> map tolower (fst h)"
  then have "find (\<lambda>i. CaseInsensitiveEqual (fst (hs ! i)) (fst h)) [0..<length hs] = None"
    by (auto simp: find_None_iff CaseInsensitiveEqual_iff)
  then show ?thesis by (simp add: storeHeader_def)
qed

lemma store_all_distinct:
  "distinct (map (\<lambda>h. map tolower (fst h)) (hs @ fs)) \<Longrightarrow> store_all mrg hs fs = Inr (hs @ fs)"
proof (induction fs arbitrary: hs)
  case (Cons h fs)
  have "map tolower (fst h) \<notin> (\<lambda>h. map tolower (fst h)) ` set hs" using Cons.prems by auto
  then have "\<forall>g\<in>set hs. map tolower (fst g) \<noteq> map tolower (fst h)" by (metis image_eqI)
  then have "storeHeader mrg hs h = Inr (hs @ [h])" by (rule storeHeader_new)
  moreover have "store_all mrg (hs @ [h]) fs = Inr (hs @ h # fs)" using Cons.IH [of "hs @ [h]"] Cons.prems by simp
  ultimately show ?case by simp
qed simp

section \<open>Properties\<close>



text \<open>A prefix-coded integer below 2 to the 56 decodes to itself, consuming exactly its own bytes, for every
  prefix width and every pattern in the bits above the prefix, whatever follows it.\<close>

lemma hpack_integer_roundtrip:
  assumes "prefix_ok p pm" "v < 2 ^ 56"
  shows "DecodeInteger (EncodeInteger [] v p pm @ rest) p = Some (v, length (EncodeInteger [] v p pm))"
  using assms by (rule DecodeInteger_EncodeInteger)

lemma hpack_integer_roundtrip_witness:
  "DecodeInteger (EncodeInteger [] 1337 5 0x20 @ [7]) 5 = Some (1337, 3)"
proof -
  have "prefix_ok 5 0x20" by code_simp
  moreover have "length (EncodeInteger [] 1337 5 0x20) = 3" by code_simp
  ultimately show ?thesis using hpack_integer_roundtrip [of 5 "0x20" 1337 "[7]"] by simp
qed

text \<open>On any input the integer decoder reads at most nine bytes, all of them inside the input, and a decoded value
  stays below 2 to the 57, so its 64-bit arithmetic cannot wrap and cannot meet the error marker.\<close>

lemma hpack_integer_bounds:
  assumes "DecodeInteger data p = Some (v, n)" "p \<le> 8"
  shows "0 < n \<and> n \<le> 9 \<and> n \<le> length data \<and> v < 2 ^ 57"
  using DecodeInteger_consumed [OF assms(1)] DecodeInteger_bound [OF assms] DecodeInteger_nine [OF assms(1)] by simp

lemma hpack_integer_bounds_witness:
  "DecodeInteger [0x1F, 0x9A, 0x0A, 0xFF] 5 = Some (1337, 3) \<and> (1337 :: nat) < 2 ^ 57"
proof -
  have "DecodeInteger [0x1F, 0x9A, 0x0A, 0xFF] 5 = Some (1337, 3)" by code_simp
  moreover from hpack_integer_bounds [OF this] have "(1337 :: nat) < 2 ^ 57" by simp
  ultimately show ?thesis by blast
qed

text \<open>A string literal, Huffman-coded when that is shorter and raw otherwise, decodes to itself and consumes
  exactly its own bytes, whatever follows it.\<close>

lemma hpack_string_roundtrip:
  assumes "length str < 2 ^ 56"
  shows "decodeString (EncodeString [] str @ rest) = Some (str, length (EncodeString [] str))"
  using assms by (rule hpack_string.dec_enc)

lemma hpack_string_roundtrip_witness:
  "decodeString (EncodeString [] [48, 49, 50] @ [9]) = Some ([48, 49, 50], length (EncodeString [] [48, 49, 50]))"
  using hpack_string_roundtrip [of "[48, 49, 50]" "[9]"] by simp

end
