(* ===== verification/Http2_Connection.thy ===== *)
theory Http2_Connection
  imports Http2_Stream Hpack
begin

text \<open>
  One HTTP/2 connection (\<^verbatim>\<open>http2-connection.hpp\<close>, \<^verbatim>\<open>http2-connection.cpp\<close>): its state as a record, every member function that
  changes it as a function on that record. The map of streams is an association list with distinct
  keys. The \<^verbatim>\<open>std::function\<close> callbacks are application code: the record says which are set, and a call appends
  to the list of events instead, so the model covers callbacks that do not call back into the
  connection. Counters are natural numbers; the invariant of \<^verbatim>\<open>Http2_Connection_Inv\<close> bounds them. Header
  names and values given to the send functions are lists of pairs, the view the code iterates over.
\<close>

section \<open>State\<close>

definition kClosedStreamsMaxRetained :: nat where "kClosedStreamsMaxRetained = 16"

definition kMaxHeaderBlockAccumulationSize :: nat where "kMaxHeaderBlockAccumulationSize = 256 * 1024"

definition kMaxIdlePriorityFrames :: nat where "kMaxIdlePriorityFrames = 10000"

datatype ConnectionState =
  CS_AwaitingPreface | CS_AwaitingSettings | CS_Open | CS_GoAwaySent | CS_GoAwayReceived | CS_Closed

record Http2Config =
  cfgEnablePush :: bool
  cfgMergeUnknownRequestHeaders :: bool
  cfgHeaderTableSize :: u32
  cfgMaxConcurrentStreams :: u32
  cfgInitialWindowSize :: u32
  cfgMaxFrameSize :: u32
  cfgMaxHeaderListSize :: u32
  cfgConnectionWindowSize :: u32
  cfgMaxPriorityTreeDepth :: u32

text \<open>\<^verbatim>\<open>Http2Config::validate\<close>: \<open>Some\<close> is the message of the exception thrown.\<close>

definition validate :: "Http2Config \<Rightarrow> string option" where
  "validate config =
     (if cfgMaxFrameSize config < 16384 \<or> cfgMaxFrameSize config > 16777215 then
        Some ''Http2Config: maxFrameSize must be between 16384 and 16777215''
      else if cfgInitialWindowSize config > 2147483647 then
        Some ''Http2Config: initialWindowSize must not exceed 2147483647''
      else if cfgConnectionWindowSize config > 2147483647 then
        Some ''Http2Config: connectionWindowSize must not exceed 2147483647''
      else if cfgHeaderTableSize config > 65536 then
        Some ''Http2Config: headerTableSize should not exceed 65536''
      else if cfgMaxHeaderListSize config = 0 then
        Some ''Http2Config: maxHeaderListSize must be greater than 0''
      else if cfgMaxPriorityTreeDepth config = 0 then
        Some ''Http2Config: maxPriorityTreeDepth must be greater than 0''
      else None)"

record PeerSettings =
  psHeaderTableSize :: u32
  psEnablePush :: bool
  psMaxConcurrentStreams :: u32
  psInitialWindowSize :: u32
  psMaxFrameSize :: u32
  psMaxHeaderListSize :: u32

definition defaultPeerSettings :: PeerSettings where
  "defaultPeerSettings =
     \<lparr>psHeaderTableSize = 4096, psEnablePush = True, psMaxConcurrentStreams = 100, psInitialWindowSize = 65535,
      psMaxFrameSize = 16384, psMaxHeaderListSize = 0xFFFFFFFF\<rparr>"

datatype Event =
    EvHeaders u32 "header list" bool
  | EvData u32 bytes bool
  | EvStreamReset u32 ErrorCode
  | EvStreamClosed u32
  | EvGoAway u32 ErrorCode bytes
  | EvWindowUpdate u32 u32

record Callbacks =
  cbHeadersDecoded :: bool
  cbData :: bool
  cbStreamReset :: bool
  cbStreamClosed :: bool
  cbGoAway :: bool
  cbWindowUpdate :: bool

record Http2Connection =
  localSettings :: Http2Config
  peerSettings :: PeerSettings
  streams :: "(u32 \<times> Http2Stream) list"
  closedStreamsFifo :: "u32 list"
  headerBlockStreamId :: u32
  activeStreamCount :: nat
  lastPeerStreamId :: u32
  lastLocalStreamId :: u32
  goAwayLastStreamId :: u32
  idlePriorityFrameCount :: nat
  connectionSendWindow :: int
  connectionRecvWindow :: int
  hpackEncoder :: HpackEncoder
  hpackDecoder :: HpackDecoder
  headerBlockBuffer :: bytes
  outputBuffer :: bytes
  outputWritePos :: nat
  callbacks :: Callbacks
  connState :: ConnectionState
  settingsSent :: bool
  settingsAckReceived :: bool
  isServer :: bool
  expectingContinuation :: bool
  headerBlockEndStream :: bool
  events :: "Event list"

definition newHttp2Connection :: "Http2Config \<Rightarrow> bool \<Rightarrow> Callbacks \<Rightarrow> Http2Connection" where
  "newHttp2Connection config server cbs =
     \<lparr>localSettings = config, peerSettings = defaultPeerSettings, streams = [], closedStreamsFifo = [],
      headerBlockStreamId = 0, activeStreamCount = 0, lastPeerStreamId = 0, lastLocalStreamId = 0, goAwayLastStreamId = 0xFFFFFFFF,
      idlePriorityFrameCount = 0,
      connectionSendWindow = to_i32 (uint kDefaultInitialWindowSize),
      connectionRecvWindow = to_i32 (uint (cfgConnectionWindowSize config)),
      hpackEncoder = newHpackEncoder (unat (cfgHeaderTableSize config)),
      hpackDecoder = newHpackDecoder (unat (cfgHeaderTableSize config)) (cfgMergeUnknownRequestHeaders config),
      headerBlockBuffer = [], outputBuffer = [], outputWritePos = 0, callbacks = cbs,
      connState = CS_AwaitingPreface, settingsSent = False, settingsAckReceived = False, isServer = server,
      expectingContinuation = False, headerBlockEndStream = False, events = []\<rparr>"

datatype Action = A_Continue | A_OutputReady | A_Error | A_GoAway | A_Closed

record ProcessResult =
  action :: Action
  errorCode :: ErrorCode
  bytesConsumed :: nat
  errorMessage :: string

definition result :: "Action \<Rightarrow> ErrorCode \<Rightarrow> nat \<Rightarrow> string \<Rightarrow> ProcessResult" where
  "result a e n msg = \<lparr>action = a, errorCode = e, bytesConsumed = n, errorMessage = msg\<rparr>"

definition continue_with :: "Http2Connection \<Rightarrow> ProcessResult \<times> Http2Connection" where
  "continue_with c = (result A_Continue EC_NoError 0 [], c)"

definition output_ready :: "Http2Connection \<Rightarrow> ProcessResult \<times> Http2Connection" where
  "output_ready c = (result A_OutputReady EC_NoError 0 [], c)"

definition canCreateStreams :: "Http2Connection \<Rightarrow> bool" where
  "canCreateStreams c =
     (if activeStreamCount c \<ge> unat (psMaxConcurrentStreams (peerSettings c)) then False
      else connState c = CS_Open \<or> (\<not> isServer c \<and> connState c = CS_AwaitingSettings))"

definition hasPendingOutput :: "Http2Connection \<Rightarrow> bool" where
  "hasPendingOutput c \<longleftrightarrow> outputWritePos c < length (outputBuffer c)"

definition getPendingOutput :: "Http2Connection \<Rightarrow> bytes" where
  "getPendingOutput c = drop (outputWritePos c) (outputBuffer c)"

definition onOutputWritten :: "Http2Connection \<Rightarrow> nat \<Rightarrow> Http2Connection" where
  "onOutputWritten c bytesWritten =
     (let c1 = c\<lparr>outputWritePos := outputWritePos c + bytesWritten\<rparr> in
      if outputWritePos c1 \<ge> length (outputBuffer c1) then c1\<lparr>outputBuffer := [], outputWritePos := 0\<rparr> else c1)"

section \<open>Streams\<close>

definition getStream :: "Http2Connection \<Rightarrow> u32 \<Rightarrow> Http2Stream option" where
  "getStream c streamId = map_of (streams c) streamId"

definition put_stream :: "u32 \<Rightarrow> Http2Stream \<Rightarrow> (u32 \<times> Http2Stream) list \<Rightarrow> (u32 \<times> Http2Stream) list" where
  "put_stream streamId s ss = map (\<lambda>e. if fst e = streamId then (streamId, s) else e) ss"

definition erase_stream :: "u32 \<Rightarrow> (u32 \<times> Http2Stream) list \<Rightarrow> (u32 \<times> Http2Stream) list" where
  "erase_stream streamId ss = filter (\<lambda>e. fst e \<noteq> streamId) ss"

definition set_stream :: "Http2Connection \<Rightarrow> u32 \<Rightarrow> Http2Stream \<Rightarrow> Http2Connection" where
  "set_stream c streamId s = c\<lparr>streams := put_stream streamId s (streams c)\<rparr>"

definition emit :: "Http2Connection \<Rightarrow> bool \<Rightarrow> Event \<Rightarrow> Http2Connection" where
  "emit c isset ev = (if isset then c\<lparr>events := events c @ [ev]\<rparr> else c)"

text \<open>\<^verbatim>\<open>pruneClosedStreams\<close>: the oldest closed streams beyond sixteen are forgotten.\<close>

definition pruneClosedStreams :: "Http2Connection \<Rightarrow> Http2Connection" where
  "pruneClosedStreams c =
     (let n = length (closedStreamsFifo c) - kClosedStreamsMaxRetained in
      c\<lparr>streams := foldl (\<lambda>ss streamId. erase_stream streamId ss) (streams c) (take n (closedStreamsFifo c)),
        closedStreamsFifo := drop n (closedStreamsFifo c)\<rparr>)"

definition closeStream :: "Http2Connection \<Rightarrow> u32 \<Rightarrow> ErrorCode \<Rightarrow> Http2Connection" where
  "closeStream c streamId code =
     (case getStream c streamId of
        None \<Rightarrow> c
      | Some s \<Rightarrow>
          (let (first, s1) = markClosedNotified s in
           if \<not> first then c
           else
             (let s2 = (if code \<noteq> EC_NoError then setErrorCode s1 code else s1);
                  c1 = (set_stream c streamId s2)\<lparr>activeStreamCount := activeStreamCount c - 1\<rparr>;
                  c2 = emit c1 (cbStreamClosed (callbacks c1)) (EvStreamClosed streamId)
              in pruneClosedStreams (c2\<lparr>closedStreamsFifo := closedStreamsFifo c2 @ [streamId]\<rparr>))))"

section \<open>Output and errors\<close>

definition initiateGoAway :: "Http2Connection \<Rightarrow> ErrorCode \<Rightarrow> bytes \<Rightarrow> Http2Connection" where
  "initiateGoAway c code debugData =
     (if connState c = CS_Closed \<or> connState c = CS_GoAwaySent then c
      else c\<lparr>outputBuffer := fst (WriteGoAwayFrame (outputBuffer c) (lastPeerStreamId c) code debugData),
             connState := CS_GoAwaySent, goAwayLastStreamId := lastPeerStreamId c\<rparr>)"

definition connectionError :: "Http2Connection \<Rightarrow> ErrorCode \<Rightarrow> string \<Rightarrow> ProcessResult \<times> Http2Connection" where
  "connectionError c code message =
     (result A_Error code 0 message, (initiateGoAway c code (bytes_of message))\<lparr>connState := CS_Closed\<rparr>)"

definition sendRstStream :: "Http2Connection \<Rightarrow> u32 \<Rightarrow> ErrorCode \<Rightarrow> Http2Connection" where
  "sendRstStream c streamId code =
     (let c1 = c\<lparr>outputBuffer := fst (WriteRstStreamFrame (outputBuffer c) streamId code)\<rparr> in
      case getStream c1 streamId of
        None \<Rightarrow> c1
      | Some s \<Rightarrow>
          (let c2 = closeStream (set_stream c1 streamId (setErrorCode (onSendRstStream s) code)) streamId code
           in emit c2 (cbStreamReset (callbacks c2)) (EvStreamReset streamId code)))"

definition streamError :: "Http2Connection \<Rightarrow> u32 \<Rightarrow> ErrorCode \<Rightarrow> string \<Rightarrow> ProcessResult \<times> Http2Connection" where
  "streamError c streamId code message = (result A_OutputReady code 0 message, sendRstStream c streamId code)"

definition sendSettings :: "Http2Connection \<Rightarrow> Http2Connection" where
  "sendSettings c =
     (let l = localSettings c;
          entries =
            [\<lparr>seId = SP_HeaderTableSize, seValue = cfgHeaderTableSize l\<rparr>,
             \<lparr>seId = SP_EnablePush, seValue = (if cfgEnablePush l then 1 else 0)\<rparr>,
             \<lparr>seId = SP_MaxConcurrentStreams, seValue = cfgMaxConcurrentStreams l\<rparr>,
             \<lparr>seId = SP_InitialWindowSize, seValue = cfgInitialWindowSize l\<rparr>,
             \<lparr>seId = SP_MaxFrameSize, seValue = cfgMaxFrameSize l\<rparr>,
             \<lparr>seId = SP_MaxHeaderListSize, seValue = cfgMaxHeaderListSize l\<rparr>];
          c1 = c\<lparr>outputBuffer := fst (WriteSettingsFrame (outputBuffer c) entries), settingsSent := True\<rparr>
      in if cfgConnectionWindowSize l > kDefaultInitialWindowSize
         then c1\<lparr>outputBuffer := fst (WriteWindowUpdateFrame (outputBuffer c1) 0
                    (cfgConnectionWindowSize l - kDefaultInitialWindowSize))\<rparr>
         else c1)"

definition sendServerPreface :: "Http2Connection \<Rightarrow> Http2Connection" where
  "sendServerPreface c = (if \<not> isServer c \<or> settingsSent c then c else sendSettings c)"

definition sendClientPreface :: "Http2Connection \<Rightarrow> Http2Connection" where
  "sendClientPreface c =
     (if isServer c \<or> settingsSent c then c
      else (sendSettings (c\<lparr>outputBuffer := outputBuffer c @ kConnectionPreface\<rparr>))\<lparr>connState := CS_AwaitingSettings\<rparr>)"

definition sendPing :: "Http2Connection \<Rightarrow> PingFrame \<Rightarrow> Http2Connection" where
  "sendPing c pingFrame = c\<lparr>outputBuffer := fst (WritePingFrame (outputBuffer c) pingFrame)\<rparr>"

definition finalizeSendClosedStream :: "Http2Connection \<Rightarrow> u32 \<Rightarrow> Http2Connection" where
  "finalizeSendClosedStream c streamId =
     (case getStream c streamId of
        Some s \<Rightarrow> if isClosed s then closeStream c streamId EC_NoError else c
      | None \<Rightarrow> c)"

definition sendWindowUpdate :: "Http2Connection \<Rightarrow> u32 \<Rightarrow> u32 \<Rightarrow> Http2Connection" where
  "sendWindowUpdate c streamId increment =
     (let c1 = c\<lparr>outputBuffer := fst (WriteWindowUpdateFrame (outputBuffer c) streamId increment)\<rparr> in
      if streamId = 0 then
        c1\<lparr>connectionRecvWindow := to_i32 (min (connectionRecvWindow c1 + uint increment) i32_max)\<rparr>
      else (case getStream c1 streamId of
              None \<Rightarrow> c1
            | Some s \<Rightarrow> set_stream c1 streamId (snd (increaseRecvWindow s increment))))"

section \<open>Sending headers and data\<close>

definition prepareSendHeaders :: "Http2Connection \<Rightarrow> u32 \<Rightarrow> bool \<Rightarrow> ErrorCode \<times> Http2Connection" where
  "prepareSendHeaders c streamId endStream =
     (case getStream c streamId of
        None \<Rightarrow>
          if \<not> canCreateStreams c then (EC_RefusedStream, c)
          else (let (err, s) = onSendHeaders (newHttp2Stream streamId (psInitialWindowSize (peerSettings c))) endStream
                in (err, c\<lparr>streams := streams c @ [(streamId, s)], activeStreamCount := activeStreamCount c + 1\<rparr>))
      | Some s0 \<Rightarrow> (let (err, s) = onSendHeaders s0 endStream in (err, set_stream c streamId s)))"

definition writeStatusCode :: "int \<Rightarrow> bytes" where
  "writeStatusCode status =
     [word_of_int (0x31 + (status - 100) div 100), word_of_int (0x30 + status mod 100 div 10),
      word_of_int (0x30 + status mod 10)]"

definition MagicForHttpRequest :: int where "MagicForHttpRequest = -1"

text \<open>
  The fields \<^verbatim>\<open>encodeHeaders\<close> hands to the encoder, in order: the status, the given headers with their names lowercased in
  place and their values trimmed (for a request without the leading host), then the global headers not given already.
\<close>

definition block_fields :: "int \<Rightarrow> header list \<Rightarrow> header list \<Rightarrow> header list" where
  "block_fields statusCode headersView globalHeaders =
     (let own = (if statusCode = MagicForHttpRequest then tl headersView else headersView);
          lowered = map (\<lambda>h. (map tolower (fst h), snd h)) own;
          present = (if statusCode = MagicForHttpRequest then take 1 headersView else []) @ lowered
      in (if statusCode \<ge> 100 then [(bytes_of '':status'', writeStatusCode statusCode)] else [])
         @ map (\<lambda>h. (fst h, TrimOws (snd h))) lowered
         @ map (\<lambda>h. (fst h, TrimOws (snd h))) (filter (\<lambda>g. fst g \<notin> fst ` set present) globalHeaders))"

fun encode_fields :: "HpackEncoder \<Rightarrow> bytes \<Rightarrow> header list \<Rightarrow> HpackEncoder \<times> bytes" where
  "encode_fields e output [] = (e, output)"
| "encode_fields e output (h # hs) =
     (let (e1, out1) = hpack_encode e output (fst h) (snd h) Indexed in encode_fields e1 out1 hs)"

text \<open>The loop that writes what follows the first frame; it ends because a maximum frame size is positive.\<close>

function write_continuations :: "bytes \<Rightarrow> u32 \<Rightarrow> nat \<Rightarrow> bytes \<Rightarrow> bytes" where
  "write_continuations buf streamId maxFrame rest =
     (if rest = [] \<or> maxFrame = 0 then buf
      else (let chunk = take maxFrame rest; isLast = (length rest \<le> maxFrame)
            in write_continuations (fst (WriteContinuationFrame buf streamId chunk isLast)) streamId maxFrame
                 (drop maxFrame rest)))"
  by pat_completeness auto
termination
  by (relation "measure (\<lambda>(buf, streamId, maxFrame, rest). length rest)") auto

declare write_continuations.simps [simp del]

definition write_header_block :: "bytes \<Rightarrow> u32 \<Rightarrow> bytes \<Rightarrow> bool \<Rightarrow> u32 \<Rightarrow> bytes" where
  "write_header_block before streamId headerBlock endStream maxFrameSize =
     (if length headerBlock \<le> unat maxFrameSize then
        before @ WriteFrameHeader \<lparr>fhLength = of_nat (length headerBlock), fhType = FT_Headers,
                                   fhFlags = ComputeHeaderFrameFlags endStream True 0, fhStreamId = streamId\<rparr>
          @ headerBlock
      else
        (let buf = fst (WriteFrame before FT_Headers (ComputeHeaderFrameFlags endStream False 0) streamId maxFrameSize)
         in write_continuations (buf @ take (unat maxFrameSize) headerBlock) streamId (unat maxFrameSize)
              (drop (unat maxFrameSize) headerBlock)))"

text \<open>\<open>buf\<close> holds the output so far and a gap of nine bytes for the frame header. Header blocks are shorter than 4 GiB,
  so \<^verbatim>\<open>headerBlockSize\<close> is the length of the block.\<close>

definition encodeHeaders ::
  "Http2Connection \<Rightarrow> u32 \<Rightarrow> int \<Rightarrow> header list \<Rightarrow> bool \<Rightarrow> header list \<Rightarrow> HpackEncoder \<Rightarrow> bytes \<Rightarrow> nat \<Rightarrow> Http2Connection" where
  "encodeHeaders c streamId statusCode headersView endStream globalHeaders e0 buf oldSize =
     (let (e, full) = encode_fields e0 buf (block_fields statusCode headersView globalHeaders);
          headerBlock = drop oldSize full
      in c\<lparr>hpackEncoder := e,
           outputBuffer := write_header_block (take (oldSize - kFrameHeaderSize) full) streamId headerBlock endStream
                             (psMaxFrameSize (peerSettings c))\<rparr>)"

definition sendHeaders ::
  "Http2Connection \<Rightarrow> u32 \<Rightarrow> int \<Rightarrow> header list \<Rightarrow> bool \<Rightarrow> header list \<Rightarrow> ErrorCode \<times> Http2Connection" where
  "sendHeaders c0 streamId statusCode headersView endStream globalHeaders =
     (let (err, c) = prepareSendHeaders c0 streamId endStream in
      if err \<noteq> EC_NoError then (err, c)
      else (let buf = outputBuffer c @ replicate kFrameHeaderSize 0
            in (err, encodeHeaders c streamId statusCode headersView endStream globalHeaders (hpackEncoder c) buf (length buf))))"

definition sendRequestHeaders ::
  "Http2Connection \<Rightarrow> u32 \<Rightarrow> bytes \<Rightarrow> bool \<Rightarrow> bytes \<Rightarrow> bytes \<Rightarrow> header list \<Rightarrow> bool \<Rightarrow> header list
     \<Rightarrow> ErrorCode \<times> Http2Connection" where
  "sendRequestHeaders c0 streamId methodStr isTlsRequest target authority headersView endStream globalHeaders =
     (let (err, c) = prepareSendHeaders c0 streamId endStream in
      if err \<noteq> EC_NoError then (err, c)
      else
        (let buf = outputBuffer c @ replicate kFrameHeaderSize 0;
             pseudo = (if target = [] then []
                       else [(bytes_of '':method'', methodStr),
                             (bytes_of '':scheme'', bytes_of (if isTlsRequest then ''https'' else ''http'')),
                             (bytes_of '':authority'', authority), (bytes_of '':path'', target)]);
             (e, full) = encode_fields (hpackEncoder c) buf pseudo
         in (err, encodeHeaders c streamId (if target = [] then 0 else MagicForHttpRequest) headersView endStream
                    globalHeaders e full (length buf))))"

function write_data_frames :: "bytes \<Rightarrow> u32 \<Rightarrow> nat \<Rightarrow> bytes \<Rightarrow> bool \<Rightarrow> bytes" where
  "write_data_frames buf streamId maxFrame data endStream =
     (if data = [] \<or> maxFrame = 0 then buf
      else (let chunk = take maxFrame data; isLast = (length data \<le> maxFrame)
            in write_data_frames (fst (WriteDataFrame buf streamId chunk (isLast \<and> endStream))) streamId maxFrame
                 (drop maxFrame data) endStream))"
  by pat_completeness auto
termination
  by (relation "measure (\<lambda>(buf, streamId, maxFrame, data, endStream). length data)") auto

declare write_data_frames.simps [simp del]

definition sendData :: "Http2Connection \<Rightarrow> u32 \<Rightarrow> bytes \<Rightarrow> bool \<Rightarrow> ErrorCode \<times> Http2Connection" where
  "sendData c streamId data endStream =
     (case getStream c streamId of
        None \<Rightarrow> (EC_ProtocolError, c)
      | Some s \<Rightarrow>
          if \<not> canSend s then (EC_StreamClosed, c)
          else
            (let dataSize = (of_nat (length data) :: u32); (ok, s1) = consumeSendWindow s dataSize in
             if \<not> ok then (EC_FlowControlError, c)
             else if connectionSendWindow c < uint dataSize then
               (EC_FlowControlError, set_stream c streamId (snd (increaseSendWindow s1 dataSize)))
             else
               (let s2 = snd (onSendData s1 endStream);
                    c1 = (set_stream c streamId s2)
                           \<lparr>connectionSendWindow := to_i32 (connectionSendWindow c - to_i32 (uint dataSize))\<rparr>;
                    out = (if data = [] then
                             (if endStream then fst (WriteDataFrame (outputBuffer c1) streamId [] True) else outputBuffer c1)
                           else write_data_frames (outputBuffer c1) streamId
                                  (unat (psMaxFrameSize (peerSettings c1))) data endStream)
                in (EC_NoError, c1\<lparr>outputBuffer := out\<rparr>))))"

section \<open>Frame handlers\<close>

definition decodeAndEmitHeaders :: "Http2Connection \<Rightarrow> u32 \<Rightarrow> bytes \<Rightarrow> bool \<Rightarrow> ErrorCode \<times> Http2Connection" where
  "decodeAndEmitHeaders c streamId headerBlock endStream =
     (let ((err, hs), d) = hpack_decode (hpackDecoder c) headerBlock; c1 = c\<lparr>hpackDecoder := d\<rparr> in
      case err of
        Some _ \<Rightarrow> (EC_CompressionError, c1)
      | None \<Rightarrow> (EC_NoError, emit c1 (cbHeadersDecoded (callbacks c1)) (EvHeaders streamId hs endStream)))"

definition close_if_closed :: "Http2Connection \<Rightarrow> u32 \<Rightarrow> bool \<Rightarrow> Http2Connection" where
  "close_if_closed c streamId endStream =
     (case getStream c streamId of
        Some s \<Rightarrow> if endStream \<and> isClosed s then closeStream c streamId EC_NoError else c
      | None \<Rightarrow> c)"

definition handleDataFrame :: "Http2Connection \<Rightarrow> FrameHeader \<Rightarrow> bytes \<Rightarrow> ProcessResult \<times> Http2Connection" where
  "handleDataFrame c header payload =
     (if fhStreamId header = 0 then connectionError c EC_ProtocolError ''DATA frame on stream 0''
      else case ParseDataFrame header payload of
        Inl InvalidPadding \<Rightarrow> connectionError c EC_ProtocolError ''Invalid padding in DATA frame''
      | Inl _ \<Rightarrow> connectionError c EC_FrameSizeError ''Invalid DATA frame''
      | Inr frame \<Rightarrow>
          (let payloadSize = to_i32 (int (length payload)) in
           if payloadSize > connectionRecvWindow c then
             connectionError c EC_FlowControlError ''Connection flow control exceeded''
           else
             (let c1 = c\<lparr>connectionRecvWindow := to_i32 (connectionRecvWindow c - payloadSize)\<rparr> in
              case getStream c1 (fhStreamId header) of
                None \<Rightarrow> continue_with c1
              | Some s \<Rightarrow>
                  if \<not> canReceive s then
                    streamError c1 (fhStreamId header) EC_StreamClosed ''DATA on closed stream''
                  else
                    (let (ok, s1) = consumeRecvWindow s (word_of_int payloadSize) in
                     if \<not> ok then
                       streamError c1 (fhStreamId header) EC_FlowControlError ''Stream flow control exceeded''
                     else
                       (let s2 = snd (onRecvData s1 (dfEndStream frame));
                            c2 = emit (set_stream c1 (fhStreamId header) s2) (cbData (callbacks c1))
                                   (EvData (fhStreamId header) (dfData frame) (dfEndStream frame));
                            increment = word_of_int payloadSize;
                            c3 = (if cbData (callbacks c2) \<and> payloadSize > 0
                                  then sendWindowUpdate (sendWindowUpdate c2 (fhStreamId header) increment) 0 increment
                                  else c2)
                        in continue_with (close_if_closed c3 (fhStreamId header) (dfEndStream frame)))))))"

text \<open>What follows in \<^verbatim>\<open>handleHeadersFrame\<close> once the stream is known.\<close>

definition headers_on_stream ::
  "Http2Connection \<Rightarrow> FrameHeader \<Rightarrow> HeadersFrame \<Rightarrow> Http2Stream \<Rightarrow> ProcessResult \<times> Http2Connection" where
  "headers_on_stream c header frame s0 =
     (if hfHasPriority frame \<and> hfStreamDependency frame = fhStreamId header then
        streamError c (fhStreamId header) EC_ProtocolError ''Stream depends on itself''
      else
        (let s = (if hfHasPriority frame
                  then setPriority s0 (hfStreamDependency frame) (hfWeight frame) (hfExclusive frame) else s0);
             c1 = set_stream c (fhStreamId header) s
         in if \<not> hfEndHeaders frame then
              (if length (hfHeaderBlockFragment frame) > kMaxHeaderBlockAccumulationSize then
                 connectionError c1 EC_EnhanceYourCalm ''Header block too large''
               else
                 continue_with (c1\<lparr>expectingContinuation := True, headerBlockStreamId := fhStreamId header,
                                   headerBlockEndStream := hfEndStream frame,
                                   headerBlockBuffer := hfHeaderBlockFragment frame\<rparr>))
            else
              (let (err, s') = onRecvHeaders s (hfEndStream frame) in
               if err \<noteq> EC_NoError then
                 streamError (set_stream c1 (fhStreamId header) s') (fhStreamId header) err
                   ''Invalid stream state for HEADERS''
               else
                 (let (decodeErr, c2) = decodeAndEmitHeaders (set_stream c1 (fhStreamId header) s') (fhStreamId header)
                                          (hfHeaderBlockFragment frame) (hfEndStream frame) in
                  if decodeErr \<noteq> EC_NoError then connectionError c2 decodeErr ''HPACK decoding failed''
                  else continue_with (close_if_closed c2 (fhStreamId header) (hfEndStream frame))))))"

definition handleHeadersFrame :: "Http2Connection \<Rightarrow> FrameHeader \<Rightarrow> bytes \<Rightarrow> ProcessResult \<times> Http2Connection" where
  "handleHeadersFrame c header payload =
     (if fhStreamId header = 0 then connectionError c EC_ProtocolError ''HEADERS frame on stream 0''
      else if (connState c = CS_GoAwaySent \<or> connState c = CS_GoAwayReceived)
                \<and> fhStreamId header > goAwayLastStreamId c then continue_with c
      else case ParseHeadersFrame header payload of
        Inl InvalidPadding \<Rightarrow> connectionError c EC_ProtocolError ''Invalid padding in HEADERS frame''
      | Inl _ \<Rightarrow> connectionError c EC_FrameSizeError ''Invalid HEADERS frame''
      | Inr frame \<Rightarrow>
          (case getStream c (fhStreamId header) of
             Some s \<Rightarrow> headers_on_stream c header frame s
           | None \<Rightarrow>
               if isServer c \<and> fhStreamId header AND 1 = 0 then
                 connectionError c EC_ProtocolError ''Server-initiated stream ID from client''
               else if isServer c \<and> fhStreamId header \<le> lastPeerStreamId c then
                 connectionError c EC_ProtocolError ''Stream ID not increasing''
               else if activeStreamCount c \<ge> unat (cfgMaxConcurrentStreams (localSettings c)) then
                 connectionError c EC_ProtocolError ''Max concurrent streams exceeded''
               else
                 (let s = newHttp2Stream (fhStreamId header) (psInitialWindowSize (peerSettings c));
                      c1 = c\<lparr>streams := streams c @ [(fhStreamId header, s)],
                             activeStreamCount := activeStreamCount c + 1, lastPeerStreamId := fhStreamId header\<rparr>
                  in headers_on_stream c1 header frame s)))"

definition handlePriorityFrame :: "Http2Connection \<Rightarrow> FrameHeader \<Rightarrow> bytes \<Rightarrow> ProcessResult \<times> Http2Connection" where
  "handlePriorityFrame c header payload =
     (if fhStreamId header = 0 then connectionError c EC_ProtocolError ''PRIORITY frame on stream 0''
      else case ParsePriorityFrame header payload of
        Inl _ \<Rightarrow> connectionError c EC_FrameSizeError ''Invalid PRIORITY frame''
      | Inr frame \<Rightarrow>
          if pfStreamDependency frame = fhStreamId header then
            streamError c (fhStreamId header) EC_ProtocolError ''Stream depends on itself''
          else (case getStream c (fhStreamId header) of
            Some s \<Rightarrow>
              continue_with (set_stream c (fhStreamId header)
                (setPriority s (pfStreamDependency frame) (pfWeight frame) (pfExclusive frame)))
          | None \<Rightarrow>
              (let c1 = c\<lparr>idlePriorityFrameCount := idlePriorityFrameCount c + 1\<rparr> in
               if idlePriorityFrameCount c1 > kMaxIdlePriorityFrames then
                 connectionError c1 EC_EnhanceYourCalm ''Too many PRIORITY frames on idle streams''
               else continue_with c1)))"

definition handleRstStreamFrame :: "Http2Connection \<Rightarrow> FrameHeader \<Rightarrow> bytes \<Rightarrow> ProcessResult \<times> Http2Connection" where
  "handleRstStreamFrame c header payload =
     (if fhStreamId header = 0 then connectionError c EC_ProtocolError ''RST_STREAM frame on stream 0''
      else case ParseRstStreamFrame header payload of
        Inl _ \<Rightarrow> connectionError c EC_FrameSizeError ''Invalid RST_STREAM frame''
      | Inr frame \<Rightarrow>
          (case getStream c (fhStreamId header) of
             None \<Rightarrow> continue_with c
           | Some s \<Rightarrow>
               (let c1 = closeStream (set_stream c (fhStreamId header)
                           (setErrorCode (onRecvRstStream s) (rfErrorCode frame))) (fhStreamId header) (rfErrorCode frame)
                in continue_with (emit c1 (cbStreamReset (callbacks c1))
                     (EvStreamReset (fhStreamId header) (rfErrorCode frame))))))"

text \<open>
  The update of every stream's window by a new initial size: the error is that of the first stream that refuses,
  with the streams before it already updated.
\<close>

fun resize_streams :: "u32 \<Rightarrow> (u32 \<times> Http2Stream) list \<Rightarrow> ErrorCode \<times> (u32 \<times> Http2Stream) list" where
  "resize_streams n [] = (EC_NoError, [])"
| "resize_streams n ((streamId, s) # ss) =
     (let (err, s') = updateInitialWindowSize s n in
      if err \<noteq> EC_NoError then (err, (streamId, s') # ss)
      else (let (err', ss') = resize_streams n ss in (err', (streamId, s') # ss')))"

text \<open>One entry of a SETTINGS frame; \<open>Some\<close> is the code and message of a connection error.\<close>

definition applySetting :: "Http2Connection \<Rightarrow> SettingsEntry \<Rightarrow> (ErrorCode \<times> string) option \<times> Http2Connection" where
  "applySetting c entry =
     (let p = peerSettings c; v = seValue entry in
      case seId entry of
        SP_HeaderTableSize \<Rightarrow>
          (None, c\<lparr>peerSettings := p\<lparr>psHeaderTableSize := v\<rparr>,
                   hpackEncoder := encoder_setMaxDynamicTableSize (hpackEncoder c) (unat v)\<rparr>)
      | SP_EnablePush \<Rightarrow>
          if v > 1 then (Some (EC_ProtocolError, ''Invalid ENABLE_PUSH value''), c)
          else (None, c\<lparr>peerSettings := p\<lparr>psEnablePush := (v = 1)\<rparr>\<rparr>)
      | SP_MaxConcurrentStreams \<Rightarrow> (None, c\<lparr>peerSettings := p\<lparr>psMaxConcurrentStreams := v\<rparr>\<rparr>)
      | SP_InitialWindowSize \<Rightarrow>
          if v > 0x7FFFFFFF then (Some (EC_FlowControlError, ''Initial window size too large''), c)
          else (let (err, ss) = resize_streams v (streams c); c1 = c\<lparr>streams := ss\<rparr> in
            if err \<noteq> EC_NoError then (Some (err, ''Window size update overflow''), c1)
            else (None, c1\<lparr>peerSettings := p\<lparr>psInitialWindowSize := v\<rparr>\<rparr>))
      | SP_MaxFrameSize \<Rightarrow>
          if v < 16384 \<or> v > 16777215 then (Some (EC_ProtocolError, ''Invalid MAX_FRAME_SIZE''), c)
          else (None, c\<lparr>peerSettings := p\<lparr>psMaxFrameSize := v\<rparr>\<rparr>)
      | SP_MaxHeaderListSize \<Rightarrow> (None, c\<lparr>peerSettings := p\<lparr>psMaxHeaderListSize := v\<rparr>\<rparr>)
      | SP_Other _ \<Rightarrow> (None, c))"

fun applySettings :: "Http2Connection \<Rightarrow> SettingsEntry list \<Rightarrow> (ErrorCode \<times> string) option \<times> Http2Connection" where
  "applySettings c [] = (None, c)"
| "applySettings c (entry # es) =
     (case applySetting c entry of (Some err, c1) \<Rightarrow> (Some err, c1) | (None, c1) \<Rightarrow> applySettings c1 es)"

definition settings_received :: "Http2Connection \<Rightarrow> Http2Connection" where
  "settings_received c = (if connState c = CS_AwaitingSettings then c\<lparr>connState := CS_Open\<rparr> else c)"

definition handleSettingsFrame :: "Http2Connection \<Rightarrow> FrameHeader \<Rightarrow> bytes \<Rightarrow> ProcessResult \<times> Http2Connection" where
  "handleSettingsFrame c header payload =
     (if fhStreamId header \<noteq> 0 then connectionError c EC_ProtocolError ''SETTINGS frame on non-zero stream''
      else case ParseSettingsFrame header payload of
        Inl _ \<Rightarrow> connectionError c EC_FrameSizeError ''Invalid SETTINGS frame''
      | Inr frame \<Rightarrow>
          if sfIsAck frame then continue_with ((settings_received c)\<lparr>settingsAckReceived := True\<rparr>)
          else (case applySettings c (sfEntries frame) of
            (Some (code, msg), c1) \<Rightarrow> connectionError c1 code msg
          | (None, c1) \<Rightarrow>
              output_ready (settings_received (c1\<lparr>outputBuffer := fst (WriteSettingsAckFrame (outputBuffer c1))\<rparr>))))"

definition handlePingFrame :: "Http2Connection \<Rightarrow> FrameHeader \<Rightarrow> bytes \<Rightarrow> ProcessResult \<times> Http2Connection" where
  "handlePingFrame c header payload =
     (if fhStreamId header \<noteq> 0 then connectionError c EC_ProtocolError ''PING frame on non-zero stream''
      else case ParsePingFrame header payload of
        Inl _ \<Rightarrow> connectionError c EC_FrameSizeError ''Invalid PING frame''
      | Inr frame \<Rightarrow>
          if \<not> pgIsAck frame then
            output_ready (c\<lparr>outputBuffer := fst (WritePingFrame (outputBuffer c) (frame\<lparr>pgIsAck := True\<rparr>))\<rparr>)
          else continue_with c)"

definition handleGoAwayFrame :: "Http2Connection \<Rightarrow> FrameHeader \<Rightarrow> bytes \<Rightarrow> ProcessResult \<times> Http2Connection" where
  "handleGoAwayFrame c header payload =
     (if fhStreamId header \<noteq> 0 then connectionError c EC_ProtocolError ''GOAWAY frame on non-zero stream''
      else case ParseGoAwayFrame header payload of
        Inl _ \<Rightarrow> connectionError c EC_FrameSizeError ''Invalid GOAWAY frame''
      | Inr frame \<Rightarrow>
          (let c1 = c\<lparr>connState := CS_GoAwayReceived, goAwayLastStreamId := gfLastStreamId frame\<rparr>
           in (result A_GoAway EC_NoError 0 [],
               emit c1 (cbGoAway (callbacks c1)) (EvGoAway (gfLastStreamId frame) (gfErrorCode frame) (gfDebugData frame)))))"

definition handleWindowUpdateFrame :: "Http2Connection \<Rightarrow> FrameHeader \<Rightarrow> bytes \<Rightarrow> ProcessResult \<times> Http2Connection" where
  "handleWindowUpdateFrame c header payload =
     (case ParseWindowUpdateFrame payload of
        Inl _ \<Rightarrow> connectionError c EC_FrameSizeError ''Invalid WINDOW_UPDATE frame''
      | Inr frame \<Rightarrow>
          (let increment = wfWindowSizeIncrement frame; streamId = fhStreamId header;
               notify = (\<lambda>c1. continue_with (emit c1 (cbWindowUpdate (callbacks c1)) (EvWindowUpdate streamId increment))) in
           if increment = 0 then
             (if streamId = 0 then connectionError c EC_ProtocolError ''Zero WINDOW_UPDATE increment on connection''
              else streamError c streamId EC_ProtocolError ''Zero WINDOW_UPDATE increment'')
           else if streamId = 0 then
             (let newWindow = connectionSendWindow c + uint increment in
              if newWindow > 0x7FFFFFFF then connectionError c EC_FlowControlError ''Connection window overflow''
              else notify (c\<lparr>connectionSendWindow := to_i32 newWindow\<rparr>))
           else (case getStream c streamId of
             None \<Rightarrow> notify c
           | Some s \<Rightarrow>
               (let (err, s') = increaseSendWindow s increment in
                if err \<noteq> EC_NoError then streamError c streamId err ''Stream window overflow''
                else notify (set_stream c streamId s')))))"

definition handleContinuationFrame :: "Http2Connection \<Rightarrow> FrameHeader \<Rightarrow> bytes \<Rightarrow> ProcessResult \<times> Http2Connection" where
  "handleContinuationFrame c header payload =
     (if \<not> expectingContinuation c then connectionError c EC_ProtocolError ''Unexpected CONTINUATION frame''
      else if fhStreamId header \<noteq> headerBlockStreamId c then
        connectionError c EC_ProtocolError ''CONTINUATION on wrong stream''
      else
        (let frame = ParseContinuationFrame header payload in
         if length (headerBlockBuffer c) + length (cfHeaderBlockFragment frame) > kMaxHeaderBlockAccumulationSize then
           connectionError c EC_EnhanceYourCalm ''Header block too large''
         else
           (let c1 = c\<lparr>headerBlockBuffer := headerBlockBuffer c @ cfHeaderBlockFragment frame\<rparr> in
            if \<not> cfEndHeaders frame then continue_with c1
            else
              (let c2 = c1\<lparr>expectingContinuation := False\<rparr>; streamId = headerBlockStreamId c2 in
               case getStream c2 streamId of
                 None \<Rightarrow> connectionError c2 EC_InternalError ''Stream not found for CONTINUATION''
               | Some s \<Rightarrow>
                   (let (err, s') = onRecvHeaders s (headerBlockEndStream c2) in
                    if err \<noteq> EC_NoError then
                      streamError (set_stream c2 streamId s') streamId err ''Invalid stream state for HEADERS''
                    else
                      (let (decodeErr, c3) = decodeAndEmitHeaders (set_stream c2 streamId s') streamId
                                               (headerBlockBuffer c2) (headerBlockEndStream c2) in
                       if decodeErr \<noteq> EC_NoError then connectionError c3 decodeErr ''HPACK decoding failed''
                       else continue_with ((close_if_closed c3 streamId (headerBlockEndStream c3))
                              \<lparr>headerBlockBuffer := [], headerBlockStreamId := 0\<rparr>)))))))"

section \<open>Input\<close>

definition processFrame :: "Http2Connection \<Rightarrow> FrameHeader \<Rightarrow> bytes \<Rightarrow> ProcessResult \<times> Http2Connection" where
  "processFrame c header payload =
     (if expectingContinuation c \<and> fhType header \<noteq> FT_Continuation then
        connectionError c EC_ProtocolError ''Expected CONTINUATION frame''
      else case fhType header of
        FT_Data \<Rightarrow> handleDataFrame c header payload
      | FT_Headers \<Rightarrow> handleHeadersFrame c header payload
      | FT_Priority \<Rightarrow> handlePriorityFrame c header payload
      | FT_RstStream \<Rightarrow> handleRstStreamFrame c header payload
      | FT_Settings \<Rightarrow> handleSettingsFrame c header payload
      | FT_PushPromise \<Rightarrow> connectionError c EC_ProtocolError ''Unexpected PUSH_PROMISE''
      | FT_Ping \<Rightarrow> handlePingFrame c header payload
      | FT_GoAway \<Rightarrow> handleGoAwayFrame c header payload
      | FT_WindowUpdate \<Rightarrow> handleWindowUpdateFrame c header payload
      | FT_Continuation \<Rightarrow> handleContinuationFrame c header payload
      | FT_Other _ \<Rightarrow> continue_with c)"

function process_frames_loop :: "Http2Connection \<Rightarrow> bytes \<Rightarrow> nat \<Rightarrow> ProcessResult \<times> Http2Connection" where
  "process_frames_loop c data totalConsumed =
     (let done = (result (if hasPendingOutput c then A_OutputReady else A_Continue) EC_NoError totalConsumed [], c) in
      if length data < kFrameHeaderSize then done
      else
        (let header = ParseFrameHeader data in
         if fhLength header > cfgMaxFrameSize (localSettings c) then
           connectionError c EC_FrameSizeError ''Frame exceeds maximum size''
         else
           (let totalFrameSize = kFrameHeaderSize + unat (fhLength header) in
            if length data < totalFrameSize then done
            else
              (let payload = subspan data kFrameHeaderSize (unat (fhLength header));
                   (r, c1) = processFrame c header payload
               in if action r \<noteq> A_Continue \<and> action r \<noteq> A_OutputReady
                  then (r\<lparr>bytesConsumed := totalConsumed + totalFrameSize\<rparr>, c1)
                  else process_frames_loop c1 (drop totalFrameSize data) (totalConsumed + totalFrameSize)))))"
  by pat_completeness auto
termination
  by (relation "measure (\<lambda>(c, data, totalConsumed). length data)") (auto simp: kFrameHeaderSize_def)

declare process_frames_loop.simps [simp del]

definition processFrames :: "Http2Connection \<Rightarrow> bytes \<Rightarrow> ProcessResult \<times> Http2Connection" where
  "processFrames c data = process_frames_loop c data 0"

definition processPreface :: "Http2Connection \<Rightarrow> bytes \<Rightarrow> ProcessResult \<times> Http2Connection" where
  "processPreface c data =
     (if isServer c then
        (if length data < length kConnectionPreface then continue_with c
         else if take (length kConnectionPreface) data \<noteq> kConnectionPreface then
           connectionError c EC_ProtocolError ''Invalid connection preface''
         else
           (let c1 = c\<lparr>connState := CS_AwaitingSettings\<rparr>; c2 = (if \<not> settingsSent c1 then sendSettings c1 else c1)
            in (result A_OutputReady EC_NoError (length kConnectionPreface) [], c2)))
      else continue_with (c\<lparr>connState := CS_AwaitingSettings\<rparr>))"

definition processInput :: "Http2Connection \<Rightarrow> bytes \<Rightarrow> ProcessResult \<times> Http2Connection" where
  "processInput c data =
     (if data = [] then continue_with c
      else case connState c of
        CS_AwaitingPreface \<Rightarrow> processPreface c data
      | CS_Closed \<Rightarrow> (result A_Closed EC_NoError 0 [], c)
      | _ \<Rightarrow> processFrames c data)"

end
