(* ===== verification/Http2_Connection_Inv.thy ===== *)
theory Http2_Connection_Inv
  imports Http2_Connection "HOL-Library.Sublist"
begin

text \<open>
  The invariant of a connection and that every member function keeps it: the stream table with its
  first-in first-out list of closed streams, the flow-control windows, the peer's settings, the buffers
  and the two compression contexts.
\<close>

section \<open>The stream table\<close>

text \<open>A change of one stream that neither reopens it nor tells the application that it closed.\<close>

definition evolves :: "Http2Stream \<Rightarrow> Http2Stream \<Rightarrow> bool" where
  "evolves s t \<longleftrightarrow> (stream_inv s \<longrightarrow> stream_inv t) \<and> stStreamId t = stStreamId s
     \<and> stClosedNotified t = stClosedNotified s \<and> (isClosed s \<longrightarrow> isClosed t)"

lemma evolves_refl [simp, intro]: "evolves s s"
  by (simp add: evolves_def)

lemma evolves_trans [trans]: "evolves s t \<Longrightarrow> evolves t u \<Longrightarrow> evolves s u"
  by (auto simp: evolves_def)

lemmas stream_op_defs = transition_defs setPriority_def setErrorCode_def markClosedNotified_def consumeSendWindow_def
  consumeRecvWindow_def increaseSendWindow_def increaseRecvWindow_def updateInitialWindowSize_def Let_def

lemma stream_step_keeps: "stream_step s t \<Longrightarrow> stStreamId t = stStreamId s \<and> (isClosed s \<longrightarrow> isClosed t)"
  by (induction rule: stream_step.induct) (simp_all add: stream_op_defs isClosed_def split: StreamState.splits)

lemma evolves_step: "stream_step s t \<Longrightarrow> stClosedNotified t = stClosedNotified s \<Longrightarrow> evolves s t"
  using stream_inv_step stream_step_keeps unfolding evolves_def by blast

lemma evolves_ops [intro]:
  "evolves s (snd (onSendHeaders s es))" "evolves s (snd (onRecvHeaders s es))"
  "evolves s (snd (onSendData s es))" "evolves s (snd (onRecvData s es))"
  "evolves s (onSendRstStream s)" "evolves s (onRecvRstStream s)"
  "evolves s (snd (consumeSendWindow s n))" "evolves s (snd (consumeRecvWindow s n))"
  "evolves s (snd (increaseSendWindow s n))" "evolves s (snd (increaseRecvWindow s n))"
  "evolves s (snd (updateInitialWindowSize s n))" "evolves s (setPriority s dep w ex)" "evolves s (setErrorCode s ec)"
  by (rule evolves_step, rule stream_step.intros;
      simp add: stream_op_defs split: StreamState.splits)+

definition entry_ok :: "u32 \<times> Http2Stream \<Rightarrow> bool" where
  "entry_ok e \<longleftrightarrow> stream_inv (snd e) \<and> stStreamId (snd e) = fst e \<and> (stClosedNotified (snd e) \<longrightarrow> isClosed (snd e))"

text \<open>
  The table \<open>ss\<close>, the list \<open>fifo\<close> of the closed streams it still holds (at most \<open>m\<close>) and the number \<open>n\<close> of the others.
\<close>

definition streams_ok :: "nat \<Rightarrow> (u32 \<times> Http2Stream) list \<Rightarrow> u32 list \<Rightarrow> nat \<Rightarrow> bool" where
  "streams_ok m ss fifo n \<longleftrightarrow> distinct (map fst ss) \<and> distinct fifo \<and> length fifo \<le> m \<and> list_all entry_ok ss
     \<and> set fifo = fst ` set (filter (\<lambda>e. stClosedNotified (snd e)) ss)
     \<and> n = length (filter (\<lambda>e. \<not> stClosedNotified (snd e)) ss)"

lemma map_fst_put_stream [simp]: "map fst (put_stream k s ss) = map fst ss"
  by (auto simp: put_stream_def)

lemma map_of_put_stream: "map_of (put_stream k s ss) = (if k \<in> fst ` set ss then (map_of ss)(k \<mapsto> s) else map_of ss)"
  by (induction ss) (auto simp: put_stream_def fun_eq_iff)

lemma put_stream_split:
  assumes "distinct (map fst ss)" "map_of ss k = Some s"
  obtains xs ys where "ss = xs @ (k, s) # ys" "\<And>t. put_stream k t ss = xs @ (k, t) # ys"
proof -
  from assms(2) have "(k, s) \<in> set ss" by (rule map_of_SomeD)
  then obtain xs ys where ss: "ss = xs @ (k, s) # ys" by (auto simp: in_set_conv_decomp)
  have "k \<notin> fst ` set xs" "k \<notin> fst ` set ys" using assms(1) unfolding ss by auto
  then have "put_stream k t ss = xs @ (k, t) # ys" for t
    unfolding ss put_stream_def by (auto intro!: map_idI simp: rev_image_eqI)
  then show ?thesis using ss that by blast
qed

lemma streams_ok_put:
  assumes "streams_ok m ss fifo n" "map_of ss k = Some s" "evolves s t"
  shows "streams_ok m (put_stream k t ss) fifo n"
proof -
  have d: "distinct (map fst ss)" using assms(1) by (simp add: streams_ok_def)
  obtain xs ys where s: "ss = xs @ (k, s) # ys" "\<And>t. put_stream k t ss = xs @ (k, t) # ys"
    using put_stream_split [OF d assms(2)] by blast
  show ?thesis using assms(1, 3) unfolding streams_ok_def s(2) unfolding s(1) by (auto simp: evolves_def entry_ok_def)
qed

lemma streams_ok_insert:
  "streams_ok m ss fifo n \<Longrightarrow> map_of ss k = None \<Longrightarrow> entry_ok (k, s) \<Longrightarrow> \<not> stClosedNotified s \<Longrightarrow>
     streams_ok m (ss @ [(k, s)]) fifo (n + 1)"
  by (simp add: streams_ok_def map_of_eq_None_iff)

lemma streams_ok_closed:
  assumes "streams_ok m ss fifo n" "map_of ss k = Some s" "\<not> stClosedNotified s" "isClosed s"
    and t: "stClosedNotified t" "isClosed t" "stream_inv s \<longrightarrow> stream_inv t" "stStreamId t = stStreamId s"
  shows "streams_ok (Suc m) (put_stream k t ss) (fifo @ [k]) (n - 1)" "0 < n"
proof -
  have d: "distinct (map fst ss)" using assms(1) by (simp add: streams_ok_def)
  obtain xs ys where s: "ss = xs @ (k, s) # ys" "\<And>t. put_stream k t ss = xs @ (k, t) # ys"
    using put_stream_split [OF d assms(2)] by blast
  show "streams_ok (Suc m) (put_stream k t ss) (fifo @ [k]) (n - 1)" "0 < n"
    using assms(1) t assms(3) unfolding streams_ok_def s(2) unfolding s(1) by (auto simp: entry_ok_def)
qed

lemma filter_one:
  assumes "distinct (map fst ss)" "(k, s) \<in> set ss" "stClosedNotified s"
  shows "filter (\<lambda>e. \<not> stClosedNotified (snd e)) (erase_stream k ss) = filter (\<lambda>e. \<not> stClosedNotified (snd e)) ss"
  using assms by (auto simp: erase_stream_def filter_filter intro!: filter_cong dest: eq_key_imp_eq_value)

lemma streams_ok_erase:
  assumes "streams_ok (Suc m) ss (k # fifo) n"
  shows "streams_ok m (erase_stream k ss) fifo n"
proof -
  obtain s where s: "(k, s) \<in> set ss" "stClosedNotified s"
  proof -
    have "k \<in> fst ` set (filter (\<lambda>e. stClosedNotified (snd e)) ss)" using assms unfolding streams_ok_def by auto
    then show ?thesis using that by auto
  qed
  have d: "distinct (map fst ss)" using assms by (simp add: streams_ok_def)
  have "set fifo = fst ` set (filter (\<lambda>e. stClosedNotified (snd e)) (erase_stream k ss))"
  proof -
    have "set fifo = set (k # fifo) - {k}" using assms by (auto simp: streams_ok_def)
    also have "\<dots> = fst ` set (filter (\<lambda>e. stClosedNotified (snd e)) ss) - {k}" using assms by (simp add: streams_ok_def)
    finally show ?thesis by (auto simp: erase_stream_def)
  qed
  then show ?thesis
    using assms filter_one [OF d s]
    by (auto simp: streams_ok_def erase_stream_def distinct_map_filter list_all_iff)
qed

lemma streams_ok_mono: "streams_ok m ss fifo n \<Longrightarrow> length fifo \<le> m' \<Longrightarrow> streams_ok m' ss fifo n"
  by (simp add: streams_ok_def)

lemma streams_ok_length: "streams_ok m ss fifo n \<Longrightarrow> length ss = n + length fifo"
proof -
  assume a: "streams_ok m ss fifo n"
  have "length fifo = card (set fifo)" using a distinct_card [of fifo] unfolding streams_ok_def by metis
  also have "\<dots> = length (map fst (filter (\<lambda>e. stClosedNotified (snd e)) ss))"
    using a distinct_card [OF distinct_map_filter, of fst ss "\<lambda>e. stClosedNotified (snd e)"] by (simp add: streams_ok_def)
  finally show ?thesis using a sum_length_filter_compl [of "\<lambda>e. stClosedNotified (snd e)" ss]
    by (simp add: streams_ok_def)
qed

lemma resize_streams_ok:
  "list_all2 (\<lambda>e f. fst f = fst e \<and> evolves (snd e) (snd f)) ss (snd (resize_streams w ss))"
proof (induction w ss rule: resize_streams.induct)
  case (2 w streamId s ss)
  have "evolves s (snd (updateInitialWindowSize s w))" by blast
  then show ?case using 2
    by (cases "updateInitialWindowSize s w") (auto simp: Let_def split_beta list.rel_refl)
qed simp

lemma streams_ok_rel:
  assumes "streams_ok m ss fifo n" "list_all2 (\<lambda>e f. fst f = fst e \<and> evolves (snd e) (snd f)) ss ss'"
  shows "streams_ok m ss' fifo n"
proof -
  have rel: "map fst ss' = map fst ss \<and> (list_all entry_ok ss \<longrightarrow> list_all entry_ok ss')
     \<and> map fst (filter (\<lambda>e. stClosedNotified (snd e)) ss') = map fst (filter (\<lambda>e. stClosedNotified (snd e)) ss)
     \<and> length (filter (\<lambda>e. \<not> stClosedNotified (snd e)) ss') = length (filter (\<lambda>e. \<not> stClosedNotified (snd e)) ss)"
    using assms(2) by (induction rule: list_all2_induct) (auto simp: evolves_def entry_ok_def)
  have "fst ` set (filter (\<lambda>e. stClosedNotified (snd e)) ss') = fst ` set (filter (\<lambda>e. stClosedNotified (snd e)) ss)"
    using rel by (metis list.set_map)
  then show ?thesis using assms(1) rel by (simp add: streams_ok_def)
qed

section \<open>The compression contexts\<close>

lemma EncodeHuffman_appends: "prefix a out \<Longrightarrow> prefix a (EncodeHuffman out s)"
  using EncodeHuffman_spec [of out s] by auto

lemma EncodeInteger_appends: "prefix a out \<Longrightarrow> prefix a (EncodeInteger out v p m)"
  by (simp add: EncodeInteger_def Let_def)

lemma EncodeString_appends: "prefix a out \<Longrightarrow> prefix a (EncodeString out s)"
  by (simp add: EncodeString_def Let_def EncodeHuffman_appends EncodeInteger_appends)

lemma hpack_encode_appends: "prefix a out \<Longrightarrow> prefix a (snd (hpack_encode e out name v mode))"
  by (simp add: hpack_encode_def encode_literal_def encodeDynamicTableSizeUpdate_def Let_def
      EncodeInteger_appends EncodeString_appends split: option.split IndexingMode.split)

lemma encode_fields_appends: "prefix a out \<Longrightarrow> prefix a (snd (encode_fields e out hs))"
  by (induction hs arbitrary: e out) (simp_all add: split_beta Let_def hpack_encode_appends)

lemma hpack_encode_ok [inv_intros]: "encoder_ok e \<Longrightarrow> encoder_ok (fst (hpack_encode e out name v mode))"
  by (auto simp: hpack_encode_def encodeDynamicTableSizeUpdate_def encoder_ok_def table_inv_add table_inv_setMaxSize Let_def
      split: option.splits IndexingMode.splits)

lemma encode_fields_ok [inv_intros]: "encoder_ok e \<Longrightarrow> encoder_ok (fst (encode_fields e out hs))"
  by (induction hs arbitrary: e out) (auto simp: split_beta Let_def intro: inv_intros)

lemma decode_field_table:
  "decode_field mrg t hs data = Inr (t', hs', n) \<Longrightarrow> table_inv t \<Longrightarrow> table_inv t'"
  by (auto simp: decode_field_def decode_literal_def Let_def table_inv_add table_inv_setMaxSize
      split: if_splits option.splits prod.splits sum.splits)

lemma decode_loop_table: "table_inv t \<Longrightarrow> table_inv (snd (snd (decode_loop mrg t hs data)))"
proof (induction mrg t hs data rule: decode_loop.induct)
  case (1 mrg t hs data)
  note IH = "1.IH" [OF _ _ refl refl]
  show ?case
  proof (cases "data = [] \<or> (\<exists>e. decode_field mrg t hs data = Inl e)")
    case True
    then show ?thesis using "1.prems" by (auto simp: decode_loop.simps [of mrg t hs data])
  next
    case False
    then obtain t' hs' n where f: "decode_field mrg t hs data = Inr (t', hs', n)" "data \<noteq> []"
      by (cases "decode_field mrg t hs data") auto
    then show ?thesis using IH [OF f(2, 1)] decode_field_table [OF f(1) "1.prems"]
      by (simp add: decode_loop.simps [of mrg t hs data])
  qed
qed

lemma hpack_decode_table [inv_intros]:
  "table_inv (dec_table d) \<Longrightarrow> table_inv (dec_table (snd (hpack_decode d data)))"
  using decode_loop_table [of "dec_table d" "dec_merge d" "[]" data] by (simp add: hpack_decode_def split_beta Let_def)

section \<open>The connection only appends to its output and its events\<close>

definition extends :: "Http2Connection \<Rightarrow> Http2Connection \<Rightarrow> bool" where
  "extends c d \<longleftrightarrow> prefix (outputBuffer c) (outputBuffer d) \<and> prefix (events c) (events d)
     \<and> outputWritePos d = outputWritePos c \<and> localSettings d = localSettings c \<and> isServer d = isServer c
     \<and> callbacks d = callbacks c"

lemma extends_refl [simp, intro]: "extends c c"
  by (simp add: extends_def)

lemma extends_trans [trans]: "extends c d \<Longrightarrow> extends d e \<Longrightarrow> extends c e"
  unfolding extends_def by (auto intro: prefix_order.trans)

lemma write_appends [simp]:
  "prefix a out \<Longrightarrow> prefix a (fst (WriteDataFrame out i d es))" "prefix a out \<Longrightarrow> prefix a (fst (WriteRstStreamFrame out i ec))"
  "prefix a out \<Longrightarrow> prefix a (fst (WriteSettingsFrame out ents))" "prefix a out \<Longrightarrow> prefix a (fst (WriteSettingsAckFrame out))"
  "prefix a out \<Longrightarrow> prefix a (fst (WritePingFrame out p))" "prefix a out \<Longrightarrow> prefix a (fst (WriteGoAwayFrame out i ec dbg))"
  "prefix a out \<Longrightarrow> prefix a (fst (WriteWindowUpdateFrame out i w))" "prefix a out \<Longrightarrow> prefix a (fst (WriteContinuationFrame out i d eh))"
  by (simp_all add: WriteDataFrame_def WriteRstStreamFrame_def WriteSettingsFrame_def WriteSettingsAckFrame_def
      WritePingFrame_def WriteGoAwayFrame_def WriteWindowUpdateFrame_def WriteContinuationFrame_def WriteFrame_def Let_def)

named_theorems ext_intros "steps that only extend a connection"

lemma extends_set_stream [simp]: "extends c (set_stream d i s) \<longleftrightarrow> extends c d"
  by (simp add: extends_def set_stream_def)

lemma extends_emit [ext_intros]: "extends c d \<Longrightarrow> extends c (emit d b ev)"
  by (auto simp: extends_def emit_def intro: prefix_order.trans)

lemma extends_closeStream [ext_intros]: "extends c d \<Longrightarrow> extends c (closeStream d i ec)"
proof -
  assume a: "extends c d"
  have "extends d (closeStream d i ec)"
    by (simp add: closeStream_def pruneClosedStreams_def split_beta Let_def split: option.split)
      (simp add: extends_def emit_def set_stream_def)
  with a show ?thesis by (rule extends_trans)
qed

lemma extends_sendRstStream [ext_intros]: "extends c d \<Longrightarrow> extends c (sendRstStream d i ec)"
proof -
  assume a: "extends c d"
  let ?d = "d\<lparr>outputBuffer := fst (WriteRstStreamFrame (outputBuffer d) i ec)\<rparr>"
  have "extends d ?d" by (simp add: extends_def)
  then have "extends d (sendRstStream d i ec)"
    by (auto simp: sendRstStream_def Let_def split: option.split intro!: ext_intros)
  with a show ?thesis by (rule extends_trans)
qed


lemma extends_write [ext_intros]:
  "extends c d \<Longrightarrow> prefix (outputBuffer d) out \<Longrightarrow> extends c (d\<lparr>outputBuffer := out\<rparr>)"
  by (auto simp: extends_def intro: prefix_order.trans)

lemma extends_other [simp]:
  "extends c (d\<lparr>connState := v1\<rparr>) \<longleftrightarrow> extends c d" "extends c (d\<lparr>goAwayLastStreamId := v2\<rparr>) \<longleftrightarrow> extends c d"
  "extends c (d\<lparr>settingsSent := v3\<rparr>) \<longleftrightarrow> extends c d" "extends c (d\<lparr>streams := v4\<rparr>) \<longleftrightarrow> extends c d"
  "extends c (d\<lparr>activeStreamCount := v5\<rparr>) \<longleftrightarrow> extends c d" "extends c (d\<lparr>lastPeerStreamId := v6\<rparr>) \<longleftrightarrow> extends c d"
  "extends c (d\<lparr>connectionRecvWindow := v7\<rparr>) \<longleftrightarrow> extends c d" "extends c (d\<lparr>connectionSendWindow := v8\<rparr>) \<longleftrightarrow> extends c d"
  "extends c (d\<lparr>hpackEncoder := v9\<rparr>) \<longleftrightarrow> extends c d" "extends c (d\<lparr>hpackDecoder := v10\<rparr>) \<longleftrightarrow> extends c d"
  "extends c (d\<lparr>peerSettings := v11\<rparr>) \<longleftrightarrow> extends c d" "extends c (d\<lparr>settingsAckReceived := v12\<rparr>) \<longleftrightarrow> extends c d"
  "extends c (d\<lparr>expectingContinuation := v13\<rparr>) \<longleftrightarrow> extends c d" "extends c (d\<lparr>headerBlockStreamId := v14\<rparr>) \<longleftrightarrow> extends c d"
  "extends c (d\<lparr>headerBlockEndStream := v15\<rparr>) \<longleftrightarrow> extends c d" "extends c (d\<lparr>headerBlockBuffer := v16\<rparr>) \<longleftrightarrow> extends c d"
  "extends c (d\<lparr>idlePriorityFrameCount := v17\<rparr>) \<longleftrightarrow> extends c d" "extends c (d\<lparr>closedStreamsFifo := v18\<rparr>) \<longleftrightarrow> extends c d"
  by (simp_all add: extends_def)

lemma extends_initiateGoAway [ext_intros]: "extends c d \<Longrightarrow> extends c (initiateGoAway d ec dbg)"
  by (simp add: initiateGoAway_def ext_intros)

lemma extends_connectionError [ext_intros]: "extends c d \<Longrightarrow> extends c (snd (connectionError d ec msg))"
  by (simp add: connectionError_def extends_initiateGoAway)

lemma extends_streamError [ext_intros]: "extends c d \<Longrightarrow> extends c (snd (streamError d i ec msg))"
  by (simp add: streamError_def extends_sendRstStream)

lemma extends_results [simp]:
  "snd (continue_with d) = d" "snd (output_ready d) = d"
  by (simp_all add: continue_with_def output_ready_def)

lemma extends_sendSettings [ext_intros]: "extends c d \<Longrightarrow> extends c (sendSettings d)"
  by (simp add: sendSettings_def Let_def extends_def)

lemma extends_sendWindowUpdate [ext_intros]: "extends c d \<Longrightarrow> extends c (sendWindowUpdate d i w)"
  by (simp add: sendWindowUpdate_def Let_def ext_intros split: option.split)

lemma extends_close_if_closed [ext_intros]: "extends c d \<Longrightarrow> extends c (close_if_closed d i es)"
  by (simp add: close_if_closed_def ext_intros split: option.split)

lemma extends_decodeAndEmit [ext_intros]: "extends c d \<Longrightarrow> extends c (snd (decodeAndEmitHeaders d i blk es))"
  by (simp add: decodeAndEmitHeaders_def Let_def split_beta ext_intros split: option.split)

lemma extends_settings_received [simp]: "extends c (settings_received d) \<longleftrightarrow> extends c d"
  by (simp add: settings_received_def)

lemma extends_applySetting: "extends c d \<Longrightarrow> extends c (snd (applySetting d e))"
  by (simp add: applySetting_def Let_def split_beta split: SettingsParameter.split)

lemma extends_applySettings [ext_intros]: "extends c d \<Longrightarrow> extends c (snd (applySettings d es))"
proof (induction es arbitrary: d)
  case (Cons e es)
  show ?case using Cons.IH [OF extends_applySetting [OF Cons.prems, of e]] extends_applySetting [OF Cons.prems, of e]
    by (auto split: prod.split option.split)
qed simp

text \<open>Every frame handler.\<close>

lemma extends_handleData: "extends c (snd (handleDataFrame c h p))"
  by (simp add: handleDataFrame_def Let_def split_beta ext_intros split: sum.split FrameParseError.split option.split)

lemma extends_headers_on_stream: "extends c d \<Longrightarrow> extends c (snd (headers_on_stream d h f s))"
  by (simp add: headers_on_stream_def Let_def split_beta ext_intros)

lemma extends_handleHeaders: "extends c (snd (handleHeadersFrame c h p))"
  by (simp add: handleHeadersFrame_def Let_def ext_intros extends_headers_on_stream split: sum.split FrameParseError.split option.split)

lemma extends_handlePriority: "extends c (snd (handlePriorityFrame c h p))"
  by (simp add: handlePriorityFrame_def Let_def ext_intros split: sum.split option.split)

lemma extends_handleRst: "extends c (snd (handleRstStreamFrame c h p))"
  by (simp add: handleRstStreamFrame_def Let_def ext_intros split: sum.split option.split)

lemma extends_handleSettings: "extends c (snd (handleSettingsFrame c h p))"
proof (cases "ParseSettingsFrame h p")
  case (Inr f)
  obtain r c1 where a: "applySettings c (sfEntries f) = (r, c1)" by fastforce
  then have "extends c c1" using extends_applySettings [OF extends_refl, of c "sfEntries f"] by simp
  then show ?thesis using Inr a by (simp add: handleSettingsFrame_def ext_intros split_beta split: option.split)
qed (simp add: handleSettingsFrame_def ext_intros)

lemma extends_handlePing: "extends c (snd (handlePingFrame c h p))"
  by (simp add: handlePingFrame_def ext_intros split: sum.split)

lemma extends_handleGoAway: "extends c (snd (handleGoAwayFrame c h p))"
  by (simp add: handleGoAwayFrame_def Let_def ext_intros split: sum.split)

lemma extends_handleWindowUpdate: "extends c (snd (handleWindowUpdateFrame c h p))"
  by (simp add: handleWindowUpdateFrame_def Let_def split_beta ext_intros split: sum.split option.split)

lemma extends_handleContinuation: "extends c (snd (handleContinuationFrame c h p))"
  by (simp add: handleContinuationFrame_def Let_def split_beta ext_intros split: option.split)

lemmas extends_handlers = extends_handleData extends_handleHeaders extends_handlePriority extends_handleRst
  extends_handleSettings extends_handlePing extends_handleGoAway extends_handleWindowUpdate extends_handleContinuation

lemma extends_processFrame: "extends c (snd (processFrame c h p))"
  by (simp add: processFrame_def ext_intros extends_handlers split: FrameType.split)

section \<open>The connection invariant\<close>

definition peer_ok :: "PeerSettings \<Rightarrow> bool" where
  "peer_ok p \<longleftrightarrow> 16384 \<le> unat (psMaxFrameSize p) \<and> unat (psMaxFrameSize p) \<le> 16777215 \<and> uint (psInitialWindowSize p) \<le> i32_max"

definition conn_inv :: "Http2Connection \<Rightarrow> bool" where
  "conn_inv c \<longleftrightarrow>
     streams_ok kClosedStreamsMaxRetained (streams c) (closedStreamsFifo c) (activeStreamCount c)
     \<and> 0 \<le> connectionSendWindow c \<and> connectionSendWindow c \<le> i32_max
     \<and> 0 \<le> connectionRecvWindow c \<and> connectionRecvWindow c \<le> i32_max
     \<and> peer_ok (peerSettings c)
     \<and> length (headerBlockBuffer c) \<le> kMaxHeaderBlockAccumulationSize
     \<and> outputWritePos c \<le> length (outputBuffer c)
     \<and> encoder_ok (hpackEncoder c) \<and> table_inv (dec_table (hpackDecoder c))"

named_theorems conn_intros "steps that keep the connection invariant"

lemma conn_inv_other [simp]:
  "conn_inv (d\<lparr>connState := v1\<rparr>) \<longleftrightarrow> conn_inv d" "conn_inv (d\<lparr>goAwayLastStreamId := v2\<rparr>) \<longleftrightarrow> conn_inv d"
  "conn_inv (d\<lparr>settingsSent := v3\<rparr>) \<longleftrightarrow> conn_inv d" "conn_inv (d\<lparr>lastPeerStreamId := v6\<rparr>) \<longleftrightarrow> conn_inv d"
  "conn_inv (d\<lparr>settingsAckReceived := v12\<rparr>) \<longleftrightarrow> conn_inv d" "conn_inv (d\<lparr>events := v19\<rparr>) \<longleftrightarrow> conn_inv d"
  "conn_inv (d\<lparr>expectingContinuation := v13\<rparr>) \<longleftrightarrow> conn_inv d" "conn_inv (d\<lparr>headerBlockStreamId := v14\<rparr>) \<longleftrightarrow> conn_inv d"
  "conn_inv (d\<lparr>headerBlockEndStream := v15\<rparr>) \<longleftrightarrow> conn_inv d" "conn_inv (d\<lparr>idlePriorityFrameCount := v17\<rparr>) \<longleftrightarrow> conn_inv d"
  "conn_inv (emit d b ev) \<longleftrightarrow> conn_inv d"
  by (simp_all add: conn_inv_def emit_def)

lemma getStream_other [simp]:
  "getStream (d\<lparr>connState := v1\<rparr>) = getStream d" "getStream (d\<lparr>outputBuffer := v2\<rparr>) = getStream d"
  "getStream (d\<lparr>connectionRecvWindow := v3\<rparr>) = getStream d" "getStream (d\<lparr>hpackDecoder := v4\<rparr>) = getStream d"
  "getStream (d\<lparr>expectingContinuation := v5\<rparr>) = getStream d" "getStream (d\<lparr>headerBlockBuffer := v6\<rparr>) = getStream d"
  "getStream (d\<lparr>connectionSendWindow := v7\<rparr>) = getStream d" "getStream (d\<lparr>idlePriorityFrameCount := v8\<rparr>) = getStream d"
  "getStream (emit d b ev) = getStream d"
  by (simp_all add: getStream_def fun_eq_iff emit_def)

lemma getStream_set_stream: "getStream d i = Some s \<Longrightarrow> getStream (set_stream d i t) i = Some t"
  by (auto simp: getStream_def set_stream_def map_of_put_stream dest!: map_of_SomeD intro: rev_image_eqI)

lemma getStream_set_stream' [simp]:
  "getStream (set_stream d i t) i = (if getStream d i = None then None else Some t)"
  by (auto simp: getStream_set_stream) (auto simp: getStream_def set_stream_def map_of_put_stream map_of_eq_None_iff)

lemma conn_inv_write [conn_intros]: "conn_inv d \<Longrightarrow> prefix (outputBuffer d) out \<Longrightarrow> conn_inv (d\<lparr>outputBuffer := out\<rparr>)"
  by (auto simp: conn_inv_def dest: prefix_length_le)

lemma conn_inv_set_stream:
  "conn_inv d \<Longrightarrow> getStream d i = Some s \<Longrightarrow> evolves s t \<Longrightarrow> conn_inv (set_stream d i t)"
  by (simp add: conn_inv_def set_stream_def getStream_def streams_ok_put)

lemma streams_ok_prune:
  "streams_ok (m + n) ss fifo a \<Longrightarrow> n \<le> length fifo \<Longrightarrow>
     streams_ok m (foldl (\<lambda>ss i. erase_stream i ss) ss (take n fifo)) (drop n fifo) a"
proof (induction n arbitrary: ss fifo)
  case (Suc n)
  then obtain k fifo' where f: "fifo = k # fifo'" by (cases fifo) auto
  have "streams_ok (m + n) (erase_stream k ss) fifo' a" using Suc.prems(1) unfolding f by (simp add: streams_ok_erase)
  from Suc.IH [OF this] show ?case using Suc.prems(2) by (simp add: f)
qed simp

lemma conn_inv_closeStream [conn_intros]:
  assumes c: "conn_inv d" and closed: "\<And>s. getStream d i = Some s \<Longrightarrow> isClosed s"
  shows "conn_inv (closeStream d i ec)"
proof (cases "getStream d i")
  case (Some s)
  show ?thesis
  proof (cases "stClosedNotified s")
    case False
    define t where "t = (if ec \<noteq> EC_NoError then setErrorCode (s\<lparr>stClosedNotified := True\<rparr>) ec else s\<lparr>stClosedNotified := True\<rparr>)"
    have t: "stClosedNotified t" "isClosed t" "stream_inv s \<longrightarrow> stream_inv t" "stStreamId t = stStreamId s"
      using closed [OF Some] by (auto simp: t_def setErrorCode_def isClosed_def stream_inv_def)
    have s1: "streams_ok (kClosedStreamsMaxRetained + 1) (put_stream i t (streams d)) (closedStreamsFifo d @ [i]) (activeStreamCount d - 1)"
      using streams_ok_closed(1) [OF _ _ False closed [OF Some] t] c Some by (simp add: conn_inv_def getStream_def)
    let ?n = "Suc (length (closedStreamsFifo d)) - kClosedStreamsMaxRetained"
    have "length (closedStreamsFifo d @ [i]) \<le> kClosedStreamsMaxRetained + ?n" by simp
    then have s2: "streams_ok (kClosedStreamsMaxRetained + ?n) (put_stream i t (streams d)) (closedStreamsFifo d @ [i]) (activeStreamCount d - 1)"
      by (rule streams_ok_mono [OF s1])
    have "?n \<le> length (closedStreamsFifo d @ [i])" by (simp add: kClosedStreamsMaxRetained_def)
    from streams_ok_prune [OF s2 this] c show ?thesis
      unfolding closeStream_def Some
      by (simp add: markClosedNotified_def False pruneClosedStreams_def set_stream_def emit_def conn_inv_def t_def Let_def)
  qed (simp add: closeStream_def Some markClosedNotified_def c)
qed (simp add: closeStream_def c)

lemma isClosed_ops [simp]: "isClosed (setErrorCode (onSendRstStream s) ec)" "isClosed (setErrorCode (onRecvRstStream s) ec)"
  by (simp_all add: isClosed_def setErrorCode_def onSendRstStream_def onRecvRstStream_def)

lemma evolves_rst: "evolves s (setErrorCode (onSendRstStream s) ec)" "evolves s (setErrorCode (onRecvRstStream s) ec)"
  by (rule evolves_trans [OF evolves_ops(5) evolves_ops(13)], rule evolves_trans [OF evolves_ops(6) evolves_ops(13)])

lemma conn_inv_sendRstStream [conn_intros]: "conn_inv d \<Longrightarrow> conn_inv (sendRstStream d i ec)"
proof -
  assume a: "conn_inv d"
  let ?d = "d\<lparr>outputBuffer := fst (WriteRstStreamFrame (outputBuffer d) i ec)\<rparr>"
  have w: "conn_inv ?d" using a by (simp add: conn_intros)
  have "conn_inv (closeStream (set_stream ?d i (setErrorCode (onSendRstStream s) ec)) i ec)" if s: "getStream d i = Some s" for s
  proof (rule conn_inv_closeStream)
    show "conn_inv (set_stream ?d i (setErrorCode (onSendRstStream s) ec))"
      by (rule conn_inv_set_stream [OF w _ evolves_rst(1)]) (simp add: s)
  qed (use s in simp)
  then show ?thesis using w by (simp add: sendRstStream_def Let_def split: option.split)
qed

lemma conn_inv_initiateGoAway [conn_intros]: "conn_inv d \<Longrightarrow> conn_inv (initiateGoAway d ec dbg)"
  by (simp add: initiateGoAway_def conn_intros)

lemma conn_inv_connectionError [conn_intros]: "conn_inv d \<Longrightarrow> conn_inv (snd (connectionError d ec msg))"
  by (simp add: connectionError_def conn_intros)

lemma conn_inv_streamError [conn_intros]: "conn_inv d \<Longrightarrow> conn_inv (snd (streamError d i ec msg))"
  by (simp add: streamError_def conn_intros)

lemma conn_inv_sendSettings [conn_intros]: "conn_inv d \<Longrightarrow> conn_inv (sendSettings d)"
  unfolding sendSettings_def Let_def by (simp add: conn_intros)

lemma conn_inv_sendWindowUpdate [conn_intros]: "conn_inv d \<Longrightarrow> conn_inv (sendWindowUpdate d i w)"
proof -
  assume a: "conn_inv d"
  let ?d = "d\<lparr>outputBuffer := fst (WriteWindowUpdateFrame (outputBuffer d) i w)\<rparr>"
  have w: "conn_inv ?d" using a by (simp add: conn_intros)
  have "0 \<le> uint w" by (rule uint_u32_ge)
  then have m: "0 \<le> min (connectionRecvWindow d + uint w) i32_max" "min (connectionRecvWindow d + uint w) i32_max \<le> i32_max"
    using a by (auto simp: conn_inv_def)
  then have "to_i32 (min (connectionRecvWindow d + uint w) i32_max) = min (connectionRecvWindow d + uint w) i32_max"
    by (intro to_i32_id) linarith+
  then have "conn_inv (?d\<lparr>connectionRecvWindow := to_i32 (min (connectionRecvWindow d + uint w) i32_max)\<rparr>)"
    using w m by (simp add: conn_inv_def)
  moreover have "conn_inv (set_stream ?d i (snd (increaseRecvWindow s w)))" if "getStream d i = Some s" for s
    using that by (intro conn_inv_set_stream [OF w]) auto
  ultimately show ?thesis using w by (auto simp: sendWindowUpdate_def Let_def split: option.split)
qed

lemma conn_inv_close_if_closed [conn_intros]: "conn_inv d \<Longrightarrow> conn_inv (close_if_closed d i es)"
  by (auto simp: close_if_closed_def intro: conn_intros split: option.split)

lemma conn_inv_finalize [conn_intros]: "conn_inv d \<Longrightarrow> conn_inv (finalizeSendClosedStream d i)"
  by (auto simp: finalizeSendClosedStream_def intro: conn_intros split: option.split)

lemma conn_inv_decodeAndEmit [conn_intros]: "conn_inv d \<Longrightarrow> conn_inv (snd (decodeAndEmitHeaders d i blk es))"
  using hpack_decode_table [of "hpackDecoder d" blk]
  by (simp add: decodeAndEmitHeaders_def Let_def split_beta split: option.split) (simp add: conn_inv_def)

lemma conn_inv_settings_received [simp]: "conn_inv (settings_received d) \<longleftrightarrow> conn_inv d"
  by (simp add: settings_received_def)


section \<open>Frame handlers keep the invariant\<close>

lemma conn_inv_resize: "conn_inv d \<Longrightarrow> conn_inv (d\<lparr>streams := snd (resize_streams w (streams d))\<rparr>)"
  using streams_ok_rel [OF _ resize_streams_ok] by (simp add: conn_inv_def)

lemma u32_le_numeral: "(v :: u32) \<le> numeral n \<longleftrightarrow> unat v \<le> unat (numeral n :: u32)"
  by (rule word_le_nat_alt)

lemma conn_inv_applySetting: "conn_inv d \<Longrightarrow> conn_inv (snd (applySetting d e))"
proof -
  assume a: "conn_inv d"
  have init: "conn_inv (d\<lparr>streams := snd (resize_streams v (streams d)), peerSettings := peerSettings d\<lparr>psInitialWindowSize := v\<rparr>\<rparr>)"
    if "\<not> 0x7FFFFFFF < v" for v
    using conn_inv_resize [OF a, of v] that by (simp add: conn_inv_def peer_ok_def word_less_def not_less)
  have frame: "conn_inv (d\<lparr>peerSettings := peerSettings d\<lparr>psMaxFrameSize := v\<rparr>\<rparr>)"
    if "\<not> (v < 16384 \<or> 16777215 < v)" for v
    using a that by (simp add: conn_inv_def peer_ok_def word_less_nat_alt not_less)
  have table: "encoder_ok (encoder_setMaxDynamicTableSize (hpackEncoder d) (unat (v :: u32)))" for v
    using a unsigned_less [of v] by (simp add: conn_inv_def encoder_ok_def encoder_setMaxDynamicTableSize_def)
  show ?thesis
  proof (cases "seId e")
    case SP_HeaderTableSize
    then show ?thesis using a table by (simp add: applySetting_def Let_def conn_inv_def peer_ok_def)
  next
    case SP_InitialWindowSize
    then show ?thesis using a init conn_inv_resize [OF a] by (simp add: applySetting_def Let_def split_beta)
  next
    case SP_MaxFrameSize
    then show ?thesis using a frame by (simp add: applySetting_def Let_def)
  qed (use a in \<open>simp_all add: applySetting_def Let_def conn_inv_def peer_ok_def\<close>)
qed

lemma conn_inv_applySettings [conn_intros]: "conn_inv d \<Longrightarrow> conn_inv (snd (applySettings d es))"
proof (induction es arbitrary: d)
  case (Cons e es)
  show ?case using Cons.IH [OF conn_inv_applySetting [OF Cons.prems, of e]] conn_inv_applySetting [OF Cons.prems, of e]
    by (auto split: prod.split option.split)
qed simp

lemma conn_inv_insert:
  assumes "conn_inv d" "getStream d i = None" "entry_ok (i, s)" "\<not> stClosedNotified s"
  shows "conn_inv (d\<lparr>streams := streams d @ [(i, s)], activeStreamCount := activeStreamCount d + 1\<rparr>)"
  using assms streams_ok_insert [of _ "streams d" _ "activeStreamCount d" i s] by (simp add: conn_inv_def getStream_def)

lemma entry_ok_new: "peer_ok p \<Longrightarrow> entry_ok (i, newHttp2Stream i (psInitialWindowSize p))"
  using stream_inv_new [of "psInitialWindowSize p" i] by (simp add: entry_ok_def peer_ok_def) (simp add: newHttp2Stream_def)

lemma entry_ok_evolves: "entry_ok (i, s) \<Longrightarrow> \<not> stClosedNotified s \<Longrightarrow> evolves s t \<Longrightarrow> entry_ok (i, t) \<and> \<not> stClosedNotified t"
  by (simp add: entry_ok_def evolves_def)

lemma new_not_notified [simp]: "\<not> stClosedNotified (newHttp2Stream i w)"
  by (simp add: newHttp2Stream_def)

lemma conn_inv_handleData: "conn_inv c \<Longrightarrow> length p \<le> 16777215 \<Longrightarrow> conn_inv (snd (handleDataFrame c h p))"
proof -
  assume a: "conn_inv c" and len: "length p \<le> 16777215"
  then have size: "to_i32 (int (length p)) = int (length p)" by (intro to_i32_id) auto
  let ?c1 = "c\<lparr>connectionRecvWindow := to_i32 (connectionRecvWindow c - int (length p))\<rparr>"
  have c1: "conn_inv ?c1" if "int (length p) \<le> connectionRecvWindow c"
  proof -
    have "to_i32 (connectionRecvWindow c - int (length p)) = connectionRecvWindow c - int (length p)"
      using a that by (intro to_i32_id) (auto simp: conn_inv_def)
    then show ?thesis using a that by (simp add: conn_inv_def)
  qed
  have data: "conn_inv (set_stream ?c1 i (snd (onRecvData (snd (consumeRecvWindow s w)) es)))"
    if "int (length p) \<le> connectionRecvWindow c" "getStream c i = Some s" for i s w es
    using that evolves_trans [OF evolves_ops(8) evolves_ops(4)] by (intro conn_inv_set_stream [OF c1]) simp_all
  show ?thesis using a c1 data unfolding handleDataFrame_def
    by (auto simp: size not_less Let_def split_beta intro!: conn_intros split: sum.split FrameParseError.split option.split)
qed

lemma conn_inv_headers_on_stream:
  assumes a: "conn_inv d" and s: "getStream d (fhStreamId h) = Some s"
  shows "conn_inv (snd (headers_on_stream d h f s))"
proof -
  define s1 where "s1 = (if hfHasPriority f then setPriority s (hfStreamDependency f) (hfWeight f) (hfExclusive f) else s)"
  define c1 where "c1 = set_stream d (fhStreamId h) s1"
  have c1: "conn_inv c1" unfolding c1_def by (rule conn_inv_set_stream [OF a s]) (auto simp: s1_def)
  have g1: "getStream c1 (fhStreamId h) = Some s1" using s by (simp add: c1_def)
  have c2: "conn_inv (set_stream c1 (fhStreamId h) (snd (onRecvHeaders s1 es)))" for es
    by (rule conn_inv_set_stream [OF c1 g1]) blast
  have c3: "conn_inv (c1\<lparr>expectingContinuation := b1, headerBlockStreamId := b2,
      headerBlockEndStream := b3, headerBlockBuffer := b4\<rparr>)" if "\<not> kMaxHeaderBlockAccumulationSize < length b4" for b1 b2 b3 b4
    using c1 that by (simp add: conn_inv_def)
  show ?thesis unfolding headers_on_stream_def Let_def split_beta s1_def [symmetric] c1_def [symmetric]
    using a c1 c2 c3 by (auto intro!: conn_intros)
qed

lemma conn_inv_handleHeaders: "conn_inv c \<Longrightarrow> conn_inv (snd (handleHeadersFrame c h p))"
proof -
  assume a: "conn_inv c"
  let ?s = "newHttp2Stream (fhStreamId h) (psInitialWindowSize (peerSettings c))"
  let ?c = "c\<lparr>streams := streams c @ [(fhStreamId h, ?s)], activeStreamCount := activeStreamCount c + 1, lastPeerStreamId := fhStreamId h\<rparr>"
  have "conn_inv (snd (headers_on_stream ?c h f ?s))" if "getStream c (fhStreamId h) = None" for f
  proof (rule conn_inv_headers_on_stream)
    have "peer_ok (peerSettings c)" using a by (simp add: conn_inv_def)
    from conn_inv_insert [OF a that entry_ok_new [OF this]] show "conn_inv ?c" by simp
    show "getStream ?c (fhStreamId h) = Some ?s" using that by (simp add: getStream_def map_add_def)
  qed
  then show ?thesis using a
    by (auto simp: handleHeadersFrame_def Let_def intro!: conn_intros conn_inv_headers_on_stream
        split: sum.split FrameParseError.split option.split)
qed

lemma conn_inv_handlePriority: "conn_inv c \<Longrightarrow> conn_inv (snd (handlePriorityFrame c h p))"
  using conn_inv_set_stream [OF _ _ evolves_ops(12)]
  by (auto simp: handlePriorityFrame_def Let_def intro!: conn_intros split: sum.split option.split)

lemma conn_inv_handleRst: "conn_inv c \<Longrightarrow> conn_inv (snd (handleRstStreamFrame c h p))"
proof -
  assume a: "conn_inv c"
  have "conn_inv (closeStream (set_stream c i (setErrorCode (onRecvRstStream s) ec)) i ec)" if "getStream c i = Some s" for i s ec
    using that by (intro conn_inv_closeStream conn_inv_set_stream [OF a _ evolves_rst(2)]) auto
  then show ?thesis using a by (auto simp: handleRstStreamFrame_def Let_def intro!: conn_intros split: sum.split option.split)
qed

lemma conn_inv_handleSettings: "conn_inv c \<Longrightarrow> conn_inv (snd (handleSettingsFrame c h p))"
proof (cases "ParseSettingsFrame h p")
  case (Inr f)
  assume a: "conn_inv c"
  obtain r c1 where s: "applySettings c (sfEntries f) = (r, c1)" by fastforce
  then have "conn_inv c1" using conn_inv_applySettings [OF a, of "sfEntries f"] by simp
  then show ?thesis using a Inr s by (auto simp: handleSettingsFrame_def split_beta intro!: conn_intros split: option.split)
qed (simp add: handleSettingsFrame_def conn_intros)

lemma conn_inv_handlePing: "conn_inv c \<Longrightarrow> conn_inv (snd (handlePingFrame c h p))"
  by (auto simp: handlePingFrame_def intro!: conn_intros split: sum.split)

lemma conn_inv_handleGoAway: "conn_inv c \<Longrightarrow> conn_inv (snd (handleGoAwayFrame c h p))"
  by (auto simp: handleGoAwayFrame_def Let_def intro!: conn_intros split: sum.split)

lemma conn_inv_handleWindowUpdate: "conn_inv c \<Longrightarrow> conn_inv (snd (handleWindowUpdateFrame c h p))"
proof -
  assume a: "conn_inv c"
  have w: "conn_inv (c\<lparr>connectionSendWindow := to_i32 (connectionSendWindow c + uint w)\<rparr>)"
    if "\<not> 2147483647 < connectionSendWindow c + uint w" for w :: u32
  proof -
    have "0 \<le> connectionSendWindow c + uint w" using a uint_u32_ge [of w] by (simp add: conn_inv_def)
    then show ?thesis using a that to_i32_id [of "connectionSendWindow c + uint w"] by (simp add: conn_inv_def)
  qed
  show ?thesis using a w conn_inv_set_stream [OF a _ evolves_ops(9)]
    by (auto simp: handleWindowUpdateFrame_def Let_def split_beta intro!: conn_intros split: sum.split option.split)
qed

lemma conn_inv_handleContinuation: "conn_inv c \<Longrightarrow> conn_inv (snd (handleContinuationFrame c h p))"
proof -
  assume a: "conn_inv c"
  define c1 where "c1 = c\<lparr>headerBlockBuffer := headerBlockBuffer c @ cfHeaderBlockFragment (ParseContinuationFrame h p)\<rparr>"
  define c2 where "c2 = c1\<lparr>expectingContinuation := False\<rparr>"
  have c1: "conn_inv c1" "conn_inv c2"
    if "\<not> kMaxHeaderBlockAccumulationSize < length (headerBlockBuffer c) + length (cfHeaderBlockFragment (ParseContinuationFrame h p))"
    using a that by (simp_all add: c1_def c2_def conn_inv_def)
  have c3: "conn_inv (set_stream c2 i (snd (onRecvHeaders s es)))" if "getStream c2 i = Some s" "conn_inv c2" for i s es
    using that by (intro conn_inv_set_stream) blast+
  have clear: "conn_inv (d\<lparr>headerBlockBuffer := []\<rparr>)" if "conn_inv d" for d
    using that by (simp add: conn_inv_def)
  show ?thesis unfolding handleContinuationFrame_def Let_def split_beta c1_def [symmetric] c2_def [symmetric]
    using a c1 c3 by (auto intro!: conn_intros clear split: option.split)
qed

lemmas conn_inv_handlers = conn_inv_handleData conn_inv_handleHeaders conn_inv_handlePriority conn_inv_handleRst
  conn_inv_handleSettings conn_inv_handlePing conn_inv_handleGoAway conn_inv_handleWindowUpdate conn_inv_handleContinuation

lemma conn_inv_processFrame: "conn_inv c \<Longrightarrow> length p \<le> 16777215 \<Longrightarrow> conn_inv (snd (processFrame c h p))"
  by (simp add: processFrame_def conn_inv_handlers conn_intros split: FrameType.split)

section \<open>Input and output keep the invariant\<close>

lemma subspan_payload_length: "length (subspan data kFrameHeaderSize (unat (fhLength (ParseFrameHeader data)))) \<le> 16777215"
proof -
  have "uint (fhLength (ParseFrameHeader data)) < 16777216" unfolding ParseFrameHeader_def by (simp add: uint_Read24BE)
  moreover have "int (unat (fhLength (ParseFrameHeader data))) = uint (fhLength (ParseFrameHeader data))" by simp
  ultimately have "unat (fhLength (ParseFrameHeader data)) < 16777216" by linarith
  then show ?thesis by (simp add: subspan_def)
qed

lemma process_frames_loop_keeps:
  "conn_inv c \<Longrightarrow> conn_inv (snd (process_frames_loop c data n)) \<and> extends c (snd (process_frames_loop c data n))"
proof (induction c data n rule: process_frames_loop.induct)
  case (1 c data n)
  let ?h = "ParseFrameHeader data"
  let ?p = "subspan data kFrameHeaderSize (unat (fhLength ?h))"
  obtain r c1 where f: "processFrame c ?h ?p = (r, c1)" by fastforce
  have c1: "conn_inv c1" "extends c c1"
    using conn_inv_processFrame [OF "1.prems" subspan_payload_length [of data], of ?h] extends_processFrame [of c ?h ?p]
    by (simp_all add: f)
  have "conn_inv (snd (process_frames_loop c1 d m)) \<and> extends c (snd (process_frames_loop c1 d m))"
    if "conn_inv (snd (process_frames_loop c1 d m)) \<and> extends c1 (snd (process_frames_loop c1 d m))" for d m
    using that c1 extends_trans by blast
  then show ?case
    using "1.IH" [OF refl _ refl _ refl _ refl f [symmetric] refl _ c1(1)] "1.prems" c1
    by (subst (1 2) process_frames_loop.simps) (auto simp: Let_def f intro: conn_intros ext_intros)
qed

lemma processPreface_keeps: "conn_inv c \<Longrightarrow> conn_inv (snd (processPreface c data)) \<and> extends c (snd (processPreface c data))"
  by (simp add: processPreface_def Let_def conn_intros ext_intros)

lemma processInput_keeps: "conn_inv c \<Longrightarrow> conn_inv (snd (processInput c data)) \<and> extends c (snd (processInput c data))"
  using processPreface_keeps process_frames_loop_keeps
  by (simp add: processInput_def processFrames_def split: ConnectionState.split)

lemma write_data_frames_appends: "prefix a buf \<Longrightarrow> prefix a (write_data_frames buf i m data es)"
proof (induction buf i m data es rule: write_data_frames.induct)
  case (1 buf i m data es)
  then show ?case by (subst write_data_frames.simps) (simp add: Let_def)
qed

lemma write_continuations_appends: "prefix a buf \<Longrightarrow> prefix a (write_continuations buf i m data)"
proof (induction buf i m data rule: write_continuations.induct)
  case (1 buf i m data)
  then show ?case by (subst write_continuations.simps) (simp add: Let_def)
qed

lemma write_header_block_appends: "prefix a buf \<Longrightarrow> prefix a (write_header_block buf i blk es m)"
  by (simp add: write_header_block_def WriteFrame_def Let_def write_continuations_appends)

lemma encodeHeaders_keeps:
  assumes "conn_inv c" "encoder_ok e" "prefix (outputBuffer c @ replicate kFrameHeaderSize 0) buf"
  shows "conn_inv (encodeHeaders c i st hs es gs e buf (length (outputBuffer c) + kFrameHeaderSize))
    \<and> extends c (encodeHeaders c i st hs es gs e buf (length (outputBuffer c) + kFrameHeaderSize))"
proof -
  define fields where "fields = block_fields st hs gs"
  let ?out = "write_header_block (take (length (outputBuffer c)) (snd (encode_fields e buf fields))) i
    (drop (length (outputBuffer c) + kFrameHeaderSize) (snd (encode_fields e buf fields))) es (psMaxFrameSize (peerSettings c))"
  have eq: "encodeHeaders c i st hs es gs e buf (length (outputBuffer c) + kFrameHeaderSize) =
      c\<lparr>hpackEncoder := fst (encode_fields e buf fields), outputBuffer := ?out\<rparr>"
    by (simp add: encodeHeaders_def fields_def split_beta Let_def)
  have "prefix (outputBuffer c @ replicate kFrameHeaderSize 0) (snd (encode_fields e buf fields))"
    by (rule encode_fields_appends) fact
  then have "prefix (outputBuffer c) (take (length (outputBuffer c)) (snd (encode_fields e buf fields)))" by (auto simp: prefix_def)
  then have p: "prefix (outputBuffer c) ?out" by (rule write_header_block_appends)
  have "encoder_ok (fst (encode_fields e buf fields))" using assms(2) by (rule encode_fields_ok)
  then have "conn_inv (c\<lparr>hpackEncoder := fst (encode_fields e buf fields)\<rparr>)" using assms(1) by (simp add: conn_inv_def)
  then show ?thesis unfolding eq using p by (auto intro!: conn_intros ext_intros)
qed

lemma prepareSendHeaders_keeps:
  assumes a: "conn_inv c"
  shows "conn_inv (snd (prepareSendHeaders c i es)) \<and> extends c (snd (prepareSendHeaders c i es))"
proof (cases "getStream c i")
  case None
  let ?s = "newHttp2Stream i (psInitialWindowSize (peerSettings c))"
  have "peer_ok (peerSettings c)" using a by (simp add: conn_inv_def)
  then have "entry_ok (i, ?s)" by (rule entry_ok_new)
  then have "entry_ok (i, snd (onSendHeaders ?s es)) \<and> \<not> stClosedNotified (snd (onSendHeaders ?s es))"
    by (rule entry_ok_evolves) auto
  then show ?thesis using a None conn_inv_insert [OF a None, of "snd (onSendHeaders ?s es)"]
    by (simp add: prepareSendHeaders_def split_beta)
next
  case (Some s)
  then show ?thesis using a conn_inv_set_stream [OF a Some evolves_ops(1)] by (simp add: prepareSendHeaders_def split_beta)
qed

lemma sendHeaders_keeps:
  assumes a: "conn_inv c"
  shows "conn_inv (snd (sendHeaders c i st hs es gs)) \<and> extends c (snd (sendHeaders c i st hs es gs))"
proof -
  obtain err c1 where p: "prepareSendHeaders c i es = (err, c1)" by fastforce
  have c1: "conn_inv c1" "extends c c1" using prepareSendHeaders_keeps [OF a, of i es] by (simp_all add: p)
  have "encoder_ok (hpackEncoder c1)" using c1(1) by (simp add: conn_inv_def)
  from encodeHeaders_keeps [OF c1(1) this, of "outputBuffer c1 @ replicate kFrameHeaderSize 0" i st hs es gs]
  show ?thesis using c1 extends_trans [OF c1(2)] by (simp add: sendHeaders_def p Let_def)
qed

lemma sendRequestHeaders_keeps:
  assumes a: "conn_inv c"
  shows "conn_inv (snd (sendRequestHeaders c i mth tls tgt auth hs es gs))
    \<and> extends c (snd (sendRequestHeaders c i mth tls tgt auth hs es gs))"
proof -
  obtain err c1 where p: "prepareSendHeaders c i es = (err, c1)" by fastforce
  have c1: "conn_inv c1" "extends c c1" using prepareSendHeaders_keeps [OF a, of i es] by (simp_all add: p)
  let ?buf = "outputBuffer c1 @ replicate kFrameHeaderSize 0"
  have e: "encoder_ok (fst (encode_fields (hpackEncoder c1) ?buf fs))" for fs
    using c1(1) by (intro encode_fields_ok) (simp add: conn_inv_def)
  have b: "prefix ?buf (snd (encode_fields (hpackEncoder c1) ?buf fs))" for fs by (rule encode_fields_appends) simp
  show ?thesis using c1 extends_trans [OF c1(2)] encodeHeaders_keeps [OF c1(1) e b]
    by (simp add: sendRequestHeaders_def p split_beta Let_def)
qed

lemma outputBuffer_set_stream [simp]: "outputBuffer (set_stream c i s) = outputBuffer c"
  by (simp add: set_stream_def)

lemma sendData_keeps:
  assumes a: "conn_inv c"
  shows "conn_inv (snd (sendData c i data es)) \<and> extends c (snd (sendData c i data es))"
proof (cases "getStream c i")
  case (Some s)
  let ?n = "of_nat (length data) :: u32"
  let ?s1 = "snd (consumeSendWindow s ?n)"
  define c1 where "c1 = (set_stream c i (snd (onSendData ?s1 es)))
      \<lparr>connectionSendWindow := to_i32 (connectionSendWindow c - to_i32 (uint ?n))\<rparr>"
  have s1: "conn_inv (set_stream c i (snd (increaseSendWindow ?s1 ?n)))"
    by (rule conn_inv_set_stream [OF a Some evolves_trans [OF evolves_ops(7) evolves_ops(9)]])
  have s2: "conn_inv (set_stream c i (snd (onSendData ?s1 es)))"
    by (rule conn_inv_set_stream [OF a Some evolves_trans [OF evolves_ops(7) evolves_ops(3)]])
  have c1: "conn_inv c1" if "\<not> connectionSendWindow c < uint ?n"
  proof -
    have w: "0 \<le> connectionSendWindow c" "connectionSendWindow c \<le> i32_max" using a by (simp_all add: conn_inv_def)
    moreover have "0 \<le> uint ?n" by (rule uint_u32_ge)
    ultimately have "to_i32 (connectionSendWindow c - to_i32 (uint ?n)) = connectionSendWindow c - uint ?n" using that
      by (intro to_i32_diff) (simp_all add: not_less)
    moreover have "0 \<le> connectionSendWindow c - uint ?n" "connectionSendWindow c - uint ?n \<le> i32_max"
      using w that \<open>0 \<le> uint ?n\<close> by linarith+
    ultimately show ?thesis using s2 unfolding c1_def by (simp add: conn_inv_def)
  qed
  have "extends c c1" "outputBuffer c1 = outputBuffer c" by (simp_all add: c1_def)
  then show ?thesis using a s1 c1 Some unfolding sendData_def
    by (auto simp: split_beta Let_def c1_def [symmetric] write_data_frames_appends intro!: conn_intros ext_intros)
qed (simp add: sendData_def a)

section \<open>Reachable connections\<close>

text \<open>One call of a public member function; \<open>local_call\<close> are those that do not report bytes as written.\<close>

inductive local_call :: "Http2Connection \<Rightarrow> Http2Connection \<Rightarrow> bool" where
  process_input: "local_call c (snd (processInput c data))"
| go_away: "local_call c (initiateGoAway c ec dbg)"
| server_preface: "local_call c (sendServerPreface c)"
| client_preface: "local_call c (sendClientPreface c)"
| send_headers: "local_call c (snd (sendHeaders c i st hs es gs))"
| send_request_headers: "local_call c (snd (sendRequestHeaders c i mth tls tgt auth hs es gs))"
| send_data: "local_call c (snd (sendData c i data es))"
| send_rst_stream: "local_call c (sendRstStream c i ec)"
| send_ping: "local_call c (sendPing c ping)"
| send_window_update: "local_call c (sendWindowUpdate c i w)"
| finalize_send_closed: "local_call c (finalizeSendClosedStream c i)"

inductive conn_step :: "Http2Connection \<Rightarrow> Http2Connection \<Rightarrow> bool" where
  call: "local_call c d \<Longrightarrow> conn_step c d"
| written: "conn_step c (onOutputWritten c n)"

definition conn_start :: "Http2Connection \<Rightarrow> bool" where
  "conn_start c \<longleftrightarrow> (\<exists>config server cbs. validate config = None \<and> c = newHttp2Connection config server cbs)"

lemma sendClientPreface_keeps:
  "conn_inv c \<Longrightarrow> conn_inv (sendClientPreface c) \<and> extends c (sendClientPreface c)"
  by (simp add: sendClientPreface_def conn_intros ext_intros)

lemma local_call_keeps: "local_call c d \<Longrightarrow> conn_inv c \<Longrightarrow> conn_inv d \<and> extends c d"
proof (induction rule: local_call.induct)
  case (finalize_send_closed c i)
  then show ?case
    by (auto simp: finalizeSendClosedStream_def intro!: conn_intros ext_intros split: option.split)
next
  case (send_ping c ping)
  then show ?case by (simp add: sendPing_def conn_intros ext_intros)
next
  case (server_preface c)
  then show ?case by (simp add: sendServerPreface_def conn_intros ext_intros)
qed (simp_all add: processInput_keeps sendClientPreface_keeps sendHeaders_keeps sendRequestHeaders_keeps sendData_keeps
    conn_intros ext_intros)

lemma conn_inv_onOutputWritten: "conn_inv c \<Longrightarrow> conn_inv (onOutputWritten c n)"
  by (simp add: onOutputWritten_def Let_def conn_inv_def)

lemma conn_inv_new:
  assumes "validate config = None"
  shows "conn_inv (newHttp2Connection config server cbs)"
proof -
  have w: "cfgConnectionWindowSize config \<le> 2147483647" "cfgHeaderTableSize config \<le> 65536"
    using assms by (auto simp: validate_def not_less split: if_splits)
  have "uint (cfgConnectionWindowSize config) \<le> i32_max" using w(1) by (simp add: word_le_def)
  moreover have "unat (cfgHeaderTableSize config) \<le> 65536" using w(2) by (simp add: word_le_nat_alt)
  ultimately show ?thesis
    by (simp add: newHttp2Connection_def conn_inv_def streams_ok_def peer_ok_def defaultPeerSettings_def to_i32_id
        kDefaultInitialWindowSize_def newHpackEncoder_def newHpackDecoder_def encoder_ok_def newHpackDynamicTable_def
        table_inv_def table_exact_def order_trans [OF _ uint_u32_ge])
qed

interpretation connection: invariant_of conn_start conn_step conn_inv
proof
  show "conn_inv c" if "conn_start c" for c using that conn_inv_new by (auto simp: conn_start_def)
  show "conn_inv d" if "conn_step c d" "conn_inv c" for c d
    using that by cases (auto simp: conn_inv_onOutputWritten dest: local_call_keeps)
qed

lemma reachable_call: "reachable conn_start conn_step c \<Longrightarrow> local_call c d \<Longrightarrow> reachable conn_start conn_step d"
  by (blast intro: reachable.step conn_step.call)


text \<open>A server with the default settings that has received a preface, empty SETTINGS and one request.\<close>

definition default_config :: Http2Config where
  "default_config =
     \<lparr>cfgEnablePush = False, cfgMergeUnknownRequestHeaders = True, cfgHeaderTableSize = 4096, cfgMaxConcurrentStreams = 100,
      cfgInitialWindowSize = 65535, cfgMaxFrameSize = 16384, cfgMaxHeaderListSize = 8192, cfgConnectionWindowSize = 1048576,
      cfgMaxPriorityTreeDepth = 256\<rparr>"

definition example_input :: bytes where
  "example_input = [0, 0, 0, 4, 0, 0, 0, 0, 0,  0, 0, 1, 1, 5, 0, 0, 0, 1, 0x82]"

definition example_conn :: Http2Connection where
  "example_conn =
     snd (processInput (snd (processInput (newHttp2Connection default_config True \<lparr>cbHeadersDecoded = True, cbData = True,
        cbStreamReset = True, cbStreamClosed = True, cbGoAway = True, cbWindowUpdate = True\<rparr>) kConnectionPreface)) example_input)"

lemma example_conn_reachable: "reachable conn_start conn_step example_conn"
proof -
  have "conn_start (newHttp2Connection default_config True cbs)" for cbs
    unfolding conn_start_def by (intro exI [of _ default_config] exI conjI) (simp_all add: validate_def default_config_def)
  then have r: "reachable conn_start conn_step (newHttp2Connection default_config True cbs)" for cbs
    by (rule reachable.start)
  show ?thesis unfolding example_conn_def by (intro reachable_call [OF _ local_call.process_input] r)
qed

definition server_view :: "Http2Connection \<Rightarrow> _" where
  "server_view c = (activeStreamCount c, connState c, events c, map_option (\<lambda>s. (stState s, stSendWindow s)) (getStream c 1),
     connectionSendWindow c, psMaxFrameSize (peerSettings c), hpackEncoder c)"

lemma example_conn_view:
  "server_view example_conn = (1, CS_Open, [EvHeaders 1 [(bytes_of '':method'', bytes_of ''GET'')] True],
     Some (SS_HalfClosedRemote, 65535), 65535, 16384, newHpackEncoder 4096)"
  unfolding example_conn_def example_input_def by code_simp

lemma example_conn_counts: "activeStreamCount example_conn = 1 \<and> connState example_conn = CS_Open
   \<and> events example_conn = [EvHeaders 1 [(bytes_of '':method'', bytes_of ''GET'')] True]
   \<and> map_option (\<lambda>s. (stState s, stSendWindow s)) (getStream example_conn 1) = Some (SS_HalfClosedRemote, 65535)
   \<and> connectionSendWindow example_conn = 65535 \<and> psMaxFrameSize (peerSettings example_conn) = 16384"
  using example_conn_view unfolding server_view_def prod.inject by (elim conjE) (intro conjI)


end
