(* ===== verification/Http2_Serve.thy ===== *)
theory Http2_Serve
  imports Http2_Connection_Inv
begin

text \<open>
  The server's input loop over an HTTP/2 connection (\<^verbatim>\<open>SingleHttpServer::processSpecialProtocolHandler\<close>,
  \<^verbatim>\<open>Http2ProtocolHandler::processInput\<close>, \<^verbatim>\<open>IProtocolHandler::drainOutputBuffer\<close>), for a connection with
  no response body waiting for flow control, and that its outcome does not depend on how the input
  arrives in pieces. The action \<open>PA_Upgrade\<close> belongs to the interface of protocol handlers; no handler of the
  code returns it.
\<close>

section \<open>The loop\<close>

datatype ProtocolAction = PA_Continue | PA_ResponseReady | PA_Upgrade | PA_Close | PA_CloseImmediate

fun protocol_action :: "Action \<Rightarrow> ProtocolAction" where
  "protocol_action A_Continue = PA_Continue"
| "protocol_action A_OutputReady = PA_ResponseReady"
| "protocol_action A_Error = PA_CloseImmediate"
| "protocol_action A_GoAway = PA_Close"
| "protocol_action A_Closed = PA_Close"

definition drainOutputBuffer :: "Http2Connection \<Rightarrow> bytes \<Rightarrow> Http2Connection \<times> bytes" where
  "drainOutputBuffer c dest =
     (let pending = getPendingOutput c in
      if pending = [] then (c, dest) else (onOutputWritten c (length pending), dest @ pending))"

text \<open>
  \<open>serve c inBuffer outBuffer\<close>: whether the connection is to be closed after its output has been sent, the connection, and what is
  left in the two buffers.
\<close>

function serve :: "Http2Connection \<Rightarrow> bytes \<Rightarrow> bytes \<Rightarrow> bool \<times> Http2Connection \<times> bytes \<times> bytes" where
  "serve c inBuffer outBuffer =
     (if inBuffer = [] then (False, c, inBuffer, outBuffer)
      else
        (let (r, c1) = processInput c inBuffer;
             in1 = drop (bytesConsumed r) inBuffer;
             (c2, out1) = drainOutputBuffer c1 outBuffer
         in case protocol_action (action r) of
              PA_Close \<Rightarrow> (True, c2, in1, out1)
            | PA_CloseImmediate \<Rightarrow> (True, c2, in1, out1)
            | PA_Upgrade \<Rightarrow> (False, c2, in1, out1)
            | _ \<Rightarrow> if bytesConsumed r = 0 then (False, c2, in1, out1) else serve c2 in1 out1))"
  by pat_completeness auto
termination
  by (relation "measure (\<lambda>(c, inBuffer, outBuffer). length inBuffer)") auto

declare serve.simps [simp del]

text \<open>Input that arrives in pieces: each is appended to what was left, until the connection closes.\<close>

fun serve_chunks :: "Http2Connection \<Rightarrow> bytes \<Rightarrow> bytes \<Rightarrow> bytes list \<Rightarrow> bool \<times> Http2Connection \<times> bytes \<times> bytes" where
  "serve_chunks c inBuffer outBuffer [] = (False, c, inBuffer, outBuffer)"
| "serve_chunks c inBuffer outBuffer (chunk # chunks) =
     (let (closed, c1, in1, out1) = serve c (inBuffer @ chunk) outBuffer in
      if closed then (True, c1, in1, out1) else serve_chunks c1 in1 out1 chunks)"

section \<open>Frames do not look at the output\<close>

definition with_out :: "bytes \<Rightarrow> Http2Connection \<Rightarrow> Http2Connection" where
  "with_out x c = c\<lparr>outputBuffer := x @ outputBuffer c\<rparr>"

definition lift_out :: "bytes \<Rightarrow> 'r \<times> Http2Connection \<Rightarrow> 'r \<times> Http2Connection" where
  "lift_out x rc = (fst rc, with_out x (snd rc))"

named_theorems out_simps "member functions commute with bytes already in the output buffer"

lemma with_out_sel [simp]:
  "streams (with_out x c) = streams c" "peerSettings (with_out x c) = peerSettings c" "localSettings (with_out x c) = localSettings c"
  "callbacks (with_out x c) = callbacks c" "connState (with_out x c) = connState c" "isServer (with_out x c) = isServer c"
  "connectionRecvWindow (with_out x c) = connectionRecvWindow c" "connectionSendWindow (with_out x c) = connectionSendWindow c"
  "activeStreamCount (with_out x c) = activeStreamCount c" "lastPeerStreamId (with_out x c) = lastPeerStreamId c"
  "goAwayLastStreamId (with_out x c) = goAwayLastStreamId c" "headerBlockBuffer (with_out x c) = headerBlockBuffer c"
  "headerBlockStreamId (with_out x c) = headerBlockStreamId c" "headerBlockEndStream (with_out x c) = headerBlockEndStream c"
  "expectingContinuation (with_out x c) = expectingContinuation c" "hpackDecoder (with_out x c) = hpackDecoder c"
  "hpackEncoder (with_out x c) = hpackEncoder c" "idlePriorityFrameCount (with_out x c) = idlePriorityFrameCount c"
  "settingsSent (with_out x c) = settingsSent c" "closedStreamsFifo (with_out x c) = closedStreamsFifo c"
  "events (with_out x c) = events c" "outputWritePos (with_out x c) = outputWritePos c"
  "outputBuffer (with_out x c) = x @ outputBuffer c" "getStream (with_out x c) = getStream c"
  by (simp_all add: with_out_def getStream_def fun_eq_iff)

lemma with_out_upd [out_simps]:
  "(with_out x c)\<lparr>streams := v1\<rparr> = with_out x (c\<lparr>streams := v1\<rparr>)"
  "(with_out x c)\<lparr>closedStreamsFifo := v2\<rparr> = with_out x (c\<lparr>closedStreamsFifo := v2\<rparr>)"
  "(with_out x c)\<lparr>activeStreamCount := v3\<rparr> = with_out x (c\<lparr>activeStreamCount := v3\<rparr>)"
  "(with_out x c)\<lparr>events := v4\<rparr> = with_out x (c\<lparr>events := v4\<rparr>)"
  "(with_out x c)\<lparr>connState := v5\<rparr> = with_out x (c\<lparr>connState := v5\<rparr>)"
  "(with_out x c)\<lparr>goAwayLastStreamId := v6\<rparr> = with_out x (c\<lparr>goAwayLastStreamId := v6\<rparr>)"
  "(with_out x c)\<lparr>connectionRecvWindow := v7\<rparr> = with_out x (c\<lparr>connectionRecvWindow := v7\<rparr>)"
  "(with_out x c)\<lparr>connectionSendWindow := v8\<rparr> = with_out x (c\<lparr>connectionSendWindow := v8\<rparr>)"
  "(with_out x c)\<lparr>lastPeerStreamId := v9\<rparr> = with_out x (c\<lparr>lastPeerStreamId := v9\<rparr>)"
  "(with_out x c)\<lparr>headerBlockBuffer := v10\<rparr> = with_out x (c\<lparr>headerBlockBuffer := v10\<rparr>)"
  "(with_out x c)\<lparr>headerBlockStreamId := v11\<rparr> = with_out x (c\<lparr>headerBlockStreamId := v11\<rparr>)"
  "(with_out x c)\<lparr>headerBlockEndStream := v12\<rparr> = with_out x (c\<lparr>headerBlockEndStream := v12\<rparr>)"
  "(with_out x c)\<lparr>expectingContinuation := v13\<rparr> = with_out x (c\<lparr>expectingContinuation := v13\<rparr>)"
  "(with_out x c)\<lparr>hpackDecoder := v14\<rparr> = with_out x (c\<lparr>hpackDecoder := v14\<rparr>)"
  "(with_out x c)\<lparr>hpackEncoder := v15\<rparr> = with_out x (c\<lparr>hpackEncoder := v15\<rparr>)"
  "(with_out x c)\<lparr>idlePriorityFrameCount := v16\<rparr> = with_out x (c\<lparr>idlePriorityFrameCount := v16\<rparr>)"
  "(with_out x c)\<lparr>settingsSent := v17\<rparr> = with_out x (c\<lparr>settingsSent := v17\<rparr>)"
  "(with_out x c)\<lparr>settingsAckReceived := v18\<rparr> = with_out x (c\<lparr>settingsAckReceived := v18\<rparr>)"
  "(with_out x c)\<lparr>peerSettings := v19\<rparr> = with_out x (c\<lparr>peerSettings := v19\<rparr>)"
  "(with_out x c)\<lparr>outputBuffer := x @ v20\<rparr> = with_out x (c\<lparr>outputBuffer := v20\<rparr>)"
  by (simp_all add: with_out_def)

lemma write_out [out_simps]:
  "fst (WriteRstStreamFrame (x @ o1) i ec) = x @ fst (WriteRstStreamFrame o1 i ec)"
  "fst (WriteSettingsFrame (x @ o1) ents) = x @ fst (WriteSettingsFrame o1 ents)"
  "fst (WriteSettingsAckFrame (x @ o1)) = x @ fst (WriteSettingsAckFrame o1)"
  "fst (WritePingFrame (x @ o1) p) = x @ fst (WritePingFrame o1 p)"
  "fst (WriteGoAwayFrame (x @ o1) i ec dbg) = x @ fst (WriteGoAwayFrame o1 i ec dbg)"
  "fst (WriteWindowUpdateFrame (x @ o1) i w) = x @ fst (WriteWindowUpdateFrame o1 i w)"
  by (simp_all add: WriteRstStreamFrame_def WriteSettingsFrame_def WriteSettingsAckFrame_def
      WritePingFrame_def WriteGoAwayFrame_def WriteWindowUpdateFrame_def WriteFrame_def Let_def)

lemma lift_out_pair [simp]: "lift_out x (r, c) = (r, with_out x c)"
  by (simp add: lift_out_def)

lemma results_out [out_simps]:
  "continue_with (with_out x c) = lift_out x (continue_with c)" "output_ready (with_out x c) = lift_out x (output_ready c)"
  by (simp_all add: continue_with_def output_ready_def)

lemma set_stream_out [out_simps]: "set_stream (with_out x c) i s = with_out x (set_stream c i s)"
  by (simp add: set_stream_def out_simps)

lemma emit_out [out_simps]: "emit (with_out x c) b ev = with_out x (emit c b ev)"
  by (simp add: emit_def out_simps)

lemma closeStream_out [out_simps]: "closeStream (with_out x c) i ec = with_out x (closeStream c i ec)"
  by (simp add: closeStream_def pruneClosedStreams_def Let_def split_beta out_simps split: option.split)

lemma sendRstStream_out [out_simps]: "sendRstStream (with_out x c) i ec = with_out x (sendRstStream c i ec)"
  by (simp add: sendRstStream_def Let_def out_simps split: option.split)

lemma initiateGoAway_out [out_simps]: "initiateGoAway (with_out x c) ec dbg = with_out x (initiateGoAway c ec dbg)"
  by (simp add: initiateGoAway_def out_simps)

lemma errors_out [out_simps]:
  "connectionError (with_out x c) ec msg = lift_out x (connectionError c ec msg)"
  "streamError (with_out x c) i ec msg = lift_out x (streamError c i ec msg)"
  by (simp_all add: connectionError_def streamError_def out_simps)

lemma sendSettings_out [out_simps]: "sendSettings (with_out x c) = with_out x (sendSettings c)"
  by (simp add: sendSettings_def Let_def out_simps)

lemma sendWindowUpdate_out [out_simps]: "sendWindowUpdate (with_out x c) i w = with_out x (sendWindowUpdate c i w)"
  by (simp add: sendWindowUpdate_def Let_def out_simps split: option.split)

lemma close_if_closed_out [out_simps]: "close_if_closed (with_out x c) i es = with_out x (close_if_closed c i es)"
  by (simp add: close_if_closed_def out_simps split: option.split)

lemma decodeAndEmit_out [out_simps]:
  "decodeAndEmitHeaders (with_out x c) i blk es = lift_out x (decodeAndEmitHeaders c i blk es)"
  by (simp add: decodeAndEmitHeaders_def Let_def split_beta out_simps split: option.split)

lemma applySetting_out: "applySetting (with_out x c) e = lift_out x (applySetting c e)"
  by (simp add: applySetting_def Let_def split_beta out_simps split: SettingsParameter.split)

lemma applySettings_out [out_simps]: "applySettings (with_out x c) es = lift_out x (applySettings c es)"
  by (induction es arbitrary: c) (auto simp: applySetting_out split: prod.split option.split)

lemma settings_received_out [out_simps]: "settings_received (with_out x c) = with_out x (settings_received c)"
  by (simp add: settings_received_def out_simps)

lemma lift_out_if: "lift_out x (if b then p else q) = (if b then lift_out x p else lift_out x q)"
  by simp

lemma lift_out_fst_snd [simp]: "fst (lift_out x p) = fst p" "snd (lift_out x p) = with_out x (snd p)"
  by (simp_all add: lift_out_def)

lemma handleData_out: "handleDataFrame (with_out x c) h p = lift_out x (handleDataFrame c h p)"
  by (simp add: handleDataFrame_def Let_def split_beta out_simps split: sum.split FrameParseError.split option.split)

lemma headers_on_stream_out: "headers_on_stream (with_out x c) h f s = lift_out x (headers_on_stream c h f s)"
  by (simp add: headers_on_stream_def Let_def split_beta out_simps)

lemma handleHeaders_out: "handleHeadersFrame (with_out x c) h p = lift_out x (handleHeadersFrame c h p)"
  by (auto simp: handleHeadersFrame_def Let_def out_simps headers_on_stream_out split: sum.split FrameParseError.split option.split)

lemma handlePriority_out: "handlePriorityFrame (with_out x c) h p = lift_out x (handlePriorityFrame c h p)"
  by (simp add: handlePriorityFrame_def Let_def out_simps split: sum.split option.split)

lemma handleRst_out: "handleRstStreamFrame (with_out x c) h p = lift_out x (handleRstStreamFrame c h p)"
  by (simp add: handleRstStreamFrame_def Let_def out_simps split: sum.split option.split)

lemma handleSettings_out: "handleSettingsFrame (with_out x c) h p = lift_out x (handleSettingsFrame c h p)"
  by (auto simp: handleSettingsFrame_def Let_def split_beta out_simps split: sum.split option.split)

lemma handlePing_out: "handlePingFrame (with_out x c) h p = lift_out x (handlePingFrame c h p)"
  by (simp add: handlePingFrame_def Let_def out_simps split: sum.split option.split)

lemma handleGoAway_out: "handleGoAwayFrame (with_out x c) h p = lift_out x (handleGoAwayFrame c h p)"
  by (simp add: handleGoAwayFrame_def Let_def out_simps split: sum.split option.split)

lemma handleWindowUpdate_out: "handleWindowUpdateFrame (with_out x c) h p = lift_out x (handleWindowUpdateFrame c h p)"
  by (simp add: handleWindowUpdateFrame_def Let_def split_beta out_simps split: sum.split option.split)

lemma handleContinuation_out: "handleContinuationFrame (with_out x c) h p = lift_out x (handleContinuationFrame c h p)"
  by (simp add: handleContinuationFrame_def Let_def split_beta out_simps split: sum.split option.split)

lemmas handlers_out = handleData_out handleHeaders_out handlePriority_out handleRst_out handleSettings_out handlePing_out
  handleGoAway_out handleWindowUpdate_out handleContinuation_out

lemma processFrame_out: "processFrame (with_out x c) h p = lift_out x (processFrame c h p)"
  by (simp add: processFrame_def out_simps handlers_out split: FrameType.split)


section \<open>One unit of input at a time\<close>

text \<open>
  The reference: the preface or one frame is taken off the input, then the output is drained. \<open>None\<close>: more bytes are needed;
  otherwise whether the connection is over, the bytes taken and the connection.
\<close>

definition unit_step :: "Http2Connection \<Rightarrow> bytes \<Rightarrow> (bool \<times> nat \<times> Http2Connection) option" where
  "unit_step c d =
     (if d = [] then None
      else case connState c of
        CS_Closed \<Rightarrow> Some (True, 0, c)
      | CS_AwaitingPreface \<Rightarrow>
          if length d < length kConnectionPreface then None
          else Some (take (length kConnectionPreface) d \<noteq> kConnectionPreface, length kConnectionPreface, snd (processPreface c d))
      | _ \<Rightarrow>
          (let h = ParseFrameHeader d; n = kFrameHeaderSize + unat (fhLength h) in
           if length d < kFrameHeaderSize then None
           else if fhLength h > cfgMaxFrameSize (localSettings c) then
             Some (True, 0, snd (connectionError c EC_FrameSizeError ''Frame exceeds maximum size''))
           else if length d < n then None
           else (let (r, c1) = processFrame c h (subspan d kFrameHeaderSize (unat (fhLength h)))
                 in Some (action r \<noteq> A_Continue \<and> action r \<noteq> A_OutputReady, n, c1))))"

definition drain :: "Http2Connection \<Rightarrow> Http2Connection" where
  "drain c = c\<lparr>outputBuffer := [], outputWritePos := 0\<rparr>"

lemma unit_step_progress: "unit_step c d = Some (False, k, c1) \<Longrightarrow> 0 < k \<and> k \<le> length d"
  by (auto simp: unit_step_def Let_def split_beta kFrameHeaderSize_def kConnectionPreface_def
      split: if_splits ConnectionState.splits)

function run :: "Http2Connection \<Rightarrow> bytes \<Rightarrow> bytes \<Rightarrow> bool \<times> Http2Connection \<times> bytes \<times> bytes" where
  "run c d out =
     (case unit_step c d of
        None \<Rightarrow> (False, c, d, out)
      | Some (True, k, c1) \<Rightarrow> (True, drain c1, drop k d, out @ outputBuffer c1)
      | Some (False, k, c1) \<Rightarrow> run (drain c1) (drop k d) (out @ outputBuffer c1))"
  by pat_completeness auto
termination
  by (relation "measure (\<lambda>(c, d, out). length d)") (auto dest: unit_step_progress)

declare run.simps [simp del]

lemma ParseFrameHeader_append: "kFrameHeaderSize \<le> length d \<Longrightarrow> ParseFrameHeader (d @ e) = ParseFrameHeader d"
  by (cases "d = []") (simp_all add: ParseFrameHeader_def Read24BE_def Read32BE_def nth_append kFrameHeaderSize_def)

lemma processPreface_append:
  "length kConnectionPreface \<le> length d \<Longrightarrow> processPreface c (d @ e) = processPreface c d"
  by (simp add: processPreface_def)

lemma unit_step_append: "unit_step c d = Some u \<Longrightarrow> unit_step c (d @ e) = Some u"
  by (auto simp: unit_step_def Let_def ParseFrameHeader_append processPreface_append subspan_append_left
      split: if_splits ConnectionState.splits)

lemma run_append:
  "run c (d @ e) out = (case run c d out of
     (True, c1, b, out1) \<Rightarrow> (True, c1, b @ e, out1) | (False, c1, b, out1) \<Rightarrow> run c1 (b @ e) out1)"
proof (induction c d out rule: run.induct)
  case (1 c d out)
  show ?case
  proof (cases "unit_step c d")
    case None
    then show ?thesis by (simp add: run.simps [of c d])
  next
    case (Some u)
    obtain t k c1 where u: "u = (t, k, c1)" by (cases u) auto
    have a: "unit_step c (d @ e) = Some (t, k, c1)" using unit_step_append [OF Some] u by simp
    show ?thesis
    proof (cases t)
      case True
      then have "k \<le> length d" using Some unfolding u
        by (auto simp: unit_step_def Let_def split_beta split: if_splits ConnectionState.splits)
      then show ?thesis using True a Some by (simp add: u run.simps [of c d] run.simps [of c "d @ e"])
    next
      case False
      then have "k \<le> length d" using unit_step_progress [of c d k c1] Some u by simp
      then show ?thesis using False a Some "1.IH" [OF Some, of False "(k, c1)" k c1] by (simp add: u run.simps [of c d] run.simps [of c "d @ e"])
    qed
  qed
qed

lemma run_stuck: "run c d out = (False, c1, b, out1) \<Longrightarrow> unit_step c1 b = None"
proof (induction c d out rule: run.induct)
  case (1 c d out)
  show ?case
  proof (cases "unit_step c d")
    case None
    then show ?thesis using "1.prems" by (simp add: run.simps [of c d])
  next
    case (Some u)
    obtain t k c' where u: "u = (t, k, c')" by (cases u) auto
    then show ?thesis using "1.IH" [OF Some, of False "(k, c')" k c'] "1.prems" Some
      by (cases t) (simp_all add: run.simps [of c d])
  qed
qed

lemma processPreface_out: "snd (processPreface (with_out x c) d) = with_out x (snd (processPreface c d))"
  by (simp add: processPreface_def Let_def out_simps)

lemma unit_step_out: "unit_step (with_out x c) d = map_option (\<lambda>(t, k, c1). (t, k, with_out x c1)) (unit_step c d)"
  by (simp add: unit_step_def Let_def split_beta processPreface_out processFrame_out out_simps split: ConnectionState.split)

lemma with_out_drain: "outputWritePos c = 0 \<Longrightarrow> with_out (outputBuffer c) (drain c) = c"
  by (simp add: with_out_def drain_def)

lemma drain_with_out [simp]: "drain (with_out x c) = drain c"
  by (simp add: with_out_def drain_def)

lemma run_unit:
  assumes "outputWritePos c = 0" "unit_step c d = Some (t, k, c1)"
  shows "run (drain c) d (out @ outputBuffer c) =
    (if t then (True, drain c1, drop k d, out @ outputBuffer c1) else run (drain c1) (drop k d) (out @ outputBuffer c1))"
proof -
  have "unit_step (with_out (outputBuffer c) (drain c)) d = Some (t, k, c1)" using assms by (simp add: with_out_drain)
  then obtain c1' where "unit_step (drain c) d = Some (t, k, c1')" "c1 = with_out (outputBuffer c) c1'"
    by (auto simp: unit_step_out)
  then show ?thesis by (simp add: run.simps [of "drain c"] split: bool.split)
qed

lemma run_none: "outputWritePos c = 0 \<Longrightarrow> unit_step c d = None \<Longrightarrow> run (drain c) d out = (False, drain c, d, out)"
  using unit_step_out [of "outputBuffer c" "drain c" d] by (simp add: with_out_drain run.simps [of "drain c"])

text \<open>The state of the connection after a frame that is no error.\<close>

definition framed :: "Http2Connection \<Rightarrow> bool" where
  "framed c \<longleftrightarrow> connState c \<noteq> CS_AwaitingPreface \<and> connState c \<noteq> CS_Closed"

lemma connState_other [simp]:
  "connState (set_stream c i s) = connState c" "connState (emit c b ev) = connState c"
  "connState (closeStream c i ec) = connState c"
  by (simp_all add: set_stream_def emit_def closeStream_def pruneClosedStreams_def Let_def split_beta split: option.split)

lemma connState_sends [simp]:
  "connState (sendRstStream c i ec) = connState c" "connState (sendWindowUpdate c i w) = connState c"
  "connState (close_if_closed c i es) = connState c" "connState (snd (decodeAndEmitHeaders c i blk es)) = connState c"
  by (simp_all add: sendRstStream_def sendWindowUpdate_def close_if_closed_def decodeAndEmitHeaders_def Let_def split_beta
      split: option.split)

lemma connState_applySettings [simp]: "connState (snd (applySettings c es)) = connState c"
proof (induction es arbitrary: c)
  case (Cons e es)
  have "connState (snd (applySetting c e)) = connState c"
    by (simp add: applySetting_def Let_def split_beta split: SettingsParameter.split)
  then show ?case using Cons.IH [of "snd (applySetting c e)"] by (auto split: prod.split option.split)
qed simp

definition goes_on :: "ProcessResult \<Rightarrow> bool" where
  "goes_on r \<longleftrightarrow> action r = A_Continue \<or> action r = A_OutputReady"

lemma goes_on_simps [simp]:
  "\<not> goes_on (fst (connectionError c ec msg))" "goes_on (fst (streamError c i ec msg))"
  "goes_on (fst (continue_with c))" "goes_on (fst (output_ready c))"
  by (simp_all add: goes_on_def connectionError_def streamError_def continue_with_def output_ready_def result_def)

text \<open>Such a frame changes the state of the connection only by the first SETTINGS.\<close>

definition state_kept :: "Http2Connection \<Rightarrow> Http2Connection \<Rightarrow> bool" where
  "state_kept c d \<longleftrightarrow> connState d = connState c \<or> connState c = CS_AwaitingSettings \<and> connState d = CS_Open"

lemma state_kept_simps [simp]:
  "state_kept c (snd (streamError d i ec msg)) \<longleftrightarrow> state_kept c d" "state_kept c c"
  by (simp_all add: state_kept_def streamError_def)

lemma kept_headers_on_stream:
  "connState d = connState c \<Longrightarrow> goes_on (fst (headers_on_stream d h f s)) \<Longrightarrow> state_kept c (snd (headers_on_stream d h f s))"
  by (simp add: headers_on_stream_def Let_def split_beta split: if_splits; simp add: state_kept_def)

lemma kept_handlers:
  shows "goes_on (fst (handleDataFrame c h p)) \<Longrightarrow> state_kept c (snd (handleDataFrame c h p))"
    "goes_on (fst (handleHeadersFrame c h p)) \<Longrightarrow> state_kept c (snd (handleHeadersFrame c h p))"
    "goes_on (fst (handlePriorityFrame c h p)) \<Longrightarrow> state_kept c (snd (handlePriorityFrame c h p))"
    "goes_on (fst (handleRstStreamFrame c h p)) \<Longrightarrow> state_kept c (snd (handleRstStreamFrame c h p))"
    "goes_on (fst (handlePingFrame c h p)) \<Longrightarrow> state_kept c (snd (handlePingFrame c h p))"
    "goes_on (fst (handleWindowUpdateFrame c h p)) \<Longrightarrow> state_kept c (snd (handleWindowUpdateFrame c h p))"
    "goes_on (fst (handleContinuationFrame c h p)) \<Longrightarrow> state_kept c (snd (handleContinuationFrame c h p))"
proof -
  show "goes_on (fst (handleDataFrame c h p)) \<Longrightarrow> state_kept c (snd (handleDataFrame c h p))"
    by (simp add: handleDataFrame_def Let_def split_beta split: if_splits sum.splits FrameParseError.splits option.splits;
        simp add: state_kept_def)
  show "goes_on (fst (handlePriorityFrame c h p)) \<Longrightarrow> state_kept c (snd (handlePriorityFrame c h p))"
    by (simp add: handlePriorityFrame_def Let_def split: if_splits sum.splits option.splits; simp add: state_kept_def)
  show "goes_on (fst (handleRstStreamFrame c h p)) \<Longrightarrow> state_kept c (snd (handleRstStreamFrame c h p))"
    by (simp add: handleRstStreamFrame_def Let_def split: if_splits sum.splits option.splits; simp add: state_kept_def)
  show "goes_on (fst (handlePingFrame c h p)) \<Longrightarrow> state_kept c (snd (handlePingFrame c h p))"
    by (simp add: handlePingFrame_def Let_def split: if_splits sum.splits option.splits; simp add: state_kept_def)
  show "goes_on (fst (handleWindowUpdateFrame c h p)) \<Longrightarrow> state_kept c (snd (handleWindowUpdateFrame c h p))"
    by (simp add: handleWindowUpdateFrame_def Let_def split_beta split: if_splits sum.splits option.splits; auto simp: state_kept_def)
  show "goes_on (fst (handleContinuationFrame c h p)) \<Longrightarrow> state_kept c (snd (handleContinuationFrame c h p))"
    by (simp add: handleContinuationFrame_def Let_def split_beta split: if_splits sum.splits option.splits; simp add: state_kept_def)
  show "goes_on (fst (handleHeadersFrame c h p)) \<Longrightarrow> state_kept c (snd (handleHeadersFrame c h p))"
    by (auto simp: handleHeadersFrame_def Let_def kept_headers_on_stream
        split: if_splits sum.splits FrameParseError.splits option.splits)
qed

lemma kept_handleSettings: "goes_on (fst (handleSettingsFrame c h p)) \<Longrightarrow> state_kept c (snd (handleSettingsFrame c h p))"
proof (cases "ParseSettingsFrame h p")
  case (Inr f)
  assume a: "goes_on (fst (handleSettingsFrame c h p))"
  obtain r c1 where s: "applySettings c (sfEntries f) = (r, c1)" by fastforce
  then have "connState c1 = connState c" using connState_applySettings [of c "sfEntries f"] by simp
  then show ?thesis using a Inr s
    by (simp add: handleSettingsFrame_def split: if_splits option.splits prod.splits; simp add: settings_received_def state_kept_def)
qed (simp add: handleSettingsFrame_def split: if_splits)

lemma kept_processFrame: "goes_on (fst (processFrame c h p)) \<Longrightarrow> state_kept c (snd (processFrame c h p))"
  by (cases "fhType h")
    (auto simp: processFrame_def kept_handlers kept_handleSettings split: if_splits,
     auto simp: handleGoAwayFrame_def goes_on_def result_def Let_def connectionError_def split: if_splits sum.splits)

lemma framed_processFrame: "framed c \<Longrightarrow> goes_on (fst (processFrame c h p)) \<Longrightarrow> framed (snd (processFrame c h p))"
  using kept_processFrame [of c h p] by (auto simp: framed_def state_kept_def)

section \<open>The loop is the reference\<close>

lemma unit_step_framed:
  assumes "framed c"
  shows "unit_step c d =
     (let h = ParseFrameHeader d; n = kFrameHeaderSize + unat (fhLength h) in
      if length d < kFrameHeaderSize then None
      else if fhLength h > cfgMaxFrameSize (localSettings c) then
        Some (True, 0, snd (connectionError c EC_FrameSizeError ''Frame exceeds maximum size''))
      else if length d < n then None
      else (let (r, c1) = processFrame c h (subspan d kFrameHeaderSize (unat (fhLength h)))
            in Some (\<not> goes_on r, n, c1)))"
  using assms
  by (cases "connState c"; cases "d = []") (simp_all add: framed_def unit_step_def goes_on_def Let_def kFrameHeaderSize_def)

lemma actions [simp]:
  "action (fst (connectionError c ec msg)) = A_Error" "action (fst (streamError c i ec msg)) = A_OutputReady"
  "action (fst (continue_with c)) = A_Continue" "action (fst (output_ready c)) = A_OutputReady"
  by (simp_all add: connectionError_def streamError_def continue_with_def output_ready_def result_def)

lemma headers_on_stream_not_closed: "action (fst (headers_on_stream c h f s)) \<noteq> A_Closed"
  by (simp add: headers_on_stream_def Let_def split_beta)

lemma handlers_not_closed:
  "action (fst (handleDataFrame c h p)) \<noteq> A_Closed" "action (fst (handleHeadersFrame c h p)) \<noteq> A_Closed"
  "action (fst (handlePriorityFrame c h p)) \<noteq> A_Closed" "action (fst (handleRstStreamFrame c h p)) \<noteq> A_Closed"
  "action (fst (handleSettingsFrame c h p)) \<noteq> A_Closed" "action (fst (handlePingFrame c h p)) \<noteq> A_Closed"
  "action (fst (handleGoAwayFrame c h p)) \<noteq> A_Closed" "action (fst (handleWindowUpdateFrame c h p)) \<noteq> A_Closed"
  "action (fst (handleContinuationFrame c h p)) \<noteq> A_Closed"
  by (simp_all add: handleDataFrame_def handleHeadersFrame_def headers_on_stream_not_closed handlePriorityFrame_def
      handleRstStreamFrame_def handleSettingsFrame_def handlePingFrame_def handleGoAwayFrame_def handleWindowUpdateFrame_def
      handleContinuationFrame_def result_def Let_def split_beta split: sum.split FrameParseError.split option.split)

lemma processFrame_not_closed: "action (fst (processFrame c h p)) \<noteq> A_Closed"
  by (simp add: processFrame_def handlers_not_closed split: FrameType.split)

definition loop_spec :: "Http2Connection \<Rightarrow> bytes \<Rightarrow> nat \<Rightarrow> ProcessResult \<Rightarrow> Http2Connection \<Rightarrow> bytes \<Rightarrow> bool" where
  "loop_spec c d n r c1 out \<longleftrightarrow>
     (if goes_on r then
        (\<exists>k \<le> length d. bytesConsumed r = n + k \<and> unit_step c1 (drop k d) = None \<and> framed c1 \<and> extends c c1
          \<and> run (drain c) d (out @ outputBuffer c) = run (drain c1) (drop k d) (out @ outputBuffer c1))
      else action r \<noteq> A_Closed \<and> extends c c1
        \<and> (\<exists>b. run (drain c) d (out @ outputBuffer c) = (True, drain c1, b, out @ outputBuffer c1)))"

lemma loop_spec_shift:
  "k \<le> length d - m \<Longrightarrow> \<not> length d < m \<Longrightarrow> P (k + m) \<Longrightarrow> \<exists>j \<le> length d. n + m + k = n + j \<and> P j"
  by (intro exI [of _ "k + m"]) simp

lemma loop_run:
  "framed c \<Longrightarrow> outputWritePos c = 0 \<Longrightarrow> process_frames_loop c d n = (r, c1) \<Longrightarrow> loop_spec c d n r c1 out"
proof (induction c d n arbitrary: r c1 rule: process_frames_loop.induct)
  case (1 c d n)
  note u = unit_step_framed [OF "1.prems"(1), of d]
  let ?h = "ParseFrameHeader d"
  let ?k = "kFrameHeaderSize + unat (fhLength ?h)"
  note eq = "1.prems"(3) [unfolded process_frames_loop.simps [of c d n]]
  consider (short) "length d < kFrameHeaderSize" | (big) "\<not> length d < kFrameHeaderSize" "fhLength ?h > cfgMaxFrameSize (localSettings c)"
    | (partial) "\<not> length d < kFrameHeaderSize" "\<not> fhLength ?h > cfgMaxFrameSize (localSettings c)" "length d < ?k"
    | (frame) "\<not> length d < kFrameHeaderSize" "\<not> fhLength ?h > cfgMaxFrameSize (localSettings c)" "\<not> length d < ?k"
    by blast
  then show ?case
  proof cases
    case big
    then have s: "unit_step c d = Some (True, 0, snd (connectionError c EC_FrameSizeError ''Frame exceeds maximum size''))"
      by (simp add: u Let_def)
    have "(r, c1) = connectionError c EC_FrameSizeError ''Frame exceeds maximum size''" using eq big by (simp add: Let_def)
    then have rc: "r = fst (connectionError c EC_FrameSizeError ''Frame exceeds maximum size'')"
      "c1 = snd (connectionError c EC_FrameSizeError ''Frame exceeds maximum size'')" by (metis fst_conv, metis snd_conv)
    show ?thesis using run_unit [OF "1.prems"(2) s, of out] extends_connectionError [OF extends_refl, of c]
      by (simp add: loop_spec_def rc)
  next
    case frame
    obtain r1 c2 where f: "processFrame c ?h (subspan d kFrameHeaderSize (unat (fhLength ?h))) = (r1, c2)" by fastforce
    have s: "unit_step c d = Some (\<not> goes_on r1, ?k, c2)" using frame by (simp add: u f Let_def)
    have x: "extends c c2" using extends_processFrame [of c ?h "subspan d kFrameHeaderSize (unat (fhLength ?h))"] by (simp add: f)
    show ?thesis
    proof (cases "goes_on r1")
      case True
      then have loop: "process_frames_loop c2 (drop ?k d) (n + ?k) = (r, c1)"
        using eq frame by (auto simp: Let_def f goes_on_def)
      have "framed c2" using framed_processFrame [OF "1.prems"(1)] f True by (metis fst_conv snd_conv)
      moreover have "outputWritePos c2 = 0" using x "1.prems"(2) by (simp add: extends_def)
      ultimately have "loop_spec c2 (drop ?k d) (n + ?k) r c1 out"
        using "1.IH" [OF refl _ refl _ refl _ refl f [symmetric] refl _ _ _ loop] frame True by (auto simp: goes_on_def)
      moreover have "run (drain c) d (out @ outputBuffer c) = run (drain c2) (drop ?k d) (out @ outputBuffer c2)"
        using run_unit [OF "1.prems"(2) s, of out] True by simp
      ultimately show ?thesis
        using extends_trans [OF x] le_diff_conv2 [of ?k "length d"] frame(3)
        by (auto simp: loop_spec_def split: if_splits intro: loop_spec_shift)
    next
      case False
      then have "r = r1\<lparr>bytesConsumed := n + ?k\<rparr>" "c1 = c2" using eq frame by (auto simp: Let_def f goes_on_def)
      moreover have "action r1 \<noteq> A_Closed" using processFrame_not_closed f by (metis fst_conv)
      ultimately show ?thesis using run_unit [OF "1.prems"(2) s, of out] False x by (simp add: loop_spec_def goes_on_def)
    qed
  next
    case short
    then have "unit_step c d = None" by (simp add: u Let_def)
    moreover have "goes_on r" "bytesConsumed r = n" "c1 = c" using eq short by (auto simp: Let_def goes_on_def result_def)
    ultimately show ?thesis using "1.prems" by (auto simp: loop_spec_def intro!: exI [of _ 0])
  next
    case partial
    then have "unit_step c d = None" by (simp add: u Let_def)
    moreover have "goes_on r" "bytesConsumed r = n" "c1 = c" using eq partial by (auto simp: Let_def goes_on_def result_def)
    ultimately show ?thesis using "1.prems" by (auto simp: loop_spec_def intro!: exI [of _ 0])
  qed
qed

text \<open>Two outcomes that differ at most in the input left over once the connection is to be closed.\<close>

definition same_outcome :: "bool \<times> Http2Connection \<times> bytes \<times> bytes \<Rightarrow> bool \<times> Http2Connection \<times> bytes \<times> bytes \<Rightarrow> bool" where
  "same_outcome a b \<longleftrightarrow> (case (a, b) of ((cl, c, l, out), (cl', c', l', out')) \<Rightarrow>
     cl = cl' \<and> c = c' \<and> out = out' \<and> (cl \<or> l = l'))"

lemma same_outcome_refl [simp, intro]: "same_outcome a a"
  by (simp add: same_outcome_def split: prod.split)

definition drained :: "Http2Connection \<Rightarrow> bool" where
  "drained c \<longleftrightarrow> outputBuffer c = [] \<and> outputWritePos c = 0"

lemma drained_drain [simp]: "drained (drain c)"
  by (simp add: drained_def drain_def)

lemma drain_drained [simp]: "drained c \<Longrightarrow> drain c = c"
  by (simp add: drained_def drain_def)

lemma isServer_drain [simp]: "isServer (drain c) = isServer c"
  by (simp add: drain_def)

lemma drainOutputBuffer_eq:
  "outputWritePos c = 0 \<Longrightarrow> drainOutputBuffer c out = (drain c, out @ outputBuffer c)"
  by (auto simp: drainOutputBuffer_def getPendingOutput_def onOutputWritten_def drain_def Let_def)

lemma run_drained: "drained c \<Longrightarrow> isServer c \<Longrightarrow> run c d out = (cl, c1, b, out1) \<Longrightarrow> drained c1 \<and> isServer c1"
proof (induction c d out rule: run.induct)
  case (1 c d out)
  show ?case
  proof (cases "unit_step c d")
    case None
    then show ?thesis using "1.prems" by (simp add: run.simps [of c d])
  next
    case (Some u)
    obtain t k c' where u: "u = (t, k, c')" by (cases u) auto
    have "isServer c' = isServer c"
      using Some unfolding u
      by (auto simp: unit_step_def processPreface_def sendSettings_def connectionError_def initiateGoAway_def Let_def split_beta
          extends_processFrame [unfolded extends_def] split: if_splits ConnectionState.splits)
    then show ?thesis using u "1.IH" [OF Some, of False "(k, c')" k c'] "1.prems" Some
      by (cases t) (auto simp: run.simps [of c d])
  qed
qed

lemma serve_run: "isServer c \<Longrightarrow> drained c \<Longrightarrow> same_outcome (serve c d out) (run c d out)"
proof (induction "length d" arbitrary: c d out rule: less_induct)
  case less
  note srv = less.prems
  have w: "outputWritePos c = 0" "outputBuffer c = []" using srv by (simp_all add: drained_def)
  show ?case
  proof (cases "d = []")
    case True
    then show ?thesis by (simp add: serve.simps run.simps unit_step_def)
  next
    case ne: False
    consider (closed) "connState c = CS_Closed" | (preface) "connState c = CS_AwaitingPreface" | (framed) "framed c"
      by (cases "connState c") (auto simp: framed_def)
    then show ?thesis
    proof cases
      case closed
      then show ?thesis using ne srv
        by (simp add: serve.simps run.simps [of c] unit_step_def processInput_def result_def drainOutputBuffer_eq [OF w(1)] w same_outcome_def)
    next
      case preface
      define c1 where "c1 = snd (processPreface c d)"
      have x: "outputWritePos c1 = 0"
        using w srv unfolding c1_def
        by (simp add: processPreface_def Let_def sendSettings_def connectionError_def initiateGoAway_def)
      have u: "unit_step c d = (if length d < 24 then None else Some (take 24 d \<noteq> kConnectionPreface, 24, c1))"
        using preface ne by (simp add: unit_step_def c1_def)
      have i: "fst (processInput c d) = (if length d < 24 then result A_Continue EC_NoError 0 [] else
          if take 24 d \<noteq> kConnectionPreface then result A_Error EC_ProtocolError 0 ''Invalid connection preface''
          else result A_OutputReady EC_NoError 24 [])" "snd (processInput c d) = (if length d < 24 then c else c1)"
        using preface ne srv(1)
        by (simp_all add: processInput_def processPreface_def c1_def continue_with_def connectionError_def Let_def)
      have "same_outcome (serve (drain c1) (drop 24 d) o1) (run (drain c1) (drop 24 d) o1)" if "\<not> length d < 24" for o1
        using that srv by (intro less.hyps) (auto simp: c1_def processPreface_def sendSettings_def Let_def connectionError_def initiateGoAway_def)
      then show ?thesis using ne u i w x srv
        by (simp add: serve.simps [of c] run.simps [of c] split_beta Let_def result_def drainOutputBuffer_eq same_outcome_def [of "(_, _)"])
    next
      case framed
      obtain r c1 where l: "process_frames_loop c d 0 = (r, c1)" by fastforce
      have s: "loop_spec c d 0 r c1 out" by (rule loop_run [OF framed w(1) l])
      have p: "processInput c d = (r, c1)" using framed ne l
        by (cases "connState c") (simp_all add: framed_def processInput_def processFrames_def)
      have x: "outputWritePos c1 = 0" "isServer c1" using s w(1) srv(1) by (auto simp: loop_spec_def extends_def split: if_splits)
      show ?thesis
      proof (cases "goes_on r")
        case True
        then obtain k where k: "k \<le> length d" "bytesConsumed r = k" "unit_step c1 (drop k d) = None"
          and eq: "run c d out = run (drain c1) (drop k d) (out @ outputBuffer c1)"
          using s srv w by (auto simp: loop_spec_def)
        have "same_outcome (serve (drain c1) (drop k d) (out @ outputBuffer c1)) (run c d out)" if "k \<noteq> 0"
          unfolding eq using that ne k x by (intro less.hyps) auto
        moreover have "run c d out = (False, drain c1, d, out @ outputBuffer c1)" if "k = 0"
          using eq run_none [OF x(1) k(3)] that by simp
        ultimately show ?thesis using True ne k p x
          by (auto simp: serve.simps [of c] Let_def drainOutputBuffer_eq goes_on_def)
      next
        case False
        then obtain b where "run c d out = (True, drain c1, b, out @ outputBuffer c1)" "action r \<noteq> A_Closed"
          using s srv w by (auto simp: loop_spec_def)
        then show ?thesis using False ne p x
          by (cases "action r") (simp_all add: serve.simps [of c] drainOutputBuffer_eq goes_on_def same_outcome_def)
      qed
    qed
  qed
qed


lemma serve_chunks_run:
  "isServer c \<Longrightarrow> drained c \<Longrightarrow> unit_step c l = None \<Longrightarrow>
     same_outcome (serve_chunks c l out chunks) (run c (l @ concat chunks) out)"
proof (induction chunks arbitrary: c l out)
  case Nil
  then show ?case by (simp add: run.simps [of c l])
next
  case (Cons chunk chunks)
  obtain cl c1 l1 out1 where r: "run c (l @ chunk) out = (cl, c1, l1, out1)" by (metis prod_cases4)
  obtain cl' c1' l1' out1' where s: "serve c (l @ chunk) out = (cl', c1', l1', out1')" by (metis prod_cases4)
  have eq: "cl' = cl" "c1' = c1" "out1' = out1" "cl \<or> l1' = l1"
    using serve_run [OF Cons.prems(1, 2), of "l @ chunk" out] by (auto simp: r s same_outcome_def)
  have all: "run c (l @ concat (chunk # chunks)) out = (case run c (l @ chunk) out of
     (True, c1, b, out1) \<Rightarrow> (True, c1, b @ concat chunks, out1) | (False, c1, b, out1) \<Rightarrow> run c1 (b @ concat chunks) out1)"
    using run_append [of c "l @ chunk" "concat chunks" out] by simp
  show ?case
  proof (cases cl)
    case True
    then show ?thesis unfolding all using eq by (simp add: r s same_outcome_def)
  next
    case False
    have "drained c1 \<and> isServer c1" by (rule run_drained [OF Cons.prems(2, 1) r])
    moreover have "unit_step c1 l1 = None" using run_stuck r False by simp
    ultimately show ?thesis unfolding all using Cons.IH eq False by (simp add: r s)
  qed
qed

text \<open>
  C1. The outcome of serving a connection does not depend on how its input is cut into pieces: for every list of
  chunks, feeding them one at a time to the server's input loop gives the same connection state (streams, windows, compression
  contexts, events), the same output bytes, the same verdict whether to close, and the same bytes left waiting,
  as feeding their concatenation at once.
\<close>

theorem serve_chunks_equals_whole:
  assumes "isServer c" "outputBuffer c = []" "outputWritePos c = 0"
  shows "same_outcome (serve_chunks c [] outBuffer chunks) (serve c (concat chunks) outBuffer)"
proof -
  have d: "drained c" using assms by (simp add: drained_def)
  have "same_outcome (serve_chunks c [] outBuffer chunks) (run c (concat chunks) outBuffer)"
    using serve_chunks_run [OF assms(1) d, of "[]" outBuffer chunks] by (simp add: unit_step_def)
  moreover have "same_outcome (serve c (concat chunks) outBuffer) (run c (concat chunks) outBuffer)"
    by (rule serve_run [OF assms(1) d])
  ultimately show ?thesis by (auto simp: same_outcome_def split: prod.splits)
qed

theorem serve_chunks_equals_whole_witness:
  "same_outcome
     (serve_chunks (newHttp2Connection default_config True \<lparr>cbHeadersDecoded = True, cbData = True, cbStreamReset = True,
        cbStreamClosed = True, cbGoAway = True, cbWindowUpdate = True\<rparr>) [] []
        [take 10 kConnectionPreface, drop 10 kConnectionPreface @ take 3 example_input, drop 3 example_input])
     (serve (newHttp2Connection default_config True \<lparr>cbHeadersDecoded = True, cbData = True, cbStreamReset = True,
        cbStreamClosed = True, cbGoAway = True, cbWindowUpdate = True\<rparr>) (kConnectionPreface @ example_input) [])"
proof -
  let ?c = "newHttp2Connection default_config True \<lparr>cbHeadersDecoded = True, cbData = True, cbStreamReset = True,
        cbStreamClosed = True, cbGoAway = True, cbWindowUpdate = True\<rparr>"
  have "concat [take 10 kConnectionPreface, drop 10 kConnectionPreface @ take 3 example_input, drop 3 example_input]
      = kConnectionPreface @ example_input" by (simp add: append_assoc [symmetric] del: append_assoc) simp
  then show ?thesis
    using serve_chunks_equals_whole [of ?c "[]"
        "[take 10 kConnectionPreface, drop 10 kConnectionPreface @ take 3 example_input, drop 3 example_input]"]
    by (simp only: newHttp2Connection_def Http2Connection.simps)
qed

section \<open>Output is a queue\<close>

text \<open>
  C7. The output of a connection is a first-in first-out byte queue: no call changes or drops bytes that are already
  waiting (it only appends, to the output as to the list of delivered events), and reporting \<open>n\<close> bytes as written removes
  exactly the first \<open>n\<close> of them.
\<close>

theorem pending_output_fifo:
  assumes "reachable conn_start conn_step c"
  shows "(local_call c d \<longrightarrow> prefix (getPendingOutput c) (getPendingOutput d) \<and> prefix (events c) (events d))
    \<and> getPendingOutput (onOutputWritten c n) = drop n (getPendingOutput c)"
proof -
  have inv: "conn_inv c" by (rule connection.reachable_inv) fact
  then have pos: "outputWritePos c \<le> length (outputBuffer c)" by (simp add: conn_inv_def)
  have "prefix (getPendingOutput c) (getPendingOutput d) \<and> prefix (events c) (events d)" if "local_call c d"
  proof -
    have "extends c d" using local_call_keeps [OF that inv] by blast
    then show ?thesis using pos by (auto simp: extends_def getPendingOutput_def prefix_def)
  qed
  moreover have "getPendingOutput (onOutputWritten c n) = drop n (getPendingOutput c)"
    by (auto simp: getPendingOutput_def onOutputWritten_def Let_def add.commute)
  ultimately show ?thesis by blast
qed

theorem pending_output_fifo_witness:
  "prefix (getPendingOutput example_conn) (getPendingOutput (initiateGoAway example_conn EC_NoError []))
   \<and> getPendingOutput (onOutputWritten example_conn 5) = drop 5 (getPendingOutput example_conn)"
  using pending_output_fifo [OF example_conn_reachable, of "initiateGoAway example_conn EC_NoError []" 5] local_call.go_away by blast

section \<open>Protocol errors\<close>

text \<open>A result that is no connection error, or one raised by \<open>connectionError\<close> after changes that did not touch the state.\<close>

definition error_from :: "Http2Connection \<Rightarrow> ProcessResult \<times> Http2Connection \<Rightarrow> bool" where
  "error_from c rd \<longleftrightarrow> action (fst rd) \<noteq> A_Error
     \<or> (\<exists>c1 code msg. rd = connectionError c1 code msg \<and> extends c c1 \<and> connState c1 = connState c)"

lemma error_from_simps [simp]:
  "error_from c (continue_with d)" "error_from c (output_ready d)" "error_from c (streamError d i ec msg)"
  by (simp_all add: error_from_def)

lemma error_from_connectionError:
  "extends c d \<Longrightarrow> connState d = connState c \<Longrightarrow> error_from c (connectionError d ec msg)"
  unfolding error_from_def by blast

lemma error_from_headers_on_stream:
  "extends c d \<Longrightarrow> connState d = connState c \<Longrightarrow> error_from c (headers_on_stream d h f s)"
  by (simp add: headers_on_stream_def Let_def split_beta error_from_connectionError ext_intros)

lemma error_from_handlers:
  "error_from c (handleDataFrame c h p)" "error_from c (handleHeadersFrame c h p)" "error_from c (handlePriorityFrame c h p)"
  "error_from c (handleRstStreamFrame c h p)" "error_from c (handlePingFrame c h p)"
  "error_from c (handleWindowUpdateFrame c h p)" "error_from c (handleContinuationFrame c h p)"
  by (simp_all add: handleDataFrame_def handleHeadersFrame_def error_from_headers_on_stream handlePriorityFrame_def
      handleRstStreamFrame_def handlePingFrame_def handleWindowUpdateFrame_def handleContinuationFrame_def Let_def split_beta
      error_from_connectionError ext_intros split: sum.split FrameParseError.split option.split)

lemma error_from_others: "error_from c (handleSettingsFrame c h p)" "error_from c (handleGoAwayFrame c h p)"
proof -
  have "extends c c1 \<and> connState c1 = connState c" if "applySettings c es = (r, c1)" for es r c1
    using extends_applySettings [OF extends_refl, of c es] connState_applySettings [of c es] that by simp
  then show "error_from c (handleSettingsFrame c h p)"
    by (auto simp: handleSettingsFrame_def intro: error_from_connectionError split: sum.split prod.split option.split)
  show "error_from c (handleGoAwayFrame c h p)"
    by (auto simp: handleGoAwayFrame_def Let_def intro: error_from_connectionError split: sum.split)
      (simp add: error_from_def result_def)
qed

lemma error_from_processFrame: "error_from c (processFrame c h p)"
  by (simp add: processFrame_def error_from_handlers error_from_others error_from_connectionError split: FrameType.split)

text \<open>The loop: the state before the error differs from the first at most by the first SETTINGS.\<close>

definition raised :: "Http2Connection \<Rightarrow> ProcessResult \<Rightarrow> Http2Connection \<Rightarrow> bool" where
  "raised c r d \<longleftrightarrow> (\<exists>c1. extends c c1 \<and> state_kept c c1 \<and> d = snd (connectionError c1 (errorCode r) (errorMessage r)))"

lemma raised_connectionError:
  "extends c c1 \<Longrightarrow> state_kept c c1 \<Longrightarrow> connectionError c1 code msg = (r, d) \<Longrightarrow> raised c (r\<lparr>bytesConsumed := n\<rparr>) d \<and> raised c r d"
  unfolding raised_def by (auto simp: connectionError_def result_def)

lemma state_kept_trans: "state_kept c d \<Longrightarrow> state_kept d e \<Longrightarrow> state_kept c e"
  by (auto simp: state_kept_def)

lemma loop_raises: "process_frames_loop c data n = (r, d) \<Longrightarrow> action r = A_Error \<Longrightarrow> raised c r d"
proof (induction c data n arbitrary: r d rule: process_frames_loop.induct)
  case (1 c data n)
  let ?h = "ParseFrameHeader data"
  let ?k = "kFrameHeaderSize + unat (fhLength ?h)"
  obtain r1 c2 where f: "processFrame c ?h (subspan data kFrameHeaderSize (unat (fhLength ?h))) = (r1, c2)" by fastforce
  have x: "extends c c2" using extends_processFrame [of c ?h "subspan data kFrameHeaderSize (unat (fhLength ?h))"] by (simp add: f)
  note eq = "1.prems"(1) [unfolded process_frames_loop.simps [of c data n]]
  consider (short) "length data < kFrameHeaderSize"
    | (partial) "\<not> length data < kFrameHeaderSize" "\<not> fhLength ?h > cfgMaxFrameSize (localSettings c)" "length data < ?k"
    | (big) "\<not> length data < kFrameHeaderSize" "fhLength ?h > cfgMaxFrameSize (localSettings c)"
    | (frame) "\<not> length data < kFrameHeaderSize" "\<not> fhLength ?h > cfgMaxFrameSize (localSettings c)" "\<not> length data < ?k"
    by blast
  then show ?case
  proof cases
    case short
    then show ?thesis using eq "1.prems"(2) by (auto simp: result_def split: if_splits)
  next
    case partial
    then show ?thesis using eq "1.prems"(2) by (auto simp: Let_def result_def split: if_splits)
  next
    case big
    then show ?thesis using eq raised_connectionError [of c c] by (simp add: Let_def)
  next
    case frame
    show ?thesis
    proof (cases "goes_on r1")
      case True
      then have loop: "process_frames_loop c2 (drop ?k data) (n + ?k) = (r, d)"
        using eq frame by (auto simp: Let_def f goes_on_def)
      then have "raised c2 r d"
        using "1.IH" [OF refl _ refl _ refl _ refl f [symmetric] refl _ loop "1.prems"(2)] frame True by (auto simp: goes_on_def)
      moreover have "state_kept c c2" using kept_processFrame f True by (metis fst_conv snd_conv)
      ultimately show ?thesis unfolding raised_def using x extends_trans state_kept_trans by blast
    next
      case False
      then have r: "r = r1\<lparr>bytesConsumed := n + ?k\<rparr>" "d = c2" using eq frame by (auto simp: Let_def f goes_on_def)
      then have "error_from c (r1, c2)" using error_from_processFrame f by metis
      then obtain c1 code msg where "(r1, c2) = connectionError c1 code msg" "extends c c1" "connState c1 = connState c"
        using "1.prems"(2) r by (auto simp: error_from_def)
      then show ?thesis using raised_connectionError [of c c1 code msg r1 c2] by (simp add: r state_kept_def)
    qed
  qed
qed

lemma processInput_raises: "processInput c data = (r, d) \<Longrightarrow> action r = A_Error \<Longrightarrow> raised c r d"
  using raised_connectionError [OF extends_refl, of c]
  by (auto simp: processInput_def processFrames_def processPreface_def continue_with_def result_def Let_def dest: loop_raises
      split: if_splits ConnectionState.splits)


definition fresh_server :: Http2Connection where
  "fresh_server = newHttp2Connection default_config True \<lparr>cbHeadersDecoded = True, cbData = True, cbStreamReset = True,
     cbStreamClosed = True, cbGoAway = True, cbWindowUpdate = True\<rparr>"

lemma fresh_server_rejects:
  "processInput fresh_server (replicate 24 0) = connectionError fresh_server EC_ProtocolError ''Invalid connection preface''"
proof -
  have "hd (replicate 24 (0 :: u8)) \<noteq> hd kConnectionPreface" by (simp add: kConnectionPreface_def)
  then have "replicate 24 0 \<noteq> kConnectionPreface" by metis
  then show ?thesis by (simp add: fresh_server_def newHttp2Connection_def processInput_def processPreface_def)
qed


end
