(* ===== verification/Http2_Transfer.thy ===== *)
theory Http2_Transfer
  imports Http2_Serve
begin

text \<open>
  Two connections end to end: what one side sends with \<^verbatim>\<open>sendData\<close>, \<^verbatim>\<open>sendHeaders\<close> or \<^verbatim>\<open>sendRequestHeaders\<close> is
  what the other side's callbacks receive, through frame splitting, framing, header compression, continuation
  frames, flow control and the stream state machine.
\<close>

section \<open>Frames through the input loop\<close>

lemma loop_frame:
  assumes "frame_ok (h, p)" "\<not> cfgMaxFrameSize (localSettings d) < fhLength h" "processFrame d h p = (r, d1)" "goes_on r"
  shows "process_frames_loop d (enc_frame (h, p) @ rest) n = process_frames_loop d1 rest (n + length (enc_frame (h, p)))"
proof -
  have "next_frame (enc_frame (h, p) @ rest) = Some ((h, p), length (enc_frame (h, p)))"
    using assms(1) by (rule next_frame_enc_frame)
  then have f: "\<not> length (enc_frame (h, p) @ rest) < kFrameHeaderSize" "ParseFrameHeader (enc_frame (h, p) @ rest) = h"
    "\<not> length (enc_frame (h, p) @ rest) < kFrameHeaderSize + unat (fhLength h)"
    "subspan (enc_frame (h, p) @ rest) kFrameHeaderSize (unat (fhLength h)) = p"
    "length (enc_frame (h, p)) = kFrameHeaderSize + unat (fhLength h)"
    by (auto simp: next_frame_def Let_def split: if_splits)
  then have "drop (kFrameHeaderSize + unat (fhLength h)) (enc_frame (h, p) @ rest) = rest" by (metis append_eq_conv_conj)
  then show ?thesis using f assms(2, 3, 4)
    by (subst process_frames_loop.simps) (auto simp: Let_def goes_on_def)
qed

lemma loop_end: "process_frames_loop d [] n = (result (if hasPendingOutput d then A_OutputReady else A_Continue) EC_NoError n [], d)"
  by (subst process_frames_loop.simps) (simp add: kFrameHeaderSize_def)

section \<open>Data\<close>

text \<open>The payloads \<^verbatim>\<open>sendData\<close> cuts a body into, each with its END_STREAM flag.\<close>

function data_chunks :: "nat \<Rightarrow> bytes \<Rightarrow> bool \<Rightarrow> (bytes \<times> bool) list" where
  "data_chunks m data es =
     (if data = [] \<or> m = 0 then [] else (take m data, length data \<le> m \<and> es) # data_chunks m (drop m data) es)"
  by pat_completeness auto
termination
  by (relation "measure (\<lambda>(m, data, es). length data)") auto

declare data_chunks.simps [simp del]

lemma data_chunks_props:
  "0 < m \<Longrightarrow> concat (map fst (data_chunks m data es)) = data \<and> (\<forall>ch\<in>set (data_chunks m data es). fst ch \<noteq> [] \<and> length (fst ch) \<le> m)
     \<and> (data_chunks m data es = [] \<longleftrightarrow> data = []) \<and> (data \<noteq> [] \<longrightarrow> snd (last (data_chunks m data es)) = es)
     \<and> (\<forall>ch\<in>set (butlast (data_chunks m data es)). \<not> snd ch)"
proof (induction m data es rule: data_chunks.induct)
  case (1 m data es)
  show ?case
  proof (cases "data = []")
    case False
    then show ?thesis using 1 by (subst (1 2 3 4 5) data_chunks.simps) auto
  qed (simp add: data_chunks.simps)
qed

definition data_raw :: "u32 \<Rightarrow> bytes \<times> bool \<Rightarrow> FrameHeader \<times> bytes" where
  "data_raw i ch = wframe_raw (W_Data i (fst ch) (snd ch))"

lemma WriteDataFrame_eq:
  "uint i < 2147483648 \<Longrightarrow> length d < 16777216 \<Longrightarrow> fst (WriteDataFrame buf i d es) = buf @ enc_frame (data_raw i (d, es))"
  using append_wframe_eq [of "W_Data i d es" buf] by (simp add: data_raw_def)

lemma write_data_frames_eq:
  "uint i < 2147483648 \<Longrightarrow> m < 16777216 \<Longrightarrow>
     write_data_frames buf i m data es = buf @ concat (map (\<lambda>ch. enc_frame (data_raw i ch)) (data_chunks m data es))"
proof (induction buf i m data es rule: write_data_frames.induct)
  case (1 buf i m data es)
  show ?case
  proof (cases "data = [] \<or> m = 0")
    case True
    then show ?thesis by (simp add: write_data_frames.simps data_chunks.simps)
  next
    case False
    then show ?thesis
      using "1.IH" [OF False refl refl "1.prems"] WriteDataFrame_eq [OF "1.prems"(1), of "take m data" buf "length data \<le> m \<and> es"] "1.prems"(2)
      by (simp add: write_data_frames.simps [of buf] data_chunks.simps [of m data])
  qed
qed

text \<open>One DATA frame at the receiver: the bytes are delivered and both windows end where they were.\<close>

lemma data_raw_sel [simp]: "fhType (fst (data_raw i ch)) = FT_Data" "fhStreamId (fst (data_raw i ch)) = i"
  by (simp_all add: data_raw_def)

lemma parse_data_raw: "ParseDataFrame (fst (data_raw i (p, fin))) p = Inr \<lparr>dfData = p, dfPadLength = 0, dfEndStream = fin\<rparr>"
  by (simp add: data_raw_def ParseDataFrame_def)

lemma onRecvData_recv: "(snd (onRecvData (s\<lparr>stRecvWindow := x\<rparr>) fin))\<lparr>stRecvWindow := y\<rparr> = snd (onRecvData (s\<lparr>stRecvWindow := y\<rparr>) fin)"
  by (simp add: onRecvData_def split: StreamState.split)

lemma onRecvData_window [simp]: "stRecvWindow (snd (onRecvData s fin)) = stRecvWindow s"
  by (simp add: onRecvData_def split: StreamState.split)

lemma recv_window_restored:
  assumes "stream_inv s" "uint w \<le> stRecvWindow s"
  shows "snd (increaseRecvWindow (snd (onRecvData (s\<lparr>stRecvWindow := stRecvWindow s - uint w\<rparr>) fin)) w) = snd (onRecvData s fin)"
proof -
  have "to_i32 (stRecvWindow s) = stRecvWindow s" "stRecvWindow s \<le> i32_max"
    using assms(1) by (auto intro!: to_i32_id simp: stream_inv_def)
  then show ?thesis by (simp add: increaseRecvWindow_def Let_def onRecvData_recv)
qed

lemma uint_of_small: "int n \<le> i32_max \<Longrightarrow> uint (of_nat n :: u32) = int n"
  by (simp add: unsigned_of_nat take_bit_nat_eq_self)

lemma set_stream_simps [simp]:
  "events (set_stream d i s) = events d" "callbacks (set_stream d i s) = callbacks d" "localSettings (set_stream d i s) = localSettings d"
  "expectingContinuation (set_stream d i s) = expectingContinuation d" "connectionRecvWindow (set_stream d i s) = connectionRecvWindow d"
  by (simp_all add: set_stream_def)

lemma sendWindowUpdate_simps:
  "events (sendWindowUpdate d i w) = events d" "callbacks (sendWindowUpdate d i w) = callbacks d"
  "localSettings (sendWindowUpdate d i w) = localSettings d" "expectingContinuation (sendWindowUpdate d i w) = expectingContinuation d"
  "getStream (sendWindowUpdate d 0 w) = getStream d"
  "connectionRecvWindow (sendWindowUpdate d 0 w) = to_i32 (min (connectionRecvWindow d + uint w) i32_max)"
  "i \<noteq> 0 \<Longrightarrow> connectionRecvWindow (sendWindowUpdate d i w) = connectionRecvWindow d"
  "i \<noteq> 0 \<Longrightarrow> getStream (sendWindowUpdate d i w) i = map_option (\<lambda>s. snd (increaseRecvWindow s w)) (getStream d i)"
  by (simp_all add: sendWindowUpdate_def Let_def split: option.split)

lemma emit_simps [simp]:
  "callbacks (emit d b ev) = callbacks d" "localSettings (emit d b ev) = localSettings d"
  "expectingContinuation (emit d b ev) = expectingContinuation d" "connectionRecvWindow (emit d b ev) = connectionRecvWindow d"
  "events (emit d b ev) = (if b then events d @ [ev] else events d)"
  by (simp_all add: emit_def)

lemma data_effect:
  assumes inv: "conn_inv d" and cb: "cbData (callbacks d)" and s: "getStream d i = Some s" "canReceive s"
    and exp: "\<not> expectingContinuation d" and i: "i \<noteq> 0"
    and w: "int (length p) \<le> stRecvWindow s" "int (length p) \<le> connectionRecvWindow d"
  obtains d3 where "processFrame d (fst (data_raw i (p, fin))) p = continue_with (close_if_closed d3 i fin)"
    "getStream d3 i = Some (snd (onRecvData s fin))" "connectionRecvWindow d3 = connectionRecvWindow d"
    "events d3 = events d @ [EvData i p fin]" "connState d3 = connState d" "expectingContinuation d3 = expectingContinuation d"
    "callbacks d3 = callbacks d" "localSettings d3 = localSettings d"
proof -
  have "entry_ok (i, s)"
    using inv map_of_SomeD [OF s(1) [unfolded getStream_def]] by (auto simp: conn_inv_def streams_ok_def list_all_iff)
  then have si: "stream_inv s" by (simp add: entry_ok_def)
  have b: "connectionRecvWindow d \<le> i32_max" "0 \<le> connectionRecvWindow d" using inv by (auto simp: conn_inv_def)
  define n where "n = (of_nat (length p) :: u32)"
  have n: "uint n = int (length p)" unfolding n_def using w b by (intro uint_of_small) simp
  have size: "to_i32 (int (length p)) = int (length p)" using w b by (intro to_i32_id) auto
  have left: "to_i32 (connectionRecvWindow d - int (length p)) = connectionRecvWindow d - int (length p)"
    using w b by (intro to_i32_id) auto
  have win: "to_i32 (connectionRecvWindow d) = connectionRecvWindow d" using b by (intro to_i32_id) auto
  define c2 where "c2 = emit (set_stream (d\<lparr>connectionRecvWindow := connectionRecvWindow d - int (length p)\<rparr>) i
     (snd (onRecvData (s\<lparr>stRecvWindow := stRecvWindow s - uint n\<rparr>) fin))) True (EvData i p fin)"
  define d3 where "d3 = (if p \<noteq> [] then sendWindowUpdate (sendWindowUpdate c2 i n) 0 n else c2)"
  have "processFrame d (fst (data_raw i (p, fin))) p = continue_with (close_if_closed d3 i fin)"
    using exp cb s i w n consumeRecvWindow_eq [OF si, of n] unfolding processFrame_def handleDataFrame_def
    by (simp add: parse_data_raw size left n_def [symmetric]) (simp add: Let_def c2_def n d3_def)
  moreover have "getStream d3 i = Some (snd (onRecvData s fin))"
    using i s(1) n recv_window_restored [OF si, of n fin] w by (simp add: d3_def sendWindowUpdate_simps c2_def)
  moreover have "connectionRecvWindow d3 = connectionRecvWindow d"
    using i b by (simp add: d3_def sendWindowUpdate_simps c2_def n win min_absorb1)
  moreover have "events d3 = events d @ [EvData i p fin]" "connState d3 = connState d"
    "expectingContinuation d3 = expectingContinuation d" "callbacks d3 = callbacks d" "localSettings d3 = localSettings d"
    by (simp_all add: d3_def sendWindowUpdate_simps c2_def)
  ultimately show ?thesis using that by blast
qed


text \<open>A receiver that can take chunks of up to \<open>k\<close> bytes on stream \<open>i\<close>, whose state is \<open>st\<close>.\<close>

definition ready :: "Http2Connection \<Rightarrow> u32 \<Rightarrow> nat \<Rightarrow> StreamState \<Rightarrow> bool" where
  "ready d i k st \<longleftrightarrow> conn_inv d \<and> framed d \<and> \<not> expectingContinuation d \<and> cbData (callbacks d)
     \<and> (\<exists>s. getStream d i = Some s \<and> canReceive s \<and> stState s = st \<and> int k \<le> stRecvWindow s)
     \<and> int k \<le> connectionRecvWindow d \<and> i \<noteq> 0 \<and> uint i < 2147483648"

definition closed_event :: "Http2Connection \<Rightarrow> u32 \<Rightarrow> StreamState \<Rightarrow> bool \<Rightarrow> Event list" where
  "closed_event d i st fin = (if fin \<and> st = SS_HalfClosedLocal \<and> cbStreamClosed (callbacks d) then [EvStreamClosed i] else [])"

lemma close_if_closed_False [simp]: "close_if_closed d i False = d"
  by (simp add: close_if_closed_def split: option.split)

lemma events_closeStream:
  "events (closeStream d i ec) = events d @ (case getStream d i of None \<Rightarrow> [] | Some s \<Rightarrow>
     if stClosedNotified s \<or> \<not> cbStreamClosed (callbacks d) then [] else [EvStreamClosed i])"
  by (simp add: closeStream_def pruneClosedStreams_def markClosedNotified_def set_stream_def emit_def Let_def split: option.split)

lemma canReceive_states: "canReceive s \<longleftrightarrow> stState s = SS_Open \<or> stState s = SS_HalfClosedLocal"
  by (simp add: canReceive_def)

lemma entry_of: "conn_inv d \<Longrightarrow> getStream d i = Some s \<Longrightarrow> entry_ok (i, s)"
  by (auto simp: getStream_def conn_inv_def streams_ok_def list_all_iff dest: map_of_SomeD)

lemma ready_frame:
  assumes r: "ready d i k st" and p: "length p \<le> k" "length p \<le> 16777215"
  obtains d1 where "processFrame d (fst (data_raw i (p, fin))) p = continue_with d1" "localSettings d1 = localSettings d"
    "events d1 = events d @ EvData i p fin # closed_event d i st fin" "callbacks d1 = callbacks d" "\<not> fin \<Longrightarrow> ready d1 i k st"
proof -
  obtain s where s: "getStream d i = Some s" "canReceive s" "stState s = st" "int k \<le> stRecvWindow s"
    and d: "conn_inv d" "cbData (callbacks d)" "\<not> expectingContinuation d" "i \<noteq> 0" "int k \<le> connectionRecvWindow d"
    using r by (auto simp: ready_def)
  have nn: "\<not> stClosedNotified s" using entry_of [OF d(1) s(1)] s(2) by (auto simp: entry_ok_def canReceive_states isClosed_def)
  obtain d3 where d3: "processFrame d (fst (data_raw i (p, fin))) p = continue_with (close_if_closed d3 i fin)"
    "getStream d3 i = Some (snd (onRecvData s fin))" "connectionRecvWindow d3 = connectionRecvWindow d"
    "events d3 = events d @ [EvData i p fin]" "connState d3 = connState d" "expectingContinuation d3 = expectingContinuation d"
    "callbacks d3 = callbacks d" "localSettings d3 = localSettings d"
    using data_effect [OF d(1, 2) s(1, 2) d(3, 4), of p fin] p s(4) d(5) by force
  have x: "extends d (close_if_closed d3 i fin)" and inv: "conn_inv (close_if_closed d3 i fin)"
    using extends_processFrame [of d "fst (data_raw i (p, fin))" p] conn_inv_processFrame [OF d(1) p(2), of "fst (data_raw i (p, fin))"]
    by (simp_all add: d3(1))
  have ev: "events (close_if_closed d3 i fin) = events d @ EvData i p fin # closed_event d i st fin"
    using s nn by (auto simp: close_if_closed_def d3 events_closeStream closed_event_def canReceive_states isClosed_def onRecvData_def)
  have "ready (close_if_closed d3 i fin) i k st" if "\<not> fin"
    using that r inv d3 s by (auto simp: ready_def framed_def onRecvData_def canReceive_states)
  then show ?thesis using that [OF d3(1)] x ev by (simp add: extends_def)
qed

lemma deliver_chunks:
  "ready d i k st \<Longrightarrow> k \<le> 16777215 \<Longrightarrow> \<forall>ch\<in>set chs. length (fst ch) \<le> k \<and> length (fst ch) \<le> unat (cfgMaxFrameSize (localSettings d)) \<Longrightarrow>
     \<forall>ch\<in>set (butlast chs). \<not> snd ch \<Longrightarrow>
   \<exists>r d'. process_frames_loop d (concat (map (\<lambda>ch. enc_frame (data_raw i ch)) chs)) n = (r, d') \<and> goes_on r
     \<and> bytesConsumed r = n + length (concat (map (\<lambda>ch. enc_frame (data_raw i ch)) chs))
     \<and> events d' = events d @ map (\<lambda>ch. EvData i (fst ch) (snd ch)) chs @ (if chs = [] then [] else closed_event d i st (snd (last chs)))"
proof (induction chs arbitrary: d n)
  case Nil
  then show ?case by (simp add: loop_end goes_on_def result_def)
next
  case (Cons ch chs)
  obtain p fin where ch: "ch = (p, fin)" by (cases ch)
  have p: "length p \<le> k" "length p \<le> 16777215" "length p \<le> unat (cfgMaxFrameSize (localSettings d))"
    using Cons.prems by (auto simp: ch)
  obtain d1 where d1: "processFrame d (fst (data_raw i (p, fin))) p = continue_with d1" "localSettings d1 = localSettings d"
    "events d1 = events d @ EvData i p fin # closed_event d i st fin" "callbacks d1 = callbacks d" "\<not> fin \<Longrightarrow> ready d1 i k st"
    using ready_frame [OF Cons.prems(1) p(1, 2)] by blast
  have raw: "data_raw i ch = (fst (data_raw i (p, fin)), p)" by (simp add: ch data_raw_def)
  have ok: "frame_ok (fst (data_raw i (p, fin)), p)"
    using wframe_raw_ok [of "W_Data i p fin"] Cons.prems(1) p(2) by (simp add: data_raw_def ready_def)
  have le: "\<not> cfgMaxFrameSize (localSettings d) < fhLength (fst (data_raw i (p, fin)))"
    using ok p(3) by (simp add: frame_ok_def word_less_nat_alt)
  have step: "process_frames_loop d (enc_frame (data_raw i ch) @ rest) n
      = process_frames_loop d1 rest (n + length (enc_frame (data_raw i ch)))" for rest
    unfolding raw using d1(1) by (intro loop_frame [OF ok le]) (auto simp: continue_with_def goes_on_def result_def)
  show ?case
  proof (cases "chs = []")
    case True
    then show ?thesis using step [of "[]"] d1(3) by (simp add: loop_end goes_on_def result_def ch)
  next
    case False
    then have "\<not> fin" using Cons.prems(4) by (simp add: ch)
    then have "closed_event d i st fin = []" by (simp add: closed_event_def)
    moreover have "closed_event d1 i st fin' = closed_event d i st fin'" for fin' by (simp add: closed_event_def d1(4))
    moreover have "\<forall>ch\<in>set (butlast chs). \<not> snd ch" using Cons.prems(4) False by simp
    ultimately show ?thesis using step Cons.IH [of d1 "n + length (enc_frame (data_raw i ch))"] d1 \<open>\<not> fin\<close> Cons.prems False
      by (auto simp: ch)
  qed
qed

text \<open>What \<^verbatim>\<open>sendData\<close> appends to the output.\<close>

definition body_chunks :: "nat \<Rightarrow> bytes \<Rightarrow> bool \<Rightarrow> (bytes \<times> bool) list" where
  "body_chunks m data es = (if data = [] \<and> es then [([], True)] else data_chunks m data es)"

lemma body_chunks_props:
  assumes "0 < m"
  shows "concat (map fst (body_chunks m data es)) = data" "\<forall>ch\<in>set (body_chunks m data es). length (fst ch) \<le> min (length data) m"
    "body_chunks m data es = [] \<longleftrightarrow> data = [] \<and> \<not> es" "body_chunks m data es \<noteq> [] \<Longrightarrow> snd (last (body_chunks m data es)) = es"
    "\<forall>ch\<in>set (butlast (body_chunks m data es)). \<not> snd ch"
proof -
  note p = data_chunks_props [OF assms, of data es]
  have "length (fst ch) \<le> length (concat (map fst chs))" if "ch \<in> set chs" for ch and chs :: "(bytes \<times> bool) list"
    using that by (induction chs) auto
  then have "\<forall>ch\<in>set (data_chunks m data es). length (fst ch) \<le> length data" using p by metis
  then show "\<forall>ch\<in>set (body_chunks m data es). length (fst ch) \<le> min (length data) m" using p by (auto simp: body_chunks_def)
qed (use data_chunks_props [OF assms, of data es] in \<open>auto simp: body_chunks_def\<close>)

lemma sendData_output:
  assumes "sendData c i data es = (EC_NoError, c')" "uint i < 2147483648" "unat (psMaxFrameSize (peerSettings c)) < 16777216"
  shows "outputBuffer c' = outputBuffer c @ concat (map (\<lambda>ch. enc_frame (data_raw i ch)) (body_chunks (unat (psMaxFrameSize (peerSettings c))) data es))"
proof -
  have [simp]: "peerSettings (set_stream c i s) = peerSettings c" for s by (simp add: set_stream_def)
  show ?thesis using assms WriteDataFrame_eq [of i "[]" "outputBuffer c" True]
    by (auto simp: sendData_def split_beta Let_def body_chunks_def write_data_frames_eq data_chunks.simps [of _ "[]"] split: option.splits if_splits)
qed

text \<open>
  C5. A body sent by one side is delivered by the other exactly: if \<^verbatim>\<open>sendData\<close> reports success, the
  bytes it appends to its output, given to a peer that can receive on the stream (with room for one frame in its windows),
  are consumed completely without error, and the peer's data callback receives non-overlapping pieces, in order, whose concatenation is the
  body, none larger than the frame size the peer announced, with END_STREAM on the last piece exactly if it was requested and
  on no other; the stream-closed notification follows exactly when that ends the stream in both directions.
\<close>

theorem data_delivery:
  assumes sender: "reachable conn_start conn_step c" "sendData c i data es = (EC_NoError, c')"
    and peer: "reachable conn_start conn_step d" "connState d = CS_Open" "\<not> expectingContinuation d" "cbData (callbacks d)"
      "getStream d i = Some s" "canReceive s" "psMaxFrameSize (peerSettings c) \<le> cfgMaxFrameSize (localSettings d)"
      "int (min (length data) (unat (psMaxFrameSize (peerSettings c)))) \<le> min (stRecvWindow s) (connectionRecvWindow d)"
    and i: "0 < uint i" "uint i < 2147483648"
  shows "\<exists>bs r d' pieces. outputBuffer c' = outputBuffer c @ bs \<and> processInput d bs = (r, d')
    \<and> (action r = A_Continue \<or> action r = A_OutputReady) \<and> bytesConsumed r = length bs
    \<and> events d' = events d @ map (\<lambda>(piece, fin). EvData i piece fin) pieces
         @ (if es \<and> stState s = SS_HalfClosedLocal \<and> cbStreamClosed (callbacks d) then [EvStreamClosed i] else [])
    \<and> concat (map fst pieces) = data \<and> (pieces = [] \<longleftrightarrow> data = [] \<and> \<not> es)
    \<and> (pieces \<noteq> [] \<longrightarrow> snd (last pieces) = es) \<and> (\<forall>piece\<in>set (butlast pieces). \<not> snd piece)
    \<and> (\<forall>piece\<in>set pieces. length (fst piece) \<le> unat (psMaxFrameSize (peerSettings c)))"
proof -
  define m where "m = unat (psMaxFrameSize (peerSettings c))"
  define k where "k = min (length data) m"
  have c: "conn_inv c" and d: "conn_inv d" using sender(1) peer(1) by (auto intro: connection.reachable_inv)
  then have m: "0 < m" "m < 16777216" by (auto simp: conn_inv_def peer_ok_def m_def)
  let ?chs = "body_chunks m data es"
  let ?bs = "concat (map (\<lambda>ch. enc_frame (data_raw i ch)) ?chs)"
  note b = body_chunks_props [OF m(1), of data es]
  have out: "outputBuffer c' = outputBuffer c @ ?bs" using sendData_output [OF sender(2) i(2)] m by (simp add: m_def)
  have ready: "ready d i k (stState s)" using d peer i by (auto simp: ready_def framed_def k_def m_def)
  have "m \<le> unat (cfgMaxFrameSize (localSettings d))" using peer(7) by (simp add: m_def word_le_nat_alt)
  then have le: "k \<le> 16777215" "\<forall>ch\<in>set ?chs. length (fst ch) \<le> k \<and> length (fst ch) \<le> unat (cfgMaxFrameSize (localSettings d))"
    using b(2) m(2) by (auto simp: k_def)
  obtain r d' where loop: "process_frames_loop d ?bs 0 = (r, d')" "goes_on r" "bytesConsumed r = length ?bs"
      "events d' = events d @ map (\<lambda>ch. EvData i (fst ch) (snd ch)) ?chs @ (if ?chs = [] then [] else closed_event d i (stState s) (snd (last ?chs)))"
    using deliver_chunks [OF ready le b(5), of 0] by auto
  have ev: "events d' = events d @ map (\<lambda>(piece, fin). EvData i piece fin) ?chs
      @ (if es \<and> stState s = SS_HalfClosedLocal \<and> cbStreamClosed (callbacks d) then [EvStreamClosed i] else [])"
    using loop(4) b(3, 4) by (auto simp: closed_event_def case_prod_beta)
  show ?thesis
  proof (cases "?bs = []")
    case True
    then have "?chs = []" by (cases ?chs) (simp_all add: enc_frame_def WriteFrameHeader_def)
    then have "data = []" "\<not> es" using b(3) by auto
    then show ?thesis using True out
      by (intro exI [of _ "[]"] exI [of _ "result A_Continue EC_NoError 0 []"] exI [of _ d]) (simp add: processInput_def continue_with_def result_def)
  next
    case False
    then have "processInput d ?bs = (r, d')" using loop(1) unfolding processInput_def processFrames_def
      by (simp only: peer(2) if_False ConnectionState.case)
    then show ?thesis using out loop(2, 3) ev b
      by (intro exI [of _ ?bs] exI [of _ r] exI [of _ d'] exI [of _ ?chs]) (auto simp: goes_on_def m_def)
  qed
qed


definition example_client :: Http2Connection where
  "example_client =
     snd (sendHeaders (snd (processInput (sendClientPreface (newHttp2Connection default_config False \<lparr>cbHeadersDecoded = True, cbData = True,
        cbStreamReset = True, cbStreamClosed = True, cbGoAway = True, cbWindowUpdate = True\<rparr>)) [0, 0, 0, 4, 0, 0, 0, 0, 0])) 1 0 [] True [])"

lemma empty_settings:
  assumes "framed c" "\<not> expectingContinuation c"
  shows "snd (processInput c [0, 0, 0, 4, 0, 0, 0, 0, 0])
    = settings_received (c\<lparr>outputBuffer := fst (WriteSettingsAckFrame (outputBuffer c))\<rparr>)"
proof -
  have raw: "enc_frame (wframe_raw (W_Settings [])) = [0, 0, 0, 4, 0, 0, 0, 0, 0]"
    by (simp add: enc_frame_def WriteFrameHeader_def Write24BE_def Write32BE_def CreateFrameHeader_def)
  have p: "processFrame c (fst (wframe_raw (W_Settings []))) []
      = output_ready (settings_received (c\<lparr>outputBuffer := fst (WriteSettingsAckFrame (outputBuffer c))\<rparr>))"
    using assms(2) by (simp add: processFrame_def handleSettingsFrame_def ParseSettingsFrame_def)
  have ok: "frame_ok (fst (wframe_raw (W_Settings [])), [])" using wframe_raw_ok [of "W_Settings []"] by simp
  have "process_frames_loop c ([0, 0, 0, 4, 0, 0, 0, 0, 0] @ []) 0
      = process_frames_loop (settings_received (c\<lparr>outputBuffer := fst (WriteSettingsAckFrame (outputBuffer c))\<rparr>)) [] (Suc 8)"
    using loop_frame [OF ok _ p [unfolded output_ready_def], of "[]" 0] raw
    by (simp add: goes_on_def result_def numeral_eq_Suc)
  then show ?thesis using assms(1) by (cases "connState c") (simp_all add: framed_def processInput_def processFrames_def loop_end)
qed

lemma sendSettings_simps [simp]:
  "connState (sendSettings c) = connState c" "peerSettings (sendSettings c) = peerSettings c" "streams (sendSettings c) = streams c"
  "expectingContinuation (sendSettings c) = expectingContinuation c" "callbacks (sendSettings c) = callbacks c"
  "localSettings (sendSettings c) = localSettings c" "connectionRecvWindow (sendSettings c) = connectionRecvWindow c"
  "events (sendSettings c) = events c" "activeStreamCount (sendSettings c) = activeStreamCount c" "isServer (sendSettings c) = isServer c"
  by (simp_all add: sendSettings_def Let_def)

lemma settings_received_simps [simp]:
  "peerSettings (settings_received c) = peerSettings c" "streams (settings_received c) = streams c"
  "expectingContinuation (settings_received c) = expectingContinuation c" "callbacks (settings_received c) = callbacks c"
  "localSettings (settings_received c) = localSettings c" "connectionRecvWindow (settings_received c) = connectionRecvWindow c"
  "events (settings_received c) = events c" "activeStreamCount (settings_received c) = activeStreamCount c"
  "connState (settings_received c) = (if connState c = CS_AwaitingSettings then CS_Open else connState c)"
  by (simp_all add: settings_received_def)

lemma encodeHeaders_simps [simp]:
  "connState (encodeHeaders c i st hs es gs e buf n) = connState c" "streams (encodeHeaders c i st hs es gs e buf n) = streams c"
  "expectingContinuation (encodeHeaders c i st hs es gs e buf n) = expectingContinuation c"
  "callbacks (encodeHeaders c i st hs es gs e buf n) = callbacks c" "localSettings (encodeHeaders c i st hs es gs e buf n) = localSettings c"
  "connectionRecvWindow (encodeHeaders c i st hs es gs e buf n) = connectionRecvWindow c"
  "events (encodeHeaders c i st hs es gs e buf n) = events c"
  by (simp_all add: encodeHeaders_def split_beta Let_def)

lemma example_client_state:
  "connState example_client = CS_Open \<and> \<not> expectingContinuation example_client \<and> cbData (callbacks example_client)
   \<and> cbStreamClosed (callbacks example_client) \<and> cfgMaxFrameSize (localSettings example_client) = 16384
   \<and> connectionRecvWindow example_client = 1048576 \<and> events example_client = []
   \<and> (\<exists>s. getStream example_client 1 = Some s \<and> stState s = SS_HalfClosedLocal \<and> stRecvWindow s = 65535)"
proof -
  let ?c = "newHttp2Connection default_config False \<lparr>cbHeadersDecoded = True, cbData = True, cbStreamReset = True,
      cbStreamClosed = True, cbGoAway = True, cbWindowUpdate = True\<rparr>"
  define c1 where "c1 = sendClientPreface ?c"
  have c1: "connState c1 = CS_AwaitingSettings" "\<not> expectingContinuation c1" "peerSettings c1 = defaultPeerSettings" "streams c1 = []"
    "callbacks c1 = callbacks ?c" "localSettings c1 = default_config" "connectionRecvWindow c1 = 1048576" "events c1 = []"
    "activeStreamCount c1 = 0"
    by (simp_all add: c1_def sendClientPreface_def newHttp2Connection_def default_config_def to_i32_id)
  define c2 where "c2 = snd (processInput c1 [0, 0, 0, 4, 0, 0, 0, 0, 0])"
  have c2: "c2 = settings_received (c1\<lparr>outputBuffer := fst (WriteSettingsAckFrame (outputBuffer c1))\<rparr>)"
    unfolding c2_def by (rule empty_settings) (simp_all add: framed_def c1)
  show ?thesis unfolding example_client_def c1_def [symmetric] c2_def [symmetric] sendHeaders_def prepareSendHeaders_def
    by (simp add: c2 c1 canCreateStreams_def getStream_def onSendHeaders_def newHttp2Stream_def defaultPeerSettings_def to_i32_id
        newHttp2Connection_def default_config_def)
qed

lemma example_client_reachable: "reachable conn_start conn_step example_client"
proof -
  have "conn_start (newHttp2Connection default_config False cbs)" for cbs
    unfolding conn_start_def by (intro exI [of _ default_config] exI conjI) (simp_all add: validate_def default_config_def)
  then show ?thesis unfolding example_client_def
    by (intro reachable_call [OF _ local_call.send_headers] reachable_call [OF _ local_call.process_input]
        reachable_call [OF _ local_call.client_preface] reachable.start)
qed

theorem data_delivery_witness:
  "\<exists>bs r d' pieces. outputBuffer (snd (sendData example_conn 1 [1, 2, 3] True)) = outputBuffer example_conn @ bs
     \<and> processInput example_client bs = (r, d') \<and> bytesConsumed r = length bs
     \<and> events d' = map (\<lambda>(piece, fin). EvData 1 piece fin) pieces @ [EvStreamClosed 1] \<and> concat (map fst pieces) = [1, 2, 3]"
proof -
  obtain t where t: "getStream example_conn 1 = Some t" "stState t = SS_HalfClosedRemote" "stSendWindow t = 65535"
    using example_conn_counts by auto
  have "fst (sendData example_conn 1 [1, 2, 3] True) = EC_NoError"
    using t example_conn_counts by (simp add: sendData_def canSend_def consumeSendWindow_def split_beta Let_def)
  then have c: "sendData example_conn 1 [1, 2, 3] True = (EC_NoError, snd (sendData example_conn 1 [1, 2, 3] True))"
    by (metis prod.collapse)
  obtain s where s: "getStream example_client 1 = Some s" "stState s = SS_HalfClosedLocal" "stRecvWindow s = 65535"
    using example_client_state by blast
  show ?thesis
    using data_delivery [OF example_conn_reachable c example_client_reachable _ _ _ s(1)] example_client_state example_conn_counts s
    by (auto simp: canReceive_def)
qed

section \<open>Headers\<close>

text \<open>The frames a header block goes out in: one HEADERS frame, or one and CONTINUATION frames.\<close>

definition head_raw :: "u32 \<Rightarrow> bool \<Rightarrow> bool \<Rightarrow> bytes \<Rightarrow> FrameHeader \<times> bytes" where
  "head_raw i es eh blk = (CreateFrameHeader FT_Headers (ComputeHeaderFrameFlags es eh 0) i (of_nat (length blk)), blk)"

definition cont_raw :: "u32 \<Rightarrow> bytes \<times> bool \<Rightarrow> FrameHeader \<times> bytes" where
  "cont_raw i ch = wframe_raw (W_Continuation i (fst ch) (snd ch))"

definition block_frames :: "nat \<Rightarrow> u32 \<Rightarrow> bytes \<Rightarrow> bool \<Rightarrow> (FrameHeader \<times> bytes) list" where
  "block_frames m i blk es =
     (if length blk \<le> m then [head_raw i es True blk]
      else head_raw i es False (take m blk) # map (cont_raw i) (data_chunks m (drop m blk) True))"

lemma WriteContinuationFrame_eq:
  "uint i < 2147483648 \<Longrightarrow> length d < 16777216 \<Longrightarrow> fst (WriteContinuationFrame buf i d eh) = buf @ enc_frame (cont_raw i (d, eh))"
  using append_wframe_eq [of "W_Continuation i d eh" buf] by (simp add: cont_raw_def)

lemma write_continuations_eq:
  "uint i < 2147483648 \<Longrightarrow> m < 16777216 \<Longrightarrow>
     write_continuations buf i m rest = buf @ concat (map (\<lambda>ch. enc_frame (cont_raw i ch)) (data_chunks m rest True))"
proof (induction buf i m rest rule: write_continuations.induct)
  case (1 buf i m rest)
  show ?case
  proof (cases "rest = [] \<or> m = 0")
    case True
    then show ?thesis by (simp add: write_continuations.simps data_chunks.simps)
  next
    case False
    then show ?thesis
      using "1.IH" [OF False refl refl "1.prems"] WriteContinuationFrame_eq [OF "1.prems"(1), of "take m rest" buf "length rest \<le> m"] "1.prems"(2)
      by (simp add: write_continuations.simps [of buf] data_chunks.simps [of m rest])
  qed
qed

lemma write_header_block_eq:
  assumes "uint i < 2147483648" "unat mfs < 16777216"
  shows "write_header_block before i blk es mfs = before @ concat (map enc_frame (block_frames (unat mfs) i blk es))"
proof (cases "length blk \<le> unat mfs")
  case True
  then show ?thesis by (simp add: write_header_block_def block_frames_def head_raw_def enc_frame_def CreateFrameHeader_def)
next
  case False
  then have "of_nat (length (take (unat mfs) blk)) = mfs" by simp
  then show ?thesis using False write_continuations_eq [OF assms]
    by (simp add: write_header_block_def block_frames_def head_raw_def enc_frame_def WriteFrame_def Let_def comp_def)
qed

lemma encode_fields_block: "encode_fields e out hs = encode_block e out (map (\<lambda>h. (h, Indexed)) hs)"
  by (induction hs arbitrary: e out) (simp_all add: Let_def split_beta)

text \<open>Encoding on one side, decoding on the other with the same table.\<close>

lemma fields_decode:
  assumes "encoder_ok e" "\<forall>h\<in>set fs. header_ok h" "store_all (dec_merge dec) [] fs = Inr hs" "dec_table dec = enc_table e"
  obtains e' blk where "encode_fields e out fs = (e', out @ blk)" "hpack_decode dec blk = ((None, hs), dec\<lparr>dec_table := enc_table e'\<rparr>)"
proof -
  have "map fst (map (\<lambda>h. (h, Indexed)) fs) = fs" by (simp add: comp_def)
  then obtain e' blk where b: "encode_block e out (map (\<lambda>h. (h, Indexed)) fs) = (e', out @ blk)"
      "\<forall>rest. decode_loop (dec_merge dec) (enc_table e) [] (blk @ rest) = decode_loop (dec_merge dec) (enc_table e') hs rest"
    using encode_block_decodes [OF assms(1), of "map (\<lambda>h. (h, Indexed)) fs" "dec_merge dec" "[]" hs out] assms(2, 3) by auto
  have "decode_loop (dec_merge dec) (enc_table e) [] blk = (None, hs, enc_table e')"
    using b(2) [rule_format, of "[]"] by (simp add: decode_loop.simps [of _ _ hs "[]"])
  then show ?thesis using that b(1) assms(4) by (simp add: encode_fields_block hpack_decode_def)
qed

text \<open>What is left to do at the receiver when the whole block is there.\<close>

definition finish :: "Http2Connection \<Rightarrow> u32 \<Rightarrow> Http2Stream \<Rightarrow> HpackDecoder \<Rightarrow> header list \<Rightarrow> bool \<Rightarrow> Http2Connection" where
  "finish d i s' dec hs es =
     close_if_closed (emit ((set_stream d i s')\<lparr>hpackDecoder := dec\<rparr>) (cbHeadersDecoded (callbacks d)) (EvHeaders i hs es)) i es"

lemma hpackDecoder_others [simp]:
  "hpackDecoder (closeStream d i ec) = hpackDecoder d" "hpackDecoder (close_if_closed d i es) = hpackDecoder d"
  "hpackDecoder (emit d b ev) = hpackDecoder d" "hpackDecoder (set_stream d i s) = hpackDecoder d"
  by (simp_all add: closeStream_def close_if_closed_def pruneClosedStreams_def emit_def set_stream_def split_beta Let_def split: option.split)

lemma finish_events:
  assumes "getStream d i = Some s" "entry_ok (i, s)" "onRecvHeaders s es = (EC_NoError, s')" "cbHeadersDecoded (callbacks d)"
  shows "events (finish d i s' dec hs es) = events d @ EvHeaders i hs es # closed_event d i (stState s) es"
    "hpackDecoder (finish d i s' dec hs es) = dec"
proof -
  have "isClosed s' \<longleftrightarrow> es \<and> stState s = SS_HalfClosedLocal" "\<not> stClosedNotified s'"
    using assms(2, 3) by (auto simp: onRecvHeaders_def isClosed_def entry_ok_def stream_inv_def split: StreamState.splits if_splits)
  then show "events (finish d i s' dec hs es) = events d @ EvHeaders i hs es # closed_event d i (stState s) es"
    using assms(1, 4) by (auto simp: finish_def close_if_closed_def events_closeStream closed_event_def)
qed (simp add: finish_def)

lemma decodeAndEmit_ok:
  "hpack_decode (hpackDecoder d) blk = ((None, hs), dec) \<Longrightarrow>
     decodeAndEmitHeaders d i blk es = (EC_NoError, emit (d\<lparr>hpackDecoder := dec\<rparr>) (cbHeadersDecoded (callbacks d)) (EvHeaders i hs es))"
  by (simp add: decodeAndEmitHeaders_def)

lemma set_stream_same:
  assumes "conn_inv d" "getStream d i = Some s"
  shows "set_stream d i s = d"
proof -
  have "distinct (map fst (streams d))" using assms(1) by (simp add: conn_inv_def streams_ok_def)
  from put_stream_split [OF this assms(2) [unfolded getStream_def]] have "put_stream i s (streams d) = streams d" by metis
  then show ?thesis by (simp add: set_stream_def)
qed

text \<open>
  A receiver that takes HEADERS on stream \<open>i\<close>: \<open>d1\<close> is the connection once the stream \<open>s\<close> has been looked up or created.
\<close>

definition accepts :: "Http2Connection \<Rightarrow> u32 \<Rightarrow> Http2Connection \<Rightarrow> Http2Stream \<Rightarrow> bool" where
  "accepts d i d1 s \<longleftrightarrow>
     (\<forall>h p f. fhStreamId h = i \<longrightarrow> ParseHeadersFrame h p = Inr f \<longrightarrow> handleHeadersFrame d h p = headers_on_stream d1 h f s)
     \<and> conn_inv d1 \<and> getStream d1 i = Some s \<and> \<not> expectingContinuation d \<and> events d1 = events d
     \<and> callbacks d1 = callbacks d \<and> localSettings d1 = localSettings d \<and> hpackDecoder d1 = hpackDecoder d"

lemma accepts_known:
  "conn_inv d \<Longrightarrow> connState d = CS_Open \<Longrightarrow> \<not> expectingContinuation d \<Longrightarrow> getStream d i = Some s \<Longrightarrow> i \<noteq> 0 \<Longrightarrow> accepts d i d s"
  by (simp add: accepts_def handleHeadersFrame_def)

lemma accepts_new:
  assumes d: "conn_inv d" "connState d = CS_Open" "\<not> expectingContinuation d" "getStream d i = None" "isServer d"
    and i: "i AND 1 \<noteq> 0" "lastPeerStreamId d < i" "activeStreamCount d < unat (cfgMaxConcurrentStreams (localSettings d))"
  shows "accepts d i (d\<lparr>streams := streams d @ [(i, newHttp2Stream i (psInitialWindowSize (peerSettings d)))],
      activeStreamCount := activeStreamCount d + 1, lastPeerStreamId := i\<rparr>) (newHttp2Stream i (psInitialWindowSize (peerSettings d)))"
proof -
  have "i \<noteq> 0" using i(1) by auto
  moreover have "\<not> i \<le> lastPeerStreamId d" using i(2) by simp
  moreover have "peer_ok (peerSettings d)" using d(1) by (simp add: conn_inv_def)
  moreover have "getStream (d\<lparr>streams := streams d @ [(i, newHttp2Stream i (psInitialWindowSize (peerSettings d)))],
      activeStreamCount := activeStreamCount d + 1, lastPeerStreamId := i\<rparr>) i = Some (newHttp2Stream i (psInitialWindowSize (peerSettings d)))"
    using d(4) by (simp add: getStream_def map_add_def)
  ultimately show ?thesis using conn_inv_insert [OF d(1, 4) entry_ok_new] d i
    unfolding accepts_def handleHeadersFrame_def by (auto simp: Let_def not_le)
qed

lemma head_raw_sel [simp]: "fhType (fst (head_raw i es eh b)) = FT_Headers" "fhStreamId (fst (head_raw i es eh b)) = i" "snd (head_raw i es eh b) = b"
  by (simp_all add: head_raw_def)

lemma cont_raw_sel [simp]: "fhType (fst (cont_raw i ch)) = FT_Continuation" "fhStreamId (fst (cont_raw i ch)) = i" "snd (cont_raw i ch) = fst ch"
  by (simp_all add: cont_raw_def)

lemma parse_head_raw: "ParseHeadersFrame (fst (head_raw i es eh b)) b =
   Inr \<lparr>hfHeaderBlockFragment = b, hfStreamDependency = 0, hfWeight = 16, hfPadLength = 0, hfEndStream = es, hfEndHeaders = eh,
        hfExclusive = False, hfHasPriority = False\<rparr>"
  by (cases es; cases eh) (simp_all add: head_raw_def ParseHeadersFrame_def ComputeHeaderFrameFlags_def Let_def)

lemma parse_cont_raw: "ParseContinuationFrame (fst (cont_raw i (b, eh))) b = \<lparr>cfHeaderBlockFragment = b, cfEndHeaders = eh\<rparr>"
  by (simp add: cont_raw_def ParseContinuationFrame_def)

lemma whole_block:
  assumes "accepts d i d1 s" "onRecvHeaders s es = (EC_NoError, s')" "hpack_decode (hpackDecoder d) blk = ((None, hs), dec)"
  shows "processFrame d (fst (head_raw i es True blk)) blk = continue_with (finish d1 i s' dec hs es)"
proof -
  have a: "conn_inv d1" "getStream d1 i = Some s" "\<not> expectingContinuation d" "hpackDecoder d1 = hpackDecoder d"
    "handleHeadersFrame d (fst (head_raw i es True blk)) blk = headers_on_stream d1 (fst (head_raw i es True blk))
       \<lparr>hfHeaderBlockFragment = blk, hfStreamDependency = 0, hfWeight = 16, hfPadLength = 0, hfEndStream = es, hfEndHeaders = True,
        hfExclusive = False, hfHasPriority = False\<rparr> s"
    using assms(1) parse_head_raw [of i es True blk] by (auto simp: accepts_def)
  show ?thesis using a(3, 5) assms(2) decodeAndEmit_ok [of "set_stream d1 i s'" blk hs dec i es] assms(3) a(4)
    by (simp add: processFrame_def headers_on_stream_def finish_def Let_def set_stream_same [OF a(1, 2)])
qed

lemma first_fragment:
  assumes "accepts d i d1 s" "length b \<le> kMaxHeaderBlockAccumulationSize"
  shows "processFrame d (fst (head_raw i es False b)) b = continue_with
    (d1\<lparr>expectingContinuation := True, headerBlockStreamId := i, headerBlockEndStream := es, headerBlockBuffer := b\<rparr>)"
proof -
  have a: "conn_inv d1" "getStream d1 i = Some s" "\<not> expectingContinuation d"
    "handleHeadersFrame d (fst (head_raw i es False b)) b = headers_on_stream d1 (fst (head_raw i es False b))
       \<lparr>hfHeaderBlockFragment = b, hfStreamDependency = 0, hfWeight = 16, hfPadLength = 0, hfEndStream = es, hfEndHeaders = False,
        hfExclusive = False, hfHasPriority = False\<rparr> s"
    using assms(1) parse_head_raw [of i es False b] by (auto simp: accepts_def)
  show ?thesis using a(3, 4) assms(2) by (simp add: processFrame_def headers_on_stream_def Let_def set_stream_same [OF a(1, 2)])
qed

lemma cont_ok: "uint i < 2147483648 \<Longrightarrow> length p < 16777216 \<Longrightarrow> frame_ok (fst (cont_raw i (p, eh)), p)"
  using wframe_raw_ok [of "W_Continuation i p eh"] by (simp add: cont_raw_def)

lemma head_ok: "uint i < 2147483648 \<Longrightarrow> length p < 16777216 \<Longrightarrow> frame_ok (fst (head_raw i es eh p), p)"
  by (simp add: head_raw_def frame_ok_def unat_of_nat_small)

lemma frame_fits:
  "frame_ok (h, p) \<Longrightarrow> length p \<le> unat (cfgMaxFrameSize l) \<Longrightarrow> \<not> cfgMaxFrameSize l < fhLength h"
  by (simp add: frame_ok_def word_less_nat_alt)

lemma continuations:
  assumes "chs \<noteq> []" "\<forall>ch\<in>set (butlast chs). \<not> snd ch" "snd (last chs)" "uint i < 2147483648"
    "\<forall>ch\<in>set chs. length (fst ch) < 16777216 \<and> length (fst ch) \<le> unat (cfgMaxFrameSize (localSettings d))"
    "expectingContinuation d" "headerBlockStreamId d = i" "headerBlockEndStream d = es"
    "length (headerBlockBuffer d @ concat (map fst chs)) \<le> kMaxHeaderBlockAccumulationSize"
    "getStream d i = Some s" "entry_ok (i, s)" "onRecvHeaders s es = (EC_NoError, s')" "cbHeadersDecoded (callbacks d)"
    "hpack_decode (hpackDecoder d) (headerBlockBuffer d @ concat (map fst chs)) = ((None, hs), dec)"
  shows "\<exists>r d'. process_frames_loop d (concat (map (\<lambda>ch. enc_frame (cont_raw i ch)) chs)) n = (r, d') \<and> goes_on r
     \<and> bytesConsumed r = n + length (concat (map (\<lambda>ch. enc_frame (cont_raw i ch)) chs))
     \<and> events d' = events d @ EvHeaders i hs es # closed_event d i (stState s) es \<and> hpackDecoder d' = dec"
  using assms
proof (induction chs arbitrary: d n)
  case Nil
  then show ?case by simp
next
  case (Cons ch chs)
  obtain p eh where ch: "ch = (p, eh)" by (cases ch)
  have raw: "cont_raw i ch = (fst (cont_raw i (p, eh)), p)" by (simp add: ch cont_raw_def)
  have ok: "frame_ok (fst (cont_raw i (p, eh)), p)" using Cons.prems by (intro cont_ok) (auto simp: ch)
  have le: "\<not> cfgMaxFrameSize (localSettings d) < fhLength (fst (cont_raw i (p, eh)))"
    using Cons.prems(5) by (intro frame_fits [OF ok]) (simp add: ch)
  have step: "process_frames_loop d (enc_frame (cont_raw i ch) @ rest) n = process_frames_loop d1 rest (n + length (enc_frame (cont_raw i ch)))"
    if "processFrame d (fst (cont_raw i (p, eh))) p = continue_with d1" for d1 rest
    unfolding raw using that by (intro loop_frame [OF ok le]) (auto simp: continue_with_def goes_on_def result_def)
  have buf: "length (headerBlockBuffer d) + length p \<le> kMaxHeaderBlockAccumulationSize" using Cons.prems(9) by (simp add: ch)
  show ?case
  proof (cases "chs = []")
    case True
    then have eh: "eh" using Cons.prems(3) by (simp add: ch)
    define d2 where "d2 = d\<lparr>headerBlockBuffer := headerBlockBuffer d @ p, expectingContinuation := False\<rparr>"
    define d3 where "d3 = (finish d2 i s' dec hs es)\<lparr>headerBlockBuffer := [], headerBlockStreamId := 0\<rparr>"
    have d2: "getStream d2 i = Some s" "headerBlockEndStream d2 = es" "headerBlockStreamId d2 = i" "headerBlockBuffer d2 = headerBlockBuffer d @ p"
      using Cons.prems by (simp_all add: d2_def)
    have dec: "hpack_decode (hpackDecoder (set_stream d2 i s')) (headerBlockBuffer d2) = ((None, hs), dec)"
      using Cons.prems(14) True by (simp add: ch d2_def)
    have es: "headerBlockEndStream (emit ((set_stream d2 i s')\<lparr>hpackDecoder := dec\<rparr>) b ev) = es" for b ev
      using d2(2) by (simp add: set_stream_def emit_def)
    have "processFrame d (fst (cont_raw i (p, eh))) p = continue_with d3"
      using Cons.prems(6, 7, 12) buf eh d2 decodeAndEmit_ok [OF dec, of i es]
      by (simp add: processFrame_def handleContinuationFrame_def parse_cont_raw Let_def d3_def finish_def es [unfolded d2_def] d2_def)
    from step [OF this, of "[]"] show ?thesis
      using True Cons.prems finish_events [of d2 i s es s' dec hs] d2(1)
      by (auto simp: loop_end goes_on_def result_def d3_def closed_event_def d2_def)
  next
    case False
    then have eh: "\<not> eh" using Cons.prems(2) by (simp add: ch)
    define d2 where "d2 = d\<lparr>headerBlockBuffer := headerBlockBuffer d @ p\<rparr>"
    have "processFrame d (fst (cont_raw i (p, eh))) p = continue_with d2"
      using Cons.prems(6, 7) buf eh by (simp add: processFrame_def handleContinuationFrame_def parse_cont_raw Let_def d2_def)
    note step = step [OF this]
    have "closed_event d2 i st es = closed_event d i st es" for st by (simp add: closed_event_def d2_def)
    moreover have "\<exists>r d'. process_frames_loop d2 (concat (map (\<lambda>ch. enc_frame (cont_raw i ch)) chs)) (n + length (enc_frame (cont_raw i ch))) = (r, d') \<and> goes_on r
      \<and> bytesConsumed r = n + length (enc_frame (cont_raw i ch)) + length (concat (map (\<lambda>ch. enc_frame (cont_raw i ch)) chs))
      \<and> events d' = events d2 @ EvHeaders i hs es # closed_event d2 i (stState s) es \<and> hpackDecoder d' = dec"
      using Cons.prems False by (intro Cons.IH) (simp_all add: d2_def ch)
    ultimately show ?thesis using step by (auto simp: d2_def)
  qed
qed


text \<open>A header block sent in any number of frames is delivered as one list of headers.\<close>

lemma deliver_block:
  assumes acc: "accepts d i d1 s" and s': "onRecvHeaders s es = (EC_NoError, s')" "cbHeadersDecoded (callbacks d)"
    and dec: "hpack_decode (hpackDecoder d) blk = ((None, hs), dec)"
    and m: "0 < m" "m < 16777216" "m \<le> unat (cfgMaxFrameSize (localSettings d))" "uint i < 2147483648"
    and len: "length blk \<le> max m kMaxHeaderBlockAccumulationSize" and mk: "length blk \<le> m \<or> m \<le> kMaxHeaderBlockAccumulationSize"
  shows "\<exists>r d'. process_frames_loop d (concat (map enc_frame (block_frames m i blk es))) 0 = (r, d') \<and> goes_on r
     \<and> bytesConsumed r = length (concat (map enc_frame (block_frames m i blk es)))
     \<and> events d' = events d @ EvHeaders i hs es # closed_event d i (stState s) es \<and> hpackDecoder d' = dec"
proof -
  have a: "conn_inv d1" "getStream d1 i = Some s" "events d1 = events d" "callbacks d1 = callbacks d"
    "localSettings d1 = localSettings d" "hpackDecoder d1 = hpackDecoder d" using acc by (simp_all add: accepts_def)
  note e = entry_of [OF a(1, 2)]
  have one: "process_frames_loop d (enc_frame (head_raw i es eh b) @ rest) 0 = process_frames_loop d2 rest (length (enc_frame (head_raw i es eh b)))"
    if "processFrame d (fst (head_raw i es eh b)) b = continue_with d2" "length b \<le> m" for eh b d2 rest
  proof -
    have ok: "frame_ok (fst (head_raw i es eh b), b)" using that(2) m by (intro head_ok) simp_all
    have raw: "head_raw i es eh b = (fst (head_raw i es eh b), b)" by (simp add: head_raw_def)
    have "process_frames_loop d (enc_frame (fst (head_raw i es eh b), b) @ rest) 0
        = process_frames_loop d2 rest (0 + length (enc_frame (fst (head_raw i es eh b), b)))"
      using that m by (intro loop_frame [OF ok frame_fits [OF ok]]) (auto simp: continue_with_def goes_on_def result_def)
    then show ?thesis by (simp add: raw [symmetric])
  qed
  show ?thesis
  proof (cases "length blk \<le> m")
    case True
    from one [OF whole_block [OF acc s'(1) dec] True, of "[]"] show ?thesis
      using True finish_events [OF a(2) e s'(1), of dec hs] s'(2) a(3, 4)
      by (auto simp: block_frames_def loop_end goes_on_def result_def closed_event_def)
  next
    case False
    define d2 where "d2 = d1\<lparr>expectingContinuation := True, headerBlockStreamId := i, headerBlockEndStream := es, headerBlockBuffer := take m blk\<rparr>"
    let ?chs = "data_chunks m (drop m blk) True"
    note p = data_chunks_props [OF m(1), of "drop m blk" True]
    have "length (take m blk) \<le> kMaxHeaderBlockAccumulationSize" using False mk by simp
    from one [OF first_fragment [OF acc this]] have first: "process_frames_loop d (enc_frame (head_raw i es False (take m blk)) @ rest) 0
        = process_frames_loop d2 rest (length (enc_frame (head_raw i es False (take m blk))))" for rest by (simp add: d2_def)
    have chs: "?chs \<noteq> []" "snd (last ?chs)" "\<forall>ch\<in>set (butlast ?chs). \<not> snd ch" "concat (map fst ?chs) = drop m blk"
      "\<forall>ch\<in>set ?chs. length (fst ch) < 16777216 \<and> length (fst ch) \<le> unat (cfgMaxFrameSize (localSettings d2))"
      using p False m a(5) by (auto simp: d2_def)
    have "\<exists>r d'. process_frames_loop d2 (concat (map (\<lambda>ch. enc_frame (cont_raw i ch)) ?chs)) (length (enc_frame (head_raw i es False (take m blk)))) = (r, d') \<and> goes_on r
      \<and> bytesConsumed r = length (enc_frame (head_raw i es False (take m blk))) + length (concat (map (\<lambda>ch. enc_frame (cont_raw i ch)) ?chs))
      \<and> events d' = events d2 @ EvHeaders i hs es # closed_event d2 i (stState s) es \<and> hpackDecoder d' = dec"
      using s' a dec len False mk by (intro continuations [OF chs(1, 3, 2) m(4) chs(5) _ _ _ _ _ e]) (simp_all add: d2_def chs(4) getStream_def)
    then show ?thesis using first False a(3, 4) by (auto simp: block_frames_def comp_def d2_def closed_event_def)
  qed
qed

lemma length_block_frames: "0 < m \<Longrightarrow> length blk \<le> length (concat (map enc_frame (block_frames m i blk es)))"
proof (cases "length blk \<le> m")
  case False
  assume m: "0 < m"
  have "length (concat (map (\<lambda>ch. enc_frame (cont_raw i ch)) chs)) \<ge> length (concat (map fst chs))" for chs
    by (induction chs) (auto simp: enc_frame_def)
  from this [of "data_chunks m (drop m blk) True"] show ?thesis
    using False data_chunks_props [OF m, of "drop m blk" True] by (simp add: block_frames_def comp_def enc_frame_def)
qed (simp add: block_frames_def enc_frame_def head_raw_def)

text \<open>The two ends of one header block.\<close>

lemma deliver_fields:
  assumes c: "conn_inv c" and sent: "encode_fields (hpackEncoder c) (outputBuffer c @ replicate kFrameHeaderSize 0) flds = (e', full)"
    "outputBuffer c' = write_header_block (take (length (outputBuffer c)) full) i (drop (length (outputBuffer c) + kFrameHeaderSize) full) es
       (psMaxFrameSize (peerSettings c))" "hpackEncoder c' = e'"
    and acc: "accepts d i d1 s" "connState d = CS_Open" "onRecvHeaders s es = (EC_NoError, s')" "cbHeadersDecoded (callbacks d)"
    and table: "dec_table (hpackDecoder d) = enc_table (hpackEncoder c)"
    and fields: "\<forall>h\<in>set flds. header_ok h" "store_all (dec_merge (hpackDecoder d)) [] flds = Inr merged"
    and size: "psMaxFrameSize (peerSettings c) \<le> cfgMaxFrameSize (localSettings d)" "uint i < 2147483648"
      "length (outputBuffer c') \<le> length (outputBuffer c) + kMaxHeaderBlockAccumulationSize"
  shows "\<exists>bs r d'. outputBuffer c' = outputBuffer c @ bs \<and> processInput d bs = (r, d')
    \<and> (action r = A_Continue \<or> action r = A_OutputReady) \<and> bytesConsumed r = length bs
    \<and> events d' = events d @ EvHeaders i merged es # closed_event d i (stState s) es
    \<and> dec_table (hpackDecoder d') = enc_table (hpackEncoder c')"
proof -
  define m where "m = unat (psMaxFrameSize (peerSettings c))"
  have m: "0 < m" "m < 16777216" using c by (auto simp: conn_inv_def peer_ok_def m_def)
  have mle: "m \<le> unat (cfgMaxFrameSize (localSettings d))" using size(1) by (simp add: m_def word_le_nat_alt)
  have "encoder_ok (hpackEncoder c)" using c by (simp add: conn_inv_def)
  from fields_decode [OF this fields table, of "outputBuffer c @ replicate kFrameHeaderSize 0"] sent(1)
  obtain blk where full: "full = (outputBuffer c @ replicate kFrameHeaderSize 0) @ blk"
    and dec: "hpack_decode (hpackDecoder d) blk = ((None, merged), (hpackDecoder d)\<lparr>dec_table := enc_table e'\<rparr>)" by auto
  let ?bs = "concat (map enc_frame (block_frames m i blk es))"
  have out: "outputBuffer c' = outputBuffer c @ ?bs"
    using sent(2) write_header_block_eq [OF size(2)] m(2) by (simp add: full m_def)
  have len: "length blk \<le> kMaxHeaderBlockAccumulationSize"
    using size(3) length_block_frames [OF m(1), of blk i es] unfolding out by simp
  then have "length blk \<le> max m kMaxHeaderBlockAccumulationSize" "length blk \<le> m \<or> m \<le> kMaxHeaderBlockAccumulationSize" by auto
  from deliver_block [OF acc(1, 3, 4) dec m mle size(2) this] obtain r d' where loop: "process_frames_loop d ?bs 0 = (r, d')" "goes_on r"
    "bytesConsumed r = length ?bs" "events d' = events d @ EvHeaders i merged es # closed_event d i (stState s) es"
    "hpackDecoder d' = (hpackDecoder d)\<lparr>dec_table := enc_table e'\<rparr>" by auto
  have "WriteFrameHeader h \<noteq> []" for h by (simp add: WriteFrameHeader_def Write24BE_def)
  then have "?bs \<noteq> []" by (auto simp: block_frames_def enc_frame_def head_raw_def)
  then have "processInput d ?bs = (r, d')" using loop(1) unfolding processInput_def processFrames_def
    by (simp only: acc(2) if_False ConnectionState.case)
  then show ?thesis using out loop sent(3) by (intro exI [of _ ?bs] exI [of _ r] exI [of _ d']) (auto simp: goes_on_def)
qed

lemma prepareSendHeaders_simps:
  assumes "prepareSendHeaders c i es = (err, c1)"
  shows "hpackEncoder c1 = hpackEncoder c" "outputBuffer c1 = outputBuffer c" "peerSettings c1 = peerSettings c"
  using assms by (auto simp: prepareSendHeaders_def set_stream_def split_beta split: option.splits if_splits)

lemma encode_fields_append: "encode_fields e out (xs @ ys) = (let (e1, out1) = encode_fields e out xs in encode_fields e1 out1 ys)"
  by (induction xs arbitrary: e out) (simp_all add: split_beta Let_def)

lemma sendHeaders_sent:
  assumes "sendHeaders c i st hs es gs = (EC_NoError, c')"
  shows "\<exists>e' full. encode_fields (hpackEncoder c) (outputBuffer c @ replicate kFrameHeaderSize 0) (block_fields st hs gs) = (e', full)
    \<and> outputBuffer c' = write_header_block (take (length (outputBuffer c)) full) i (drop (length (outputBuffer c) + kFrameHeaderSize) full) es
       (psMaxFrameSize (peerSettings c)) \<and> hpackEncoder c' = e'"
proof -
  obtain err c1 where p: "prepareSendHeaders c i es = (err, c1)" by fastforce
  show ?thesis using assms prepareSendHeaders_simps [OF p]
    by (intro exI [of _ "fst (encode_fields (hpackEncoder c) (outputBuffer c @ replicate kFrameHeaderSize 0) (block_fields st hs gs))"]
      exI [of _ "snd (encode_fields (hpackEncoder c) (outputBuffer c @ replicate kFrameHeaderSize 0) (block_fields st hs gs))"])
      (auto simp: sendHeaders_def p encodeHeaders_def Let_def split_beta split: if_splits)
qed


text \<open>A server that has read a request on stream 1 answers it with its status.\<close>

lemma example_conn_encoder: "hpackEncoder example_conn = newHpackEncoder 4096"
  using example_conn_view unfolding server_view_def prod.inject by (elim conjE)

definition client_view :: "Http2Connection \<Rightarrow> HpackDecoder \<times> bool" where
  "client_view c = (hpackDecoder c, cbHeadersDecoded (callbacks c))"

lemma example_client_view: "client_view example_client = (newHpackDecoder 4096 True, True)"
  unfolding example_client_def by code_simp

lemma example_client_tables: "hpackDecoder example_client = newHpackDecoder 4096 True \<and> cbHeadersDecoded (callbacks example_client)"
  using example_client_view by (simp add: client_view_def)

lemma status_200: "encode_fields (newHpackEncoder 4096) out (block_fields 200 [] []) = (newHpackEncoder 4096, out @ [0x88])"
  by code_simp simp

lemma status_200_fields: "block_fields 200 [] [] = [(bytes_of '':status'', bytes_of ''200'')]"
  by code_simp


lemma sendRequestHeaders_sent:
  assumes "sendRequestHeaders c i mth tls target authority hs es gs = (EC_NoError, c')" "target \<noteq> []"
    and flds: "flds = [(bytes_of '':method'', mth), (bytes_of '':scheme'', bytes_of (if tls then ''https'' else ''http'')),
        (bytes_of '':authority'', authority), (bytes_of '':path'', target)] @ block_fields MagicForHttpRequest hs gs"
    and enc: "encode_fields (hpackEncoder c) (outputBuffer c @ replicate kFrameHeaderSize 0) flds = (e', full)"
  shows "outputBuffer c' = write_header_block (take (length (outputBuffer c)) full) i (drop (length (outputBuffer c) + kFrameHeaderSize) full) es
       (psMaxFrameSize (peerSettings c))" "hpackEncoder c' = e'"
proof -
  obtain err c1 where p: "prepareSendHeaders c i es = (err, c1)" by fastforce
  define gap where "gap = outputBuffer c @ replicate kFrameHeaderSize 0"
  have "outputBuffer c' = write_header_block (take (length (outputBuffer c)) full) i (drop (length (outputBuffer c) + kFrameHeaderSize) full) es
       (psMaxFrameSize (peerSettings c)) \<and> hpackEncoder c' = e'"
    using assms(1, 2) enc prepareSendHeaders_simps [OF p] unfolding flds encode_fields_append
    by (auto simp: sendRequestHeaders_def p encodeHeaders_def Let_def split_beta gap_def [symmetric] split: if_splits) (simp_all add: gap_def)
  then show "outputBuffer c' = write_header_block (take (length (outputBuffer c)) full) i (drop (length (outputBuffer c) + kFrameHeaderSize) full) es
       (psMaxFrameSize (peerSettings c))" "hpackEncoder c' = e'" by simp_all
qed


text \<open>A client whose settings were acknowledged opens its first stream at a server in the same state.\<close>

definition open_server :: Http2Connection where
  "open_server =
     snd (processInput (snd (processInput (newHttp2Connection default_config True \<lparr>cbHeadersDecoded = True, cbData = True,
        cbStreamReset = True, cbStreamClosed = True, cbGoAway = True, cbWindowUpdate = True\<rparr>) kConnectionPreface)) [0, 0, 0, 4, 0, 0, 0, 0, 0])"

definition open_client :: Http2Connection where
  "open_client =
     snd (processInput (sendClientPreface (newHttp2Connection default_config False \<lparr>cbHeadersDecoded = True, cbData = True,
        cbStreamReset = True, cbStreamClosed = True, cbGoAway = True, cbWindowUpdate = True\<rparr>)) [0, 0, 0, 4, 0, 0, 0, 0, 0])"

definition conn_view :: "Http2Connection \<Rightarrow> _" where
  "conn_view c = (connState c, isServer c, expectingContinuation c, cbHeadersDecoded (callbacks c), streams c, lastPeerStreamId c,
     activeStreamCount c, localSettings c, peerSettings c, hpackEncoder c, hpackDecoder c, events c)"

lemma open_views:
  "conn_view open_server = (CS_Open, True, False, True, [], 0, 0, default_config, defaultPeerSettings,
     newHpackEncoder 4096, newHpackDecoder 4096 True, [])"
  "conn_view open_client = (CS_Open, False, False, True, [], 0, 0, default_config, defaultPeerSettings,
     newHpackEncoder 4096, newHpackDecoder 4096 True, [])"
  unfolding open_server_def open_client_def by code_simp+

lemma open_reachable: "reachable conn_start conn_step open_server" "reachable conn_start conn_step open_client"
proof -
  have "conn_start (newHttp2Connection default_config b cbs)" for b cbs
    unfolding conn_start_def by (intro exI [of _ default_config] exI conjI) (simp_all add: validate_def default_config_def)
  then show "reachable conn_start conn_step open_server" "reachable conn_start conn_step open_client"
    unfolding open_server_def open_client_def
    by (intro reachable_call [OF _ local_call.process_input] reachable_call [OF _ local_call.client_preface] reachable.start; simp)+
qed

definition get_fields :: "header list" where
  "get_fields = [(bytes_of '':method'', bytes_of ''GET''), (bytes_of '':scheme'', bytes_of ''https''), (bytes_of '':authority'', bytes_of ''h''),
     (bytes_of '':path'', bytes_of ''/''), (bytes_of ''accept'', bytes_of ''*'')]"

lemma get_encoded: "snd (encode_fields (newHpackEncoder 4096) out get_fields) = out @ [0x82, 0x87, 0x41, 1, 104, 0x84, 0x53, 1, 42]"
  unfolding get_fields_def by code_simp simp


end
