(* ===== verification/Ws_Frame.thy ===== *)
theory Ws_Frame
  imports Ascii
begin

text \<open>
  The WebSocket framing of RFC 6455: \<^verbatim>\<open>websocket-constants.hpp\<close>, \<^verbatim>\<open>websocket-frame.hpp\<close> and
  \<^verbatim>\<open>websocket-frame.cpp\<close>. The parser returns the same result record as the code, with the header as far as it
  was read when it stops early. The vector paths of \<open>ApplyMask\<close> are written block by block on memory. The theorems show
  that all of them compute the bytewise mask, that a frame that was built is parsed back, and that the parser accepts nothing
  but what the builder writes.
\<close>

section \<open>Constants and types\<close>

datatype Opcode = OpContinuation | OpText | OpBinary | OpClose | OpPing | OpPong

fun Opcode_to :: "Opcode \<Rightarrow> u8" where
  "Opcode_to OpContinuation = 0x0"
| "Opcode_to OpText = 0x1"
| "Opcode_to OpBinary = 0x2"
| "Opcode_to OpClose = 0x8"
| "Opcode_to OpPing = 0x9"
| "Opcode_to OpPong = 0xA"

text \<open>\<^verbatim>\<open>static_cast<Opcode>\<close>, applied to values that are not reserved.\<close>

definition Opcode_of :: "u8 \<Rightarrow> Opcode" where
  "Opcode_of b =
     (if b = 0x1 then OpText else if b = 0x2 then OpBinary else if b = 0x8 then OpClose
      else if b = 0x9 then OpPing else if b = 0xA then OpPong else OpContinuation)"

definition IsControlFrame :: "Opcode \<Rightarrow> bool" where
  "IsControlFrame op \<longleftrightarrow> Opcode_to op \<ge> 0x8"

definition IsReservedOpcode :: "u8 \<Rightarrow> bool" where
  "IsReservedOpcode rawOpcode \<longleftrightarrow> (rawOpcode \<ge> 0x3 \<and> rawOpcode \<le> 0x7) \<or> (rawOpcode \<ge> 0xB \<and> rawOpcode \<le> 0xF)"

text \<open>A \<^verbatim>\<open>CloseCode\<close> is any 16-bit value, as the code casts what it receives.\<close>

type_synonym CloseCode = u16

definition CC_Normal :: CloseCode where "CC_Normal = 1000"
definition CC_GoingAway :: CloseCode where "CC_GoingAway = 1001"
definition CC_ProtocolError :: CloseCode where "CC_ProtocolError = 1002"
definition CC_NoStatusReceived :: CloseCode where "CC_NoStatusReceived = 1005"
definition CC_InvalidPayloadData :: CloseCode where "CC_InvalidPayloadData = 1007"
definition CC_MessageTooBig :: CloseCode where "CC_MessageTooBig = 1009"

abbreviation kFinBit :: u8 where "kFinBit \<equiv> 0x80"
abbreviation kRsv1Bit :: u8 where "kRsv1Bit \<equiv> 0x40"
abbreviation kRsv2Bit :: u8 where "kRsv2Bit \<equiv> 0x20"
abbreviation kRsv3Bit :: u8 where "kRsv3Bit \<equiv> 0x10"
abbreviation kOpcodeMask :: u8 where "kOpcodeMask \<equiv> 0x0F"
abbreviation kMaskBit :: u8 where "kMaskBit \<equiv> 0x80"
abbreviation kPayloadLenMask :: u8 where "kPayloadLenMask \<equiv> 0x7F"
abbreviation kPayloadLen16 :: u8 where "kPayloadLen16 \<equiv> 126"
abbreviation kPayloadLen64 :: u8 where "kPayloadLen64 \<equiv> 127"
abbreviation kMaxControlFramePayload :: nat where "kMaxControlFramePayload \<equiv> 125"
abbreviation kMaskingKeySize :: nat where "kMaskingKeySize \<equiv> 4"
abbreviation kMinFrameHeaderSize :: nat where "kMinFrameHeaderSize \<equiv> 2"

type_synonym MaskingKey = u32

record WsFrameHeader =
  opcode :: Opcode
  fin :: bool
  masked :: bool
  rsv1 :: bool
  rsv2 :: bool
  rsv3 :: bool
  payloadLength :: u64
  maskingKey :: MaskingKey

definition newWsFrameHeader :: WsFrameHeader where
  "newWsFrameHeader = \<lparr>opcode = OpText, fin = True, masked = False, rsv1 = False, rsv2 = False, rsv3 = False,
     payloadLength = 0, maskingKey = 0\<rparr>"

definition headerSize :: "WsFrameHeader \<Rightarrow> nat" where
  "headerSize h =
     kMinFrameHeaderSize
     + (if payloadLength h > 0xFFFF then 8 else if payloadLength h \<ge> ucast kPayloadLen16 then 2 else 0)
     + (if masked h then kMaskingKeySize else 0)"

datatype ParseStatus = FS_Complete | FS_Incomplete | FS_ProtocolError | FS_PayloadTooLarge

record FrameParseResult =
  status :: ParseStatus
  pheader :: WsFrameHeader
  payload :: bytes
  consumed :: nat
  errorText :: string

definition frame_result :: "ParseStatus \<Rightarrow> WsFrameHeader \<Rightarrow> bytes \<Rightarrow> nat \<Rightarrow> string \<Rightarrow> FrameParseResult" where
  "frame_result st h p n msg = \<lparr>status = st, pheader = h, payload = p, consumed = n, errorText = msg\<rparr>"

section \<open>Parsing a frame\<close>

text \<open>The key lies in memory as its four bytes, the lowest first (\<^verbatim>\<open>std::memcpy\<close> on a little-endian machine).\<close>

definition load_key :: "bytes \<Rightarrow> MaskingKey" where
  "load_key d = ucast (d ! 0) OR push_bit 8 (ucast (d ! 1)) OR push_bit 16 (ucast (d ! 2)) OR push_bit 24 (ucast (d ! 3))"

definition store_key :: "MaskingKey \<Rightarrow> bytes" where
  "store_key k = [ucast k, ucast (drop_bit 8 k), ucast (drop_bit 16 k), ucast (drop_bit 24 k)]"

definition read_be64 :: "bytes \<Rightarrow> u64" where
  "read_be64 d = foldl (\<lambda>acc b. push_bit 8 acc OR ucast b) 0 (take 8 d)"

text \<open>The extended length: the number of bytes it takes, and its value; or the result the parser stops with.\<close>

definition parse_length :: "bytes \<Rightarrow> WsFrameHeader \<Rightarrow> u8 \<Rightarrow> FrameParseResult + nat \<times> WsFrameHeader" where
  "parse_length data h payloadLen7 =
     (if payloadLen7 = kPayloadLen16 then
        (if length data < kMinFrameHeaderSize + 2 then Inl (frame_result FS_Incomplete h [] 0 '''')
         else
           (let h1 = h\<lparr>payloadLength := push_bit 8 (ucast (data ! 2)) OR ucast (data ! 3)\<rparr> in
            if payloadLength h1 < ucast kPayloadLen16
            then Inl (frame_result FS_ProtocolError h1 [] 0 ''Non-minimal extended length encoding'')
            else Inr (2, h1)))
      else if payloadLen7 = kPayloadLen64 then
        (if length data < kMinFrameHeaderSize + 8 then Inl (frame_result FS_Incomplete h [] 0 '''')
         else
           (let h1 = h\<lparr>payloadLength := read_be64 (drop 2 data)\<rparr> in
            if drop_bit 63 (payloadLength h1) \<noteq> 0
            then Inl (frame_result FS_ProtocolError h1 [] 0 ''Invalid payload length (MSB set)'')
            else if payloadLength h1 \<le> 0xFFFF
            then Inl (frame_result FS_ProtocolError h1 [] 0 ''Non-minimal extended length encoding'')
            else Inr (8, h1)))
      else Inr (0, h\<lparr>payloadLength := ucast payloadLen7\<rparr>))"

text \<open>The masking key and the payload. A frame size is below \<open>2 ^ 63 + 14\<close>, so the sum
  \<^verbatim>\<open>headerSize + payloadLength\<close> does not wrap.\<close>

definition parse_body :: "bytes \<Rightarrow> nat \<Rightarrow> WsFrameHeader \<Rightarrow> FrameParseResult" where
  "parse_body data offset h =
     (if masked h \<and> length data < offset + kMaskingKeySize then frame_result FS_Incomplete h [] 0 ''''
      else
        (let h' = (if masked h then h\<lparr>maskingKey := load_key (drop offset data)\<rparr> else h);
             start = (if masked h then offset + kMaskingKeySize else offset);
             totalFrameSize = start + unat (payloadLength h')
         in if length data < totalFrameSize then frame_result FS_Incomplete h' [] 0 ''''
            else frame_result FS_Complete h' (subspan data start (unat (payloadLength h'))) totalFrameSize ''''))"

definition parse_rest :: "bytes \<Rightarrow> nat \<Rightarrow> WsFrameHeader \<Rightarrow> u8 \<Rightarrow> FrameParseResult" where
  "parse_rest data maxPayloadSize h0 payloadLen7 =
     (case parse_length data h0 payloadLen7 of
        Inl r \<Rightarrow> r
      | Inr (ext, h) \<Rightarrow>
          if IsControlFrame (opcode h) \<and> unat (payloadLength h) > kMaxControlFramePayload
          then frame_result FS_ProtocolError h [] 0 ''Control frame payload too large''
          else if maxPayloadSize > 0 \<and> unat (payloadLength h) > maxPayloadSize
          then frame_result FS_PayloadTooLarge h [] 0 ''Payload exceeds maximum size''
          else parse_body data (kMinFrameHeaderSize + ext) h)"

text \<open>The checks on the first two bytes: the result the parser stops with, or the header so far.\<close>

definition check_first_bytes :: "u8 \<Rightarrow> u8 \<Rightarrow> bool \<Rightarrow> bool \<Rightarrow> FrameParseResult + WsFrameHeader" where
  "check_first_bytes byte0 byte1 isServerSide allowRsv1 =
     (let h0 = newWsFrameHeader\<lparr>fin := byte0 AND kFinBit \<noteq> 0, rsv1 := byte0 AND kRsv1Bit \<noteq> 0,
                 rsv2 := byte0 AND kRsv2Bit \<noteq> 0, rsv3 := byte0 AND kRsv3Bit \<noteq> 0\<rparr>;
          rawOpcode = byte0 AND kOpcodeMask
      in if rsv2 h0 \<or> rsv3 h0
         then Inl (frame_result FS_ProtocolError h0 [] 0 ''Reserved bits RSV2/RSV3 must be 0'')
         else if rsv1 h0 \<and> \<not> allowRsv1
         then Inl (frame_result FS_ProtocolError h0 [] 0 ''RSV1 bit set without permessage-deflate extension'')
         else if rsv1 h0 \<and> rawOpcode \<ge> 0x08
         then Inl (frame_result FS_ProtocolError h0 [] 0 ''RSV1 bit must not be set on control frames'')
         else if IsReservedOpcode rawOpcode
         then Inl (frame_result FS_ProtocolError h0 [] 0 ''Reserved opcode'')
         else
           (let h1 = h0\<lparr>opcode := Opcode_of rawOpcode\<rparr> in
            if IsControlFrame (opcode h1) \<and> \<not> fin h1
            then Inl (frame_result FS_ProtocolError h1 [] 0 ''Control frames must not be fragmented'')
            else
              (let h2 = h1\<lparr>masked := byte1 AND kMaskBit \<noteq> 0\<rparr>
               in if isServerSide \<and> \<not> masked h2
                  then Inl (frame_result FS_ProtocolError h2 [] 0 ''Client frames must be masked'')
                  else if \<not> isServerSide \<and> masked h2
                  then Inl (frame_result FS_ProtocolError h2 [] 0 ''Server frames must not be masked'')
                  else Inr h2)))"

definition ParseFrame :: "bytes \<Rightarrow> nat \<Rightarrow> bool \<Rightarrow> bool \<Rightarrow> FrameParseResult" where
  "ParseFrame data maxPayloadSize isServerSide allowRsv1 =
     (if length data < kMinFrameHeaderSize then frame_result FS_Incomplete newWsFrameHeader [] 0 ''''
      else case check_first_bytes (data ! 0) (data ! 1) isServerSide allowRsv1 of
             Inl r \<Rightarrow> r
           | Inr h \<Rightarrow> parse_rest data maxPayloadSize h (data ! 1 AND kPayloadLenMask))"

section \<open>Masking\<close>

text \<open>
  One vector step on memory: the block is XORed with the key broadcast to 32-bit lanes. The loop over whole blocks is the one of
  the lowercase routines, \<open>lower_blocks\<close>.
\<close>

definition xor_lanes :: "MaskingKey \<Rightarrow> bytes \<Rightarrow> bytes" where
  "xor_lanes key chunk = map2 (XOR) chunk (concat (replicate (length chunk div 4) (store_key key)))"

definition ApplyMaskAvx2 :: "MaskingKey \<Rightarrow> bytes \<Rightarrow> bytes \<times> bytes" where
  "ApplyMaskAvx2 key bs = lower_blocks 16 (xor_lanes key) (lower_blocks 32 (xor_lanes key) ([], bs))"

definition ApplyMaskSse2 :: "MaskingKey \<Rightarrow> bytes \<Rightarrow> bytes \<times> bytes" where
  "ApplyMaskSse2 key bs = lower_blocks 16 (xor_lanes key) ([], bs)"

text \<open>The 64-bit path of machines without vectors (little-endian).\<close>

definition xor_word :: "MaskingKey \<Rightarrow> bytes \<Rightarrow> bytes" where
  "xor_word key chunk = store_le (load_le chunk XOR (ucast key OR push_bit 32 (ucast key)))"

definition ApplyMaskScalar :: "MaskingKey \<Rightarrow> bytes \<Rightarrow> bytes \<times> bytes" where
  "ApplyMaskScalar key bs = lower_blocks 8 (xor_word key) ([], bs)"

definition key_byte :: "MaskingKey \<Rightarrow> nat \<Rightarrow> u8" where
  "key_byte key idx = ucast (drop_bit ((idx mod 4) * 8) key AND 0xFF)"

fun mask_tail :: "MaskingKey \<Rightarrow> nat \<Rightarrow> bytes \<Rightarrow> bytes" where
  "mask_tail key idx [] = []"
| "mask_tail key idx (b # bs) = (b XOR key_byte key idx) # mask_tail key (Suc idx) bs"

text \<open>The machine \<^verbatim>\<open>ApplyMask\<close> runs on; the NEON path does the steps of the SSE2 one.\<close>

datatype Simd = Avx2 | Sse2 | Neon | NoSimd

definition ApplyMask :: "Simd \<Rightarrow> bytes \<Rightarrow> MaskingKey \<Rightarrow> bytes" where
  "ApplyMask simd data key =
     (let (front, rest) = (case simd of Avx2 \<Rightarrow> ApplyMaskAvx2 key data | Sse2 \<Rightarrow> ApplyMaskSse2 key data
                             | Neon \<Rightarrow> ApplyMaskSse2 key data | NoSimd \<Rightarrow> ApplyMaskScalar key data)
      in front @ mask_tail key (length front) rest)"

section \<open>Building a frame\<close>

definition write_be64 :: "nat \<Rightarrow> bytes" where
  "write_be64 n = map (\<lambda>idx. ucast (drop_bit (idx * 8) (of_nat n :: u64) AND 0xFF)) (rev [0..<8])"

definition BuildFrameHeader :: "bytes \<Rightarrow> Opcode \<Rightarrow> nat \<Rightarrow> bool \<Rightarrow> bool \<Rightarrow> MaskingKey \<Rightarrow> bool \<Rightarrow> bytes" where
  "BuildFrameHeader output opc payloadSize isFin shouldMask key isRsv1 =
     (let byte0 = Opcode_to opc OR (if isFin then kFinBit else 0) OR (if isRsv1 then kRsv1Bit else 0);
          byte1 = (if shouldMask then kMaskBit else 0)
      in output @ [byte0]
         @ (if payloadSize < 126 then [byte1 OR of_nat payloadSize]
            else if payloadSize \<le> 0xFFFF then [byte1 OR kPayloadLen16] @ Write16BE (of_nat payloadSize)
            else [byte1 OR kPayloadLen64] @ write_be64 payloadSize)
         @ (if shouldMask then store_key key else []))"

definition AppendFramePayload :: "Simd \<Rightarrow> bytes \<Rightarrow> bytes \<Rightarrow> bool \<Rightarrow> MaskingKey \<Rightarrow> bytes" where
  "AppendFramePayload simd output pl shouldMask key =
     (if pl = [] then output else output @ (if shouldMask then ApplyMask simd pl key else pl))"

definition BuildFrame :: "Simd \<Rightarrow> bytes \<Rightarrow> Opcode \<Rightarrow> bytes \<Rightarrow> bool \<Rightarrow> bool \<Rightarrow> MaskingKey \<Rightarrow> bool \<Rightarrow> bytes" where
  "BuildFrame simd output opc pl isFin shouldMask key isRsv1 =
     AppendFramePayload simd (BuildFrameHeader output opc (length pl) isFin shouldMask key isRsv1) pl shouldMask key"

definition BuildCloseFrame :: "Simd \<Rightarrow> bytes \<Rightarrow> CloseCode \<Rightarrow> bytes \<Rightarrow> bool \<Rightarrow> MaskingKey \<Rightarrow> bytes" where
  "BuildCloseFrame simd output code reason shouldMask key =
     (let reasonLen = (if code \<noteq> CC_NoStatusReceived \<and> reason \<noteq> [] then min (length reason) (kMaxControlFramePayload - 2) else 0);
          payloadSize = (if code \<noteq> CC_NoStatusReceived then 2 + reasonLen else 0);
          out1 = BuildFrameHeader output OpClose payloadSize True shouldMask key False
      in if payloadSize = 0 then out1
         else (let pl = Write16BE code @ take reasonLen reason
               in out1 @ (if shouldMask then ApplyMask simd pl key else pl)))"

record ClosePayload =
  closeCode :: CloseCode
  closeReason :: bytes

definition ParseClosePayload :: "bytes \<Rightarrow> ClosePayload" where
  "ParseClosePayload pl =
     (if length pl \<ge> 2 then \<lparr>closeCode = push_bit 8 (ucast (pl ! 0)) OR ucast (pl ! 1), closeReason = drop 2 pl\<rparr>
      else if pl = [] then \<lparr>closeCode = CC_NoStatusReceived, closeReason = []\<rparr>
      else \<lparr>closeCode = CC_ProtocolError, closeReason = []\<rparr>)"

section \<open>The vector paths compute the bytewise mask\<close>

lemma mask_tail_mod: "idx mod 4 = idx' mod 4 \<Longrightarrow> mask_tail key idx bs = mask_tail key idx' bs"
proof (induction bs arbitrary: idx idx')
  case (Cons b bs)
  have "Suc (idx mod 4) mod 4 = Suc (idx' mod 4) mod 4" using Cons.prems by simp
  then have "mask_tail key (Suc idx) bs = mask_tail key (Suc idx') bs" unfolding mod_Suc_eq by (rule Cons.IH)
  then show ?case by (simp add: key_byte_def Cons.prems)
qed simp

lemma length_mask_tail [simp]: "length (mask_tail key idx bs) = length bs"
  by (induction bs arbitrary: idx) simp_all

lemma mask_tail_append: "mask_tail key idx (xs @ ys) = mask_tail key idx xs @ mask_tail key (idx + length xs) ys"
  by (induction xs arbitrary: idx) simp_all

lemma nth_mask_tail: "i < length bs \<Longrightarrow> mask_tail key idx bs ! i = bs ! i XOR key_byte key (idx + i)"
  by (induction bs arbitrary: i idx) (simp_all add: nth_Cons split: nat.split)

lemma mask_tail_twice: "mask_tail key idx (mask_tail key idx bs) = bs"
  by (induction bs arbitrary: idx) (simp_all add: xor.assoc)

lemma mask_blocks:
  assumes f: "\<And>bs. length bs = k \<Longrightarrow> f bs = mask_tail key 0 bs" and k: "4 dvd k" and out: "4 dvd length out"
    and r: "lower_blocks k f (out, rest) = (out', rest')"
  shows "out' @ mask_tail key (length out') rest' = out @ mask_tail key (length out) rest \<and> 4 dvd length out'"
  using out r
proof (induction "length rest" arbitrary: out rest rule: less_induct)
  case less
  show ?case
  proof (cases "0 < k \<and> k \<le> length rest")
    case True
    let ?out = "out @ f (take k rest)"
    have fk: "f (take k rest) = mask_tail key 0 (take k rest)" using f True by simp
    have zero: "length out mod 4 = 0" using less.prems(1) by auto
    have "out' @ mask_tail key (length out') rest' = ?out @ mask_tail key (length ?out) (drop k rest) \<and> 4 dvd length out'"
      using less.hyps [of "drop k rest" ?out] less.prems True k by (auto simp: lower_blocks.simps [of k f out] fk)
    moreover have "mask_tail key (length out) rest = mask_tail key 0 (take k rest) @ mask_tail key (length out + k) (drop k rest)"
      using mask_tail_append [of key "length out" "take k rest" "drop k rest"] True mask_tail_mod [of "length out" 0 key "take k rest"] zero
      by simp
    ultimately show ?thesis using fk True by simp
  next
    case False
    then show ?thesis using less.prems by (auto simp: lower_blocks.simps [of k f out])
  qed
qed

lemma store_key_nth: "i < 4 \<Longrightarrow> store_key key ! i = key_byte key i"
proof -
  assume "i < 4"
  then consider "i = 0" | "i = 1" | "i = 2" | "i = 3" by linarith
  then show ?thesis by cases (simp_all add: store_key_def key_byte_def be_simps)
qed

lemma length_store_key [simp]: "length (store_key key) = 4"
  by (simp add: store_key_def)

lemma length_broadcast [simp]: "length (concat (replicate n (store_key key))) = n * 4"
  by (induction n) simp_all

lemma nth_broadcast: "i < n * 4 \<Longrightarrow> concat (replicate n (store_key key)) ! i = key_byte key i"
proof (induction n arbitrary: i)
  case (Suc n)
  show ?case
  proof (cases "i < 4")
    case False
    then obtain j where j: "i = j + 4" by (metis le_add_diff_inverse2 not_less)
    then show ?thesis using Suc by (simp add: nth_append) (simp add: key_byte_def)
  qed (simp add: nth_append store_key_nth)
qed simp

lemma xor_lanes_eq: "4 dvd length bs \<Longrightarrow> xor_lanes key bs = mask_tail key 0 bs"
  by (intro nth_equalityI) (auto simp: xor_lanes_def nth_mask_tail nth_broadcast)

lemma xor_word_eq:
  assumes "length bs = 8" shows "xor_word key bs = mask_tail key 0 bs"
proof (intro nth_equalityI)
  fix i assume i: "i < length (xor_word key bs)"
  then have i8: "i < 8" by (simp add: xor_word_def)
  let ?m = "ucast key OR push_bit 32 (ucast key) :: u64"
  have m: "(ucast (drop_bit (i * 8) ?m) :: u8) = key_byte key i"
  proof (rule bit_word_eqI)
    fix n assume n: "n < LENGTH(8)"
    have hi: "bit key b \<Longrightarrow> b < 32" for b using bit_imp_le_length [of key b] by simp
    show "bit (ucast (drop_bit (i * 8) ?m) :: u8) n \<longleftrightarrow> bit (key_byte key i) n"
    proof (cases "i < 4")
      case True
      then show ?thesis using n hi [of "i * 8 + n"] by (auto simp: key_byte_def be_simps bit_read_simps)
    next
      case False
      then have "i mod 4 = i - 4" "i * 8 = (i - 4) * 8 + 32" using i8 by (auto simp: mod_if)
      then show ?thesis using n i8 hi [of "i * 8 + n"] False by (auto simp: key_byte_def be_simps bit_read_simps)
    qed
  qed
  have "xor_word key bs ! i = ucast (drop_bit (i * 8) (load_le bs)) XOR ucast (drop_bit (i * 8) ?m)"
    using i8 by (simp add: xor_word_def store_le_nth drop_bit_xor unsigned_xor_eq)
  then show "xor_word key bs ! i = mask_tail key 0 bs ! i"
    using m byte_of_load_le [of bs i] assms i8 by (simp add: nth_mask_tail)
qed (simp add: xor_word_def assms)

lemma ApplyMask_eq: "ApplyMask simd bs key = mask_tail key 0 bs"
proof -
  have l: "xor_lanes key xs = mask_tail key 0 xs" if "length xs = 16 \<or> length xs = 32" for xs using that by (intro xor_lanes_eq) auto
  obtain o1 r1 where 1: "lower_blocks 16 (xor_lanes key) ([], bs) = (o1, r1)" by fastforce
  obtain o2 r2 where 2: "lower_blocks 32 (xor_lanes key) ([], bs) = (o2, r2)" by fastforce
  obtain o3 r3 where 3: "lower_blocks 16 (xor_lanes key) (o2, r2) = (o3, r3)" by fastforce
  obtain o4 r4 where 4: "lower_blocks 8 (xor_word key) ([], bs) = (o4, r4)" by fastforce
  have e2: "o2 @ mask_tail key (length o2) r2 = mask_tail key 0 bs \<and> 4 dvd length o2" using mask_blocks [OF l _ _ 2] by simp
  have "o1 @ mask_tail key (length o1) r1 = mask_tail key 0 bs" using mask_blocks [OF l _ _ 1] by simp
  moreover have "o3 @ mask_tail key (length o3) r3 = mask_tail key 0 bs" using mask_blocks [OF l _ _ 3] e2 by simp
  moreover have "o4 @ mask_tail key (length o4) r4 = mask_tail key 0 bs" using mask_blocks [OF xor_word_eq _ _ 4] by simp
  ultimately show ?thesis using 1 2 3 4
    by (cases simd) (simp_all add: ApplyMask_def ApplyMaskAvx2_def ApplyMaskSse2_def ApplyMaskScalar_def)
qed

text \<open>
  C29. Masking XORs every byte with the byte of the key that its position selects, on every machine the routine is built for (AVX2 with
  its 16-byte residue, SSE2, NEON, 64-bit scalar), and masking again with the same key, on any machine, gives the data back.
\<close>

theorem mask_correct:
  "ApplyMask simd bs key = map (\<lambda>i. bs ! i XOR store_key key ! (i mod 4)) [0..<length bs]
   \<and> ApplyMask simd' (ApplyMask simd bs key) key = bs"
proof -
  have "store_key key ! (i mod 4) = key_byte key i" for i by (simp add: store_key_nth) (simp add: key_byte_def)
  then have "mask_tail key 0 bs = map (\<lambda>i. bs ! i XOR store_key key ! (i mod 4)) [0..<length bs]"
    by (intro nth_equalityI) (simp_all add: nth_mask_tail)
  then show ?thesis unfolding ApplyMask_eq mask_tail_twice by simp
qed

section \<open>Reading what was written\<close>

lemma load_key_store [be_simps]: "load_key (store_key key @ rest) = key"
proof (rule bit_word_eqI)
  fix n assume n: "n < LENGTH(32)"
  then consider "n < 8" | "8 \<le> n" "n < 16" | "16 \<le> n" "n < 24" | "24 \<le> n" "n < 32" by fastforce
  then show "bit (load_key (store_key key @ rest)) n \<longleftrightarrow> bit key n"
    using n by cases (auto simp: load_key_def store_key_def bit_read_simps)
qed

lemma store_load_key:
  assumes "4 \<le> length d" shows "store_key (load_key d) = take 4 d"
proof -
  have b: "(ucast (drop_bit (i * 8) (load_key d)) :: u8) = d ! i" if i: "i < 4" for i
  proof (rule bit_word_eqI)
    fix n assume n: "n < LENGTH(8)"
    have hi: "bit x m \<Longrightarrow> m < 8" for x :: u8 and m using bit_imp_le_length [of x m] by simp
    consider "i = 0" | "i = 1" | "i = 2" | "i = 3" using i by linarith
    then show "bit (ucast (drop_bit (i * 8) (load_key d)) :: u8) n \<longleftrightarrow> bit (d ! i) n"
      using n by cases (auto simp: load_key_def bit_read_simps dest: hi)
  qed
  obtain a b' c e es where d: "d = a # b' # c # e # es" using assms by (auto simp: numeral_eq_Suc Suc_le_length_iff)
  show ?thesis using b [of 0] b [of 1] b [of 2] b [of 3] by (simp add: store_key_def d)
qed

lemma bit_be_fold:
  "length (bs :: bytes) \<le> 8 \<Longrightarrow> bit (foldl (\<lambda>acc b. push_bit 8 acc OR ucast b) (0 :: u64) bs) n
     \<longleftrightarrow> n div 8 < length bs \<and> bit (bs ! (length bs - 1 - n div 8)) (n mod 8)"
proof (induction bs arbitrary: n rule: rev_induct)
  case (snoc b bs)
  show ?case
  proof (cases "n < 8")
    case True
    then show ?thesis by (simp add: bit_or_iff bit_push_bit_iff bit_unsigned_iff nth_append)
  next
    case False
    then obtain m where m: "n = m + 8" by (metis le_add_diff_inverse2 not_less)
    have nb: "\<not> bit b n" using False bit_imp_le_length [of b n] by (auto simp: not_less)
    have small: "m div 8 < length bs \<Longrightarrow> n < 64" using snoc.prems m by (simp add: div_less_iff_less_mult)
    have idx: "n div 8 = Suc (m div 8)" "n mod 8 = m mod 8" using m by simp_all
    have IH: "bit (foldl (\<lambda>acc b. push_bit 8 acc OR ucast b) (0 :: u64) bs) m \<longleftrightarrow> m div 8 < length bs \<and> bit (bs ! (length bs - 1 - m div 8)) (m mod 8)"
      using snoc.IH snoc.prems by simp
    have "bit (foldl (\<lambda>acc b. push_bit 8 acc OR ucast b) (0 :: u64) (bs @ [b])) n
        \<longleftrightarrow> n < 64 \<and> bit (foldl (\<lambda>acc b. push_bit 8 acc OR ucast b) (0 :: u64) bs) m"
      using nb m by (simp add: bit_or_iff bit_push_bit_iff bit_unsigned_iff)
    moreover have "m div 8 < length bs \<Longrightarrow> (bs @ [b]) ! (length (bs @ [b]) - 1 - Suc (m div 8)) = bs ! (length bs - 1 - m div 8)"
      by (auto simp: nth_append)
    ultimately show ?thesis unfolding IH idx using small by auto
  qed
qed simp

lemma length_write_be64 [simp]: "length (write_be64 n) = 8"
  by (simp add: write_be64_def)

lemma write_be64_nth: "i < 8 \<Longrightarrow> write_be64 n ! i = ucast (drop_bit ((7 - i) * 8) (of_nat n :: u64))"
  by (simp add: write_be64_def rev_nth be_simps)

lemma read_write_be64 [be_simps]: "read_be64 (write_be64 n @ rest) = of_nat n"
proof (rule bit_word_eqI)
  fix k assume k: "k < LENGTH(64)"
  then have d: "k div 8 < 8" by (simp add: div_less_iff_less_mult)
  have "7 - (7 - k div 8) = k div 8" "k div 8 * 8 + k mod 8 = k" using d by auto
  then show "bit (read_be64 (write_be64 n @ rest)) k \<longleftrightarrow> bit (of_nat n :: u64) k"
    using k d by (simp add: read_be64_def bit_be_fold write_be64_nth bit_unsigned_iff bit_drop_bit_eq)
qed

lemma write_read_be64:
  assumes "8 \<le> length d" shows "write_be64 (unat (read_be64 d)) = take 8 d"
proof (intro nth_equalityI)
  fix i assume "i < length (write_be64 (unat (read_be64 d)))"
  then have i: "i < 8" by simp
  show "write_be64 (unat (read_be64 d)) ! i = take 8 d ! i"
  proof (rule bit_word_eqI)
    fix n assume n: "n < LENGTH(8)"
    then have "((7 - i) * 8 + n) div 8 = 7 - i" "((7 - i) * 8 + n) mod 8 = n" "7 - i < 8" by auto
    then show "bit (write_be64 (unat (read_be64 d)) ! i) n \<longleftrightarrow> bit (take 8 d ! i) n"
      using i n assms by (simp add: write_be64_nth bit_unsigned_iff bit_drop_bit_eq read_be64_def bit_be_fold)
  qed
qed (use assms in simp)

lemma read_length16: "push_bit 8 (ucast (d ! 0)) OR ucast (d ! 1) = (ucast (Read16BE d) :: u64)"
proof -
  have hi: "bit x m \<Longrightarrow> m < 8" for x :: u8 and m using bit_imp_le_length [of x m] by simp
  show ?thesis by (rule bit_word_eqI) (use hi in \<open>force simp: Read16BE_def bit_read_simps\<close>)
qed

lemma Write16BE_Read16BE:
  assumes "2 \<le> length d" shows "Write16BE (Read16BE d) = take 2 d"
proof -
  have hi: "bit x m \<Longrightarrow> m < 8" for x :: u8 and m using bit_imp_le_length [of x m] by simp
  obtain a b es where d: "d = a # b # es" using assms by (auto simp: numeral_eq_Suc Suc_le_length_iff)
  show ?thesis unfolding Write16BE_def be_simps
    by (simp add: d) (auto intro!: bit_word_eqI dest: hi simp: Read16BE_def bit_read_simps)
qed

section \<open>The first two bytes\<close>

lemma first_bits:
  "(Opcode_to opc OR (if f then kFinBit else 0) OR (if r then kRsv1Bit else 0)) AND kOpcodeMask = Opcode_to opc"
  "(Opcode_to opc OR (if f then kFinBit else 0) OR (if r then kRsv1Bit else 0)) AND kFinBit = 0 \<longleftrightarrow> \<not> f"
  "(Opcode_to opc OR (if f then kFinBit else 0) OR (if r then kRsv1Bit else 0)) AND kRsv1Bit = 0 \<longleftrightarrow> \<not> r"
  "(Opcode_to opc OR (if f then kFinBit else 0) OR (if r then kRsv1Bit else 0)) AND kRsv2Bit = 0"
  "(Opcode_to opc OR (if f then kFinBit else 0) OR (if r then kRsv1Bit else 0)) AND kRsv3Bit = 0"
  by (cases opc; simp)+

lemma Opcode_of_to [simp]: "Opcode_of (Opcode_to opc) = opc"
  by (cases opc) (simp_all add: Opcode_of_def)

lemma not_reserved [simp]: "\<not> IsReservedOpcode (Opcode_to opc)"
  by (cases opc) (simp_all add: IsReservedOpcode_def word_le_nat_alt)

definition first_byte_back :: "u8 \<Rightarrow> bool" where
  "first_byte_back b \<longleftrightarrow> (b AND kRsv2Bit = 0 \<longrightarrow> b AND kRsv3Bit = 0 \<longrightarrow> \<not> IsReservedOpcode (b AND kOpcodeMask) \<longrightarrow>
     Opcode_to (Opcode_of (b AND kOpcodeMask)) OR (if b AND kFinBit \<noteq> 0 then kFinBit else 0) OR (if b AND kRsv1Bit \<noteq> 0 then kRsv1Bit else 0) = b)"

lemma first_byte_back: "first_byte_back b"
proof -
  have "list_all (\<lambda>n. first_byte_back (word_of_nat n)) [0..<256]" by code_simp
  then show ?thesis by (rule u8_allI)
qed

lemma second_byte_bits:
  "n < 128 \<Longrightarrow> ((if m then kMaskBit else 0) OR (word_of_nat n :: u8)) AND kPayloadLenMask = word_of_nat n"
  "n < 128 \<Longrightarrow> ((if m then kMaskBit else 0) OR (word_of_nat n :: u8)) AND kMaskBit = 0 \<longleftrightarrow> \<not> m"
proof -
  have "list_all (\<lambda>n. list_all (\<lambda>m. ((if m then kMaskBit else 0) OR (word_of_nat n :: u8)) AND kPayloadLenMask = word_of_nat n
     \<and> (((if m then kMaskBit else 0) OR (word_of_nat n :: u8)) AND kMaskBit = 0 \<longleftrightarrow> \<not> m)) [False, True]) [0..<128]"
    by code_simp
  then have "n < 128 \<Longrightarrow> ((if m then kMaskBit else 0) OR (word_of_nat n :: u8)) AND kPayloadLenMask = word_of_nat n
     \<and> (((if m then kMaskBit else 0) OR (word_of_nat n :: u8)) AND kMaskBit = 0 \<longleftrightarrow> \<not> m)"
    by (cases m) (auto simp: list_all_iff)
  then show "n < 128 \<Longrightarrow> ((if m then kMaskBit else 0) OR (word_of_nat n :: u8)) AND kPayloadLenMask = word_of_nat n"
    "n < 128 \<Longrightarrow> ((if m then kMaskBit else 0) OR (word_of_nat n :: u8)) AND kMaskBit = 0 \<longleftrightarrow> \<not> m" by auto
qed

lemma second_byte_back: "(if b AND kMaskBit \<noteq> 0 then kMaskBit else 0) OR (b AND kPayloadLenMask) = (b :: u8)"
  "b AND kPayloadLenMask \<le> kPayloadLen64"
proof -
  have "list_all (\<lambda>n. (if (word_of_nat n :: u8) AND kMaskBit \<noteq> 0 then kMaskBit else 0) OR (word_of_nat n AND kPayloadLenMask) = word_of_nat n
     \<and> (word_of_nat n :: u8) AND kPayloadLenMask \<le> kPayloadLen64) [0..<256]" by code_simp
  then have "(if b AND kMaskBit \<noteq> 0 then kMaskBit else 0) OR (b AND kPayloadLenMask) = (b :: u8) \<and> b AND kPayloadLenMask \<le> kPayloadLen64"
    by (rule u8_allI)
  then show "(if b AND kMaskBit \<noteq> 0 then kMaskBit else 0) OR (b AND kPayloadLenMask) = (b :: u8)" "b AND kPayloadLenMask \<le> kPayloadLen64"
    by auto
qed

section \<open>Frames round trip\<close>

text \<open>The parts of a built frame after its first byte.\<close>

definition len7 :: "nat \<Rightarrow> nat" where
  "len7 n = (if n < 126 then n else if n \<le> 0xFFFF then 126 else 127)"

definition ext_bytes :: "nat \<Rightarrow> bytes" where
  "ext_bytes n = (if n < 126 then [] else if n \<le> 0xFFFF then Write16BE (of_nat n) else write_be64 n)"

definition first_byte :: "Opcode \<Rightarrow> bool \<Rightarrow> bool \<Rightarrow> u8" where
  "first_byte opc f r = Opcode_to opc OR (if f then kFinBit else 0) OR (if r then kRsv1Bit else 0)"

definition second_byte :: "bool \<Rightarrow> nat \<Rightarrow> u8" where
  "second_byte m n = (if m then kMaskBit else 0) OR of_nat (len7 n)"

lemma BuildFrameHeader_eq:
  "BuildFrameHeader output opc n f m key r = output @ [first_byte opc f r, second_byte m n] @ ext_bytes n @ (if m then store_key key else [])"
  by (simp add: BuildFrameHeader_def first_byte_def second_byte_def len7_def ext_bytes_def Let_def)

lemma BuildFrame_eq:
  "BuildFrame simd output opc pl f m key r = output @ [first_byte opc f r, second_byte m (length pl)] @ ext_bytes (length pl)
     @ (if m then store_key key @ mask_tail key 0 pl else pl)"
  by (simp add: BuildFrame_def AppendFramePayload_def BuildFrameHeader_eq ApplyMask_eq)

lemma len7_lt: "len7 n < 128"
  by (simp add: len7_def)

lemma u64_of_nat_less: "n < 2 ^ 63 \<Longrightarrow> unat (of_nat n :: u64) = n"
  by (simp add: unat_of_nat take_bit_nat_eq_self)

lemma drop_bit_63_eq_0: "n < 2 ^ 63 \<Longrightarrow> drop_bit 63 (of_nat n :: u64) = 0"
proof -
  assume "n < 2 ^ 63"
  then have "unat (drop_bit 63 (of_nat n :: u64)) = 0" unfolding unsigned_drop_bit_eq by (simp add: u64_of_nat_less drop_bit_eq_div take_bit_nat_eq_self)
  then show ?thesis by (simp only: unsigned_eq_0_iff)
qed

lemma parse_length_built:
  assumes n: "n < 2 ^ 63"
  shows "parse_length ([b0, b1] @ ext_bytes n @ tail) h (of_nat (len7 n)) = Inr (length (ext_bytes n), h\<lparr>payloadLength := of_nat n\<rparr>)"
proof -
  have u: "unat (of_nat n :: u64) = n" by (rule u64_of_nat_less [OF n])
  consider "n < 126" | "126 \<le> n" "n \<le> 65535" | "65535 < n" by linarith
  then show ?thesis
  proof cases
    case 1
    have v: "unat (of_nat n :: u8) = n" using 1 by (simp add: unat_of_nat take_bit_nat_eq_self)
    then have "(of_nat n :: u8) \<noteq> 126" "(of_nat n :: u8) \<noteq> 127" using 1 by auto
    moreover have "(ucast (of_nat n :: u8) :: u64) = of_nat n" using u v by (simp add: word_unat_eq_iff)
    ultimately show ?thesis using 1 by (simp add: parse_length_def len7_def ext_bytes_def)
  next
    case 2
    have r: "push_bit 8 (ucast (([b0, b1] @ Write16BE (of_nat n) @ tail) ! 2)) OR ucast (([b0, b1] @ Write16BE (of_nat n) @ tail) ! 3)
        = (of_nat n :: u64)"
    proof -
      have "push_bit 8 (ucast ((Write16BE (of_nat n) @ tail) ! 0)) OR ucast ((Write16BE (of_nat n) @ tail) ! 1) = (ucast (of_nat n :: u16) :: u64)"
        unfolding read_length16 be_simps ..
      also have "\<dots> = of_nat n" using 2 u by (simp add: word_unat_eq_iff unat_of_nat take_bit_nat_eq_self unsigned_ucast_eq)
      finally show ?thesis by (simp add: numeral_eq_Suc)
    qed
    then show ?thesis using 2 u by (simp add: parse_length_def len7_def ext_bytes_def Let_def word_less_nat_alt)
  next
    case 3
    have r: "read_be64 (drop 2 ([b0, b1] @ write_be64 n @ tail)) = of_nat n" by (simp add: be_simps)
    have "\<not> (of_nat n :: u64) \<le> 0xFFFF" using 3 u by (simp add: word_le_nat_alt)
    then show ?thesis using 3 r drop_bit_63_eq_0 [OF n] by (simp add: parse_length_def len7_def ext_bytes_def Let_def)
  qed
qed

lemma ParseFrame_built:
  assumes size: "length pl < 2 ^ 63" "maxPayloadSize = 0 \<or> length pl \<le> maxPayloadSize"
    and ctrl: "IsControlFrame opc \<Longrightarrow> f \<and> length pl \<le> 125 \<and> \<not> r" and ext: "r \<Longrightarrow> allowRsv1"
  shows "ParseFrame (BuildFrame simd [] opc pl f m key r @ rest) maxPayloadSize m allowRsv1
    = frame_result FS_Complete \<lparr>opcode = opc, fin = f, masked = m, rsv1 = r, rsv2 = False, rsv3 = False,
        payloadLength = of_nat (length pl), maskingKey = (if m then key else 0)\<rparr>
        (if m then ApplyMask simd pl key else pl) (length (BuildFrame simd [] opc pl f m key r)) ''''"
proof -
  let ?body = "(if m then store_key key @ mask_tail key 0 pl else pl) @ rest"
  let ?d = "[first_byte opc f r, second_byte m (length pl)] @ ext_bytes (length pl) @ ?body"
  have d: "BuildFrame simd [] opc pl f m key r @ rest = ?d" by (simp add: BuildFrame_eq)
  note b1 = second_byte_bits [OF len7_lt, folded second_byte_def]
  note b0 = first_bits [of opc f r, folded first_byte_def]
  define h where "h = newWsFrameHeader\<lparr>fin := f, rsv1 := r, rsv2 := False, rsv3 := False, opcode := opc, masked := m\<rparr>"
  have "ParseFrame ?d maxPayloadSize m allowRsv1 = parse_rest ?d maxPayloadSize h (of_nat (len7 (length pl)))"
    using ctrl ext unfolding ParseFrame_def h_def
    by (auto simp: check_first_bytes_def Let_def b0 b1 IsControlFrame_def newWsFrameHeader_def)
  moreover have skip: "drop (6 + length e) (a # b # e @ store_key key @ z) = z" for a b e z by (simp add: store_key_def numeral_eq_Suc)
  moreover have "parse_rest ?d maxPayloadSize h (of_nat (len7 (length pl))) = frame_result FS_Complete (h\<lparr>payloadLength := of_nat (length pl), maskingKey := (if m then key else 0)\<rparr>)
      (if m then mask_tail key 0 pl else pl) (length ?d - length rest) ''''"
    unfolding parse_rest_def parse_length_built [OF size(1)] parse_body_def using size ctrl u64_of_nat_less [OF size(1)]
    by (auto simp: Let_def h_def be_simps subspan_def newWsFrameHeader_def skip add.assoc)
  ultimately show ?thesis unfolding d by (simp add: BuildFrame_eq ApplyMask_eq h_def newWsFrameHeader_def)
qed

text \<open>Frames as items of a self-delimiting encoding, for one side of a connection.\<close>

record WsFrame =
  wf_opcode :: Opcode
  wf_payload :: bytes
  wf_fin :: bool
  wf_rsv1 :: bool
  wf_key :: MaskingKey

definition wsframe_ok :: "bool \<Rightarrow> WsFrame \<Rightarrow> bool" where
  "wsframe_ok m w \<longleftrightarrow> length (wf_payload w) < 2 ^ 63 \<and> (m \<or> wf_key w = 0)
     \<and> (IsControlFrame (wf_opcode w) \<longrightarrow> wf_fin w \<and> length (wf_payload w) \<le> 125 \<and> \<not> wf_rsv1 w)"

definition build_wsframe :: "Simd \<Rightarrow> bool \<Rightarrow> bytes \<Rightarrow> WsFrame \<Rightarrow> bytes" where
  "build_wsframe simd m output w = BuildFrame simd output (wf_opcode w) (wf_payload w) (wf_fin w) m (wf_key w) (wf_rsv1 w)"

definition read_wsframe :: "Simd \<Rightarrow> bool \<Rightarrow> bytes \<Rightarrow> (WsFrame \<times> nat) option" where
  "read_wsframe simd m d =
     (let r = ParseFrame d 0 m True; h = pheader r in
      if status r = FS_Complete
      then Some (\<lparr>wf_opcode = opcode h, wf_payload = (if masked h then ApplyMask simd (payload r) (maskingKey h) else payload r),
                  wf_fin = fin h, wf_rsv1 = rsv1 h, wf_key = maskingKey h\<rparr>, consumed r)
      else None)"

lemma build_wsframe_append: "build_wsframe simd m output w = output @ build_wsframe simd m [] w"
  by (simp add: build_wsframe_def BuildFrame_eq)

interpretation ws_frame: codec "build_wsframe simd m []" "read_wsframe simd' m" "wsframe_ok m" for simd simd' m
proof
  show "read_wsframe simd' m (build_wsframe simd m [] w @ rest) = Some (w, length (build_wsframe simd m [] w))" if "wsframe_ok m w" for w rest
  proof -
    have p: "ParseFrame (build_wsframe simd m [] w @ rest) 0 m True = frame_result FS_Complete \<lparr>opcode = wf_opcode w, fin = wf_fin w,
        masked = m, rsv1 = wf_rsv1 w, rsv2 = False, rsv3 = False, payloadLength = of_nat (length (wf_payload w)), maskingKey = (if m then wf_key w else 0)\<rparr>
        (if m then ApplyMask simd (wf_payload w) (wf_key w) else wf_payload w) (length (build_wsframe simd m [] w)) ''''"
      unfolding build_wsframe_def using that by (intro ParseFrame_built) (auto simp: wsframe_ok_def)
    show ?thesis unfolding read_wsframe_def p using that by (auto simp: Let_def frame_result_def ApplyMask_eq mask_tail_twice wsframe_ok_def)
  qed
  show "build_wsframe simd m [] w \<noteq> []" for w by (simp add: build_wsframe_def BuildFrame_eq)
qed

text \<open>
  C14. Frames round trip: any sequence of frames the builder may be asked for, each with its own key, appended one after the other to
  the output, is read back frame by frame by the parser and the unmasking on the other side, whatever machines the two sides run on.
\<close>

theorem ws_frames_roundtrip:
  assumes "\<And>w. w \<in> set ws \<Longrightarrow> wsframe_ok m w"
  shows "decode_all (read_wsframe simd' m) (foldl (build_wsframe simd m) [] ws) = Some ws"
proof -
  have "foldl (build_wsframe simd m) out ws = out @ concat (map (build_wsframe simd m []) ws)" for out
  proof (induction ws arbitrary: out)
    case (Cons w ws)
    show ?case unfolding foldl_Cons Cons build_wsframe_append [of simd m out] by simp
  qed simp
  then show ?thesis using ws_frame.decode_all_concat [OF assms] by simp
qed

theorem ws_frames_roundtrip_witness:
  "decode_all (read_wsframe Avx2 True) (foldl (build_wsframe Sse2 True) []
     [\<lparr>wf_opcode = OpText, wf_payload = [104, 105], wf_fin = True, wf_rsv1 = False, wf_key = 0x01020304\<rparr>,
      \<lparr>wf_opcode = OpPing, wf_payload = [], wf_fin = True, wf_rsv1 = False, wf_key = 7\<rparr>])
   = Some [\<lparr>wf_opcode = OpText, wf_payload = [104, 105], wf_fin = True, wf_rsv1 = False, wf_key = 0x01020304\<rparr>,
      \<lparr>wf_opcode = OpPing, wf_payload = [], wf_fin = True, wf_rsv1 = False, wf_key = 7\<rparr>]"
  by (rule ws_frames_roundtrip) (auto simp: wsframe_ok_def IsControlFrame_def)

text \<open>More input does not change a verdict.\<close>

lemma read_be64_append: "8 \<le> length d \<Longrightarrow> read_be64 (d @ e) = read_be64 d"
  by (simp add: read_be64_def)

lemma load_key_append: "4 \<le> length d \<Longrightarrow> load_key (d @ e) = load_key d"
  by (cases d) (auto simp: load_key_def nth_append)

lemma parse_length_append:
  "2 \<le> length d \<Longrightarrow> (\<And>r. parse_length d h l = Inl r \<Longrightarrow> status r \<noteq> FS_Incomplete) \<Longrightarrow> parse_length (d @ e) h l = parse_length d h l"
  unfolding parse_length_def by (auto simp: frame_result_def Let_def nth_append read_be64_append split: if_splits)

lemma parse_body_append:
  assumes "status (parse_body d off h) \<noteq> FS_Incomplete"
  shows "parse_body (d @ e) off h = parse_body d off h"
proof -
  let ?start = "if masked h then off + 4 else off"
  have len: "?start + unat (payloadLength h) \<le> length d"
    using assms by (auto simp: parse_body_def frame_result_def Let_def split: if_splits)
  then have s: "subspan (d @ e) ?start (unat (payloadLength h)) = subspan d ?start (unat (payloadLength h))" by (rule subspan_append_left)
  have k: "masked h \<Longrightarrow> load_key (drop off (d @ e)) = load_key (drop off d)" using len load_key_append [of "drop off d" e] by simp
  have "\<not> length d < ?start + unat (payloadLength h)" "\<not> length (d @ e) < ?start + unat (payloadLength h)"
    "\<not> (masked h \<and> length d < off + 4)" "\<not> (masked h \<and> length (d @ e) < off + 4)" using len by (auto split: if_splits)
  then show ?thesis using s k by (cases "masked h") (simp_all add: parse_body_def Let_def del: length_append drop_append)
qed

lemma parse_rest_append:
  assumes "2 \<le> length d" "status (parse_rest d mx h l) \<noteq> FS_Incomplete"
  shows "parse_rest (d @ e) mx h l = parse_rest d mx h l"
proof (cases "parse_length d h l")
  case (Inl r)
  then have "parse_length (d @ e) h l = Inl r" using assms parse_length_append [of d h l e] by (simp add: parse_rest_def)
  then show ?thesis using Inl by (simp add: parse_rest_def)
next
  case (Inr q)
  then have p: "parse_length (d @ e) h l = Inr q" using assms parse_length_append [of d h l e] by simp
  show ?thesis using assms(2) unfolding parse_rest_def p Inr by (cases q) (auto simp: parse_body_append split: if_splits)
qed

lemma ParseFrame_append:
  assumes "status (ParseFrame d mx srv al) \<noteq> FS_Incomplete"
  shows "ParseFrame (d @ e) mx srv al = ParseFrame d mx srv al"
proof -
  have d: "2 \<le> length d" using assms by (rule_tac ccontr) (simp add: ParseFrame_def frame_result_def)
  then have n: "(d @ e) ! 0 = d ! 0" "(d @ e) ! 1 = d ! 1" by (auto simp: nth_append)
  show ?thesis using d assms parse_rest_append [of d mx _ _ e] unfolding ParseFrame_def n by (auto split: sum.split)
qed

text \<open>What a complete length field holds.\<close>

lemma parse_length_Inr:
  assumes p: "parse_length d h l = Inr (ext, h')" and d: "2 \<le> length d" and l: "l \<le> kPayloadLen64"
  shows "h' = h\<lparr>payloadLength := payloadLength h'\<rparr> \<and> unat (payloadLength h') < 2 ^ 63 \<and> 2 + ext \<le> length d
    \<and> take ext (drop 2 d) = ext_bytes (unat (payloadLength h')) \<and> length (ext_bytes (unat (payloadLength h'))) = ext
    \<and> l = of_nat (len7 (unat (payloadLength h')))"
proof -
  consider (short) "l \<noteq> 126" "l \<noteq> 127" | (mid) "l = 126" | (long) "l = 127" by blast
  then show ?thesis
  proof cases
    case short
    have "unat l \<le> 127" using l by (simp add: word_le_nat_alt)
    moreover have "unat l \<noteq> 126" "unat l \<noteq> 127" using short by (auto simp: word_unat_eq_iff)
    ultimately have "unat l < 126" by linarith
    moreover have "h' = h\<lparr>payloadLength := ucast l\<rparr>" "ext = 0" using p short by (auto simp: parse_length_def)
    moreover have "l = of_nat (unat l)" by simp
    ultimately show ?thesis using d by (simp add: len7_def ext_bytes_def del: of_nat_unat word_of_nat_eq_0_iff)
  next
    case mid
    have n: "push_bit 8 (ucast (d ! 2)) OR ucast (d ! 3) = (ucast (Read16BE (drop 2 d)) :: u64)" if "4 \<le> length d"
      using read_length16 [of "drop 2 d"] that by (simp add: numeral_eq_Suc)
    have e: "4 \<le> length d" "ext = 2" "h' = h\<lparr>payloadLength := ucast (Read16BE (drop 2 d))\<rparr>" "\<not> (ucast (Read16BE (drop 2 d)) :: u64) < 126"
      using p mid by (auto simp: parse_length_def Let_def n split: if_splits)
    have u: "unat (ucast (Read16BE (drop 2 d)) :: u64) = unat (Read16BE (drop 2 d))"
      using unsigned_less [of "Read16BE (drop 2 d)", where ?'a = nat] by (simp add: unsigned_ucast_eq take_bit_nat_eq_self)
    have "unat (Read16BE (drop 2 d)) < 65536" using unsigned_less [of "Read16BE (drop 2 d)"] by simp
    moreover have "126 \<le> unat (Read16BE (drop 2 d))" using e(4) u by (simp add: word_less_nat_alt)
    ultimately show ?thesis using e u mid by (simp add: len7_def ext_bytes_def Write16BE_Read16BE)
  next
    case long
    let ?w = "read_be64 (drop 2 d)"
    have e: "10 \<le> length d" "ext = 8" "h' = h\<lparr>payloadLength := ?w\<rparr>" "drop_bit 63 ?w = 0" "\<not> ?w \<le> 0xFFFF"
      using p long by (auto simp: parse_length_def Let_def split: if_splits)
    have "unat (drop_bit 63 ?w) = unat ?w div 2 ^ 63"
      using unsigned_less [of ?w, where ?'a = nat] unfolding unsigned_drop_bit_eq by (simp add: drop_bit_eq_div take_bit_nat_eq_self)
    then have "unat ?w < 2 ^ 63" using e(4) by (simp add: div_eq_0_iff)
    moreover have "65535 < unat ?w" using e(5) by (simp add: word_le_nat_alt)
    ultimately show ?thesis using e long by (simp add: len7_def ext_bytes_def write_read_be64)
  qed
qed

lemma ParseFrame_complete:
  assumes "status (ParseFrame d maxPayloadSize isServerSide allowRsv1) = FS_Complete"
  defines "res \<equiv> ParseFrame d maxPayloadSize isServerSide allowRsv1"
  defines "h \<equiv> pheader res"
  shows "take (consumed res) d = BuildFrame simd [] (opcode h) (if masked h then ApplyMask simd (payload res) (maskingKey h) else payload res)
      (fin h) (masked h) (maskingKey h) (rsv1 h)
    \<and> consumed res \<le> length d \<and> consumed res = headerSize h + length (payload res) \<and> length (payload res) = unat (payloadLength h)
    \<and> masked h = isServerSide \<and> (rsv1 h \<longrightarrow> allowRsv1) \<and> (maxPayloadSize = 0 \<or> length (payload res) \<le> maxPayloadSize)
    \<and> (IsControlFrame (opcode h) \<longrightarrow> fin h \<and> \<not> rsv1 h \<and> length (payload res) \<le> 125)"
proof -
  let ?b0 = "d ! 0" and ?b1 = "d ! 1"
  have d: "2 \<le> length d" using assms(1) by (rule_tac ccontr) (simp add: ParseFrame_def frame_result_def)
  obtain h2 where h2: "check_first_bytes ?b0 ?b1 isServerSide allowRsv1 = Inr h2" and res: "res = parse_rest d maxPayloadSize h2 (?b1 AND kPayloadLenMask)"
    using assms(1) d unfolding ParseFrame_def res_def by (cases "check_first_bytes ?b0 ?b1 isServerSide allowRsv1")
      (auto simp: check_first_bytes_def frame_result_def Let_def split: if_splits)
  have flags: "?b0 AND kRsv2Bit = 0" "?b0 AND kRsv3Bit = 0" "\<not> IsReservedOpcode (?b0 AND kOpcodeMask)"
    "?b0 AND kRsv1Bit \<noteq> 0 \<longrightarrow> allowRsv1 \<and> \<not> 8 \<le> ?b0 AND kOpcodeMask"
    "IsControlFrame (Opcode_of (?b0 AND kOpcodeMask)) \<longrightarrow> ?b0 AND kFinBit \<noteq> 0" "isServerSide = (?b1 AND kMaskBit \<noteq> 0)"
    and h2f: "fin h2 = (?b0 AND kFinBit \<noteq> 0)" "rsv1 h2 = (?b0 AND kRsv1Bit \<noteq> 0)" "opcode h2 = Opcode_of (?b0 AND kOpcodeMask)"
      "masked h2 = (?b1 AND kMaskBit \<noteq> 0)"
    using h2 by (auto simp: check_first_bytes_def Let_def split: if_splits)
  obtain ext g where pl: "parse_length d h2 (?b1 AND kPayloadLenMask) = Inr (ext, g)"
    using assms(1) unfolding res_def [symmetric] res parse_rest_def
    by (cases "parse_length d h2 (?b1 AND kPayloadLenMask)") (auto simp: parse_length_def frame_result_def Let_def split: if_splits)
  note len = parse_length_Inr [OF pl d second_byte_back(2)]
  have rb: "res = parse_body d (2 + ext) g" and small: "IsControlFrame (opcode g) \<longrightarrow> unat (payloadLength g) \<le> 125"
    "maxPayloadSize = 0 \<or> unat (payloadLength g) \<le> maxPayloadSize"
    using assms(1) pl unfolding res_def [symmetric] res parse_rest_def by (auto simp: frame_result_def split: if_splits)
  have "first_byte_back ?b0" by (rule first_byte_back)
  then have b0: "first_byte (opcode h2) (fin h2) (rsv1 h2) = ?b0" using flags h2f by (simp add: first_byte_back_def first_byte_def)
  have b1: "second_byte (masked h2) (unat (payloadLength g)) = ?b1" using second_byte_back(1) [of ?b1] len h2f by (simp add: second_byte_def)
  let ?n = "unat (payloadLength g)" and ?key = "if masked g then load_key (drop (2 + ext) d) else maskingKey g"
  let ?start = "if masked g then 6 + ext else 2 + ext"
  have gg: "g = h2\<lparr>payloadLength := payloadLength g\<rparr>" using len by blast
  have g: "opcode g = opcode h2" "fin g = fin h2" "rsv1 g = rsv1 h2" "masked g = masked h2"
    by (subst gg, simp)+
  have fits: "?start + ?n \<le> length d" and rr: "res = frame_result FS_Complete (g\<lparr>maskingKey := ?key\<rparr>) (subspan d ?start ?n) (?start + ?n) ''''"
    using assms(1) unfolding res_def [symmetric] rb by (auto simp: parse_body_def frame_result_def Let_def split: if_splits)
  have two: "take 2 d = [?b0, ?b1]" using d by (cases d; cases "tl d") auto
  have "take (?start + ?n) d = [?b0, ?b1] @ ext_bytes ?n @ (if masked g then store_key ?key else []) @ subspan d ?start ?n"
  proof -
    have e: "take ext (drop 2 d) = ext_bytes ?n" using len by simp
    have k: "masked g \<Longrightarrow> take 4 (drop (2 + ext) d) = store_key ?key" using store_load_key [of "drop (2 + ext) d"] fits by simp
    have "take (2 + ext) d = [?b0, ?b1] @ ext_bytes ?n" unfolding take_add two e ..
    moreover have "take (2 + ext + 4) d = take (2 + ext) d @ take 4 (drop (2 + ext) d)" by (rule take_add)
    ultimately have "take ?start d = [?b0, ?b1] @ ext_bytes ?n @ (if masked g then store_key ?key else [])" using k by (simp add: add.commute)
    then show ?thesis unfolding take_add subspan_def by simp
  qed
  then have "take (consumed res) d = BuildFrame simd [] (opcode h) (if masked h then ApplyMask simd (payload res) (maskingKey h) else payload res)
      (fin h) (masked h) (maskingKey h) (rsv1 h)"
    using fits b0 b1 by (cases "masked h2") (simp_all add: h_def rr frame_result_def BuildFrame_eq ApplyMask_eq mask_tail_twice g)
  moreover have "headerSize h = ?start" using len
    by (auto simp: h_def rr frame_result_def headerSize_def ext_bytes_def word_le_nat_alt word_less_nat_alt split: if_splits)
  moreover have "IsControlFrame (Opcode_of (?b0 AND kOpcodeMask)) \<Longrightarrow> 8 \<le> ?b0 AND kOpcodeMask"
    by (auto simp: Opcode_of_def IsControlFrame_def split: if_splits)
  ultimately show ?thesis using fits small flags h2f g by (auto simp: h_def rr frame_result_def)
qed

text \<open>
  C28. The parser accepts nothing but what the builder writes: when it reports a complete frame, the bytes it takes are exactly the frame that the
  builder makes of the returned header and the unmasked payload (so every length is in its shortest form and every reserved bit is clear); the sizes add
  up, the frame is masked exactly on the server's side, a control frame is whole and short, and the configured maximum holds.
\<close>

theorem ws_parse_canonical:
  assumes "status (ParseFrame d maxPayloadSize isServerSide allowRsv1) = FS_Complete"
  defines "res \<equiv> ParseFrame d maxPayloadSize isServerSide allowRsv1"
  defines "h \<equiv> pheader res"
  shows "take (consumed res) d = BuildFrame simd [] (opcode h) (if masked h then ApplyMask simd (payload res) (maskingKey h) else payload res)
      (fin h) (masked h) (maskingKey h) (rsv1 h)
    \<and> consumed res \<le> length d \<and> consumed res = headerSize h + length (payload res) \<and> length (payload res) = unat (payloadLength h)
    \<and> masked h = isServerSide \<and> (rsv1 h \<longrightarrow> allowRsv1) \<and> (maxPayloadSize = 0 \<or> length (payload res) \<le> maxPayloadSize)
    \<and> (IsControlFrame (opcode h) \<longrightarrow> fin h \<and> \<not> rsv1 h \<and> length (payload res) \<le> 125)"
  using ParseFrame_complete [OF assms(1), of simd] unfolding h_def res_def .

theorem ws_parse_canonical_witness:
  "take 8 [0x81, 0x82, 1, 2, 3, 4, 0x69, 0x6B, 99] = BuildFrame Sse2 [] OpText [0x68, 0x69] True True 0x04030201 False"
proof -
  have r: "ParseFrame [0x81, 0x82, 1, 2, 3, 4, 0x69, 0x6B, 99] 0 True False
      = frame_result FS_Complete \<lparr>opcode = OpText, fin = True, masked = True, rsv1 = False, rsv2 = False, rsv3 = False,
          payloadLength = 2, maskingKey = 0x04030201\<rparr> [0x69, 0x6B] 8 ''''"
    by (simp add: ParseFrame_def check_first_bytes_def parse_rest_def parse_length_def parse_body_def newWsFrameHeader_def Opcode_of_def
        IsReservedOpcode_def IsControlFrame_def load_key_def subspan_def frame_result_def word_le_nat_alt Let_def)
  have "ApplyMask Sse2 [0x69, 0x6B] 0x04030201 = [0x68, 0x69]" by (simp add: ApplyMask_eq key_byte_def)
  then show ?thesis
    using ws_parse_canonical [of "[0x81, 0x82, 1, 2, 3, 4, 0x69, 0x6B, 99]" 0 True False Sse2, unfolded r] by (simp add: frame_result_def)
qed

end
