(* ===== verification/Ws_Utf8.thy ===== *)
theory Ws_Utf8
  imports Prelude
begin

text \<open>
  The UTF-8 validation of text messages, \<^verbatim>\<open>ValidateMultibyteSequence\<close> and \<^verbatim>\<open>ValidateUtf8\<close> of
  \<^verbatim>\<open>websocket-handler.cpp\<close>, with its SSE2, NEON and scalar loops. The theorem compares them with the encoding of
  Unicode scalar values.
\<close>

section \<open>The validator\<close>

text \<open>The loop over the continuation bytes: \<open>None\<close> for an early \<^verbatim>\<open>return false\<close>.\<close>

fun read_continuations :: "nat \<Rightarrow> u32 \<Rightarrow> bytes \<Rightarrow> (u32 \<times> bytes) option" where
  "read_continuations 0 codepoint ptr = Some (codepoint, ptr)"
| "read_continuations (Suc remaining) codepoint [] = None"
| "read_continuations (Suc remaining) codepoint (byte # ptr) =
     (if byte AND 0xC0 \<noteq> 0x80 then None
      else read_continuations remaining (push_bit 6 codepoint OR (ucast byte AND 0x3F)) ptr)"

definition sequence_kind :: "u8 \<Rightarrow> (nat \<times> u32 \<times> u32) option" where
  "sequence_kind lead =
     (if lead AND 0xE0 = 0xC0 then Some (1, ucast (lead AND 0x1F), 0x80)
      else if lead AND 0xF0 = 0xE0 then Some (2, ucast (lead AND 0x0F), 0x800)
      else if lead AND 0xF8 = 0xF0 then Some (3, ucast (lead AND 0x07), 0x10000)
      else None)"

text \<open>Returns where the sequence ends, or \<open>None\<close> for \<^verbatim>\<open>false\<close>.\<close>

definition ValidateMultibyteSequence :: "bytes \<Rightarrow> u8 \<Rightarrow> bytes option" where
  "ValidateMultibyteSequence ptr lead =
     (case sequence_kind lead of
        None \<Rightarrow> None
      | Some (remaining, codepoint0, minCodepoint) \<Rightarrow>
          if length ptr < remaining then None
          else case read_continuations remaining codepoint0 ptr of
                 None \<Rightarrow> None
               | Some (codepoint, ptr') \<Rightarrow>
                   if codepoint < minCodepoint then None
                   else if codepoint \<ge> 0xD800 \<and> codepoint \<le> 0xDFFF then None
                   else if codepoint \<le> 0x10FFFF then Some ptr' else None)"

lemma read_continuations_length: "read_continuations n cp ptr = Some (cp', ptr') \<Longrightarrow> length ptr = n + length ptr'"
  by (induction n cp ptr rule: read_continuations.induct) (auto split: if_splits)

lemma ValidateMultibyteSequence_length: "ValidateMultibyteSequence ptr lead = Some ptr' \<Longrightarrow> length ptr' \<le> length ptr"
  by (auto simp: ValidateMultibyteSequence_def dest!: read_continuations_length split: option.splits if_splits)

text \<open>The scalar loop, which is also the tail of the vector ones.\<close>

function utf8_tail :: "bytes \<Rightarrow> bool" where
  "utf8_tail [] = True"
| "utf8_tail (byte # ptr) =
     (if byte \<le> 0x7F then utf8_tail ptr
      else case ValidateMultibyteSequence ptr byte of None \<Rightarrow> False | Some ptr' \<Rightarrow> utf8_tail ptr')"
  by pat_completeness auto
termination
  by (relation "measure length") (auto dest: ValidateMultibyteSequence_length)

text \<open>
  The SSE2 loop: the mask of the sign bits of sixteen bytes; no bit set skips the block, otherwise the lowest one
  (\<^verbatim>\<open>__builtin_ctz\<close>) is where the next sequence starts.
\<close>

definition movemask :: "bytes \<Rightarrow> bool list" where
  "movemask chunk = map (\<lambda>b. bit b 7) chunk"

function utf8_sse2 :: "bytes \<Rightarrow> bool" where
  "utf8_sse2 ptr =
     (if 16 \<le> length ptr then
        (let mask = movemask (take 16 ptr) in
         if True \<notin> set mask then utf8_sse2 (drop 16 ptr)
         else
           (let ptr1 = drop (length (takeWhile Not mask)) ptr in
            case ValidateMultibyteSequence (tl ptr1) (hd ptr1) of None \<Rightarrow> False | Some ptr' \<Rightarrow> utf8_sse2 ptr'))
      else utf8_tail ptr)"
  by pat_completeness auto

text \<open>The NEON loop: the maximum of sixteen bytes, then a scan for the first byte above 0x7F.\<close>

function utf8_neon :: "bytes \<Rightarrow> bool" where
  "utf8_neon ptr =
     (if 16 \<le> length ptr then
        (if Max (set (take 16 ptr)) < 0x80 then utf8_neon (drop 16 ptr)
         else
           (let ptr1 = dropWhile (\<lambda>b. b \<le> 0x7F) ptr in
            if ptr1 = [] then utf8_tail ptr1
            else case ValidateMultibyteSequence (tl ptr1) (hd ptr1) of None \<Rightarrow> False | Some ptr' \<Rightarrow> utf8_neon ptr'))
      else utf8_tail ptr)"
  by pat_completeness auto

lemma shorter: "16 \<le> length ptr \<Longrightarrow> length ptr1 \<le> length ptr \<Longrightarrow> ptr1 \<noteq> [] \<Longrightarrow> ValidateMultibyteSequence (tl ptr1) (hd ptr1) = Some ptr' \<Longrightarrow>
   length ptr' < length ptr"
  by (cases ptr1) (auto dest!: ValidateMultibyteSequence_length)

termination utf8_sse2
proof (relation "measure length")
  fix ptr :: bytes and mask ptr1 ptr'
  assume p: "16 \<le> length ptr" "mask = movemask (take 16 ptr)" "\<not> True \<notin> set mask" "ptr1 = drop (length (takeWhile Not mask)) ptr"
    "ValidateMultibyteSequence (tl ptr1) (hd ptr1) = Some ptr'"
  have "True \<in> set xs \<Longrightarrow> length (takeWhile Not xs) < length xs" for xs by (induction xs) auto
  then have "length (takeWhile Not mask) < length mask" using p(3) by blast
  then have "ptr1 \<noteq> []" using p by (simp add: movemask_def)
  then show "(ptr', ptr) \<in> measure length" using shorter [OF p(1) _ _ p(5)] p(4) by simp
qed auto

termination utf8_neon
proof (relation "measure length")
  fix ptr ptr1 ptr' :: bytes
  assume p: "16 \<le> length ptr" "ptr1 = dropWhile (\<lambda>b. b \<le> 0x7F) ptr" "ptr1 \<noteq> []" "ValidateMultibyteSequence (tl ptr1) (hd ptr1) = Some ptr'"
  show "(ptr', ptr) \<in> measure length" using shorter [OF p(1) _ p(3, 4)] p(2) by (simp add: length_dropWhile_le)
qed auto

declare utf8_sse2.simps [simp del] utf8_neon.simps [simp del]

datatype Utf8Path = Utf8Sse2 | Utf8Neon | Utf8Scalar

definition ValidateUtf8 :: "Utf8Path \<Rightarrow> bytes \<Rightarrow> bool" where
  "ValidateUtf8 path data =
     (if data = [] then True
      else case path of Utf8Sse2 \<Rightarrow> utf8_sse2 data | Utf8Neon \<Rightarrow> utf8_neon data | Utf8Scalar \<Rightarrow> utf8_tail data)"

section \<open>The reference: the encoding of scalar values\<close>

definition scalar_value :: "nat \<Rightarrow> bool" where
  "scalar_value cp \<longleftrightarrow> cp \<le> 0x10FFFF \<and> \<not> (0xD800 \<le> cp \<and> cp \<le> 0xDFFF)"

definition utf8_encode :: "nat \<Rightarrow> bytes" where
  "utf8_encode cp =
     (if cp < 0x80 then [of_nat cp]
      else if cp < 0x800 then [of_nat (0xC0 + cp div 64), of_nat (0x80 + cp mod 64)]
      else if cp < 0x10000 then [of_nat (0xE0 + cp div 4096), of_nat (0x80 + cp div 64 mod 64), of_nat (0x80 + cp mod 64)]
      else [of_nat (0xF0 + cp div 262144), of_nat (0x80 + cp div 4096 mod 64), of_nat (0x80 + cp div 64 mod 64), of_nat (0x80 + cp mod 64)])"

section \<open>Bits as arithmetic\<close>

definition byte_facts :: "u8 \<Rightarrow> bool" where
  "byte_facts b \<longleftrightarrow>
     ((b AND 0xE0 = 0xC0) = (unat b div 32 = 6)) \<and> ((b AND 0xF0 = 0xE0) = (unat b div 16 = 14)) \<and> ((b AND 0xF8 = 0xF0) = (unat b div 8 = 30))
     \<and> ((b AND 0xC0 = 0x80) = (unat b div 64 = 2)) \<and> unat (b AND 0x1F) = unat b mod 32 \<and> unat (b AND 0x0F) = unat b mod 16
     \<and> unat (b AND 0x07) = unat b mod 8 \<and> unat (b AND 0x3F) = unat b mod 64 \<and> (bit b 7 = (128 \<le> unat b))"

lemma byte_facts: "byte_facts b"
proof -
  have "list_all (\<lambda>n. byte_facts (word_of_nat n)) [0..<256]" by code_simp
  then show ?thesis by (rule u8_allI)
qed

lemma unat_of_byte: "n < 256 \<Longrightarrow> unat (of_nat n :: u8) = n"
  by (simp add: unat_of_nat take_bit_nat_eq_self)

lemma u8_of_nat_eq: "n < 256 \<Longrightarrow> (b :: u8) = of_nat n \<longleftrightarrow> unat b = n"
  by (auto simp: unat_of_byte)

lemma unat_shift_or:
  assumes "unat (cp :: u32) < 2 ^ 24"
  shows "unat (push_bit 6 cp OR (ucast (b :: u8) AND 0x3F)) = unat cp * 64 + unat b mod 64"
proof -
  have m: "ucast b AND 0x3F = (take_bit 6 (ucast b) :: u32)" by (simp add: take_bit_eq_mask mask_eq_exp_minus_1)
  have "push_bit 6 cp OR take_bit 6 (ucast b) = push_bit 6 cp + take_bit 6 (ucast b)"
    by (rule disjunctive_add_eq_or [symmetric]) (rule bit_word_eqI, auto simp: bit_and_iff bit_push_bit_iff bit_take_bit_iff)
  moreover have "unat (push_bit 6 cp) = unat cp * 64" using assms by (simp add: push_bit_eq_mult unat_word_ariths)
  moreover have "unat (take_bit 6 (ucast b) :: u32) = unat b mod 64"
    unfolding unsigned_take_bit_eq by (simp add: take_bit_eq_mod)
  moreover have "unat b mod 64 < 64" by simp
  ultimately show ?thesis unfolding m using assms by (simp add: unat_word_ariths)
qed


lemma unat_small: "unat (lead AND 0x1F) = unat (lead :: u8) mod 32" "unat (lead AND 0x0F) = unat lead mod 16" "unat (lead AND 0x07) = unat lead mod 8"
  using byte_facts [of lead] by (simp_all add: byte_facts_def)

lemma sequence_kind_eq:
  "sequence_kind lead =
     (if unat lead div 32 = 6 then Some (1, ucast (lead AND 0x1F), 0x80)
      else if unat lead div 16 = 14 then Some (2, ucast (lead AND 0x0F), 0x800)
      else if unat lead div 8 = 30 then Some (3, ucast (lead AND 0x07), 0x10000) else None)"
  using byte_facts [of lead] by (simp add: byte_facts_def sequence_kind_def)

lemma continuation_iff: "b AND 0xC0 = 0x80 \<longleftrightarrow> unat (b :: u8) div 64 = 2"
  using byte_facts [of b] by (simp add: byte_facts_def)

text \<open>A continuation byte is \<open>0x80 + x\<close> with six bits \<open>x\<close>; \<open>from_six\<close> puts them together.\<close>

definition from_six :: "nat \<Rightarrow> nat list \<Rightarrow> nat" where
  "from_six v xs = foldl (\<lambda>v x. v * 64 + x) v xs"

definition cb :: "nat \<Rightarrow> u8" where
  "cb x = of_nat (0x80 + x)"

lemma unat_cb: "x < 64 \<Longrightarrow> unat (cb x) = 0x80 + x"
  unfolding cb_def by (rule unat_of_byte) simp

lemma cb_mod: assumes "x < 64" shows "unat (cb x) mod 64 = x" "unat (cb x) div 64 = 2"
proof -
  have "(64 * 2 + x) mod 64 = x mod 64" "(64 * 2 + x) div 64 = 2 + x div 64" by (rule mod_mult_self4, rule div_mult_self4) simp
  then show "unat (cb x) mod 64 = x" "unat (cb x) div 64 = 2" using assms by (simp_all add: unat_cb)
qed

lemma cb_iff: "unat b div 64 = 2 \<longleftrightarrow> (\<exists>x<64. b = cb x)"
proof
  assume d: "unat b div 64 = 2"
  have "unat b = 64 * (unat b div 64) + unat b mod 64" by simp
  then have "unat b = 0x80 + unat b mod 64" unfolding d by simp
  then have "unat b = unat (cb (unat b mod 64))" by (simp add: unat_cb)
  then have "b = cb (unat b mod 64)" by (simp add: word_unat_eq_iff)
  moreover have "unat b mod 64 < 64" by simp
  ultimately show "\<exists>x<64. b = cb x" by blast
qed (auto simp: cb_mod)

lemma read_continuations_iff:
  "n \<le> 4 \<Longrightarrow> unat cp < 2 ^ (30 - 6 * n) \<Longrightarrow> read_continuations n cp ptr = Some (r, ptr')
    \<longleftrightarrow> (\<exists>xs. length xs = n \<and> (\<forall>x\<in>set xs. x < 64) \<and> ptr = map cb xs @ ptr' \<and> unat r = from_six (unat cp) xs)"
proof (induction n arbitrary: cp ptr)
  case 0
  then show ?case by (auto simp: from_six_def word_unat_eq_iff)
next
  case (Suc n)
  show ?case
  proof (cases ptr)
    case Nil
    then show ?thesis by (auto simp: length_Suc_conv)
  next
    case (Cons b ptr1)
    let ?cp = "push_bit 6 cp OR (ucast b AND 0x3F)"
    have e: "30 - 6 * n = (30 - 6 * Suc n) + 6" using Suc.prems(1) by simp
    have pw: "(2 :: nat) ^ (30 - 6 * n) = 2 ^ (30 - 6 * Suc n) * 64" by (subst e) (simp only: power_add, simp)
    have "(2 :: nat) ^ (30 - 6 * Suc n) \<le> 2 ^ 24" by (rule power_increasing) auto
    then have cp: "unat ?cp = unat cp * 64 + unat b mod 64" using Suc.prems(2) by (intro unat_shift_or) linarith
    then have lt: "unat ?cp < 2 ^ (30 - 6 * n)" using Suc.prems(2) mod_less_divisor [of 64 "unat b"] unfolding pw by linarith
    have IH: "read_continuations n ?cp ptr1 = Some (r, ptr') \<longleftrightarrow> (\<exists>xs. length xs = n \<and> (\<forall>x\<in>set xs. x < 64)
        \<and> ptr1 = map cb xs @ ptr' \<and> unat r = from_six (unat cp * 64 + unat b mod 64) xs)"
      unfolding cp [symmetric] using Suc.prems(1) lt by (intro Suc.IH) auto
    have "read_continuations (Suc n) cp ptr = Some (r, ptr') \<longleftrightarrow> (\<exists>x<64. b = cb x) \<and> read_continuations n ?cp ptr1 = Some (r, ptr')"
      using Cons cb_iff [of b] by (simp add: continuation_iff)
    also have "\<dots> \<longleftrightarrow> (\<exists>x xs. x < 64 \<and> b = cb x \<and> length xs = n \<and> (\<forall>x\<in>set xs. x < 64)
        \<and> ptr1 = map cb xs @ ptr' \<and> unat r = from_six (unat cp * 64 + x) xs)"
      unfolding IH using cb_mod(1) by (auto, blast)
    also have "\<dots> \<longleftrightarrow> (\<exists>xs. length xs = Suc n \<and> (\<forall>x\<in>set xs. x < 64) \<and> ptr = map cb xs @ ptr' \<and> unat r = from_six (unat cp) xs)"
      unfolding Cons length_Suc_conv from_six_def by (intro iffI; elim exE conjE; fastforce)
    finally show ?thesis .
  qed
qed

lemma validate_iff:
  "ValidateMultibyteSequence ptr lead = Some ptr' \<longleftrightarrow>
     (\<exists>n cp0 lo r. sequence_kind lead = Some (n, cp0, lo) \<and> read_continuations n cp0 ptr = Some (r, ptr')
        \<and> unat lo \<le> unat r \<and> scalar_value (unat r))"
  using read_continuations_length
  by (fastforce simp: ValidateMultibyteSequence_def scalar_value_def word_le_nat_alt word_less_nat_alt split: option.splits if_splits)


lemma lead_bits:
  "unat (lead :: u8) div 32 = 6 \<longleftrightarrow> (\<exists>l<32. lead = of_nat (0xC0 + l) \<and> unat (lead AND 0x1F) = l)"
  "unat lead div 16 = 14 \<longleftrightarrow> (\<exists>l<16. lead = of_nat (0xE0 + l) \<and> unat (lead AND 0x0F) = l)"
  "unat lead div 8 = 30 \<longleftrightarrow> (\<exists>l<8. lead = of_nat (0xF0 + l) \<and> unat (lead AND 0x07) = l)"
proof -
  have gen: "unat lead div k = q \<longleftrightarrow> (\<exists>l<k. lead = of_nat (k * q + l) \<and> unat lead mod k = l)" if k: "0 < k" "k * q + k \<le> 256" for k q
  proof
    assume "unat lead div k = q"
    then have "unat lead = k * q + unat lead mod k" by (metis mult_div_mod_eq)
    then have "lead = of_nat (k * q + unat lead mod k)" by (metis of_nat_unat ucast_id)
    then show "\<exists>l<k. lead = of_nat (k * q + l) \<and> unat lead mod k = l" using mod_less_divisor [OF k(1)] by blast
  next
    assume "\<exists>l<k. lead = of_nat (k * q + l) \<and> unat lead mod k = l"
    then obtain l where "l < k" "lead = of_nat (k * q + l)" by blast
    then have "unat lead = k * q + l" using k(2) by (simp only: unat_of_byte)
    then show "unat lead div k = q" using \<open>l < k\<close> by simp
  qed
  show "unat (lead :: u8) div 32 = 6 \<longleftrightarrow> (\<exists>l<32. lead = of_nat (0xC0 + l) \<and> unat (lead AND 0x1F) = l)"
    "unat lead div 16 = 14 \<longleftrightarrow> (\<exists>l<16. lead = of_nat (0xE0 + l) \<and> unat (lead AND 0x0F) = l)"
    "unat lead div 8 = 30 \<longleftrightarrow> (\<exists>l<8. lead = of_nat (0xF0 + l) \<and> unat (lead AND 0x07) = l)"
    using gen [of 32 6] gen [of 16 14] gen [of 8 30] by (simp_all add: unat_small)
qed


lemma from_six_lt: "v < 2 ^ a \<Longrightarrow> \<forall>x\<in>set xs. x < 64 \<Longrightarrow> from_six v xs < 2 ^ (a + 6 * length xs)"
proof (induction xs arbitrary: v a)
  case (Cons x xs)
  have "v * 64 + x < (v + 1) * 64" using Cons.prems by simp
  also have "\<dots> \<le> 2 ^ a * 64" using Cons.prems(1) by (intro mult_le_mono1) simp
  finally have "v * 64 + x < 2 ^ (a + 6)" by (simp add: power_add)
  then have "from_six (v * 64 + x) xs < 2 ^ (a + 6 + 6 * length xs)" using Cons.prems by (intro Cons.IH) auto
  then show ?case by (simp add: from_six_def algebra_simps)
qed (simp add: from_six_def)

lemma validate_kind:
  assumes k: "sequence_kind lead = Some (n, cp0, lo)" "n \<le> 3" "unat cp0 < 32"
  shows "ValidateMultibyteSequence ptr lead = Some ptr' \<longleftrightarrow> (\<exists>xs. length xs = n \<and> (\<forall>x\<in>set xs. x < 64) \<and> ptr = map cb xs @ ptr'
    \<and> unat lo \<le> from_six (unat cp0) xs \<and> scalar_value (from_six (unat cp0) xs))"
proof -
  have "(32 :: nat) = 2 ^ 5" "(2 :: nat) ^ 5 \<le> 2 ^ (30 - 6 * n)" using k(2) by (simp, intro power_increasing) auto
  then have lt: "unat cp0 < 2 ^ (30 - 6 * n)" using k(3) by linarith
  have r: "\<exists>r :: u32. unat r = from_six (unat cp0) xs" if "length xs = n" "\<forall>x\<in>set xs. x < 64" for xs
  proof -
    have "from_six (unat cp0) xs < 2 ^ (5 + 6 * n)" using from_six_lt [of "unat cp0" 5 xs] k(3) that by simp
    also have "(2 :: nat) ^ (5 + 6 * n) \<le> 2 ^ 32" using k(2) by (intro power_increasing) auto
    finally show ?thesis by (intro exI [of _ "of_nat (from_six (unat cp0) xs)"]) (simp add: unat_of_nat take_bit_nat_eq_self)
  qed
  have rc: "read_continuations n cp0 ptr = Some (r, ptr') \<longleftrightarrow> (\<exists>xs. length xs = n \<and> (\<forall>x\<in>set xs. x < 64) \<and> ptr = map cb xs @ ptr'
      \<and> unat r = from_six (unat cp0) xs)" for r using read_continuations_iff [OF _ lt] k(2) by simp
  have "ValidateMultibyteSequence ptr lead = Some ptr' \<longleftrightarrow> (\<exists>r. read_continuations n cp0 ptr = Some (r, ptr') \<and> unat lo \<le> unat r \<and> scalar_value (unat r))"
    unfolding validate_iff k(1) by auto
  then show ?thesis unfolding rc by (metis r)
qed

definition kind_facts :: "u8 \<Rightarrow> bool" where
  "kind_facts lead \<longleftrightarrow> (case sequence_kind lead of None \<Rightarrow> True | Some (n, cp0, lo) \<Rightarrow>
     unat cp0 < 32 \<and> (n = 1 \<and> unat lead = 0xC0 + unat cp0 \<and> lo = 0x80
       \<or> n = 2 \<and> unat cp0 < 16 \<and> unat lead = 0xE0 + unat cp0 \<and> lo = 0x800 \<or> n = 3 \<and> unat cp0 < 8 \<and> unat lead = 0xF0 + unat cp0 \<and> lo = 0x10000))"

lemma kind_facts: "kind_facts lead"
proof -
  have "list_all (\<lambda>n. kind_facts (word_of_nat n)) [0..<256]" by code_simp
  then show ?thesis by (rule u8_allI)
qed

lemma kind_of_lead:
  "l < 32 \<Longrightarrow> sequence_kind (of_nat (0xC0 + l)) = Some (1, of_nat l, 0x80)"
  "l < 16 \<Longrightarrow> sequence_kind (of_nat (0xE0 + l)) = Some (2, of_nat l, 0x800)"
  "l < 8 \<Longrightarrow> sequence_kind (of_nat (0xF0 + l)) = Some (3, of_nat l, 0x10000)"
proof -
  have "list_all (\<lambda>l. sequence_kind (of_nat (0xC0 + l)) = Some (1, of_nat l, 0x80)) [0..<32]"
    "list_all (\<lambda>l. sequence_kind (of_nat (0xE0 + l)) = Some (2, of_nat l, 0x800)) [0..<16]"
    "list_all (\<lambda>l. sequence_kind (of_nat (0xF0 + l)) = Some (3, of_nat l, 0x10000)) [0..<8]" by code_simp+
  then show "l < 32 \<Longrightarrow> sequence_kind (of_nat (0xC0 + l)) = Some (1, of_nat l, 0x80)"
    "l < 16 \<Longrightarrow> sequence_kind (of_nat (0xE0 + l)) = Some (2, of_nat l, 0x800)"
    "l < 8 \<Longrightarrow> sequence_kind (of_nat (0xF0 + l)) = Some (3, of_nat l, 0x10000)"
    unfolding list_all_iff set_upt by auto
qed

text \<open>The encoding of the code point that three digits to the base 64 after a leading one make.\<close>

lemma div_4096: "(m :: nat) div 4096 = m div 64 div 64" and div_262144: "(m :: nat) div 262144 = m div 64 div 64 div 64"
  by (simp_all flip: div_mult2_eq)

lemma encode_2: "x < 64 \<Longrightarrow> 0x80 \<le> l * 64 + x \<Longrightarrow> l < 32 \<Longrightarrow> utf8_encode (l * 64 + x) = [of_nat (0xC0 + l), cb x]"
  by (simp add: utf8_encode_def cb_def)

lemma encode_3:
  assumes "x < 64" "y < 64" "0x800 \<le> (l * 64 + x) * 64 + y" "l < 16"
  shows "utf8_encode ((l * 64 + x) * 64 + y) = [of_nat (0xE0 + l), cb x, cb y]"
proof -
  define u where "u = l * 64 + x"
  have "u div 64 = l" "u mod 64 = x" "u < 1024" using assms by (simp_all add: u_def)
  moreover have "(u * 64 + y) div 64 = u" "(u * 64 + y) mod 64 = y" using assms by simp_all
  ultimately show ?thesis using assms(3) unfolding u_def [symmetric] by (simp add: utf8_encode_def cb_def div_4096)
qed

lemma encode_4:
  assumes "x < 64" "y < 64" "z < 64" "0x10000 \<le> ((l * 64 + x) * 64 + y) * 64 + z"
  shows "utf8_encode (((l * 64 + x) * 64 + y) * 64 + z) = [of_nat (0xF0 + l), cb x, cb y, cb z]"
proof -
  define u where "u = l * 64 + x"
  define w where "w = u * 64 + y"
  have "u div 64 = l" "u mod 64 = x" using assms by (simp_all add: u_def)
  moreover have "w div 64 = u" "w mod 64 = y" using assms by (simp_all add: w_def)
  moreover have "(w * 64 + z) div 64 = w" "(w * 64 + z) mod 64 = z" using assms by simp_all
  ultimately show ?thesis using assms(4) unfolding u_def [symmetric] w_def [symmetric]
    by (simp add: utf8_encode_def cb_def div_4096 div_262144)
qed

lemma multibyte_sound:
  assumes v: "ValidateMultibyteSequence ptr lead = Some ptr'"
  shows "\<exists>cp. scalar_value cp \<and> 0x80 \<le> cp \<and> lead # ptr = utf8_encode cp @ ptr'"
proof -
  obtain n cp0 lo where k: "sequence_kind lead = Some (n, cp0, lo)" using v by (auto simp: validate_iff)
  define l where "l = unat cp0"
  note f = kind_facts [of lead, unfolded kind_facts_def k, simplified, folded l_def]
  have n3: "n \<le> 3" "unat cp0 < 32" using f by (auto simp: l_def)
  obtain xs where xs: "length xs = n" "\<forall>x\<in>set xs. x < 64" "ptr = map cb xs @ ptr'" "unat lo \<le> from_six l xs" "scalar_value (from_six l xs)"
    using v validate_kind [OF k n3] by (auto simp: l_def)
  have lead: "lead = of_nat m" if "unat lead = m" for m using that by (metis of_nat_unat ucast_id)
  have "lead # map cb xs = utf8_encode (from_six l xs) \<and> 0x80 \<le> from_six l xs"
  proof -
    consider (1) "n = 1" "unat lead = 0xC0 + l" "lo = 0x80" "l < 32" | (2) "n = 2" "unat lead = 0xE0 + l" "lo = 0x800" "l < 16"
      | (3) "n = 3" "unat lead = 0xF0 + l" "lo = 0x10000" using f by auto
    then show ?thesis
    proof cases
    case n: 1
    then obtain x where "xs = [x]" using xs(1) by (auto simp: length_Suc_conv)
    then show ?thesis using xs n encode_2 [of x l] lead by (simp add: from_six_def)
  next
    case n: 2
    then obtain x y where "xs = [x, y]" using xs(1) by (auto simp: length_Suc_conv numeral_eq_Suc)
    then show ?thesis using xs n encode_3 [of x y l] lead by (simp add: from_six_def)
  next
    case n: 3
    then obtain x y z where "xs = [x, y, z]" using xs(1) by (auto simp: length_Suc_conv numeral_eq_Suc)
    then show ?thesis using xs n encode_4 [of x y z l] lead by (simp add: from_six_def)
    qed
  qed
  then show ?thesis using xs by (intro exI [of _ "from_six l xs"]) auto
qed

lemma validate_built:
  assumes "sequence_kind lead = Some (length xs, of_nat l, lo)" "length xs \<le> 3" "l < 32" "\<forall>x\<in>set xs. x < 64" "unat lo \<le> from_six l xs"
    "scalar_value (from_six l xs)"
  shows "ValidateMultibyteSequence (map cb xs @ ptr) lead = Some ptr"
proof -
  have "unat (of_nat l :: u32) = l" using assms(3) by (simp add: unat_of_nat take_bit_nat_eq_self)
  then show ?thesis using validate_kind [OF assms(1, 2), of "map cb xs @ ptr" ptr] assms by auto
qed

lemma multibyte_complete:
  assumes cp: "scalar_value cp" "0x80 \<le> cp"
  shows "\<exists>lead bs. utf8_encode cp = lead # bs \<and> ValidateMultibyteSequence (bs @ ptr) lead = Some ptr"
proof -
  have top: "cp \<le> 0x10FFFF" using cp(1) by (simp add: scalar_value_def)
  have digits: "cp = cp div 64 * 64 + cp mod 64" "cp div 64 = cp div 4096 * 64 + cp div 64 mod 64"
    "cp div 4096 = cp div 262144 * 64 + cp div 4096 mod 64" unfolding div_4096 div_262144 by simp_all
  consider (2) "cp < 0x800" | (3) "0x800 \<le> cp" "cp < 0x10000" | (4) "0x10000 \<le> cp" by linarith
  then show ?thesis
  proof cases
    case 2
    have l: "cp div 64 < 32" using 2 by (simp add: div_less_iff_less_mult)
    have "from_six (cp div 64) [cp mod 64] = cp" by (simp add: from_six_def)
    then have "ValidateMultibyteSequence (map cb [cp mod 64] @ ptr) (of_nat (0xC0 + cp div 64)) = Some ptr"
      using kind_of_lead(1) [OF l] cp l by (intro validate_built [where l = "cp div 64" and lo = "0x80"]) auto
    then show ?thesis using 2 cp by (simp add: utf8_encode_def cb_def)
  next
    case 3
    have l: "cp div 4096 < 16" using 3 by (simp add: div_less_iff_less_mult)
    have "from_six (cp div 4096) [cp div 64 mod 64, cp mod 64] = cp" by (simp only: from_six_def foldl.simps digits [symmetric])
    then have "ValidateMultibyteSequence (map cb [cp div 64 mod 64, cp mod 64] @ ptr) (of_nat (0xE0 + cp div 4096)) = Some ptr"
      using kind_of_lead(2) [OF l] cp l 3 by (intro validate_built [where l = "cp div 4096" and lo = "0x800"]) simp_all
    then show ?thesis using 3 cp by (simp add: utf8_encode_def cb_def)
  next
    case 4
    have l: "cp div 262144 < 8" using top by (simp add: div_less_iff_less_mult)
    have "from_six (cp div 262144) [cp div 4096 mod 64, cp div 64 mod 64, cp mod 64] = cp" by (simp only: from_six_def foldl.simps digits [symmetric])
    then have "ValidateMultibyteSequence (map cb [cp div 4096 mod 64, cp div 64 mod 64, cp mod 64] @ ptr) (of_nat (0xF0 + cp div 262144)) = Some ptr"
      using kind_of_lead(3) [OF l] cp l 4 by (intro validate_built [where l = "cp div 262144" and lo = "0x10000"]) simp_all
    then show ?thesis using 4 cp by (simp add: utf8_encode_def cb_def)
  qed
qed


section \<open>The validator accepts exactly the encodings\<close>

lemma small_byte: "(b :: u8) \<le> 0x7F \<longleftrightarrow> unat b < 128" "bit b 7 \<longleftrightarrow> \<not> unat b < 128" "b < 0x80 \<longleftrightarrow> unat b < 128"
proof -
  show "b \<le> 0x7F \<longleftrightarrow> unat b < 128" "b < 0x80 \<longleftrightarrow> unat b < 128" by (simp_all add: word_le_nat_alt word_less_nat_alt less_Suc_eq_le [symmetric])
  have "bit b 7 = (128 \<le> unat b)" using byte_facts [of b] by (simp only: byte_facts_def)
  then show "bit b 7 \<longleftrightarrow> \<not> unat b < 128" by linarith
qed

definition well_encoded :: "bytes \<Rightarrow> bool" where
  "well_encoded bs \<longleftrightarrow> (\<exists>cps. (\<forall>cp\<in>set cps. scalar_value cp) \<and> bs = concat (map utf8_encode cps))"

lemma encode_first: "scalar_value cp \<Longrightarrow> cp < 0x80 \<and> utf8_encode cp = [of_nat cp] \<and> unat (of_nat cp :: u8) = cp
   \<or> 0x80 \<le> cp \<and> (\<exists>lead bs. utf8_encode cp = lead # bs \<and> \<not> unat lead < 128)"
proof (cases "cp < 0x80")
  case True
  then show ?thesis by (simp add: utf8_encode_def unat_of_byte)
next
  case False
  assume "scalar_value cp"
  then obtain lead bs where l: "utf8_encode cp = lead # bs" "ValidateMultibyteSequence (bs @ []) lead = Some []" using multibyte_complete False by (meson not_less)
  then obtain k where "sequence_kind lead = Some k" by (auto simp: validate_iff)
  then have "\<not> unat lead < 128" using kind_facts [of lead] by (auto simp: kind_facts_def)
  then show ?thesis using False l by auto
qed

lemma well_encoded_Cons:
  "well_encoded (b # bs) \<longleftrightarrow> (if unat b < 128 then well_encoded bs
     else \<exists>rest. ValidateMultibyteSequence bs b = Some rest \<and> well_encoded rest)" (is "_ \<longleftrightarrow> ?r")
proof
  assume "well_encoded (b # bs)"
  then obtain cps where c: "\<forall>cp\<in>set cps. scalar_value cp" "b # bs = concat (map utf8_encode cps)" by (auto simp: well_encoded_def)
  then obtain cp cps' where cps: "cps = cp # cps'" by (cases cps) auto
  have rest: "well_encoded (concat (map utf8_encode cps'))" using c cps by (auto simp: well_encoded_def)
  have sv: "scalar_value cp" using c cps by simp
  show ?r
  proof (cases "cp < 0x80")
    case True
    then show ?thesis using encode_first [OF sv] c cps rest by auto
  next
    case False
    obtain lead ys where e: "utf8_encode cp = lead # ys" "ValidateMultibyteSequence (ys @ concat (map utf8_encode cps')) lead = Some (concat (map utf8_encode cps'))"
      using multibyte_complete [OF sv] False by (meson not_less)
    then show ?thesis using encode_first [OF sv] False c cps rest by auto
  qed
next
  assume r: ?r
  show "well_encoded (b # bs)"
  proof (cases "unat b < 128")
    case True
    then obtain cps where c: "\<forall>cp\<in>set cps. scalar_value cp" "bs = concat (map utf8_encode cps)" using r by (auto simp: well_encoded_def)
    have "scalar_value (unat b)" "utf8_encode (unat b) = [b]" using True by (simp_all add: scalar_value_def utf8_encode_def)
    then show ?thesis using c unfolding well_encoded_def by (intro exI [of _ "unat b # cps"]) simp
  next
    case False
    then obtain rest where v: "ValidateMultibyteSequence bs b = Some rest" "well_encoded rest" using r by auto
    obtain cp where "scalar_value cp" "b # bs = utf8_encode cp @ rest" using multibyte_sound [OF v(1)] by blast
    moreover obtain cps where "\<forall>cp\<in>set cps. scalar_value cp" "rest = concat (map utf8_encode cps)" using v(2) by (auto simp: well_encoded_def)
    ultimately show ?thesis unfolding well_encoded_def by (intro exI [of _ "cp # cps"]) simp
  qed
qed

lemma well_encoded_Nil: "well_encoded []"
  by (auto simp: well_encoded_def intro: exI [of _ "[]"])

lemma utf8_tail_iff: "utf8_tail bs \<longleftrightarrow> well_encoded bs"
proof (induction bs rule: utf8_tail.induct)
  case 1
  show ?case by (simp add: well_encoded_Nil)
next
  case (2 b bs)
  then show ?case by (auto simp: well_encoded_Cons small_byte split: option.split)
qed

lemma well_encoded_skip: "list_all (\<lambda>b. unat b < 128) xs \<Longrightarrow> well_encoded (xs @ ys) \<longleftrightarrow> well_encoded ys"
  by (induction xs) (auto simp: well_encoded_Cons)

lemma well_encoded_next: "list_all (\<lambda>b. unat b < 128) xs \<Longrightarrow> \<not> unat b < 128 \<Longrightarrow>
   well_encoded (xs @ b # ys) \<longleftrightarrow> (\<exists>rest. ValidateMultibyteSequence ys b = Some rest \<and> well_encoded rest)"
  by (simp add: well_encoded_skip well_encoded_Cons)


lemma utf8_sse2_iff: "utf8_sse2 ptr \<longleftrightarrow> well_encoded ptr"
proof (induction ptr rule: utf8_sse2.induct)
  case (1 ptr)
  let ?mask = "movemask (take 16 ptr)" and ?k = "length (takeWhile Not (movemask (take 16 ptr)))"
  consider (tail) "length ptr < 16" | (skip) "16 \<le> length ptr" "True \<notin> set ?mask" | (seq) "16 \<le> length ptr" "True \<in> set ?mask" by linarith
  then show ?case
  proof cases
    case tail
    then show ?thesis by (simp add: utf8_sse2.simps [of ptr] utf8_tail_iff)
  next
    case skip
    then have "list_all (\<lambda>b. unat b < 128) (take 16 ptr)" by (auto simp: list_all_iff movemask_def small_byte)
    then have "well_encoded ptr \<longleftrightarrow> well_encoded (drop 16 ptr)" using well_encoded_skip [of "take 16 ptr" "drop 16 ptr"] by simp
    then show ?thesis using skip 1(1) by (simp add: utf8_sse2.simps [of ptr])
  next
    case seq
    have tw: "takeWhile Not (map f xs) = map f (takeWhile (\<lambda>x. \<not> f x) xs)" for f and xs :: bytes by (induction xs) simp_all
    let ?pre = "takeWhile (\<lambda>b. unat b < 128) (take 16 ptr)"
    have k: "?k = length ?pre" by (simp add: movemask_def tw small_byte)
    obtain b ys where d: "dropWhile (\<lambda>b. unat b < 128) (take 16 ptr) = b # ys" "\<not> unat b < 128"
      using seq(2) by (cases "dropWhile (\<lambda>b. unat b < 128) (take 16 ptr)")
        (auto simp: movemask_def small_byte dropWhile_eq_Nil_conv dropWhile_eq_Cons_conv)
    have ptr: "ptr = ?pre @ b # ys @ drop 16 ptr" using takeWhile_dropWhile_id [of "\<lambda>b. unat b < 128" "take 16 ptr"] d(1) by (metis append_Cons append_assoc append_take_drop_id)
    then have dk: "drop ?k ptr = b # ys @ drop 16 ptr" unfolding k by (metis append_eq_conv_conj)
    have "list_all (\<lambda>b. unat b < 128) ?pre" by (auto simp: list_all_iff dest: set_takeWhileD)
    then have "well_encoded ptr \<longleftrightarrow> (\<exists>rest. ValidateMultibyteSequence (ys @ drop 16 ptr) b = Some rest \<and> well_encoded rest)"
      using well_encoded_next [OF _ d(2)] ptr by metis
    then show ?thesis using seq 1(2) [OF seq(1) refl _ refl] dk by (auto simp: utf8_sse2.simps [of ptr] Let_def split: option.split)
  qed
qed

lemma utf8_neon_iff: "utf8_neon ptr \<longleftrightarrow> well_encoded ptr"
proof (induction ptr rule: utf8_neon.induct)
  case (1 ptr)
  consider (tail) "length ptr < 16" | (skip) "16 \<le> length ptr" "Max (set (take 16 ptr)) < 0x80" | (seq) "16 \<le> length ptr" "\<not> Max (set (take 16 ptr)) < 0x80"
    by linarith
  then show ?case
  proof cases
    case tail
    then show ?thesis by (simp add: utf8_neon.simps [of ptr] utf8_tail_iff)
  next
    case skip
    have "set (take 16 ptr) \<noteq> {}" using skip(1) by auto
    then have "list_all (\<lambda>b. unat b < 128) (take 16 ptr)" using skip(2) by (simp add: list_all_iff small_byte(3) [symmetric])
    then have "well_encoded ptr \<longleftrightarrow> well_encoded (drop 16 ptr)" using well_encoded_skip [of "take 16 ptr" "drop 16 ptr"] by simp
    then show ?thesis using skip 1(1) by (simp add: utf8_neon.simps [of ptr])
  next
    case seq
    let ?rest = "dropWhile (\<lambda>b. b \<le> 0x7F) ptr" and ?pre = "takeWhile (\<lambda>b. b \<le> 0x7F) ptr"
    have pre: "list_all (\<lambda>b. unat b < 128) ?pre" by (auto simp: list_all_iff small_byte(1) [symmetric] dest: set_takeWhileD)
    have ptr: "ptr = ?pre @ ?rest" by simp
    show ?thesis
    proof (cases ?rest)
      case Nil
      then have "well_encoded ptr \<longleftrightarrow> well_encoded []" using well_encoded_skip [OF pre, of "[]"] ptr by metis
      then show ?thesis using seq by (simp only: utf8_neon.simps [of ptr] Nil Let_def if_True if_False utf8_tail_iff simp_thms)
    next
      case (Cons b ys)
      then have b: "\<not> unat b < 128" by (metis dropWhile_eq_Cons_conv small_byte(1))
      have "well_encoded ptr \<longleftrightarrow> (\<exists>rest. ValidateMultibyteSequence ys b = Some rest \<and> well_encoded rest)"
        using well_encoded_next [OF pre b, of ys] Cons ptr by metis
      then show ?thesis using seq 1(2) [OF seq(1) _ refl] Cons by (auto simp: utf8_neon.simps [of ptr] Let_def split: option.split)
    qed
  qed
qed

lemma ValidateUtf8_iff: "ValidateUtf8 path bs \<longleftrightarrow> well_encoded bs"
  by (cases path) (auto simp: ValidateUtf8_def utf8_sse2_iff utf8_neon_iff utf8_tail_iff well_encoded_Nil)

text \<open>
  C30. The validator accepts exactly the well-formed texts, on every machine: a message passes the SSE2, the NEON or the scalar loop if and only if it is a
  sequence of Unicode scalar values (no surrogates, nothing above U+10FFFF) in their shortest UTF-8 encoding.
\<close>

theorem validate_utf8_correct:
  "ValidateUtf8 path bs \<longleftrightarrow> (\<exists>cps. list_all (\<lambda>cp. cp \<le> 0x10FFFF \<and> \<not> (0xD800 \<le> cp \<and> cp \<le> 0xDFFF)) cps \<and> bs = concat (map utf8_encode cps))"
  by (simp add: ValidateUtf8_iff well_encoded_def scalar_value_def list_all_iff)

end
