(* ===== verification/Ws_Handler.thy ===== *)
theory Ws_Handler
  imports Ws_Frame Ws_Utf8
begin

text \<open>
  The WebSocket protocol handler, \<^verbatim>\<open>websocket-handler.hpp\<close> and \<^verbatim>\<open>websocket-handler.cpp\<close>: the state of one connection,
  the frame handlers, the reassembly of messages, the closing handshake and the sending operations. A callback that is set is recorded
  as an event; what an application does inside a callback is not part of the model. The permessage-deflate context wraps zlib, so its two
  operations are a parameter, a record \<open>Deflate\<close> of functions on a state of any type.
\<close>

section \<open>State\<close>

record 'z Deflate =
  compress :: "'z \<Rightarrow> bytes \<Rightarrow> 'z \<times> bytes option"
  decompress :: "'z \<Rightarrow> bytes \<Rightarrow> nat \<Rightarrow> 'z \<times> bytes option"

text \<open>The platform: the vector paths compiled in, zlib, and the clock at the time of the call.\<close>

record 'z Env =
  simdPath :: Simd
  utf8Path :: Utf8Path
  deflate :: "'z Deflate"
  clock :: int

record WebSocketConfig =
  maxMessageSize :: nat
  maxFrameSize :: nat
  closeTimeout :: int
  minCompressSize :: nat
  isServerSide :: bool

record WebSocketCallbacks =
  onMessage :: bool
  onPing :: bool
  onPong :: bool
  onClose :: bool
  onError :: bool

datatype WsEvent = EvMessage bytes bool | EvPing bytes | EvPong bytes | EvClose CloseCode bytes | EvError CloseCode string

datatype CloseState = Cl_Open | Cl_CloseSent | Cl_CloseReceived | Cl_Closed

record 'z WebSocketHandler =
  config :: WebSocketConfig
  wsCallbacks :: WebSocketCallbacks
  deflateContext :: "'z option"
  closeInitiatedAt :: int
  wsOutput :: bytes
  wsOutputOffset :: nat
  msgBuffer :: bytes
  msgOpcode :: Opcode
  msgInProgress :: bool
  inputBuffer :: bytes
  inputBufferOffset :: nat
  rngState :: u64
  lastCloseCode :: CloseCode
  closeState :: CloseState
  messageCompressed :: bool
  wsEvents :: "WsEvent list"

definition newWebSocketHandler :: "WebSocketConfig \<Rightarrow> WebSocketCallbacks \<Rightarrow> 'z option \<Rightarrow> u64 \<Rightarrow> 'z WebSocketHandler" where
  "newWebSocketHandler cfg cbs ctx seed =
     \<lparr>config = cfg, wsCallbacks = cbs, deflateContext = ctx, closeInitiatedAt = 0, wsOutput = [], wsOutputOffset = 0,
      msgBuffer = [], msgOpcode = OpText, msgInProgress = False, inputBuffer = [], inputBufferOffset = 0,
      rngState = (if isServerSide cfg then 0 else seed), lastCloseCode = CC_Normal, closeState = Cl_Open,
      messageCompressed = False, wsEvents = []\<rparr>"

definition emit_if :: "bool \<Rightarrow> WsEvent \<Rightarrow> 'z WebSocketHandler \<Rightarrow> 'z WebSocketHandler" where
  "emit_if isSet ev h = (if isSet then h\<lparr>wsEvents := wsEvents h @ [ev]\<rparr> else h)"

definition setCallbacks :: "'z WebSocketHandler \<Rightarrow> WebSocketCallbacks \<Rightarrow> 'z WebSocketHandler" where
  "setCallbacks h cbs = h\<lparr>wsCallbacks := cbs\<rparr>"

definition isClosing :: "'z WebSocketHandler \<Rightarrow> bool" where
  "isClosing h \<longleftrightarrow> closeState h \<noteq> Cl_Open"

definition isCloseComplete :: "'z WebSocketHandler \<Rightarrow> bool" where
  "isCloseComplete h \<longleftrightarrow> closeState h = Cl_Closed"

section \<open>Sending\<close>

text \<open>\<^verbatim>\<open>GenerateMaskingKey\<close>, the splitmix64 generator: the new state and the key.\<close>

definition GenerateMaskingKey :: "u64 \<Rightarrow> u64 \<times> MaskingKey" where
  "GenerateMaskingKey rng =
     (let rng' = rng + 0x9e3779b97f4a7c15;
          v1 = (rng' XOR drop_bit 30 rng') * 0xbf58476d1ce4e5b9;
          v2 = (v1 XOR drop_bit 27 v1) * 0x94d049bb133111eb;
          v3 = v2 XOR drop_bit 31 v2
      in (rng', ucast v3))"

text \<open>The key of the next frame: a client draws one, a server uses none.\<close>

definition next_key :: "'z WebSocketHandler \<Rightarrow> 'z WebSocketHandler \<times> MaskingKey" where
  "next_key h =
     (if isServerSide (config h) then (h, 0)
      else (let (rng, key) = GenerateMaskingKey (rngState h) in (h\<lparr>rngState := rng\<rparr>, key)))"

definition queueFrame :: "'z Env \<Rightarrow> 'z WebSocketHandler \<Rightarrow> Opcode \<Rightarrow> bytes \<Rightarrow> bool \<Rightarrow> 'z WebSocketHandler" where
  "queueFrame env h opc pl isFin =
     (let (h1, key) = next_key h
      in h1\<lparr>wsOutput := BuildFrame (simdPath env) (wsOutput h1) opc pl isFin (\<not> isServerSide (config h)) key False\<rparr>)"

definition ws_sendData :: "'z Env \<Rightarrow> 'z WebSocketHandler \<Rightarrow> Opcode \<Rightarrow> bytes \<Rightarrow> bool \<times> 'z WebSocketHandler" where
  "ws_sendData env h opc pl =
     (if closeState h \<noteq> Cl_Open then (False, h)
      else case deflateContext h of
             None \<Rightarrow> (True, queueFrame env h opc pl True)
           | Some ctx \<Rightarrow>
               if length pl < minCompressSize (config h) then (True, queueFrame env h opc pl True)
               else
                 (let (ctx', res) = compress (deflate env) ctx pl; h1 = h\<lparr>deflateContext := Some ctx'\<rparr>
                  in case res of
                       Some out \<Rightarrow>
                         if length out < length pl then
                           (let (h2, key) = next_key h1
                            in (True, h2\<lparr>wsOutput := BuildFrame (simdPath env) (wsOutput h2) opc out True
                                           (\<not> isServerSide (config h)) key True\<rparr>))
                         else (True, queueFrame env h1 opc pl True)
                     | None \<Rightarrow> (True, queueFrame env h1 opc pl True)))"

definition sendText :: "'z Env \<Rightarrow> 'z WebSocketHandler \<Rightarrow> bytes \<Rightarrow> bool \<times> 'z WebSocketHandler" where
  "sendText env h text = ws_sendData env h OpText text"

definition sendBinary :: "'z Env \<Rightarrow> 'z WebSocketHandler \<Rightarrow> bytes \<Rightarrow> bool \<times> 'z WebSocketHandler" where
  "sendBinary env h data = ws_sendData env h OpBinary data"

definition sendPing :: "'z Env \<Rightarrow> 'z WebSocketHandler \<Rightarrow> bytes \<Rightarrow> bool \<times> 'z WebSocketHandler" where
  "sendPing env h pl =
     (if closeState h \<noteq> Cl_Open then (False, h)
      else (True, queueFrame env h OpPing (take kMaxControlFramePayload pl) True))"

definition sendPong :: "'z Env \<Rightarrow> 'z WebSocketHandler \<Rightarrow> bytes \<Rightarrow> bool \<times> 'z WebSocketHandler" where
  "sendPong env h pl =
     (if closeState h = Cl_Closed then (False, h)
      else (True, queueFrame env h OpPong (take kMaxControlFramePayload pl) True))"

definition sendClose :: "'z Env \<Rightarrow> 'z WebSocketHandler \<Rightarrow> CloseCode \<Rightarrow> bytes \<Rightarrow> bool \<times> 'z WebSocketHandler" where
  "sendClose env h code reason =
     (if closeState h = Cl_CloseSent \<or> closeState h = Cl_Closed then (False, h)
      else
        (let (h1, key) = next_key h;
             h2 = h1\<lparr>wsOutput := BuildCloseFrame (simdPath env) (wsOutput h1) code reason (\<not> isServerSide (config h)) key\<rparr>;
             h3 = (if closeState h2 = Cl_Open then h2\<lparr>closeState := Cl_CloseSent, closeInitiatedAt := clock env\<rparr> else h2)
         in (True, h3\<lparr>lastCloseCode := code\<rparr>)))"

definition initiateClose :: "'z Env \<Rightarrow> 'z WebSocketHandler \<Rightarrow> 'z WebSocketHandler" where
  "initiateClose env h =
     (if closeState h = Cl_Open then snd (sendClose env h CC_GoingAway (bytes_of ''Server shutting down'')) else h)"

definition onTransportClosing :: "'z WebSocketHandler \<Rightarrow> 'z WebSocketHandler" where
  "onTransportClosing h = h\<lparr>closeState := Cl_Closed, msgInProgress := False, msgBuffer := [], inputBuffer := [], inputBufferOffset := 0\<rparr>"

definition hasCloseTimedOut :: "'z Env \<Rightarrow> 'z WebSocketHandler \<Rightarrow> bool" where
  "hasCloseTimedOut env h \<longleftrightarrow> closeState h = Cl_CloseSent \<and> clock env - closeInitiatedAt h > closeTimeout (config h)"

definition forceCloseOnTimeout :: "'z WebSocketHandler \<Rightarrow> 'z WebSocketHandler" where
  "forceCloseOnTimeout h = (if closeState h = Cl_CloseSent then h\<lparr>closeState := Cl_Closed\<rparr> else h)"

definition ws_getPendingOutput :: "'z WebSocketHandler \<Rightarrow> bytes" where
  "ws_getPendingOutput h = drop (wsOutputOffset h) (wsOutput h)"

definition ws_onOutputWritten :: "'z WebSocketHandler \<Rightarrow> nat \<Rightarrow> 'z WebSocketHandler" where
  "ws_onOutputWritten h bytesWritten =
     (let off = wsOutputOffset h + bytesWritten in
      if off \<ge> length (wsOutput h) then h\<lparr>wsOutput := [], wsOutputOffset := 0\<rparr> else h\<lparr>wsOutputOffset := off\<rparr>)"

definition ws_drainOutputBuffer :: "'z WebSocketHandler \<Rightarrow> bytes \<Rightarrow> bool \<times> 'z WebSocketHandler \<times> bytes" where
  "ws_drainOutputBuffer h dest =
     (if wsOutputOffset h \<ge> length (wsOutput h) then (False, h, dest)
      else if wsOutputOffset h = 0 \<and> dest = [] then (True, h\<lparr>wsOutput := []\<rparr>, wsOutput h)
      else (let pending = ws_getPendingOutput h in (True, ws_onOutputWritten h (length pending), dest @ pending)))"

section \<open>Receiving\<close>

datatype WsAction = WA_Continue | WA_ResponseReady | WA_Close

text \<open>The steps every violation takes: report it, start the closing handshake, ask for the connection to be closed.\<close>

definition fail_with :: "'z Env \<Rightarrow> 'z WebSocketHandler \<Rightarrow> CloseCode \<Rightarrow> string \<Rightarrow> WsAction \<times> 'z WebSocketHandler" where
  "fail_with env h code msg =
     (WA_Close, snd (sendClose env (emit_if (onError (wsCallbacks h)) (EvError code msg) h) code (bytes_of msg)))"

definition reset_message :: "'z WebSocketHandler \<Rightarrow> 'z WebSocketHandler" where
  "reset_message h = h\<lparr>msgInProgress := False, msgBuffer := [], messageCompressed := False\<rparr>"

definition message_data :: "'z Env \<Rightarrow> 'z WebSocketHandler \<Rightarrow> bytes option \<times> 'z WebSocketHandler" where
  "message_data env h =
     (case deflateContext h of
        None \<Rightarrow> (Some (msgBuffer h), h)
      | Some ctx \<Rightarrow>
          if \<not> messageCompressed h then (Some (msgBuffer h), h)
          else (let (ctx', res) = decompress (deflate env) ctx (msgBuffer h) (maxMessageSize (config h))
                in (res, h\<lparr>deflateContext := Some ctx'\<rparr>)))"

definition completeMessage :: "'z Env \<Rightarrow> 'z WebSocketHandler \<Rightarrow> WsAction \<times> 'z WebSocketHandler" where
  "completeMessage env h =
     (let (messageData, h1) = message_data env h in
      case messageData of
        None \<Rightarrow> map_prod id reset_message (fail_with env h1 CC_InvalidPayloadData ''Decompression failed'')
      | Some dat \<Rightarrow>
          if msgOpcode h1 = OpText \<and> \<not> ValidateUtf8 (utf8Path env) dat
          then map_prod id reset_message (fail_with env h1 CC_InvalidPayloadData ''Invalid UTF-8 in text message'')
          else (WA_Continue, reset_message (emit_if (onMessage (wsCallbacks h1)) (EvMessage dat (msgOpcode h1 = OpBinary)) h1)))"

definition unmask :: "'z Env \<Rightarrow> WsFrameHeader \<Rightarrow> bytes \<Rightarrow> bytes" where
  "unmask env fh pl = (if masked fh \<and> pl \<noteq> [] then ApplyMask (simdPath env) pl (maskingKey fh) else pl)"

text \<open>The end of \<^verbatim>\<open>handleDataFrame\<close>, for fragmented or compressed messages.\<close>

definition append_fragment :: "'z Env \<Rightarrow> 'z WebSocketHandler \<Rightarrow> WsFrameHeader \<Rightarrow> bytes \<Rightarrow> WsAction \<times> 'z WebSocketHandler" where
  "append_fragment env h fh pl =
     (if maxMessageSize (config h) > 0 \<and> length (msgBuffer h) + length pl > maxMessageSize (config h) then
        (let (act, h1) = fail_with env h CC_MessageTooBig ''Message too large'' in (act, h1\<lparr>msgInProgress := False, msgBuffer := []\<rparr>))
      else
        (let h1 = h\<lparr>msgBuffer := msgBuffer h @ unmask env fh pl\<rparr>
         in if fin fh then completeMessage env h1 else (WA_Continue, h1)))"

definition ws_handleDataFrame :: "'z Env \<Rightarrow> 'z WebSocketHandler \<Rightarrow> WsFrameHeader \<Rightarrow> bytes \<Rightarrow> WsAction \<times> 'z WebSocketHandler" where
  "ws_handleDataFrame env h fh pl =
     (if opcode fh = OpContinuation then
        (if \<not> msgInProgress h then fail_with env h CC_ProtocolError ''Unexpected continuation frame''
         else append_fragment env h fh pl)
      else if msgInProgress h then fail_with env h CC_ProtocolError ''Expected continuation frame''
      else if fin fh \<and> deflateContext h = None then
        (if maxMessageSize (config h) > 0 \<and> length pl > maxMessageSize (config h)
         then fail_with env h CC_MessageTooBig ''Message too large''
         else
           (let dat = unmask env fh pl in
            if opcode fh = OpText \<and> \<not> ValidateUtf8 (utf8Path env) dat
            then fail_with env h CC_InvalidPayloadData ''Invalid UTF-8 in text message''
            else (WA_Continue, emit_if (onMessage (wsCallbacks h)) (EvMessage dat (opcode fh = OpBinary)) h)))
      else
        append_fragment env (h\<lparr>msgOpcode := opcode fh, msgInProgress := True, msgBuffer := [], messageCompressed := rsv1 fh\<rparr>) fh pl)"

definition ws_handleControlFrame :: "'z Env \<Rightarrow> 'z WebSocketHandler \<Rightarrow> WsFrameHeader \<Rightarrow> bytes \<Rightarrow> WsAction \<times> 'z WebSocketHandler" where
  "ws_handleControlFrame env h fh pl =
     (case opcode fh of
        OpPing \<Rightarrow>
          (let h1 = snd (sendPong env h pl) in (WA_ResponseReady, emit_if (onPing (wsCallbacks h1)) (EvPing pl) h1))
      | OpPong \<Rightarrow> (WA_Continue, emit_if (onPong (wsCallbacks h)) (EvPong pl) h)
      | _ \<Rightarrow>
          (let info = ParseClosePayload pl;
               (act, h1) =
                 (if closeState h = Cl_Open then
                    (let h2 = snd (sendClose env (h\<lparr>closeState := Cl_CloseReceived, lastCloseCode := closeCode info\<rparr>)
                                     (closeCode info) (closeReason info))
                     in (WA_ResponseReady, h2\<lparr>closeState := Cl_Closed\<rparr>))
                  else if closeState h = Cl_CloseSent then (WA_Close, h\<lparr>closeState := Cl_Closed\<rparr>)
                  else (WA_Continue, h))
           in (act, emit_if (onClose (wsCallbacks h1)) (EvClose (closeCode info) (closeReason info)) h1)))"

definition ws_processFrame :: "'z Env \<Rightarrow> 'z WebSocketHandler \<Rightarrow> FrameParseResult \<Rightarrow> WsAction \<times> 'z WebSocketHandler" where
  "ws_processFrame env h frame =
     (if IsControlFrame (opcode (pheader frame))
      then ws_handleControlFrame env h (pheader frame) (unmask env (pheader frame) (payload frame))
      else ws_handleDataFrame env h (pheader frame) (payload frame))"

text \<open>
  The loop of \<^verbatim>\<open>processInput\<close> over the complete frames of \<open>data\<close>. It ends because a complete frame has at least two bytes.
  \<open>out\<close> says how it was left.
\<close>

datatype LoopEnd = LE_AllConsumed | LE_Incomplete | LE_Error | LE_Closed

lemma ParseFrame_consumed:
  assumes "status (ParseFrame d mx srv al) = FS_Complete"
  shows "2 \<le> consumed (ParseFrame d mx srv al) \<and> consumed (ParseFrame d mx srv al) \<le> length d"
proof -
  have "2 \<le> headerSize h" for h by (simp add: headerSize_def)
  then show ?thesis using ParseFrame_complete [OF assms, of Sse2] by (metis trans_le_add1)
qed

definition ws_next_frame :: "'z WebSocketHandler \<Rightarrow> bytes \<Rightarrow> FrameParseResult" where
  "ws_next_frame h data = ParseFrame data (maxFrameSize (config h)) (isServerSide (config h)) (deflateContext h \<noteq> None)"

lemma ws_next_frame_consumed: "status (ws_next_frame h d) = FS_Complete \<Longrightarrow> 0 < consumed (ws_next_frame h d)"
  unfolding ws_next_frame_def using ParseFrame_consumed by fastforce

function ws_loop :: "'z Env \<Rightarrow> 'z WebSocketHandler \<Rightarrow> bytes \<Rightarrow> nat \<Rightarrow> WsAction
    \<Rightarrow> LoopEnd \<times> WsAction \<times> nat \<times> bytes \<times> 'z WebSocketHandler" where
  "ws_loop env h data totalConsumed act =
     (if data = [] then (LE_AllConsumed, act, totalConsumed, data, h)
      else
        (let frameResult = ws_next_frame h data in
         case status frameResult of
           FS_Incomplete \<Rightarrow> (LE_Incomplete, act, totalConsumed, data, h)
         | FS_ProtocolError \<Rightarrow>
             (let (a, h1) = fail_with env h CC_ProtocolError (errorText frameResult) in (LE_Error, a, totalConsumed, data, h1))
         | FS_PayloadTooLarge \<Rightarrow>
             (let (a, h1) = fail_with env h CC_MessageTooBig ''Frame payload too large'' in (LE_Error, a, totalConsumed, data, h1))
         | FS_Complete \<Rightarrow>
             (let (a, h1) = ws_processFrame env h frameResult;
                  total1 = totalConsumed + consumed frameResult;
                  data1 = drop (consumed frameResult) data
              in case a of
                   WA_Close \<Rightarrow> (LE_Closed, WA_Close, total1, data1, h1)
                 | WA_ResponseReady \<Rightarrow> ws_loop env h1 data1 total1 WA_ResponseReady
                 | WA_Continue \<Rightarrow> ws_loop env h1 data1 total1 act)))"
  by pat_completeness auto
termination
  by (relation "measure (\<lambda>(env, h, data, total, act). length data)") (auto simp: ws_next_frame_consumed)

declare ws_loop.simps [simp del]

record WsResult =
  wsAction :: WsAction
  wsBytesConsumed :: nat

definition ws_processInput :: "'z Env \<Rightarrow> 'z WebSocketHandler \<Rightarrow> bytes \<Rightarrow> WsResult \<times> 'z WebSocketHandler" where
  "ws_processInput env h callerData =
     (let callerDataSize = length callerData;
          carries = inputBufferOffset h < length (inputBuffer h);
          carryOverBytes = (if carries then length (inputBuffer h) - inputBufferOffset h else 0);
          h0 = (if carries then h\<lparr>inputBuffer := inputBuffer h @ callerData\<rparr> else h);
          data = (if carries then drop (inputBufferOffset h) (inputBuffer h0) else callerData);
          consumedFromCaller = (\<lambda>consumedTotal. if consumedTotal \<le> carryOverBytes then 0 else min (consumedTotal - carryOverBytes) callerDataSize);
          (left, act, totalConsumed, rest, h1) = ws_loop env h0 data 0 WA_Continue;
          h2 = (case left of
                  LE_Incomplete \<Rightarrow>
                    (if inputBuffer h1 = [] then h1\<lparr>inputBuffer := rest, inputBufferOffset := 0\<rparr>
                     else
                       (let off = inputBufferOffset h1 + totalConsumed in
                        if off > length (inputBuffer h1) div 2 then h1\<lparr>inputBuffer := drop off (inputBuffer h1), inputBufferOffset := 0\<rparr>
                        else h1\<lparr>inputBufferOffset := off\<rparr>))
                | LE_Error \<Rightarrow> h1
                | LE_Closed \<Rightarrow> h1\<lparr>inputBuffer := []\<rparr>
                | LE_AllConsumed \<Rightarrow> h1\<lparr>inputBuffer := [], inputBufferOffset := 0\<rparr>)
      in (\<lparr>wsAction = act, wsBytesConsumed = consumedFromCaller totalConsumed\<rparr>, h2))"

end
