(* ===== verification/Ws_Session.thy ===== *)
theory Ws_Session
  imports Ws_Handler
begin

text \<open>
  What a WebSocket handler does over many calls: given only the bytes that are new, it does not depend on how the byte stream is cut.
\<close>

section \<open>The carry-over buffer\<close>

text \<open>Frames never look at the carry-over buffer.\<close>

definition with_input :: "bytes \<Rightarrow> nat \<Rightarrow> 'z WebSocketHandler \<Rightarrow> 'z WebSocketHandler" where
  "with_input b off h = h\<lparr>inputBuffer := b, inputBufferOffset := off\<rparr>"

named_theorems input_simps "operations commute with a change of the carry-over buffer"

lemma with_input_sel [simp]:
  "config (with_input b off h) = config h" "wsCallbacks (with_input b off h) = wsCallbacks h"
  "deflateContext (with_input b off h) = deflateContext h" "wsOutput (with_input b off h) = wsOutput h"
  "msgBuffer (with_input b off h) = msgBuffer h" "msgOpcode (with_input b off h) = msgOpcode h"
  "msgInProgress (with_input b off h) = msgInProgress h" "rngState (with_input b off h) = rngState h"
  "closeState (with_input b off h) = closeState h" "messageCompressed (with_input b off h) = messageCompressed h"
  "wsEvents (with_input b off h) = wsEvents h" "inputBuffer (with_input b off h) = b" "inputBufferOffset (with_input b off h) = off"
  "wsOutputOffset (with_input b off h) = wsOutputOffset h" "with_input b off (with_input b' off' h) = with_input b off h"
  by (simp_all add: with_input_def)

lemma with_input_upd [input_simps]:
  "(with_input b off h)\<lparr>wsOutput := x1\<rparr> = with_input b off (h\<lparr>wsOutput := x1\<rparr>)"
  "(with_input b off h)\<lparr>rngState := x2\<rparr> = with_input b off (h\<lparr>rngState := x2\<rparr>)"
  "(with_input b off h)\<lparr>closeState := x3\<rparr> = with_input b off (h\<lparr>closeState := x3\<rparr>)"
  "(with_input b off h)\<lparr>closeInitiatedAt := x4\<rparr> = with_input b off (h\<lparr>closeInitiatedAt := x4\<rparr>)"
  "(with_input b off h)\<lparr>lastCloseCode := x5\<rparr> = with_input b off (h\<lparr>lastCloseCode := x5\<rparr>)"
  "(with_input b off h)\<lparr>wsEvents := x6\<rparr> = with_input b off (h\<lparr>wsEvents := x6\<rparr>)"
  "(with_input b off h)\<lparr>msgBuffer := x7\<rparr> = with_input b off (h\<lparr>msgBuffer := x7\<rparr>)"
  "(with_input b off h)\<lparr>msgOpcode := x8\<rparr> = with_input b off (h\<lparr>msgOpcode := x8\<rparr>)"
  "(with_input b off h)\<lparr>msgInProgress := x9\<rparr> = with_input b off (h\<lparr>msgInProgress := x9\<rparr>)"
  "(with_input b off h)\<lparr>messageCompressed := x10\<rparr> = with_input b off (h\<lparr>messageCompressed := x10\<rparr>)"
  "(with_input b off h)\<lparr>deflateContext := x11\<rparr> = with_input b off (h\<lparr>deflateContext := x11\<rparr>)"
  by (simp_all add: with_input_def)

lemma sends_input [input_simps]:
  "emit_if s ev (with_input b off h) = with_input b off (emit_if s ev h)"
  "next_key (with_input b off h) = map_prod (with_input b off) id (next_key h)"
  "queueFrame env (with_input b off h) opc pl f = with_input b off (queueFrame env h opc pl f)"
  "sendPong env (with_input b off h) pl = map_prod id (with_input b off) (sendPong env h pl)"
  "sendClose env (with_input b off h) code reason = map_prod id (with_input b off) (sendClose env h code reason)"
  "reset_message (with_input b off h) = with_input b off (reset_message h)"
proof -
  show e: "emit_if s ev (with_input b off h) = with_input b off (emit_if s ev h)" for s ev h by (simp add: emit_if_def input_simps)
  show k: "next_key (with_input b off h) = map_prod (with_input b off) id (next_key h)" for h
    by (simp add: next_key_def input_simps split_beta)
  show q: "queueFrame env (with_input b off h) opc pl f = with_input b off (queueFrame env h opc pl f)" for opc pl f h
    by (simp add: queueFrame_def k input_simps split_beta)
  show "sendPong env (with_input b off h) pl = map_prod id (with_input b off) (sendPong env h pl)" by (simp add: sendPong_def q)
  show "sendClose env (with_input b off h) code reason = map_prod id (with_input b off) (sendClose env h code reason)"
    by (simp add: sendClose_def k input_simps split_beta Let_def)
  show "reset_message (with_input b off h) = with_input b off (reset_message h)" by (simp add: reset_message_def input_simps)
qed

lemma map_prod_if: "map_prod f g (if c then x else y) = (if c then map_prod f g x else map_prod f g y)"
  by simp

lemma frames_input [input_simps]:
  "fail_with env (with_input b off h) code msg = map_prod id (with_input b off) (fail_with env h code msg)"
  "completeMessage env (with_input b off h) = map_prod id (with_input b off) (completeMessage env h)"
  "append_fragment env (with_input b off h) fh pl = map_prod id (with_input b off) (append_fragment env h fh pl)"
  "ws_processFrame env (with_input b off h) fr = map_prod id (with_input b off) (ws_processFrame env h fr)"
  "ws_next_frame (with_input b off h) d = ws_next_frame h d"
proof -
  show f: "fail_with env (with_input b off h) code msg = map_prod id (with_input b off) (fail_with env h code msg)" for h code msg
    by (simp add: fail_with_def input_simps)
  show c: "completeMessage env (with_input b off h) = map_prod id (with_input b off) (completeMessage env h)" for h
  proof -
    have m: "message_data env (with_input b off h) = map_prod id (with_input b off) (message_data env h)"
      by (simp add: message_data_def input_simps split_beta split: option.split)
    obtain r h1 where "message_data env h = (r, h1)" by fastforce
    then show ?thesis using m by (simp add: completeMessage_def f input_simps prod.map_comp o_def split: option.split)
  qed
  show a: "append_fragment env (with_input b off h) fh pl = map_prod id (with_input b off) (append_fragment env h fh pl)" for h fh pl
    by (simp add: append_fragment_def f c input_simps split_beta Let_def)
  have d: "ws_handleDataFrame env (with_input b off h) fh pl = map_prod id (with_input b off) (ws_handleDataFrame env h fh pl)" for fh pl
    by (simp add: ws_handleDataFrame_def f a input_simps Let_def)
  have "ws_handleControlFrame env (with_input b off h) fh pl = map_prod id (with_input b off) (ws_handleControlFrame env h fh pl)" for fh pl
    by (simp add: ws_handleControlFrame_def input_simps split_beta Let_def split: Opcode.split)
  then show "ws_processFrame env (with_input b off h) fr = map_prod id (with_input b off) (ws_processFrame env h fr)"
    by (simp add: ws_processFrame_def d)
  show "ws_next_frame (with_input b off h) d = ws_next_frame h d" by (simp add: ws_next_frame_def)
qed

lemma ws_loop_Nil [simp]: "ws_loop env h [] n act = (LE_AllConsumed, act, n, [], h)"
  by (simp add: ws_loop.simps)

lemma ws_loop_more: "d \<noteq> [] \<Longrightarrow> status (ws_next_frame h d) = FS_Incomplete \<Longrightarrow> ws_loop env h d n act = (LE_Incomplete, act, n, d, h)"
  by (simp add: ws_loop.simps)

lemma ws_loop_error:
  "d \<noteq> [] \<Longrightarrow> status (ws_next_frame h d) = FS_ProtocolError \<or> status (ws_next_frame h d) = FS_PayloadTooLarge \<Longrightarrow>
   ws_loop env h d n act = (LE_Error, WA_Close, n, d, snd (fail_with env h
     (if status (ws_next_frame h d) = FS_ProtocolError then CC_ProtocolError else CC_MessageTooBig)
     (if status (ws_next_frame h d) = FS_ProtocolError then errorText (ws_next_frame h d) else ''Frame payload too large'')))"
  by (auto simp: ws_loop.simps [of env h d] fail_with_def Let_def)

lemma ws_loop_frame:
  "d \<noteq> [] \<Longrightarrow> status (ws_next_frame h d) = FS_Complete \<Longrightarrow> ws_processFrame env h (ws_next_frame h d) = (a, h1) \<Longrightarrow>
   ws_loop env h d n act =
     (let m = n + consumed (ws_next_frame h d); d1 = drop (consumed (ws_next_frame h d)) d
      in if a = WA_Close then (LE_Closed, WA_Close, m, d1, h1) else ws_loop env h1 d1 m (if a = WA_ResponseReady then a else act))"
  by (cases a) (simp_all add: ws_loop.simps [of env h d] Let_def)

lemma ws_loop_cases [case_names nil more error frame]:
  obtains "d = []" | "d \<noteq> []" "status (ws_next_frame h d) = FS_Incomplete"
  | "d \<noteq> []" "status (ws_next_frame h d) = FS_ProtocolError \<or> status (ws_next_frame h d) = FS_PayloadTooLarge"
  | "d \<noteq> []" "status (ws_next_frame h d) = FS_Complete" by (cases "status (ws_next_frame h d)") auto

text \<open>Induction along the frames of the input.\<close>

lemma ws_loop_induct [case_names step]:
  assumes "\<And>h d n act. (\<And>a h1. d \<noteq> [] \<Longrightarrow> status (ws_next_frame h d) = FS_Complete \<Longrightarrow> ws_processFrame env h (ws_next_frame h d) = (a, h1) \<Longrightarrow> a \<noteq> WA_Close
      \<Longrightarrow> P h1 (drop (consumed (ws_next_frame h d)) d) (n + consumed (ws_next_frame h d)) (if a = WA_ResponseReady then a else act)) \<Longrightarrow> P h d n act"
  shows "P h d n act"
proof (induction "length d" arbitrary: h d n act rule: less_induct)
  case less
  show ?case by (rule assms, rule less) (simp add: ws_next_frame_consumed)
qed

lemma ws_loop_input:
  "ws_loop env (with_input b off h) d n act
     = (let (e, a, m, rest, h') = ws_loop env h d n act in (e, a, m, rest, with_input b off h'))"
proof (induction h d n act rule: ws_loop_induct [where env = env])
  case (step h d n act)
  show ?case
  proof (cases rule: ws_loop_cases [where d = d and h = h])
    case frame
    obtain a h1 where p: "ws_processFrame env h (ws_next_frame h d) = (a, h1)" by fastforce
    then have q: "ws_processFrame env (with_input b off h) (ws_next_frame (with_input b off h) d) = (a, with_input b off h1)"
      by (simp add: input_simps)
    show ?thesis using step [OF frame p] frame ws_loop_frame [OF frame p, of n act] ws_loop_frame [of d "with_input b off h", OF _ _ q]
      by (simp add: Let_def input_simps)
  qed (simp_all add: ws_loop_more ws_loop_error input_simps)
qed

section \<open>Cutting the input\<close>

lemma ws_next_frame_append:
  "status (ws_next_frame h d) \<noteq> FS_Incomplete \<Longrightarrow> ws_next_frame h (d @ e) = ws_next_frame h d"
  unfolding ws_next_frame_def by (rule ParseFrame_append)

lemma ws_loop_append:
  "ws_loop env h (d @ e) n act =
     (let (left, a, m, rest, h') = ws_loop env h d n act in
      if left = LE_Error \<or> left = LE_Closed then (left, a, m, rest @ e, h') else ws_loop env h' (rest @ e) m a)"
proof (induction h d n act rule: ws_loop_induct [where env = env])
  case (step h d n act)
  show ?case
  proof (cases rule: ws_loop_cases [where d = d and h = h])
    case error
    then have "ws_next_frame h (d @ e) = ws_next_frame h d" by (intro ws_next_frame_append) auto
    then show ?thesis using error by (simp add: ws_loop_error)
  next
    case frame
    have f: "ws_next_frame h (d @ e) = ws_next_frame h d" using frame by (intro ws_next_frame_append) auto
    have c: "consumed (ws_next_frame h d) \<le> length d" using frame ParseFrame_consumed by (simp add: ws_next_frame_def)
    obtain a h1 where p: "ws_processFrame env h (ws_next_frame h d) = (a, h1)" by fastforce
    show ?thesis using step [OF frame p] frame c ws_loop_frame [OF frame p, of n act] ws_loop_frame [of "d @ e" h, unfolded f, OF _ _ p]
      by (simp add: Let_def)
  qed (simp_all add: ws_loop_more)
qed

text \<open>What the loop leaves is a suffix of its input: its length tells how much was consumed. Then the loop stops again at once.\<close>

lemma ws_loop_rest:
  "ws_loop env h d n act = (left, a, m, rest, h') \<Longrightarrow> n \<le> m \<and> m - n \<le> length d \<and> rest = drop (m - n) d
     \<and> (left = LE_AllConsumed \<longrightarrow> rest = []) \<and> (left = LE_Incomplete \<longrightarrow> rest \<noteq> [])
     \<and> (left = LE_Error \<or> left = LE_Closed \<longrightarrow> a = WA_Close) \<and> (act \<noteq> WA_Close \<longrightarrow> a = WA_Close \<longrightarrow> left = LE_Error \<or> left = LE_Closed)
     \<and> (left = LE_Incomplete \<longrightarrow> ws_loop env h' rest k b = (LE_Incomplete, b, k, rest, h'))"
proof (induction h d n act rule: ws_loop_induct [where env = env])
  case (step h d n act)
  show ?case
  proof (cases rule: ws_loop_cases [where d = d and h = h])
    case frame
    have c: "consumed (ws_next_frame h d) \<le> length d" using frame ParseFrame_consumed by (simp add: ws_next_frame_def)
    obtain a1 h1 where p: "ws_processFrame env h (ws_next_frame h d) = (a1, h1)" by fastforce
    show ?thesis using step(1) [OF frame p] step(2) frame c ws_loop_frame [OF frame p, of n act] by (auto simp: Let_def split: if_splits)
  qed (use step(2) in \<open>auto simp: ws_loop_more ws_loop_error\<close>)
qed


definition pending_input :: "'z WebSocketHandler \<Rightarrow> bytes" where
  "pending_input h = drop (inputBufferOffset h) (inputBuffer h)"

definition core :: "'z WebSocketHandler \<Rightarrow> 'z WebSocketHandler" where
  "core h = with_input [] 0 h"

lemma core_simps [simp]: "core (with_input b off h) = core h" "core (core h) = core h"
  by (simp_all add: core_def)

lemma core_upd [simp]: "core (h\<lparr>inputBuffer := b\<rparr>) = core h" "core (h\<lparr>inputBufferOffset := off\<rparr>) = core h"
  by (simp_all add: core_def with_input_def)

lemma with_input_core: "with_input (inputBuffer h) (inputBufferOffset h) (core h) = h"
  by (simp add: core_def with_input_def)

text \<open>One call is the loop on what was carried over and what is new.\<close>

definition buffer_ok :: "'z WebSocketHandler \<Rightarrow> bool" where
  "buffer_ok h \<longleftrightarrow> inputBuffer h = [] \<or> inputBufferOffset h < length (inputBuffer h)"

lemma ws_processInput_core:
  assumes l: "ws_loop env (core h) (pending_input h @ d) 0 WA_Continue = (left, a, m, rest, hc)"
    and p: "ws_processInput env h d = (r, h')" and ok: "buffer_ok h"
  shows "wsAction r = a \<and> core h' = core hc \<and> (left = LE_AllConsumed \<or> left = LE_Incomplete \<longrightarrow> pending_input h' = rest \<and> buffer_ok h')
    \<and> (pending_input h = [] \<longrightarrow> wsBytesConsumed r = m)"
proof -
  let ?carries = "inputBufferOffset h < length (inputBuffer h)"
  define h0 where "h0 = (if ?carries then h\<lparr>inputBuffer := inputBuffer h @ d\<rparr> else h)"
  have d: "(if ?carries then drop (inputBufferOffset h) (inputBuffer h0) else d) = pending_input h @ d"
    by (auto simp: h0_def pending_input_def)
  have "h0 = with_input (inputBuffer h0) (inputBufferOffset h) (core h)" by (simp add: h0_def core_def with_input_def)
  then have l0: "ws_loop env h0 (pending_input h @ d) 0 WA_Continue = (left, a, m, rest, with_input (inputBuffer h0) (inputBufferOffset h) hc)"
    using l ws_loop_input [of env "inputBuffer h0" "inputBufferOffset h" "core h" "pending_input h @ d" 0 WA_Continue] by simp
  note rest = ws_loop_rest [OF l, of 0 WA_Continue]
  note p' = p [unfolded ws_processInput_def h0_def [symmetric] Let_def d l0, simplified]
  have carry: "rest = drop (inputBufferOffset h + m) (inputBuffer h0)" "inputBuffer h0 \<noteq> []" if ?carries
  proof -
    have "pending_input h @ d = drop (inputBufferOffset h) (inputBuffer h0)" using that d by simp
    then show "rest = drop (inputBufferOffset h + m) (inputBuffer h0)" using rest by (simp add: add.commute)
    show "inputBuffer h0 \<noteq> []" using that by (auto simp: h0_def)
  qed
  have "left = LE_AllConsumed \<or> left = LE_Incomplete \<longrightarrow> pending_input h' = rest \<and> buffer_ok h'"
  proof (cases ?carries)
    case True
    show ?thesis using p' rest carry [OF True] by (cases left) (auto simp: pending_input_def buffer_ok_def not_le split: if_splits)
  next
    case False
    then have "inputBuffer h0 = []" using ok by (simp add: h0_def buffer_ok_def)
    then show ?thesis using p' rest False by (cases left) (auto simp: pending_input_def buffer_ok_def split: if_splits)
  qed
  moreover have "wsAction r = a \<and> core h' = core hc" using p' by (cases left) (auto split: if_splits)
  moreover have "wsBytesConsumed r = (let c = if ?carries then length (inputBuffer h) - inputBufferOffset h else 0 in
      if m \<le> c then 0 else min (m - c) (length d))" using p' by (auto simp: Let_def)
  then have "pending_input h = [] \<longrightarrow> wsBytesConsumed r = m" using rest by (auto simp: pending_input_def)
  ultimately show ?thesis by blast
qed


text \<open>A sequence of calls, each with the bytes that are new, until one of them asks for the connection to be closed.\<close>

fun ws_feed :: "'z Env \<Rightarrow> 'z WebSocketHandler \<Rightarrow> bytes list \<Rightarrow> bool \<times> 'z WebSocketHandler" where
  "ws_feed env h [] = (False, h)"
| "ws_feed env h (chunk # chunks) =
     (let (r, h1) = ws_processInput env h chunk in
      if wsAction r = WA_Close then (True, h1) else ws_feed env h1 chunks)"

text \<open>The part of the loop's result that does not depend on the counters it is given.\<close>

definition ws_run :: "'z Env \<Rightarrow> 'z WebSocketHandler \<Rightarrow> bytes \<Rightarrow> LoopEnd \<times> bytes \<times> 'z WebSocketHandler" where
  "ws_run env h d = (let (left, a, m, rest, h') = ws_loop env h d 0 WA_Continue in (left, rest, h'))"

lemma ws_run_loop: "(let (left, a, m, rest, h') = ws_loop env h d n act in (left, rest, h')) = ws_run env h d"
proof -
  have "(let (left, a, m, rest, h') = ws_loop env h d n act in (left, rest, h')) = (let (left, a, m, rest, h') = ws_loop env h d n' act' in (left, rest, h'))" for n' act'
  proof (induction h d n act arbitrary: n' act' rule: ws_loop_induct [where env = env])
    case (step h d n act)
    show ?case
    proof (cases rule: ws_loop_cases [where d = d and h = h])
      case frame
      obtain a h1 where p: "ws_processFrame env h (ws_next_frame h d) = (a, h1)" by fastforce
      show ?thesis
      proof (cases "a = WA_Close")
        case False
        show ?thesis
          using step [OF frame p False, of "n' + consumed (ws_next_frame h d)" "if a = WA_ResponseReady then a else act'"] False
          unfolding ws_loop_frame [OF frame p] Let_def by (simp only: if_False)
      qed (simp add: ws_loop_frame [OF frame p] Let_def)
    qed (simp_all add: ws_loop_more ws_loop_error)
  qed
  then show ?thesis unfolding ws_run_def .
qed

lemma ws_run_append:
  "ws_run env h (d @ e) = (let (left, rest, h') = ws_run env h d in
     if left = LE_Error \<or> left = LE_Closed then (left, rest @ e, h') else ws_run env h' (rest @ e))"
proof -
  obtain left a m rest h' where l: "ws_loop env h d 0 WA_Continue = (left, a, m, rest, h')" by (metis prod_cases5)
  show ?thesis using ws_run_loop [of env h' "rest @ e" m a] by (simp add: ws_run_def ws_loop_append [of env h d] l)
qed

lemma ws_run_core: "ws_run env (core h) d = (left, rest, hc) \<Longrightarrow> core hc = hc"
  using ws_loop_input [of env "[]" 0 h d 0 WA_Continue] by (auto simp: ws_run_def core_def split_beta)

lemma ws_feed_run:
  assumes "ws_feed env h chunks = (closed, h')" "ws_run env (core h) (pending_input h @ concat chunks) = (left, rest, hc)"
    and "buffer_ok h" "ws_run env (core h) (pending_input h) = (e, pending_input h, core h)" "e \<noteq> LE_Error" "e \<noteq> LE_Closed"
  shows "core h' = hc \<and> closed = (left = LE_Error \<or> left = LE_Closed) \<and> (\<not> closed \<longrightarrow> pending_input h' = rest)"
  using assms
proof (induction chunks arbitrary: h e)
  case Nil
  then show ?case by auto
next
  case (Cons c cs)
  obtain l1 a1 m1 r1 hc1 where l: "ws_loop env (core h) (pending_input h @ c) 0 WA_Continue = (l1, a1, m1, r1, hc1)" by (metis prod_cases5)
  obtain r h1 where p: "ws_processInput env h c = (r, h1)" by fastforce
  note one = ws_processInput_core [OF l p Cons.prems(3)] and stop = ws_loop_rest [OF l, of 0 WA_Continue]
  have run: "ws_run env (core h) (pending_input h @ c) = (l1, r1, hc1)" by (simp add: ws_run_def l)
  then have hc1: "core hc1 = hc1" by (rule ws_run_core)
  have whole: "(left, rest, hc) = (if l1 = LE_Error \<or> l1 = LE_Closed then (l1, r1 @ concat cs, hc1) else ws_run env hc1 (r1 @ concat cs))"
    using Cons.prems(2) ws_run_append [of env "core h" "pending_input h @ c" "concat cs"] by (simp add: run)
  show ?case
  proof (cases "l1 = LE_Error \<or> l1 = LE_Closed")
    case True
    then show ?thesis using Cons.prems(1) p one stop whole hc1 by auto
  next
    case False
    then have lr: "l1 = LE_AllConsumed \<or> l1 = LE_Incomplete" by (cases l1) auto
    have a: "wsAction r \<noteq> WA_Close" using False one stop by auto
    have st: "core h1 = hc1" "pending_input h1 = r1" "buffer_ok h1" using one lr hc1 by auto
    have stuck: "ws_run env (core h1) (pending_input h1) = (l1, pending_input h1, core h1)" using lr stop st by (auto simp: ws_run_def)
    have "ws_feed env h1 cs = (closed, h')" using Cons.prems(1) p a by simp
    from Cons.IH [OF this _ st(3) stuck] False whole show ?thesis using st by auto
  qed
qed

text \<open>
  C9. However the stream of bytes is cut into calls, the handler does the same: feeding the pieces one after the other, each to one call, ends with
  the same messages and other events, the same output, the same message under reassembly and closing state, the same verdict on closing and (while
  open) the same bytes waiting for the rest of a frame, as one call with all of the bytes.
\<close>

theorem ws_pieces_equal_whole:
  assumes "inputBuffer h = []" "ws_feed env h chunks = (closed, h1)" "ws_processInput env h (concat chunks) = (r, h2)"
  shows "closed = (wsAction r = WA_Close) \<and> h1\<lparr>inputBuffer := [], inputBufferOffset := 0\<rparr> = h2\<lparr>inputBuffer := [], inputBufferOffset := 0\<rparr>
    \<and> (\<not> closed \<longrightarrow> drop (inputBufferOffset h1) (inputBuffer h1) = drop (inputBufferOffset h2) (inputBuffer h2))"
proof -
  obtain left a m rest hc where l: "ws_loop env (core h) (pending_input h @ concat chunks) 0 WA_Continue = (left, a, m, rest, hc)" by (metis prod_cases5)
  have h: "buffer_ok h" "pending_input h = []" using assms(1) by (simp_all add: buffer_ok_def pending_input_def)
  have run: "ws_run env (core h) (pending_input h @ concat chunks) = (left, rest, hc)" by (simp add: ws_run_def l)
  have "ws_run env (core h) (pending_input h) = (LE_AllConsumed, pending_input h, core h)" by (simp add: ws_run_def h)
  from ws_feed_run [OF assms(2) run h(1) this]
  have feed: "core h1 = hc" "closed = (left = LE_Error \<or> left = LE_Closed)" "\<not> closed \<longrightarrow> pending_input h1 = rest" by auto
  have "left = LE_AllConsumed \<or> left = LE_Incomplete \<or> left = LE_Error \<or> left = LE_Closed" by (cases left) auto
  then show ?thesis using ws_processInput_core [OF l assms(3) h(1)] ws_loop_rest [OF l, of 0 WA_Continue] feed ws_run_core [OF run]
    by (auto simp: core_def with_input_def pending_input_def)
qed

text \<open>For examples: a platform without compression, a fresh server-side handler with all callbacks set, and the masked text frame "hi".\<close>

definition plain_env :: "unit Env" where
  "plain_env = \<lparr>simdPath = Sse2, utf8Path = Utf8Scalar, deflate = \<lparr>compress = (\<lambda>z p. (z, None)), decompress = (\<lambda>z p m. (z, None))\<rparr>, clock = 0\<rparr>"

definition fresh_ws :: "unit WebSocketHandler" where
  "fresh_ws = newWebSocketHandler \<lparr>maxMessageSize = 1000, maxFrameSize = 1000, closeTimeout = 5000, minCompressSize = 256, isServerSide = True\<rparr>
     \<lparr>onMessage = True, onPing = True, onPong = True, onClose = True, onError = True\<rparr> None 0"

definition hi_frame :: bytes where
  "hi_frame = [0x81, 0x82, 1, 2, 3, 4, 0x69, 0x6B]"

lemma hi_in_pieces:
  "fst (ws_feed plain_env fresh_ws [take 3 hi_frame, drop 3 hi_frame]) = False"
  "wsEvents (snd (ws_feed plain_env fresh_ws [take 3 hi_frame, drop 3 hi_frame])) = [EvMessage [0x68, 0x69] False]"
  by - code_simp+

theorem ws_pieces_equal_whole_witness:
  "wsAction (fst (ws_processInput plain_env fresh_ws hi_frame)) \<noteq> WA_Close
    \<and> wsEvents (snd (ws_processInput plain_env fresh_ws hi_frame)) = [EvMessage [0x68, 0x69] False]"
proof -
  let ?f = "ws_feed plain_env fresh_ws [take 3 hi_frame, drop 3 hi_frame]"
  have i: "inputBuffer fresh_ws = []" by code_simp
  have c: "concat [take 3 hi_frame, drop 3 hi_frame] = hi_frame" by simp
  from ws_pieces_equal_whole [OF i prod.collapse [symmetric] prod.collapse [symmetric], of plain_env "[take 3 hi_frame, drop 3 hi_frame]"]
  have "fst ?f = (wsAction (fst (ws_processInput plain_env fresh_ws hi_frame)) = WA_Close)"
    "core (snd ?f) = core (snd (ws_processInput plain_env fresh_ws hi_frame))"
    unfolding c core_def with_input_def by auto
  moreover from this(2) have "wsEvents (snd ?f) = wsEvents (snd (ws_processInput plain_env fresh_ws hi_frame))"
    by (metis core_def with_input_sel)
  ultimately show ?thesis using hi_in_pieces by simp
qed

end
