(* ===== verification/Ws_Serve.thy ===== *)
theory Ws_Serve
  imports Ws_Session
begin

text \<open>
  The server's input loop, \<^verbatim>\<open>SingleHttpServer::processSpecialProtocolHandler\<close>, with the WebSocket handler. The loop keeps
  the bytes the handler does not report as consumed in the connection's input buffer and passes them again with the next read;
  the handler has kept them too.
\<close>

text \<open>The \<^verbatim>\<open>Upgrade\<close> action, which the loop only logs, is returned by no handler.\<close>

function serve_ws :: "'z Env \<Rightarrow> 'z WebSocketHandler \<Rightarrow> bytes \<Rightarrow> bytes \<Rightarrow> bool \<times> 'z WebSocketHandler \<times> bytes \<times> bytes" where
  "serve_ws env h inBuffer outBuffer =
     (if inBuffer = [] then (False, h, inBuffer, outBuffer)
      else
        (let (r, h1) = ws_processInput env h inBuffer;
             in1 = drop (wsBytesConsumed r) inBuffer;
             (drained, h2, out1) = ws_drainOutputBuffer h1 outBuffer
         in case wsAction r of
              WA_Close \<Rightarrow> (True, h2, in1, out1)
            | _ \<Rightarrow> if wsBytesConsumed r = 0 then (False, h2, in1, out1) else serve_ws env h2 in1 out1))"
  by pat_completeness auto
termination
  by (relation "measure (\<lambda>(env, h, inBuffer, outBuffer). length inBuffer)") auto

declare serve_ws.simps [simp del]

text \<open>Reads of the socket append to the input buffer.\<close>

fun serve_ws_reads :: "'z Env \<Rightarrow> 'z WebSocketHandler \<Rightarrow> bytes \<Rightarrow> bytes \<Rightarrow> bytes list \<Rightarrow> bool \<times> 'z WebSocketHandler \<times> bytes \<times> bytes" where
  "serve_ws_reads env h inBuffer outBuffer [] = (False, h, inBuffer, outBuffer)"
| "serve_ws_reads env h inBuffer outBuffer (chunk # chunks) =
     (let (closed, h1, in1, out1) = serve_ws env h (inBuffer @ chunk) outBuffer in
      if closed then (True, h1, in1, out1) else serve_ws_reads env h1 in1 out1 chunks)"

lemma serve_ws_incomplete:
  assumes "inputBuffer h = []" "wsOutputOffset h \<ge> length (wsOutput h)" "p \<noteq> []" "status (ws_next_frame h p) = FS_Incomplete"
  shows "serve_ws env h p out = (False, h\<lparr>inputBuffer := p, inputBufferOffset := 0\<rparr>, p, out)"
proof -
  have "ws_processInput env h p = (\<lparr>wsAction = WA_Continue, wsBytesConsumed = 0\<rparr>, h\<lparr>inputBuffer := p, inputBufferOffset := 0\<rparr>)"
    using assms by (simp add: ws_processInput_def ws_loop_more)
  then show ?thesis using assms by (simp add: serve_ws.simps [of env h p] ws_drainOutputBuffer_def)
qed

text \<open>
  C13. A frame that arrives in two reads reaches the handler with its first part twice: the handler has kept the first part \<open>p\<close> of the frame, the
  server, told that no byte was consumed, passes it again with the next read \<open>c\<close>, and so the call on the second read does what a call with
  \<open>p @ p @ c\<close> would do: same action, same events, same output, same closing state.
\<close>

theorem ws_server_repeats_partial_frame:
  assumes "inputBuffer h = []" "wsOutputOffset h \<ge> length (wsOutput h)" "p \<noteq> []" "status (ws_next_frame h p) = FS_Incomplete"
    and "serve_ws env h p out = (closed, h1, in1, out1)"
    and "ws_processInput env h1 (in1 @ c) = (r1, h2)" "ws_processInput env h (p @ p @ c) = (r2, h3)"
  shows "\<not> closed \<and> wsAction r1 = wsAction r2
    \<and> h2\<lparr>inputBuffer := [], inputBufferOffset := 0\<rparr> = h3\<lparr>inputBuffer := [], inputBufferOffset := 0\<rparr>"
proof -
  from serve_ws_incomplete [OF assms(1-4)] assms(5)
  have st: "\<not> closed" "h1 = h\<lparr>inputBuffer := p, inputBufferOffset := 0\<rparr>" "in1 = p" by auto
  have h: "buffer_ok h" "pending_input h = []" "buffer_ok h1" "pending_input h1 = p" "core h1 = core h"
    using assms(1,3) st by (simp_all add: buffer_ok_def pending_input_def)
  obtain left a m rest hc where l: "ws_loop env (core h) (p @ p @ c) 0 WA_Continue = (left, a, m, rest, hc)" by (metis prod_cases5)
  have l1: "ws_loop env (core h1) (pending_input h1 @ in1 @ c) 0 WA_Continue = (left, a, m, rest, hc)" using l h st by simp
  have l2: "ws_loop env (core h) (pending_input h @ p @ p @ c) 0 WA_Continue = (left, a, m, rest, hc)" using l h by simp
  show ?thesis using ws_processInput_core [OF l1 assms(6) h(3)] ws_processInput_core [OF l2 assms(7) h(1)] st(1)
    by (simp add: core_def with_input_def)
qed

lemma hi_in_two_reads:
  "wsOutputOffset fresh_ws \<ge> length (wsOutput fresh_ws)" "take 3 hi_frame \<noteq> []" "status (ws_next_frame fresh_ws (take 3 hi_frame)) = FS_Incomplete"
  "fst (serve_ws_reads plain_env fresh_ws [] [] [take 3 hi_frame, drop 3 hi_frame]) = True"
  "wsEvents (fst (snd (serve_ws_reads plain_env fresh_ws [] [] [take 3 hi_frame, drop 3 hi_frame]))) = [EvError 1007 ''Invalid UTF-8 in text message'']"
  "wsEvents (snd (ws_processInput plain_env fresh_ws (take 3 hi_frame @ take 3 hi_frame @ drop 3 hi_frame))) = [EvError 1007 ''Invalid UTF-8 in text message'']"
  by - code_simp+

text \<open>The text frame "hi", cut after three bytes, ends the connection with an error, where the handler itself accepts it (\<open>hi_in_pieces\<close>).\<close>

theorem ws_server_repeats_partial_frame_witness:
  "wsEvents (snd (ws_processInput plain_env (fst (snd (serve_ws plain_env fresh_ws (take 3 hi_frame) []))) (take 3 hi_frame @ drop 3 hi_frame)))
     = [EvError 1007 ''Invalid UTF-8 in text message'']
   \<and> wsEvents (snd (ws_feed plain_env fresh_ws [take 3 hi_frame, drop 3 hi_frame])) = [EvMessage [0x68, 0x69] False]"
proof -
  have i: "inputBuffer fresh_ws = []" by code_simp
  let ?s = "serve_ws plain_env fresh_ws (take 3 hi_frame) []"
  have s: "?s = (False, fst (snd ?s), take 3 hi_frame, [])" using serve_ws_incomplete [OF i hi_in_two_reads(1-3)] by simp
  from ws_server_repeats_partial_frame [OF i hi_in_two_reads(1-3) s prod.collapse [symmetric] prod.collapse [symmetric], of "drop 3 hi_frame"]
  have "core (snd (ws_processInput plain_env (fst (snd ?s)) (take 3 hi_frame @ drop 3 hi_frame)))
      = core (snd (ws_processInput plain_env fresh_ws (take 3 hi_frame @ take 3 hi_frame @ drop 3 hi_frame)))"
    by (simp only: core_def with_input_def)
  then have "wsEvents (snd (ws_processInput plain_env (fst (snd ?s)) (take 3 hi_frame @ drop 3 hi_frame)))
      = wsEvents (snd (ws_processInput plain_env fresh_ws (take 3 hi_frame @ take 3 hi_frame @ drop 3 hi_frame)))"
    by (metis core_def with_input_sel)
  then show ?thesis using hi_in_pieces hi_in_two_reads by simp
qed

end
