(* ===== verification/Ws_Reach.thy ===== *)
theory Ws_Reach
  imports Ws_Session
begin

text \<open>
  What holds of a WebSocket handler after any sequence of calls: the frames it has put on the wire, the closing handshake, the messages it has
  delivered and the message it is putting together.
\<close>

section \<open>Sequences of calls\<close>

text \<open>
  The handlers that calls lead to, with the bytes taken from them so far. Every call may be made at another time (\<open>clock\<close>) and
  the calls of \<^verbatim>\<open>onOutputWritten\<close> report what was really written.
\<close>

inductive ws_reach :: "'z Deflate \<Rightarrow> WebSocketConfig \<Rightarrow> 'z WebSocketHandler \<Rightarrow> bytes \<Rightarrow> bool" for d cfg where
  start: "ws_reach d cfg (newWebSocketHandler cfg cbs ctx seed) []"
| input: "ws_reach d cfg h sent \<Longrightarrow> deflate env = d \<Longrightarrow> ws_reach d cfg (snd (ws_processInput env h data)) sent"
| send_text: "ws_reach d cfg h sent \<Longrightarrow> deflate env = d \<Longrightarrow> length pl < 2 ^ 63 \<Longrightarrow> ws_reach d cfg (snd (sendText env h pl)) sent"
| send_binary: "ws_reach d cfg h sent \<Longrightarrow> deflate env = d \<Longrightarrow> length pl < 2 ^ 63 \<Longrightarrow> ws_reach d cfg (snd (sendBinary env h pl)) sent"
| send_ping: "ws_reach d cfg h sent \<Longrightarrow> ws_reach d cfg (snd (sendPing env h pl)) sent"
| send_pong: "ws_reach d cfg h sent \<Longrightarrow> ws_reach d cfg (snd (sendPong env h pl)) sent"
| send_close: "ws_reach d cfg h sent \<Longrightarrow> ws_reach d cfg (snd (sendClose env h code reason)) sent"
| initiate: "ws_reach d cfg h sent \<Longrightarrow> ws_reach d cfg (initiateClose env h) sent"
| transport: "ws_reach d cfg h sent \<Longrightarrow> ws_reach d cfg (onTransportClosing h) sent"
| force: "ws_reach d cfg h sent \<Longrightarrow> ws_reach d cfg (forceCloseOnTimeout h) sent"
| callbacks: "ws_reach d cfg h sent \<Longrightarrow> ws_reach d cfg (setCallbacks h cbs) sent"
| written: "ws_reach d cfg h sent \<Longrightarrow> n \<le> length (ws_getPendingOutput h)
    \<Longrightarrow> ws_reach d cfg (ws_onOutputWritten h n) (sent @ take n (ws_getPendingOutput h))"
| drain: "ws_reach d cfg h sent \<Longrightarrow> ws_drainOutputBuffer h dest = (b, h', dest @ taken) \<Longrightarrow> ws_reach d cfg h' (sent @ taken)"

section \<open>Frames on the wire\<close>

definition wire :: "bool \<Rightarrow> WsFrame list \<Rightarrow> bytes" where
  "wire m fs = concat (map (build_wsframe NoSimd m []) fs)"

lemma wire_simps [simp]: "wire m [] = []" "wire m (fs @ gs) = wire m fs @ wire m gs" "wire m (f # fs) = build_wsframe NoSimd m [] f @ wire m fs"
  by (simp_all add: wire_def)

lemma BuildFrame_wire:
  "BuildFrame simd out opc pl f m key r = out @ wire m [\<lparr>wf_opcode = opc, wf_payload = pl, wf_fin = f, wf_rsv1 = r, wf_key = key\<rparr>]"
  by (simp add: build_wsframe_def BuildFrame_eq)

definition close_payload :: "CloseCode \<Rightarrow> bytes \<Rightarrow> bytes" where
  "close_payload code reason = (if code = CC_NoStatusReceived then [] else Write16BE code @ take 123 reason)"

lemma length_close_payload: "length (close_payload code reason) \<le> 125"
  by (simp add: close_payload_def be_simps)

lemma Write16BE_nonempty: "Write16BE x \<noteq> []"
  by (simp add: be_simps flip: length_greater_0_conv)

lemma IsControlFrame_iff [simp]: "IsControlFrame opc \<longleftrightarrow> opc = OpClose \<or> opc = OpPing \<or> opc = OpPong"
  by (cases opc) (simp_all add: IsControlFrame_def word_le_nat_alt)

lemma BuildCloseFrame_eq: "BuildCloseFrame simd out code reason m key = BuildFrame simd out OpClose (close_payload code reason) True m key False"
  by (auto simp: BuildCloseFrame_def BuildFrame_def AppendFramePayload_def close_payload_def Let_def be_simps min_def Write16BE_nonempty)

text \<open>
  The closing handshake, seen from this side: which frames may be sent while its state goes from one value to another. Only Pong frames follow
  a Close frame, and nothing follows once the handshake is over.
\<close>

inductive close_path :: "CloseState \<Rightarrow> WsFrame list \<Rightarrow> CloseState \<Rightarrow> bool" where
  cp_stay: "close_path s [] s"
| cp_frame: "wf_opcode f \<noteq> OpClose \<Longrightarrow> close_path Cl_Open [f] Cl_Open"
| cp_close: "wf_opcode f = OpClose \<Longrightarrow> close_path Cl_Open [f] Cl_CloseSent"
| cp_answer: "wf_opcode f = OpClose \<Longrightarrow> close_path Cl_Open [f] Cl_Closed"
| cp_pong: "wf_opcode f = OpPong \<Longrightarrow> close_path Cl_CloseSent [f] Cl_CloseSent"
| cp_closed: "close_path s [] Cl_Closed"
| cp_trans: "close_path s fs t \<Longrightarrow> close_path t gs u \<Longrightarrow> close_path s (fs @ gs) u"

definition sends :: "'z WebSocketHandler \<Rightarrow> WsFrame list \<Rightarrow> 'z WebSocketHandler \<Rightarrow> bool" where
  "sends h fs h' \<longleftrightarrow> config h' = config h \<and> wsOutputOffset h' = wsOutputOffset h
     \<and> wsOutput h' = wsOutput h @ wire (\<not> isServerSide (config h)) fs
     \<and> (\<forall>f \<in> set fs. wsframe_ok (\<not> isServerSide (config h)) f) \<and> close_path (closeState h) fs (closeState h')"

lemma sends_refl [simp]: "sends h [] h"
  by (simp add: sends_def cp_stay)

lemma sends_trans: "sends h fs h1 \<Longrightarrow> sends h1 gs h2 \<Longrightarrow> sends h (fs @ gs) h2"
  by (auto simp: sends_def intro: cp_trans)

lemma sends_upd [simp]:
  "sends h fs (g\<lparr>rngState := a\<rparr>) = sends h fs g" "sends h fs (g\<lparr>closeInitiatedAt := b\<rparr>) = sends h fs g"
  "sends h fs (g\<lparr>lastCloseCode := c\<rparr>) = sends h fs g" "sends h fs (g\<lparr>msgBuffer := e\<rparr>) = sends h fs g"
  "sends h fs (g\<lparr>msgOpcode := i\<rparr>) = sends h fs g" "sends h fs (g\<lparr>msgInProgress := j\<rparr>) = sends h fs g"
  "sends h fs (g\<lparr>messageCompressed := k\<rparr>) = sends h fs g" "sends h fs (g\<lparr>deflateContext := l\<rparr>) = sends h fs g"
  "sends h fs (g\<lparr>wsEvents := m\<rparr>) = sends h fs g" "sends h fs (g\<lparr>inputBuffer := n\<rparr>) = sends h fs g"
  "sends h fs (g\<lparr>inputBufferOffset := p\<rparr>) = sends h fs g" "sends h fs (g\<lparr>wsCallbacks := q\<rparr>) = sends h fs g"
  by (simp_all add: sends_def)

lemma sends_from [simp]:
  "sends (h\<lparr>rngState := a\<rparr>) fs g = sends h fs g" "sends (h\<lparr>lastCloseCode := c\<rparr>) fs g = sends h fs g"
  "sends (h\<lparr>msgBuffer := e\<rparr>) fs g = sends h fs g" "sends (h\<lparr>msgOpcode := i\<rparr>) fs g = sends h fs g"
  "sends (h\<lparr>msgInProgress := j\<rparr>) fs g = sends h fs g" "sends (h\<lparr>messageCompressed := k\<rparr>) fs g = sends h fs g"
  "sends (h\<lparr>deflateContext := l\<rparr>) fs g = sends h fs g" "sends (h\<lparr>wsEvents := m\<rparr>) fs g = sends h fs g"
  "sends (h\<lparr>inputBuffer := n\<rparr>) fs g = sends h fs g" "sends (h\<lparr>inputBufferOffset := p\<rparr>) fs g = sends h fs g"
  by (simp_all add: sends_def)

lemma sends_emit [simp]: "sends h fs (emit_if s ev g) = sends h fs g" "sends (emit_if s ev h) fs g = sends h fs g"
  by (simp_all add: emit_if_def)

lemma next_key_cases:
  obtains rng key where "next_key h = (h\<lparr>rngState := rng\<rparr>, key)" "isServerSide (config h) \<Longrightarrow> key = 0"
proof -
  have "next_key h = (h\<lparr>rngState := rngState (fst (next_key h))\<rparr>, snd (next_key h))" "isServerSide (config h) \<Longrightarrow> snd (next_key h) = 0"
    by (auto simp: next_key_def split: prod.split)
  then show thesis by (rule that)
qed

lemma sends_build:
  assumes "length pl < 2 ^ 63" "IsControlFrame opc \<Longrightarrow> length pl \<le> 125 \<and> \<not> r" "isServerSide (config h) \<Longrightarrow> key = 0"
    and "\<And>f. wf_opcode f = opc \<Longrightarrow> close_path (closeState h) [f] s"
  shows "\<exists>f. wf_opcode f = opc \<and> sends h [f] (h\<lparr>wsOutput := BuildFrame simd (wsOutput h) opc pl True (\<not> isServerSide (config h)) key r, closeState := s\<rparr>)"
  using assms unfolding BuildFrame_wire
  by (intro exI [of _ "\<lparr>wf_opcode = opc, wf_payload = pl, wf_fin = True, wf_rsv1 = r, wf_key = key\<rparr>"]) (auto simp: sends_def wsframe_ok_def)

lemma sends_queue:
  assumes "length pl < 2 ^ 63" "IsControlFrame opc \<Longrightarrow> length pl \<le> 125" "\<And>f. wf_opcode f = opc \<Longrightarrow> close_path (closeState h) [f] (closeState h)"
  shows "\<exists>f. wf_opcode f = opc \<and> sends h [f] (queueFrame env h opc pl True)"
proof -
  obtain rng key where k: "next_key h = (h\<lparr>rngState := rng\<rparr>, key)" "isServerSide (config h) \<Longrightarrow> key = 0" by (rule next_key_cases [of h]) blast
  have "\<exists>f. wf_opcode f = opc \<and> sends h [f] (h\<lparr>wsOutput := BuildFrame (simdPath env) (wsOutput h) opc pl True (\<not> isServerSide (config h)) key False,
      closeState := closeState h\<rparr>)"
    by (rule sends_build) (use assms k in auto)
  then show ?thesis by (simp add: queueFrame_def k sends_def)
qed

lemma ws_sendData_sends:
  assumes "length pl < 2 ^ 63" "opc = OpText \<or> opc = OpBinary"
  shows "\<exists>fs. sends h fs (snd (ws_sendData env h opc pl))"
proof (cases "closeState h = Cl_Open")
  case True
  have c: "wf_opcode f = opc \<Longrightarrow> close_path (closeState h) [f] (closeState h)" for f using assms True by (auto intro: cp_frame)
  have q: "\<exists>f. sends h [f] (queueFrame env (h\<lparr>deflateContext := z\<rparr>) opc pl True)" for z
    using sends_queue [of pl opc "h\<lparr>deflateContext := z\<rparr>" env] assms c by auto
  have b: "\<exists>f. sends h [f] (h2\<lparr>wsOutput := BuildFrame (simdPath env) (wsOutput h2) opc out True (\<not> isServerSide (config h)) key True\<rparr>)"
    if "length out < length pl" "next_key (h\<lparr>deflateContext := z\<rparr>) = (h2, key)" for out key h2 z
  proof -
    obtain rng key' where k: "next_key (h\<lparr>deflateContext := z\<rparr>) = (h\<lparr>deflateContext := z, rngState := rng\<rparr>, key')" "isServerSide (config h) \<Longrightarrow> key' = 0"
      by (rule next_key_cases [of "h\<lparr>deflateContext := z\<rparr>"]) auto
    have "\<exists>f. wf_opcode f = opc \<and> sends h [f] (h\<lparr>wsOutput := BuildFrame (simdPath env) (wsOutput h) opc out True (\<not> isServerSide (config h)) key' True,
      closeState := closeState h\<rparr>)"
      by (rule sends_build) (use assms k c that(1) in auto)
    then show ?thesis using k that by (auto simp: sends_def)
  qed
  have z: "h\<lparr>deflateContext := deflateContext h\<rparr> = h" by simp
  show ?thesis using True q [of "deflateContext h"] q b
    by (fastforce simp: ws_sendData_def Let_def split: option.split prod.split)
qed (auto simp: ws_sendData_def intro: exI [of _ "[]"])

lemma sendPing_sends: "\<exists>fs. sends h fs (snd (sendPing env h pl))"
  using sends_queue [of "take 125 pl" OpPing h env] cp_frame by (fastforce simp: sendPing_def intro: exI [of _ "[]"])

lemma sendPong_sends:
  assumes "closeState h \<noteq> Cl_CloseReceived" shows "\<exists>fs. sends h fs (snd (sendPong env h pl))"
proof (cases "closeState h = Cl_Closed")
  case False
  then have "closeState h = Cl_Open \<or> closeState h = Cl_CloseSent" using assms by (cases "closeState h") auto
  then have "wf_opcode f = OpPong \<Longrightarrow> close_path (closeState h) [f] (closeState h)" for f by (auto simp: cp_frame cp_pong)
  then show ?thesis using sends_queue [of "take 125 pl" OpPong h env] False by (fastforce simp: sendPong_def)
qed (auto simp: sendPong_def intro: exI [of _ "[]"])

text \<open>A Close frame: on the handler's own account, or in answer to the peer's.\<close>

lemma sendClose_sends:
  assumes "closeState h \<noteq> Cl_CloseReceived"
  shows "\<exists>fs. sends h fs (snd (sendClose env h code reason))"
proof (cases "closeState h = Cl_Open")
  case True
  obtain rng key where k: "next_key h = (h\<lparr>rngState := rng\<rparr>, key)" "isServerSide (config h) \<Longrightarrow> key = 0" by (rule next_key_cases [of h]) blast
  have "length (close_payload code reason) < 2 ^ 63" using length_close_payload [of code reason] by simp
  then have "\<exists>f. wf_opcode f = OpClose \<and> sends h [f] (h\<lparr>wsOutput := BuildFrame (simdPath env) (wsOutput h) OpClose (close_payload code reason) True
      (\<not> isServerSide (config h)) key False, closeState := Cl_CloseSent\<rparr>)"
    using k True length_close_payload by (intro sends_build) (auto intro: cp_close)
  then obtain f where "sends h [f] (h\<lparr>wsOutput := BuildFrame (simdPath env) (wsOutput h) OpClose (close_payload code reason) True
      (\<not> isServerSide (config h)) key False, closeState := Cl_CloseSent\<rparr>)" by auto
  then show ?thesis using True k by (intro exI [of _ "[f]"]) (simp add: sendClose_def BuildCloseFrame_eq sends_def Let_def)
next
  case False
  then have "closeState h = Cl_CloseSent \<or> closeState h = Cl_Closed" using assms by (cases "closeState h") auto
  then show ?thesis by (auto simp: sendClose_def intro: exI [of _ "[]"])
qed

lemma close_answer_sends:
  assumes "closeState h = Cl_Open"
  shows "\<exists>fs. sends h fs ((snd (sendClose env (h\<lparr>closeState := Cl_CloseReceived, lastCloseCode := code\<rparr>) code reason))\<lparr>closeState := Cl_Closed\<rparr>)"
proof -
  let ?h = "h\<lparr>closeState := Cl_CloseReceived, lastCloseCode := code\<rparr>"
  obtain rng key where k: "next_key ?h = (?h\<lparr>rngState := rng\<rparr>, key)" "isServerSide (config h) \<Longrightarrow> key = 0" by (rule next_key_cases [of ?h]) auto
  have "length (close_payload code reason) < 2 ^ 63" using length_close_payload [of code reason] by simp
  then have "\<exists>f. wf_opcode f = OpClose \<and> sends h [f] (h\<lparr>wsOutput := BuildFrame (simdPath env) (wsOutput h) OpClose (close_payload code reason) True
      (\<not> isServerSide (config h)) key False, closeState := Cl_Closed\<rparr>)"
    using k assms length_close_payload by (intro sends_build) (auto intro: cp_answer)
  then obtain f where "sends h [f] (h\<lparr>wsOutput := BuildFrame (simdPath env) (wsOutput h) OpClose (close_payload code reason) True
      (\<not> isServerSide (config h)) key False, closeState := Cl_Closed\<rparr>)" by auto
  then show ?thesis using k by (intro exI [of _ "[f]"]) (simp add: sendClose_def BuildCloseFrame_eq sends_def Let_def)
qed

lemma fail_with_sends: "closeState h \<noteq> Cl_CloseReceived \<Longrightarrow> \<exists>fs. sends h fs (snd (fail_with env h code msg))"
  using sendClose_sends [of "emit_if (onError (wsCallbacks h)) (EvError code msg) h" env code "bytes_of msg"]
  by (simp add: fail_with_def) (simp add: emit_if_def)

lemma fail_reset_sends:
  "closeState h \<noteq> Cl_CloseReceived \<Longrightarrow> \<exists>fs. sends h fs (snd (map_prod id reset_message (fail_with env h code msg)))"
  using fail_with_sends [of h env code msg] by (simp add: reset_message_def)

lemma message_data_sends: "message_data env h = (m, h1) \<Longrightarrow> sends h [] h1 \<and> closeState h1 = closeState h"
  by (auto simp: message_data_def split: option.splits if_splits prod.splits)

lemma sends_silent: "sends h [] g \<Longrightarrow> sends g fs k \<Longrightarrow> sends h fs k"
  using sends_trans [of h "[]" g fs k] by simp

lemma completeMessage_sends:
  assumes "closeState h \<noteq> Cl_CloseReceived" shows "\<exists>fs. sends h fs (snd (completeMessage env h))"
proof -
  obtain m h1 where m: "message_data env h = (m, h1)" by fastforce
  note s = message_data_sends [OF m]
  then have f: "\<exists>fs. sends h fs (snd (map_prod id reset_message (fail_with env h1 code msg)))" for code msg
    using fail_reset_sends [of h1 env code msg] assms sends_silent by metis
  show ?thesis using f s by (auto simp: completeMessage_def m reset_message_def split: option.split)
qed

lemma append_fragment_sends:
  assumes "closeState h \<noteq> Cl_CloseReceived" shows "\<exists>fs. sends h fs (snd (append_fragment env h fh pl))"
  using fail_with_sends [OF assms, of env CC_MessageTooBig "''Message too large''"]
    completeMessage_sends [of "h\<lparr>msgBuffer := msgBuffer h @ unmask env fh pl\<rparr>" env] assms
  by (auto simp: append_fragment_def Let_def split: prod.split intro: exI [of _ "[]"])

lemma handleDataFrame_sends:
  assumes "closeState h \<noteq> Cl_CloseReceived" shows "\<exists>fs. sends h fs (snd (ws_handleDataFrame env h fh pl))"
  using fail_with_sends [OF assms, of env] append_fragment_sends [OF assms, of env fh pl] assms
    append_fragment_sends [of "h\<lparr>msgOpcode := opcode fh, msgInProgress := True, msgBuffer := [], messageCompressed := rsv1 fh\<rparr>" env fh pl]
  by (auto simp: ws_handleDataFrame_def Let_def intro: exI [of _ "[]"])

lemma sends_closing: "closeState h = Cl_CloseSent \<Longrightarrow> sends h [] (h\<lparr>closeState := Cl_Closed\<rparr>)"
  by (simp add: sends_def cp_closed)

lemma handleControlFrame_sends:
  assumes "closeState h \<noteq> Cl_CloseReceived" shows "\<exists>fs. sends h fs (snd (ws_handleControlFrame env h fh pl))"
proof -
  let ?i = "ParseClosePayload pl"
  have "\<exists>fs. sends h fs (snd (if closeState h = Cl_Open then (WA_ResponseReady,
      (snd (sendClose env (h\<lparr>closeState := Cl_CloseReceived, lastCloseCode := closeCode ?i\<rparr>) (closeCode ?i) (closeReason ?i)))\<lparr>closeState := Cl_Closed\<rparr>)
    else if closeState h = Cl_CloseSent then (WA_Close, h\<lparr>closeState := Cl_Closed\<rparr>) else (WA_Continue, h)))"
    using close_answer_sends [of h env "closeCode ?i" "closeReason ?i"] sends_closing [of h] by (auto intro: exI [of _ "[]"])
  then show ?thesis using sendPong_sends [OF assms, of env pl]
    by (auto simp: ws_handleControlFrame_def Let_def split: Opcode.split prod.split intro: exI [of _ "[]"])
qed

lemma processFrame_sends:
  "closeState h \<noteq> Cl_CloseReceived \<Longrightarrow> \<exists>fs. sends h fs (snd (ws_processFrame env h fr))"
  by (simp add: ws_processFrame_def handleControlFrame_sends handleDataFrame_sends)

lemma close_path_settles: "close_path s fs t \<Longrightarrow> s \<noteq> Cl_CloseReceived \<Longrightarrow> t \<noteq> Cl_CloseReceived"
  by (induction rule: close_path.induct) auto

lemma sends_settles: "sends h fs g \<Longrightarrow> closeState h \<noteq> Cl_CloseReceived \<Longrightarrow> closeState g \<noteq> Cl_CloseReceived"
  using close_path_settles by (auto simp: sends_def)

lemma ws_loop_sends:
  "ws_loop env h d n act = (left, a, m, rest, h') \<Longrightarrow> closeState h \<noteq> Cl_CloseReceived \<Longrightarrow> \<exists>fs. sends h fs h'"
proof (induction h d n act rule: ws_loop_induct [where env = env])
  case (step h d n act)
  show ?case
  proof (cases rule: ws_loop_cases [where d = d and h = h])
    case error
    then show ?thesis using step.prems fail_with_sends [of h env] by (auto simp: ws_loop_error)
  next
    case frame
    obtain b h1 where p: "ws_processFrame env h (ws_next_frame h d) = (b, h1)" by fastforce
    obtain fs where fs: "sends h fs h1" using processFrame_sends [OF step.prems(2), of env "ws_next_frame h d"] by (auto simp: p)
    show ?thesis
    proof (cases "b = WA_Close")
      case True
      then show ?thesis using step.prems(1) fs by (auto simp: ws_loop_frame [OF frame p])
    next
      case False
      have l: "ws_loop env h1 (drop (consumed (ws_next_frame h d)) d) (n + consumed (ws_next_frame h d)) (if b = WA_ResponseReady then b else act)
          = (left, a, m, rest, h')" using step.prems(1) False unfolding ws_loop_frame [OF frame p] Let_def by (simp only: if_False)
      show ?thesis using step.IH [OF frame p False l] sends_settles [OF fs step.prems(2)] sends_trans [OF fs] by blast
    qed
  qed (use step.prems in \<open>auto simp: ws_loop_more intro: exI [of _ "[]"]\<close>)
qed

lemma ws_processInput_sends:
  assumes "closeState h \<noteq> Cl_CloseReceived" shows "\<exists>fs. sends h fs (snd (ws_processInput env h data))"
proof -
  define h0 where "h0 = (if inputBufferOffset h < length (inputBuffer h) then h\<lparr>inputBuffer := inputBuffer h @ data\<rparr> else h)"
  obtain left a m rest h1 where l: "ws_loop env h0 (if inputBufferOffset h < length (inputBuffer h) then drop (inputBufferOffset h) (inputBuffer h0) else data)
      0 WA_Continue = (left, a, m, rest, h1)" by (metis prod_cases5)
  have "closeState h0 \<noteq> Cl_CloseReceived" using assms by (simp add: h0_def)
  from ws_loop_sends [OF l this] obtain fs where "sends h0 fs h1" ..
  then have "sends h fs h1" by (simp add: h0_def split: if_splits)
  then show ?thesis using l unfolding ws_processInput_def Let_def h0_def [symmetric]
    by (intro exI [of _ fs]) (simp split: LoopEnd.split)
qed

text \<open>Whole sequences of calls.\<close>

definition disciplined :: "CloseState \<Rightarrow> WsFrame list \<Rightarrow> bool" where
  "disciplined s fs \<longleftrightarrow>
     (let before = takeWhile (\<lambda>f. wf_opcode f \<noteq> OpClose) fs; after = tl (dropWhile (\<lambda>f. wf_opcode f \<noteq> OpClose) fs)
      in list_all (\<lambda>f. wf_opcode f = OpPong) after \<and> (s = Cl_Open \<longrightarrow> before = fs) \<and> (s = Cl_CloseSent \<longrightarrow> before \<noteq> fs))"

lemma disciplined_iff:
  "disciplined s fs \<longleftrightarrow> (\<forall>f \<in> set fs. wf_opcode f \<noteq> OpClose) \<and> s \<noteq> Cl_CloseSent
     \<or> (\<exists>xs c ys. fs = xs @ c # ys \<and> (\<forall>f \<in> set xs. wf_opcode f \<noteq> OpClose) \<and> wf_opcode c = OpClose \<and> (\<forall>f \<in> set ys. wf_opcode f = OpPong) \<and> s \<noteq> Cl_Open)"
  (is "_ \<longleftrightarrow> ?a \<or> ?b")
proof (cases "\<forall>f \<in> set fs. wf_opcode f \<noteq> OpClose")
  case True
  then have w: "takeWhile (\<lambda>f. wf_opcode f \<noteq> OpClose) fs = fs" "dropWhile (\<lambda>f. wf_opcode f \<noteq> OpClose) fs = []" by simp_all
  have b: "?b \<longleftrightarrow> False" using True by auto
  show ?thesis unfolding b disciplined_def w Let_def using True by simp
next
  case False
  then obtain xs c ys where fs: "fs = xs @ c # ys" "\<forall>f \<in> set xs. wf_opcode f \<noteq> OpClose" "wf_opcode c = OpClose"
    using split_list_first_prop [of fs "\<lambda>f. wf_opcode f = OpClose"] by blast
  have u: "fs = xs' @ c' # ys' \<Longrightarrow> (\<forall>f \<in> set xs'. wf_opcode f \<noteq> OpClose) \<Longrightarrow> wf_opcode c' = OpClose \<Longrightarrow> xs' = xs \<and> c' = c \<and> ys' = ys" for xs' c' ys'
  proof -
    assume a: "fs = xs' @ c' # ys'" "\<forall>f \<in> set xs'. wf_opcode f \<noteq> OpClose" "wf_opcode c' = OpClose"
    have "takeWhile (\<lambda>f. wf_opcode f \<noteq> OpClose) (xs' @ c' # ys') = xs'" "takeWhile (\<lambda>f. wf_opcode f \<noteq> OpClose) (xs @ c # ys) = xs"
      using a(2,3) fs(2,3) by (simp_all add: takeWhile_append)
    then show ?thesis using a(1) fs(1) by auto
  qed
  have "takeWhile (\<lambda>f. wf_opcode f \<noteq> OpClose) fs = xs" "dropWhile (\<lambda>f. wf_opcode f \<noteq> OpClose) fs = c # ys"
    using fs by (simp_all add: takeWhile_append dropWhile_append)
  then have "disciplined s fs \<longleftrightarrow> (\<forall>f \<in> set ys. wf_opcode f = OpPong) \<and> s \<noteq> Cl_Open"
    using fs(1) by (auto simp: disciplined_def list_all_iff)
  then show ?thesis using fs u False by blast
qed

lemma disciplined_snoc:
  "disciplined Cl_Open gs \<Longrightarrow> wf_opcode f = OpClose \<Longrightarrow> s \<noteq> Cl_Open \<Longrightarrow> disciplined s (gs @ [f])"
  "disciplined Cl_Open gs \<Longrightarrow> wf_opcode f \<noteq> OpClose \<Longrightarrow> disciplined Cl_Open (gs @ [f])"
  "disciplined Cl_CloseSent gs \<Longrightarrow> wf_opcode f = OpPong \<Longrightarrow> disciplined Cl_CloseSent (gs @ [f])"
proof -
  assume "disciplined Cl_CloseSent gs" "wf_opcode f = OpPong"
  then obtain xs c ys where "gs @ [f] = xs @ c # (ys @ [f])" "\<forall>f \<in> set xs. wf_opcode f \<noteq> OpClose" "wf_opcode c = OpClose"
    "\<forall>f \<in> set (ys @ [f]). wf_opcode f = OpPong" unfolding disciplined_iff by auto
  then show "disciplined Cl_CloseSent (gs @ [f])" unfolding disciplined_iff by blast
next
  assume "disciplined Cl_Open gs" "wf_opcode f = OpClose" "s \<noteq> Cl_Open"
  then have "gs @ [f] = gs @ f # []" "\<forall>f \<in> set gs. wf_opcode f \<noteq> OpClose" "\<forall>f \<in> set []. wf_opcode f = OpPong"
    unfolding disciplined_iff by auto
  then show "disciplined s (gs @ [f])" using \<open>wf_opcode f = OpClose\<close> \<open>s \<noteq> Cl_Open\<close> unfolding disciplined_iff by blast
qed (simp add: disciplined_iff)

lemma close_path_disciplined: "close_path s fs t \<Longrightarrow> disciplined s gs \<Longrightarrow> disciplined t (gs @ fs)"
proof (induction arbitrary: gs rule: close_path.induct)
  case (cp_closed s)
  then show ?case by (simp add: disciplined_def Let_def)
next
  case (cp_trans s fs t gs' u)
  then show ?case by (metis append_assoc)
qed (simp_all add: disciplined_snoc)

text \<open>The invariant: what was taken and what is pending are whole frames in the order of the closing handshake.\<close>

definition wire_ok :: "WebSocketConfig \<Rightarrow> 'z WebSocketHandler \<Rightarrow> bytes \<Rightarrow> bool" where
  "wire_ok cfg h sent \<longleftrightarrow> config h = cfg \<and> wsOutputOffset h \<le> length (wsOutput h) \<and> closeState h \<noteq> Cl_CloseReceived
     \<and> (\<exists>fs. sent @ ws_getPendingOutput h = wire (\<not> isServerSide cfg) fs \<and> (\<forall>f \<in> set fs. wsframe_ok (\<not> isServerSide cfg) f) \<and> disciplined (closeState h) fs)"

lemma wire_ok_sends:
  assumes "wire_ok cfg h sent" "sends h fs g" shows "wire_ok cfg g sent"
proof -
  obtain gs where gs: "sent @ ws_getPendingOutput h = wire (\<not> isServerSide cfg) gs" "\<forall>f \<in> set gs. wsframe_ok (\<not> isServerSide cfg) f"
    "disciplined (closeState h) gs" using assms(1) unfolding wire_ok_def by blast
  have h: "config h = cfg" "wsOutputOffset h \<le> length (wsOutput h)" using assms(1) by (auto simp: wire_ok_def)
  have "sent @ ws_getPendingOutput g = wire (\<not> isServerSide cfg) (gs @ fs)" using gs(1) assms(2) h
    by (simp add: sends_def ws_getPendingOutput_def)
  moreover have "disciplined (closeState g) (gs @ fs)" using close_path_disciplined gs(3) assms(2) by (auto simp: sends_def)
  moreover have "\<forall>f \<in> set (gs @ fs). wsframe_ok (\<not> isServerSide cfg) f" using gs(2) assms(2) h by (auto simp: sends_def)
  ultimately have "\<exists>fs. sent @ ws_getPendingOutput g = wire (\<not> isServerSide cfg) fs \<and> (\<forall>f \<in> set fs. wsframe_ok (\<not> isServerSide cfg) f) \<and> disciplined (closeState g) fs"
    by blast
  then show ?thesis using assms sends_settles [OF assms(2)] unfolding wire_ok_def by (simp add: sends_def)
qed

lemma wire_okI: "wire_ok cfg h sent \<Longrightarrow> (closeState h \<noteq> Cl_CloseReceived \<Longrightarrow> \<exists>fs. sends h fs g) \<Longrightarrow> wire_ok cfg g sent"
  using wire_ok_sends [of cfg h sent _ g] unfolding wire_ok_def by blast

lemma wire_ok_taken:
  assumes "wire_ok cfg h sent" "config g = config h" "closeState g = closeState h" "wsOutputOffset g \<le> length (wsOutput g)"
    "ws_getPendingOutput h = taken @ ws_getPendingOutput g"
  shows "wire_ok cfg g (sent @ taken)"
  using assms by (simp add: wire_ok_def)

lemma written_pending:
  assumes "n \<le> length (ws_getPendingOutput h)"
  shows "ws_getPendingOutput h = take n (ws_getPendingOutput h) @ ws_getPendingOutput (ws_onOutputWritten h n)"
    "wsOutputOffset (ws_onOutputWritten h n) \<le> length (wsOutput (ws_onOutputWritten h n))"
  using assms by (auto simp: ws_getPendingOutput_def ws_onOutputWritten_def Let_def take_all intro: append_take_drop_id [symmetric])
    (metis add.commute append_take_drop_id drop_drop)

lemma drain_pending:
  assumes "ws_drainOutputBuffer h dest = (b, g, dest @ taken)" "wsOutputOffset h \<le> length (wsOutput h)"
  shows "ws_getPendingOutput h = taken @ ws_getPendingOutput g" "wsOutputOffset g \<le> length (wsOutput g)"
    "config g = config h" "closeState g = closeState h"
  using assms by (auto simp: ws_drainOutputBuffer_def ws_getPendingOutput_def ws_onOutputWritten_def Let_def split: if_splits)

lemma wire_ok_reach: "ws_reach d cfg h sent \<Longrightarrow> wire_ok cfg h sent"
proof (induction rule: ws_reach.induct)
  case (start cbs ctx seed)
  show ?case by (auto simp: wire_ok_def newWebSocketHandler_def ws_getPendingOutput_def disciplined_def intro!: exI [of _ "[]"])
next
  case (input h sent env data)
  show ?case by (rule wire_okI [OF input.IH ws_processInput_sends])
next
  case (send_text h sent env pl)
  show ?case unfolding sendText_def by (rule wire_okI [OF send_text.IH ws_sendData_sends]) (use send_text.hyps in simp_all)
next
  case (send_binary h sent env pl)
  show ?case unfolding sendBinary_def by (rule wire_okI [OF send_binary.IH ws_sendData_sends]) (use send_binary.hyps in simp_all)
next
  case (send_ping h sent env pl)
  show ?case by (rule wire_okI [OF send_ping.IH sendPing_sends])
next
  case (send_pong h sent env pl)
  show ?case by (rule wire_okI [OF send_pong.IH sendPong_sends])
next
  case (send_close h sent env code reason)
  show ?case by (rule wire_okI [OF send_close.IH sendClose_sends])
next
  case (initiate h sent env)
  show ?case using wire_okI [OF initiate.IH sendClose_sends, of env] initiate.IH by (simp add: initiateClose_def)
next
  case (transport h sent)
  have "sends h [] (onTransportClosing h)" by (simp add: onTransportClosing_def sends_def cp_closed)
  then show ?case by (rule wire_ok_sends [OF transport.IH])
next
  case (force h sent)
  have "sends h [] (forceCloseOnTimeout h)" by (simp add: forceCloseOnTimeout_def sends_closing)
  then show ?case by (rule wire_ok_sends [OF force.IH])
next
  case (callbacks h sent cbs)
  then show ?case using wire_ok_sends [of cfg h sent "[]" "setCallbacks h cbs"] by (simp add: setCallbacks_def)
next
  case (written h sent n)
  show ?case by (rule wire_ok_taken [OF written.IH]) (use written_pending [OF written.hyps(2)] in \<open>auto simp: ws_onOutputWritten_def Let_def\<close>)
next
  case (drain h sent dest b h' taken)
  then have "wsOutputOffset h \<le> length (wsOutput h)" by (simp add: wire_ok_def)
  note dp = drain_pending [OF drain.hyps(2) this]
  show ?case by (rule wire_ok_taken [OF drain.IH dp(3,4,2,1)])
qed

section \<open>Messages\<close>

text \<open>Decompression honours the limit it is given.\<close>

definition bounded_deflate :: "'z Deflate \<Rightarrow> bool" where
  "bounded_deflate d \<longleftrightarrow> (\<forall>z p m z' out. decompress d z p m = (z', Some out) \<longrightarrow> m = 0 \<or> length out \<le> m)"

definition event_ok :: "nat \<Rightarrow> WsEvent \<Rightarrow> bool" where
  "event_ok limit ev = (case ev of EvMessage p isBinary \<Rightarrow> (limit = 0 \<or> length p \<le> limit) \<and> (isBinary \<or> well_encoded p) | _ \<Rightarrow> True)"

definition messages_ok :: "'z WebSocketHandler \<Rightarrow> bool" where
  "messages_ok h \<longleftrightarrow> (maxMessageSize (config h) = 0 \<or> length (msgBuffer h) \<le> maxMessageSize (config h))
     \<and> (msgInProgress h \<or> msgBuffer h = []) \<and> (msgOpcode h = OpText \<or> msgOpcode h = OpBinary)
     \<and> list_all (event_ok (maxMessageSize (config h))) (wsEvents h)"

lemma messages_ok_upd [simp]:
  "messages_ok (g\<lparr>rngState := a\<rparr>) = messages_ok g" "messages_ok (g\<lparr>closeInitiatedAt := b\<rparr>) = messages_ok g"
  "messages_ok (g\<lparr>lastCloseCode := c\<rparr>) = messages_ok g" "messages_ok (g\<lparr>wsOutput := e\<rparr>) = messages_ok g"
  "messages_ok (g\<lparr>wsOutputOffset := i\<rparr>) = messages_ok g" "messages_ok (g\<lparr>closeState := j\<rparr>) = messages_ok g"
  "messages_ok (g\<lparr>messageCompressed := k\<rparr>) = messages_ok g" "messages_ok (g\<lparr>deflateContext := l\<rparr>) = messages_ok g"
  "messages_ok (g\<lparr>inputBuffer := n\<rparr>) = messages_ok g" "messages_ok (g\<lparr>inputBufferOffset := p\<rparr>) = messages_ok g"
  "messages_ok (g\<lparr>wsCallbacks := q\<rparr>) = messages_ok g"
  by (simp_all add: messages_ok_def)

lemma messages_ok_emit: "messages_ok g \<Longrightarrow> event_ok (maxMessageSize (config g)) ev \<Longrightarrow> messages_ok (emit_if s ev g)"
  by (simp add: messages_ok_def emit_if_def)

lemma config_emit [simp]: "config (emit_if s ev g) = config g"
  by (simp add: emit_if_def)

lemma messages_ok_next_key [simp]: "messages_ok (fst (next_key h)) = messages_ok h"
  by (rule next_key_cases [of h]) simp

lemma messages_ok_send [simp]:
  "messages_ok (queueFrame env h opc pl f) = messages_ok h"
  "messages_ok (snd (ws_sendData env h opc pl)) = messages_ok h"
  "messages_ok (snd (sendPing env h pl)) = messages_ok h"
  "messages_ok (snd (sendPong env h pl)) = messages_ok h"
  "messages_ok (snd (sendClose env h code reason)) = messages_ok h"
proof -
  have k: "messages_ok h' = messages_ok h" if "next_key h = (h', key)" for h h' :: "'a WebSocketHandler" and key
    using messages_ok_next_key [of h] that by simp
  show q: "messages_ok (queueFrame env h opc pl f) = messages_ok h" for h opc pl f
    using k by (auto simp: queueFrame_def split: prod.split)
  show "messages_ok (snd (ws_sendData env h opc pl)) = messages_ok h"
    by (auto simp: ws_sendData_def Let_def q split: option.split prod.split dest!: k)
  show "messages_ok (snd (sendPing env h pl)) = messages_ok h" "messages_ok (snd (sendPong env h pl)) = messages_ok h"
    by (auto simp: sendPing_def sendPong_def q)
  show "messages_ok (snd (sendClose env h code reason)) = messages_ok h"
    by (auto simp: sendClose_def Let_def split: prod.split dest!: k)
qed

lemma messages_ok_fail [simp]: "messages_ok h \<Longrightarrow> messages_ok (snd (fail_with env h code msg))"
  by (simp add: fail_with_def messages_ok_emit event_ok_def)

lemma messages_ok_reset [simp]: "messages_ok h \<Longrightarrow> messages_ok (reset_message h)"
  by (simp add: messages_ok_def reset_message_def)

lemma length_unmask [simp]: "length (unmask env fh pl) = length pl"
  by (simp add: unmask_def ApplyMask_eq)

lemma messages_ok_complete:
  assumes "messages_ok h" "bounded_deflate (deflate env)" shows "messages_ok (snd (completeMessage env h))"
proof -
  obtain m h1 where m: "message_data env h = (m, h1)" by fastforce
  then have h1: "messages_ok h1" "config h1 = config h" "msgOpcode h1 = msgOpcode h"
    using assms(1) by (auto simp: message_data_def split: option.splits if_splits prod.splits)
  have size: "maxMessageSize (config h) = 0 \<or> length dat \<le> maxMessageSize (config h)" if "m = Some dat" for dat
    using m that assms by (auto simp: message_data_def messages_ok_def bounded_deflate_def split: option.splits if_splits prod.splits)
  have "messages_ok (emit_if s (EvMessage dat (msgOpcode h1 = OpBinary)) h1)"
    if "m = Some dat" "\<not> (msgOpcode h1 = OpText \<and> \<not> ValidateUtf8 (utf8Path env) dat)" for dat s
    using that h1 size [OF that(1)] assms(1) by (intro messages_ok_emit) (auto simp: event_ok_def messages_ok_def ValidateUtf8_iff)
  then show ?thesis using h1(1) by (auto simp: completeMessage_def m split: option.split)
qed

lemma messages_ok_fragment:
  assumes "messages_ok h" "bounded_deflate (deflate env)" "msgInProgress h"
  shows "messages_ok (snd (append_fragment env h fh pl))"
proof (cases "maxMessageSize (config h) > 0 \<and> length (msgBuffer h) + length pl > maxMessageSize (config h)")
  case True
  have "messages_ok (snd (fail_with env h CC_MessageTooBig ''Message too large''))" using assms(1) by simp
  then show ?thesis using True by (auto simp: append_fragment_def messages_ok_def split: prod.split)
next
  case False
  then have "messages_ok (h\<lparr>msgBuffer := msgBuffer h @ unmask env fh pl\<rparr>)" using assms by (auto simp: messages_ok_def)
  then show ?thesis using False messages_ok_complete [OF _ assms(2)] by (auto simp: append_fragment_def Let_def)
qed

lemma messages_ok_data:
  assumes "messages_ok h" "bounded_deflate (deflate env)" "\<not> IsControlFrame (opcode fh)"
  shows "messages_ok (snd (ws_handleDataFrame env h fh pl))"
proof (cases "opcode fh = OpContinuation")
  case True
  then show ?thesis using assms messages_ok_fragment [of h env fh pl] by (simp add: ws_handleDataFrame_def)
next
  case False
  then have o: "opcode fh = OpText \<or> opcode fh = OpBinary" using assms(3) by (cases "opcode fh") auto
  let ?h = "h\<lparr>msgOpcode := opcode fh, msgInProgress := True, msgBuffer := [], messageCompressed := rsv1 fh\<rparr>"
  have "messages_ok ?h" using o assms(1) by (simp add: messages_ok_def)
  then have a: "messages_ok (snd (append_fragment env ?h fh pl))" by (rule messages_ok_fragment [OF _ assms(2)]) simp
  have e: "messages_ok (emit_if s (EvMessage (unmask env fh pl) (opcode fh = OpBinary)) h)"
    if "\<not> (opcode fh = OpText \<and> \<not> ValidateUtf8 (utf8Path env) (unmask env fh pl))" "\<not> (maxMessageSize (config h) > 0 \<and> length pl > maxMessageSize (config h))" for s
    using that o assms(1) by (intro messages_ok_emit) (auto simp: event_ok_def ValidateUtf8_iff)
  show ?thesis using False a e assms(1) by (auto simp: ws_handleDataFrame_def Let_def)
qed

lemma messages_ok_control: "messages_ok h \<Longrightarrow> messages_ok (snd (ws_handleControlFrame env h fh pl))"
  by (auto simp: ws_handleControlFrame_def Let_def messages_ok_emit event_ok_def split: Opcode.split)

lemma messages_ok_frame:
  "messages_ok h \<Longrightarrow> bounded_deflate (deflate env) \<Longrightarrow> messages_ok (snd (ws_processFrame env h fr))"
  unfolding ws_processFrame_def using messages_ok_data messages_ok_control by (cases "IsControlFrame (opcode (pheader fr))") auto

lemma messages_ok_loop:
  "ws_loop env h d n act = (left, a, m, rest, h') \<Longrightarrow> messages_ok h \<Longrightarrow> bounded_deflate (deflate env) \<Longrightarrow> messages_ok h'"
proof (induction h d n act rule: ws_loop_induct [where env = env])
  case (step h d n act)
  show ?case
  proof (cases rule: ws_loop_cases [where d = d and h = h])
    case error
    then show ?thesis using step.prems by (auto simp: ws_loop_error)
  next
    case frame
    obtain b h1 where p: "ws_processFrame env h (ws_next_frame h d) = (b, h1)" by fastforce
    have h1: "messages_ok h1" using messages_ok_frame [OF step.prems(2,3), of "ws_next_frame h d"] by (simp add: p)
    show ?thesis
    proof (cases "b = WA_Close")
      case True
      then show ?thesis using step.prems(1) h1 by (auto simp: ws_loop_frame [OF frame p])
    next
      case False
      have l: "ws_loop env h1 (drop (consumed (ws_next_frame h d)) d) (n + consumed (ws_next_frame h d)) (if b = WA_ResponseReady then b else act)
          = (left, a, m, rest, h')" using step.prems(1) False unfolding ws_loop_frame [OF frame p] Let_def by (simp only: if_False)
      show ?thesis using step.IH [OF frame p False l h1 step.prems(3)] .
    qed
  qed (use step.prems in \<open>auto simp: ws_loop_more\<close>)
qed

lemma messages_ok_input:
  assumes "messages_ok h" "bounded_deflate (deflate env)" shows "messages_ok (snd (ws_processInput env h data))"
proof -
  define h0 where "h0 = (if inputBufferOffset h < length (inputBuffer h) then h\<lparr>inputBuffer := inputBuffer h @ data\<rparr> else h)"
  obtain left a m rest h1 where l: "ws_loop env h0 (if inputBufferOffset h < length (inputBuffer h) then drop (inputBufferOffset h) (inputBuffer h0) else data)
      0 WA_Continue = (left, a, m, rest, h1)" by (metis prod_cases5)
  have "messages_ok h0" using assms(1) by (simp add: h0_def)
  from messages_ok_loop [OF l this assms(2)] show ?thesis using l unfolding ws_processInput_def Let_def h0_def [symmetric]
    by (simp split: LoopEnd.split)
qed

lemma messages_ok_reach: "ws_reach d cfg h sent \<Longrightarrow> bounded_deflate d \<Longrightarrow> messages_ok h"
proof (induction rule: ws_reach.induct)
  case (start cbs ctx seed)
  show ?case by (simp add: messages_ok_def newWebSocketHandler_def)
next
  case (input h sent env data)
  then show ?case using messages_ok_input [of h env data] by simp
next
  case (transport h sent)
  then show ?case by (simp add: messages_ok_def onTransportClosing_def)
next
  case (written h sent n)
  then show ?case by (simp add: ws_onOutputWritten_def Let_def)
next
  case (drain h sent dest b h' taken)
  then show ?case by (auto simp: ws_drainOutputBuffer_def ws_onOutputWritten_def Let_def split: if_splits)
qed (simp_all add: sendText_def sendBinary_def initiateClose_def forceCloseOnTimeout_def setCallbacks_def)

section \<open>What every sequence of calls guarantees\<close>

text \<open>
  C11. The wire: after any sequence of calls of the application and the server, the bytes taken from the handler followed by those still pending are whole frames
  that the peer's parser reads (masked exactly on a client). They hold at most one Close frame; only Pong frames follow it; while the handshake
  is open there is none, and once the handler waits for the peer's Close there is one.
\<close>

theorem ws_output_discipline:
  assumes "ws_reach d cfg h sent"
  shows "\<exists>fs. decode_all (read_wsframe simd (\<not> isServerSide cfg)) (sent @ ws_getPendingOutput h) = Some fs \<and> disciplined (closeState h) fs"
proof -
  obtain fs where fs: "sent @ ws_getPendingOutput h = wire (\<not> isServerSide cfg) fs" "\<forall>f \<in> set fs. wsframe_ok (\<not> isServerSide cfg) f"
    "disciplined (closeState h) fs" using wire_ok_reach [OF assms] unfolding wire_ok_def by blast
  have "decode_all (read_wsframe simd (\<not> isServerSide cfg)) (wire (\<not> isServerSide cfg) fs) = Some fs"
    unfolding wire_def by (rule ws_frame.decode_all_concat) (use fs(2) in blast)
  then show ?thesis using fs by auto
qed

text \<open>A server that has sent a text message and started the closing handshake.\<close>

lemma fresh_reach: "ws_reach d (config fresh_ws) fresh_ws []"
proof -
  have "config (newWebSocketHandler cfg cbs ctx seed) = cfg" for cfg cbs seed and ctx :: "unit option" by (simp add: newWebSocketHandler_def)
  then show ?thesis unfolding fresh_ws_def by (simp only: start)
qed

lemma reach_example:
  "ws_reach (deflate plain_env) (config fresh_ws) (snd (sendClose plain_env (snd (sendText plain_env fresh_ws [104, 105])) 1000 [])) []"
  by (rule send_close, rule send_text [OF fresh_reach]) simp_all

theorem ws_output_discipline_witness:
  "\<exists>fs. decode_all (read_wsframe Sse2 False) (ws_getPendingOutput (snd (sendClose plain_env (snd (sendText plain_env fresh_ws [104, 105])) 1000 []))) = Some fs
     \<and> disciplined Cl_CloseSent fs"
proof -
  have "isServerSide (config fresh_ws)" by code_simp
  moreover have "closeState (snd (sendClose plain_env (snd (sendText plain_env fresh_ws [104, 105])) 1000 [])) = Cl_CloseSent" by code_simp
  ultimately show ?thesis using ws_output_discipline [OF reach_example, of Sse2] by simp
qed



end
