(* ===== verification/Ws_Delivery.thy ===== *)
theory Ws_Delivery
  imports Ws_Reach
begin

text \<open>
  Two WebSocket handlers, one on each side of a connection: what one sends, the other delivers.
\<close>

datatype WsSend = SendText bytes | SendBinary bytes | SendPing bytes

fun ws_send :: "'z Env \<Rightarrow> 'z WebSocketHandler \<Rightarrow> WsSend \<Rightarrow> 'z WebSocketHandler" where
  "ws_send env h (SendText p) = snd (sendText env h p)"
| "ws_send env h (SendBinary p) = snd (sendBinary env h p)"
| "ws_send env h (SendPing p) = snd (sendPing env h p)"

fun expected_event :: "WsSend \<Rightarrow> WsEvent" where
  "expected_event (SendText p) = EvMessage p False"
| "expected_event (SendBinary p) = EvMessage p True"
| "expected_event (SendPing p) = EvPing (take kMaxControlFramePayload p)"

text \<open>The messages a receiver with the given limits must accept; \<open>0\<close> is no limit.\<close>

fun fits_limits :: "WebSocketConfig \<Rightarrow> WsSend \<Rightarrow> bool" where
  "fits_limits cfg (SendText p) \<longleftrightarrow> well_encoded p \<and> length p < 2 ^ 63 \<and> (maxMessageSize cfg = 0 \<or> length p \<le> maxMessageSize cfg)
     \<and> (maxFrameSize cfg = 0 \<or> length p \<le> maxFrameSize cfg)"
| "fits_limits cfg (SendBinary p) \<longleftrightarrow> length p < 2 ^ 63 \<and> (maxMessageSize cfg = 0 \<or> length p \<le> maxMessageSize cfg)
     \<and> (maxFrameSize cfg = 0 \<or> length p \<le> maxFrameSize cfg)"
| "fits_limits cfg (SendPing p) \<longleftrightarrow> maxFrameSize cfg = 0 \<or> min (length p) kMaxControlFramePayload \<le> maxFrameSize cfg"

text \<open>The compression of one message does not depend on the messages before it (the no-context-takeover mode), and decompression inverts it.\<close>

definition independent_messages :: "'z Deflate \<Rightarrow> 'z Deflate \<Rightarrow> bool" where
  "independent_messages dc dd \<longleftrightarrow> (\<forall>z z' y p out limit. compress dc z p = (z', Some out) \<longrightarrow> limit = 0 \<or> length p \<le> limit \<longrightarrow>
     (\<exists>y'. decompress dd y out limit = (y', Some p)))"

lemma independent_messagesD:
  "independent_messages dc dd \<Longrightarrow> compress dc z p = (z', Some out) \<Longrightarrow> limit = 0 \<or> length p \<le> limit \<Longrightarrow> \<exists>y'. decompress dd y out limit = (y', Some p)"
  unfolding independent_messages_def by blast

section \<open>One message\<close>

text \<open>How a message of the application travels: the payload of its frame, and whether it is compressed.\<close>

definition payload_of :: "'z Deflate \<Rightarrow> bool \<Rightarrow> bytes \<Rightarrow> bytes \<Rightarrow> bool \<Rightarrow> bool" where
  "payload_of dc ctx p out r \<longleftrightarrow>
     (if r then ctx \<and> length out < length p \<and> (\<exists>z z'. compress dc z p = (z', Some out)) else out = p)"

lemma queueFrame_eq:
  "\<exists>key rng. queueFrame env h opc pl f = h\<lparr>rngState := rng, wsOutput := wsOutput h @ wire (\<not> isServerSide (config h))
      [\<lparr>wf_opcode = opc, wf_payload = pl, wf_fin = f, wf_rsv1 = False, wf_key = key\<rparr>]\<rparr> \<and> (isServerSide (config h) \<longrightarrow> key = 0)"
proof -
  obtain rng key where k: "next_key h = (h\<lparr>rngState := rng\<rparr>, key)" "isServerSide (config h) \<Longrightarrow> key = 0" by (rule next_key_cases [of h]) blast
  then show ?thesis by (intro exI [of _ key] exI [of _ rng]) (simp add: queueFrame_def BuildFrame_wire)
qed

definition sent_as :: "'z WebSocketHandler \<Rightarrow> WsFrame \<Rightarrow> 'z WebSocketHandler \<Rightarrow> bool" where
  "sent_as h w h' \<longleftrightarrow> (\<exists>z rng. h' = h\<lparr>deflateContext := z, rngState := rng, wsOutput := wsOutput h @ wire (\<not> isServerSide (config h)) [w]\<rparr>
     \<and> (z = None) = (deflateContext h = None)) \<and> (isServerSide (config h) \<longrightarrow> wf_key w = 0) \<and> wf_fin w"

lemma sent_as_queue:
  "\<exists>key. sent_as h \<lparr>wf_opcode = opc, wf_payload = pl, wf_fin = True, wf_rsv1 = False, wf_key = key\<rparr> (queueFrame env (h\<lparr>deflateContext := z\<rparr>) opc pl True)"
  if "(z = None) = (deflateContext h = None)"
  using queueFrame_eq [of env "h\<lparr>deflateContext := z\<rparr>" opc pl True] that by (fastforce simp: sent_as_def)

lemma sendData_sent_as:
  assumes "closeState h = Cl_Open"
  shows "\<exists>out r key. payload_of (deflate env) (deflateContext h \<noteq> None) p out r
    \<and> sent_as h \<lparr>wf_opcode = opc, wf_payload = out, wf_fin = True, wf_rsv1 = r, wf_key = key\<rparr> (snd (ws_sendData env h opc p))"
proof -
  have plain: "snd (ws_sendData env h opc p) = queueFrame env (h\<lparr>deflateContext := z\<rparr>) opc p True \<Longrightarrow> (z = None) = (deflateContext h = None) \<Longrightarrow> ?thesis" for z
  proof -
    assume q: "snd (ws_sendData env h opc p) = queueFrame env (h\<lparr>deflateContext := z\<rparr>) opc p True" and z: "(z = None) = (deflateContext h = None)"
    obtain key where "sent_as h \<lparr>wf_opcode = opc, wf_payload = p, wf_fin = True, wf_rsv1 = False, wf_key = key\<rparr> (snd (ws_sendData env h opc p))"
      using sent_as_queue [OF z, of opc p env] q by auto
    then show ?thesis by (intro exI [of _ p] exI [of _ False] exI [of _ key]) (simp add: payload_of_def)
  qed
  show ?thesis
  proof (cases "deflateContext h")
    case None
    have same: "h\<lparr>deflateContext := None\<rparr> = h" using None by simp
    have "snd (ws_sendData env h opc p) = queueFrame env (h\<lparr>deflateContext := None\<rparr>) opc p True" unfolding same using assms None by (simp add: ws_sendData_def)
    then show ?thesis using plain [of None] None by simp
  next
    case (Some ctx)
    have same: "h\<lparr>deflateContext := Some ctx\<rparr> = h" using Some by simp
    obtain ctx' res where c: "compress (deflate env) ctx p = (ctx', res)" by fastforce
    let ?h1 = "h\<lparr>deflateContext := Some ctx'\<rparr>"
    consider "length p < minCompressSize (config h)" | out where "\<not> length p < minCompressSize (config h)" "res = Some out" "length out < length p"
      | "\<not> length p < minCompressSize (config h)" "res = None \<or> (\<exists>out. res = Some out \<and> \<not> length out < length p)" by (cases res) auto
    then show ?thesis
    proof cases
      case 1
      then have "snd (ws_sendData env h opc p) = queueFrame env (h\<lparr>deflateContext := Some ctx\<rparr>) opc p True" unfolding same using assms Some by (simp add: ws_sendData_def)
      then show ?thesis using plain [of "Some ctx"] Some by simp
    next
      case 2
      obtain rng key where k: "next_key ?h1 = (?h1\<lparr>rngState := rng\<rparr>, key)" "isServerSide (config h) \<Longrightarrow> key = 0"
        by (rule next_key_cases [of ?h1]) auto
      have "snd (ws_sendData env h opc p) = h\<lparr>deflateContext := Some ctx', rngState := rng, wsOutput := wsOutput h @ wire (\<not> isServerSide (config h))
          [\<lparr>wf_opcode = opc, wf_payload = out, wf_fin = True, wf_rsv1 = True, wf_key = key\<rparr>]\<rparr>"
        using assms Some 2 k by (simp add: ws_sendData_def c BuildFrame_wire)
      then show ?thesis using 2 Some c k by (intro exI [of _ out] exI [of _ True] exI [of _ key]) (auto simp: payload_of_def sent_as_def)
    next
      case 3
      then have "snd (ws_sendData env h opc p) = queueFrame env ?h1 opc p True" using assms Some by (auto simp: ws_sendData_def c)
      then show ?thesis using plain [of "Some ctx'"] Some by simp
    qed
  qed
qed

text \<open>The frame of a message, for a sender and a receiver that agree on their roles.\<close>

definition carries :: "'z Deflate \<Rightarrow> bool \<Rightarrow> WsSend \<Rightarrow> WsFrame \<Rightarrow> bool" where
  "carries dc ctx m w = (case m of
       SendText p \<Rightarrow> wf_opcode w = OpText \<and> payload_of dc ctx p (wf_payload w) (wf_rsv1 w)
     | SendBinary p \<Rightarrow> wf_opcode w = OpBinary \<and> payload_of dc ctx p (wf_payload w) (wf_rsv1 w)
     | SendPing p \<Rightarrow> wf_opcode w = OpPing \<and> wf_payload w = take kMaxControlFramePayload p \<and> \<not> wf_rsv1 w)"

lemma ws_send_carries:
  assumes "closeState h = Cl_Open"
  shows "\<exists>w. carries (deflate env) (deflateContext h \<noteq> None) m w \<and> sent_as h w (ws_send env h m)"
proof (cases m)
  case (SendPing p)
  have "h\<lparr>deflateContext := deflateContext h\<rparr> = h" by simp
  then obtain key where "sent_as h \<lparr>wf_opcode = OpPing, wf_payload = take 125 p, wf_fin = True, wf_rsv1 = False, wf_key = key\<rparr> (ws_send env h m)"
    using sent_as_queue [of "deflateContext h" h OpPing "take 125 p" env] SendPing assms by (auto simp: sendPing_def)
  then show ?thesis using SendPing
    by (intro exI [of _ "\<lparr>wf_opcode = OpPing, wf_payload = take 125 p, wf_fin = True, wf_rsv1 = False, wf_key = key\<rparr>"]) (simp add: carries_def)
next
  case (SendText p)
  obtain out r key where "payload_of (deflate env) (deflateContext h \<noteq> None) p out r"
    "sent_as h \<lparr>wf_opcode = OpText, wf_payload = out, wf_fin = True, wf_rsv1 = r, wf_key = key\<rparr> (ws_send env h m)"
    using sendData_sent_as [OF assms, of env p OpText] SendText by (auto simp: sendText_def)
  then show ?thesis using SendText by (intro exI conjI) (auto simp: carries_def)
next
  case (SendBinary p)
  obtain out r key where "payload_of (deflate env) (deflateContext h \<noteq> None) p out r"
    "sent_as h \<lparr>wf_opcode = OpBinary, wf_payload = out, wf_fin = True, wf_rsv1 = r, wf_key = key\<rparr> (ws_send env h m)"
    using sendData_sent_as [OF assms, of env p OpBinary] SendBinary by (auto simp: sendBinary_def)
  then show ?thesis using SendBinary by (intro exI conjI) (auto simp: carries_def)
qed

section \<open>Receiving the frame of a message\<close>

definition receiver_ok :: "'z WebSocketHandler \<Rightarrow> bool \<Rightarrow> bool \<Rightarrow> bool" where
  "receiver_ok h srv ctx \<longleftrightarrow> isServerSide (config h) = srv \<and> (ctx \<longrightarrow> deflateContext h \<noteq> None) \<and> \<not> msgInProgress h
     \<and> onMessage (wsCallbacks h) \<and> onPing (wsCallbacks h)"

definition frame_head :: "bool \<Rightarrow> WsFrame \<Rightarrow> WsFrameHeader" where
  "frame_head srv w = \<lparr>opcode = wf_opcode w, fin = True, masked = srv, rsv1 = wf_rsv1 w, rsv2 = False, rsv3 = False,
     payloadLength = of_nat (length (wf_payload w)), maskingKey = (if srv then wf_key w else 0)\<rparr>"

lemma frame_head_sel [simp]:
  "opcode (frame_head srv w) = wf_opcode w" "fin (frame_head srv w)" "rsv1 (frame_head srv w) = wf_rsv1 w"
  by (simp_all add: frame_head_def)

lemma mask_tail_Nil: "mask_tail key i bs = [] \<longleftrightarrow> bs = []"
  by (cases bs) simp_all

definition frame_body :: "bool \<Rightarrow> WsFrame \<Rightarrow> bytes" where
  "frame_body srv w = (if srv then ApplyMask NoSimd (wf_payload w) (wf_key w) else wf_payload w)"

lemma frame_body_simps [simp]:
  "length (frame_body srv w) = length (wf_payload w)" "unmask env (frame_head srv w) (frame_body srv w) = wf_payload w"
  by (auto simp: frame_body_def unmask_def frame_head_def ApplyMask_eq mask_tail_twice mask_tail_Nil)

lemma next_frame_of:
  assumes f: "fits_limits (config h) m" "carries dc ctx m w" "wf_fin w" and h: "receiver_ok h srv ctx"
  shows "ws_next_frame h (wire srv [w] @ rest) = frame_result FS_Complete (frame_head srv w) (frame_body srv w) (length (wire srv [w])) ''''"
proof -
  have size: "length (wf_payload w) < 2 ^ 63" "maxFrameSize (config h) = 0 \<or> length (wf_payload w) \<le> maxFrameSize (config h)"
    using f by (cases m; auto simp: carries_def payload_of_def split: if_splits)+
  have ctrl: "IsControlFrame (wf_opcode w) \<Longrightarrow> wf_fin w \<and> length (wf_payload w) \<le> 125 \<and> \<not> wf_rsv1 w"
    and ext: "wf_rsv1 w \<Longrightarrow> deflateContext h \<noteq> None"
    using f h by (cases m; auto simp: carries_def payload_of_def receiver_ok_def split: if_splits)+
  show ?thesis
    using ParseFrame_built [OF size ctrl ext, where simd = NoSimd and m = srv and key = "wf_key w" and rest = rest] h f(3)
    by (simp add: ws_next_frame_def build_wsframe_def receiver_ok_def frame_head_def frame_body_def)
qed

lemma emit_sel [simp]:
  "receiver_ok (emit_if s ev h) srv ctx = receiver_ok h srv ctx" "wsEvents (emit_if True ev h) = wsEvents h @ [ev]"
  "wsCallbacks (emit_if s ev h) = wsCallbacks h"
  by (simp_all add: emit_if_def receiver_ok_def)

lemma sendPong_receiver [simp]:
  "wsEvents (snd (sendPong env h pl)) = wsEvents h" "receiver_ok (snd (sendPong env h pl)) srv ctx = receiver_ok h srv ctx"
  "config (snd (sendPong env h pl)) = config h" "wsCallbacks (snd (sendPong env h pl)) = wsCallbacks h"
proof -
  obtain key rng where q: "queueFrame env h OpPong (take 125 pl) True = h\<lparr>rngState := rng, wsOutput := wsOutput h @ wire (\<not> isServerSide (config h))
      [\<lparr>wf_opcode = OpPong, wf_payload = take 125 pl, wf_fin = True, wf_rsv1 = False, wf_key = key\<rparr>]\<rparr>"
    using queueFrame_eq [of env h OpPong "take 125 pl" True] by blast
  show "wsEvents (snd (sendPong env h pl)) = wsEvents h" "receiver_ok (snd (sendPong env h pl)) srv ctx = receiver_ok h srv ctx"
    "config (snd (sendPong env h pl)) = config h" "wsCallbacks (snd (sendPong env h pl)) = wsCallbacks h"
    by (simp_all add: sendPong_def q receiver_ok_def)
qed

text \<open>A data message: straight to the application, or through the message buffer when compression is on.\<close>

lemma receive_data:
  assumes h: "receiver_ok h srv ctx" and p: "payload_of dc ctx p (wf_payload w) (wf_rsv1 w)"
    and size: "maxMessageSize (config h) = 0 \<or> length p \<le> maxMessageSize (config h)" and opc: "wf_opcode w = OpText \<and> well_encoded p \<or> wf_opcode w = OpBinary"
    and z: "independent_messages dc (deflate env)" and pl: "length pl = length (wf_payload w)" "unmask env (frame_head srv w) pl = wf_payload w"
  shows "\<exists>h'. ws_handleDataFrame env h (frame_head srv w) pl = (WA_Continue, h') \<and> wsEvents h' = wsEvents h @ [EvMessage p (wf_opcode w = OpBinary)]
    \<and> receiver_ok h' srv ctx \<and> config h' = config h"
proof -
  have fits: "\<not> (maxMessageSize (config h) > 0 \<and> length (wf_payload w) > maxMessageSize (config h))"
    using p size by (auto simp: payload_of_def split: if_splits)
  have utf8: "\<not> (wf_opcode w = OpText \<and> \<not> ValidateUtf8 (utf8Path env) p)" using opc by (auto simp: ValidateUtf8_iff)
  have noc: "wf_opcode w \<noteq> OpContinuation" "\<not> msgInProgress h" "onMessage (wsCallbacks h)" using opc h by (auto simp: receiver_ok_def)
  show ?thesis
  proof (cases "deflateContext h")
    case None
    then have "wf_payload w = p" using p h by (auto simp: payload_of_def receiver_ok_def split: if_splits)
    then show ?thesis using noc None fits utf8 pl h by (auto simp: ws_handleDataFrame_def Let_def)
  next
    case (Some y)
    let ?h = "h\<lparr>msgOpcode := wf_opcode w, msgInProgress := True, msgBuffer := wf_payload w, messageCompressed := wf_rsv1 w\<rparr>"
    let ?e = "h\<lparr>msgOpcode := wf_opcode w, msgInProgress := True, msgBuffer := [], messageCompressed := wf_rsv1 w\<rparr>"
    have eq: "?e\<lparr>msgBuffer := msgBuffer ?e @ unmask env (frame_head srv w) pl\<rparr> = ?h" by (simp add: pl)
    have "ws_handleDataFrame env h (frame_head srv w) pl = append_fragment env ?e (frame_head srv w) pl"
      using noc Some by (simp add: ws_handleDataFrame_def)
    also have "\<dots> = completeMessage env ?h" using fits pl(1) unfolding append_fragment_def Let_def eq by auto
    finally have start: "ws_handleDataFrame env h (frame_head srv w) pl = completeMessage env ?h" .
    obtain y' where d: "message_data env ?h = (Some p, ?h\<lparr>deflateContext := Some y'\<rparr>)"
    proof (cases "wf_rsv1 w")
      case True
      then obtain y' where "decompress (deflate env) y (wf_payload w) (maxMessageSize (config h)) = (y', Some p)"
        using p independent_messagesD [OF z _ size] by (fastforce simp: payload_of_def)
      then show thesis using True Some that by (simp add: message_data_def)
    next
      case False
      then have "message_data env ?h = (Some p, ?h)" using Some p by (simp add: message_data_def payload_of_def)
      moreover have "?h\<lparr>deflateContext := Some y\<rparr> = ?h" using Some by simp
      ultimately show thesis using that [of y] by simp
    qed
    show ?thesis using utf8 noc h Some unfolding start completeMessage_def d
      by (auto simp: reset_message_def receiver_ok_def emit_if_def)
  qed
qed

lemma receive_frame:
  assumes f: "fits_limits (config h) m" "carries dc ctx m w" and h: "receiver_ok h srv ctx"
    and z: "independent_messages dc (deflate env)" and pl: "length pl = length (wf_payload w)" "unmask env (frame_head srv w) pl = wf_payload w"
  shows "\<exists>a h'. ws_processFrame env h (frame_result FS_Complete (frame_head srv w) pl n '''') = (a, h') \<and> a \<noteq> WA_Close
    \<and> wsEvents h' = wsEvents h @ [expected_event m] \<and> receiver_ok h' srv ctx \<and> config h' = config h"
proof (cases m)
  case (SendPing p)
  have "onPing (wsCallbacks h)" using h by (simp add: receiver_ok_def)
  then show ?thesis using f h pl SendPing
    by (simp add: ws_processFrame_def frame_result_def ws_handleControlFrame_def carries_def Let_def)
next
  case (SendText p)
  then show ?thesis using receive_data [OF h _ _ _ z pl, of p] f
    by (fastforce simp: ws_processFrame_def frame_result_def carries_def)
next
  case (SendBinary p)
  then show ?thesis using receive_data [OF h _ _ _ z pl, of p] f
    by (fastforce simp: ws_processFrame_def frame_result_def carries_def)
qed

section \<open>A sequence of messages\<close>

lemma wire_nonempty: "wire m [w] \<noteq> []"
  using ws_frame.enc_nonempty by (simp add: build_wsframe_def BuildFrame_eq)

lemma run_of_message:
  assumes f: "fits_limits (config h) m" "carries dc ctx m w" "wf_fin w" and h: "receiver_ok h srv ctx" and z: "independent_messages dc (deflate env)"
  obtains h' where "\<And>rest. ws_run env h (wire srv [w] @ rest) = ws_run env h' rest" "wsEvents h' = wsEvents h @ [expected_event m]"
    "receiver_ok h' srv ctx" "config h' = config h"
proof -
  note n = next_frame_of [OF f h]
  obtain a h' where p: "ws_processFrame env h (frame_result FS_Complete (frame_head srv w) (frame_body srv w) (length (wire srv [w])) '''') = (a, h')"
    and a: "a \<noteq> WA_Close" and h': "wsEvents h' = wsEvents h @ [expected_event m]" "receiver_ok h' srv ctx" "config h' = config h"
    using receive_frame [OF f(1,2) h z frame_body_simps] by blast
  have "ws_run env h (wire srv [w] @ rest) = ws_run env h' rest" for rest
  proof -
    let ?d = "wire srv [w] @ rest"
    have d: "?d \<noteq> []" using wire_nonempty by simp
    have c: "status (ws_next_frame h ?d) = FS_Complete" "consumed (ws_next_frame h ?d) = length (wire srv [w])" unfolding n by (simp_all add: frame_result_def)
    have "ws_processFrame env h (ws_next_frame h ?d) = (a, h')" unfolding n by (rule p)
    from ws_loop_frame [OF d c(1) this, of 0 WA_Continue]
    have "ws_loop env h ?d 0 WA_Continue = ws_loop env h' rest (length (wire srv [w])) (if a = WA_ResponseReady then a else WA_Continue)"
      using a unfolding c(2) Let_def by simp
    then show ?thesis using ws_run_loop [of env h' rest] unfolding ws_run_def [of env h ?d] by simp
  qed
  then show thesis using that h' by blast
qed

lemma run_of_messages:
  assumes "closeState s = Cl_Open" "(\<not> isServerSide (config s)) = srv" "ctx = (deflateContext s \<noteq> None)" "receiver_ok h srv ctx"
    "\<And>m. m \<in> set ms \<Longrightarrow> fits_limits (config h) m" "independent_messages (deflate envS) (deflate envR)"
  shows "\<exists>ws h'. wsOutput (foldl (ws_send envS) s ms) = wsOutput s @ wire srv ws \<and> wsOutputOffset (foldl (ws_send envS) s ms) = wsOutputOffset s
    \<and> ws_run envR h (wire srv ws) = (LE_AllConsumed, [], h') \<and> wsEvents h' = wsEvents h @ map expected_event ms"
  using assms
proof (induction ms arbitrary: s h)
  case Nil
  then show ?case by (intro exI [of _ "[]"]) (simp add: ws_run_def)
next
  case (Cons m ms)
  let ?s = "ws_send envS s m"
  obtain w where w: "carries (deflate envS) ctx m w" "sent_as s w ?s" using ws_send_carries [OF Cons.prems(1), of envS m] Cons.prems(3) by blast
  have s: "closeState ?s = Cl_Open" "(\<not> isServerSide (config ?s)) = srv" "ctx = (deflateContext ?s \<noteq> None)"
    "wsOutput ?s = wsOutput s @ wire srv [w]" "wsOutputOffset ?s = wsOutputOffset s" "wf_fin w"
    using w(2) Cons.prems(1-3) by (auto simp: sent_as_def)
  have "fits_limits (config h) m" using Cons.prems(5) by simp
  then obtain h1 where h1: "\<And>rest. ws_run envR h (wire srv [w] @ rest) = ws_run envR h1 rest" "wsEvents h1 = wsEvents h @ [expected_event m]"
    "receiver_ok h1 srv ctx" "config h1 = config h" by (rule run_of_message [OF _ w(1) s(6) Cons.prems(4,6)]) blast
  have "\<And>m. m \<in> set ms \<Longrightarrow> fits_limits (config h1) m" using Cons.prems(5) h1(4) by simp
  from Cons.IH [OF s(1-3) h1(3) this Cons.prems(6)] obtain ws h' where
    "wsOutput (foldl (ws_send envS) ?s ms) = wsOutput ?s @ wire srv ws" "wsOutputOffset (foldl (ws_send envS) ?s ms) = wsOutputOffset ?s"
    "ws_run envR h1 (wire srv ws) = (LE_AllConsumed, [], h')" "wsEvents h' = wsEvents h1 @ map expected_event ms" by blast
  then show ?case using h1(1,2) s(4,5) by (intro exI [of _ "w # ws"] exI [of _ h']) simp
qed


text \<open>A small instance: a compressor that shortens four equal bytes to one, and a client that sends to a server with compression on.\<close>

definition run_deflate :: "unit Deflate" where
  "run_deflate = \<lparr>compress = (\<lambda>z p. (z, if p = replicate 4 (hd p) then Some [hd p] else Some (0 # 0 # p))),
     decompress = (\<lambda>z out limit. (z, Some (if length out = 1 then replicate 4 (hd out) else drop 2 out)))\<rparr>"

definition run_env :: "unit Env" where
  "run_env = \<lparr>simdPath = Sse2, utf8Path = Utf8Scalar, deflate = run_deflate, clock = 0\<rparr>"

definition run_ws :: "bool \<Rightarrow> unit WebSocketHandler" where
  "run_ws srv = newWebSocketHandler \<lparr>maxMessageSize = 9, maxFrameSize = 9, closeTimeout = 5000, minCompressSize = 4, isServerSide = srv\<rparr>
     \<lparr>onMessage = True, onPing = True, onPong = True, onClose = True, onError = True\<rparr> (Some ()) 5"

lemma run_ws_sel [simp]:
  "closeState (run_ws b) = Cl_Open" "wsOutput (run_ws b) = []" "wsOutputOffset (run_ws b) = 0" "isServerSide (config (run_ws b)) = b"
  "deflateContext (run_ws b) = Some ()" "inputBuffer (run_ws b) = []" "\<not> msgInProgress (run_ws b)" "onMessage (wsCallbacks (run_ws b))"
  "onPing (wsCallbacks (run_ws b))" "wsEvents (run_ws b) = []"
  by (simp_all add: run_ws_def newWebSocketHandler_def)

lemma run_deflate_independent: "independent_messages run_deflate run_deflate"
  unfolding independent_messages_def run_deflate_def by (auto split: if_splits)


end
