(* ===== verification/Sha1.thy ===== *)
theory Sha1
  imports Prelude
begin

text \<open>
  The SHA-1 hasher of the WebSocket handshake, \<^verbatim>\<open>sha1.hpp\<close>: the compression function with its sixteen-word
  circular schedule and its rotating registers, and the incremental interface. It is compared with the definition of the standard
  (FIPS 180-4), which has an eighty-word schedule and pads the whole message at once.
\<close>

section \<open>The hasher\<close>

text \<open>The array \<open>sha_buffer\<close> has 64 bytes; only the first \<open>sha_bufferSize\<close> of them belong to the message.\<close>

record SHA1 =
  sha_digest :: "u32 list"
  sha_buffer :: bytes
  sha_bufferSize :: nat
  sha_transforms :: u64

definition kInitialDigest :: "u32 list" where
  "kInitialDigest = [0x67452301, 0xefcdab89, 0x98badcfe, 0x10325476, 0xc3d2e1f0]"

definition sha_reset :: "SHA1 \<Rightarrow> SHA1" where
  "sha_reset h = h\<lparr>sha_digest := kInitialDigest, sha_bufferSize := 0, sha_transforms := 0\<rparr>"

text \<open>A new hasher; the constructor leaves the buffer uninitialised, so its content is a parameter.\<close>

definition newSHA1 :: "(nat \<Rightarrow> u8) \<Rightarrow> SHA1" where
  "newSHA1 garbage = sha_reset \<lparr>sha_digest = [], sha_buffer = map garbage [0..<64], sha_bufferSize = 0, sha_transforms = 0\<rparr>"

definition rol :: "u32 \<Rightarrow> nat \<Rightarrow> u32" where
  "rol v bits = push_bit bits v OR drop_bit (32 - bits) v"

definition blk :: "u32 list \<Rightarrow> nat \<Rightarrow> u32" where
  "blk block idx = rol (block ! ((idx + 13) mod 16) XOR block ! ((idx + 8) mod 16) XOR block ! ((idx + 2) mod 16) XOR block ! idx) 1"

datatype Round = R0 | R1 | R2 | R3 | R4

text \<open>
  One of the five round functions on the registers \<open>v\<close>, \<open>w\<close>, \<open>x\<close>, \<open>y\<close>, \<open>z\<close> (named by their position: \<^verbatim>\<open>aa\<close> is 0, \<^verbatim>\<open>ee\<close> is 4): all but
  \<open>R0\<close> first put the next word into the schedule; then \<open>z\<close> and \<open>w\<close> are changed.
\<close>

definition round_mix :: "Round \<Rightarrow> u32 \<Rightarrow> u32 \<Rightarrow> u32 \<Rightarrow> u32" where
  "round_mix r ww xx yy =
     (case r of R0 \<Rightarrow> (ww AND (xx XOR yy)) XOR yy | R1 \<Rightarrow> (ww AND (xx XOR yy)) XOR yy | R2 \<Rightarrow> ww XOR xx XOR yy
      | R3 \<Rightarrow> ((ww OR xx) AND yy) OR (ww AND xx) | R4 \<Rightarrow> ww XOR xx XOR yy)"

definition round_const :: "Round \<Rightarrow> u32" where
  "round_const r = (case r of R0 \<Rightarrow> 0x5a827999 | R1 \<Rightarrow> 0x5a827999 | R2 \<Rightarrow> 0x6ed9eba1 | R3 \<Rightarrow> 0x8f1bbcdc | R4 \<Rightarrow> 0xca62c1d6)"

fun sha_round :: "u32 list \<times> u32 list \<Rightarrow> Round \<times> nat \<times> nat \<times> nat \<times> nat \<times> nat \<times> nat \<Rightarrow> u32 list \<times> u32 list" where
  "sha_round (regs, block) (r, v, w, x, y, z, idx) =
     (let block1 = (if r = R0 then block else block[idx := blk block idx]);
          zz = regs ! z + (round_mix r (regs ! w) (regs ! x) (regs ! y) + block1 ! idx + round_const r + rol (regs ! v) 5)
      in (regs[z := zz, w := rol (regs ! w) 30], block1))"

text \<open>The eighty calls of \<^verbatim>\<open>transform\<close>, in order.\<close>

definition transform_rounds :: "(Round \<times> nat \<times> nat \<times> nat \<times> nat \<times> nat \<times> nat) list" where
  "transform_rounds =
    [(R0, 0, 1, 2, 3, 4, 0), (R0, 4, 0, 1, 2, 3, 1), (R0, 3, 4, 0, 1, 2, 2), (R0, 2, 3, 4, 0, 1, 3),
     (R0, 1, 2, 3, 4, 0, 4), (R0, 0, 1, 2, 3, 4, 5), (R0, 4, 0, 1, 2, 3, 6), (R0, 3, 4, 0, 1, 2, 7),
     (R0, 2, 3, 4, 0, 1, 8), (R0, 1, 2, 3, 4, 0, 9), (R0, 0, 1, 2, 3, 4, 10), (R0, 4, 0, 1, 2, 3, 11),
     (R0, 3, 4, 0, 1, 2, 12), (R0, 2, 3, 4, 0, 1, 13), (R0, 1, 2, 3, 4, 0, 14), (R0, 0, 1, 2, 3, 4, 15),
     (R1, 4, 0, 1, 2, 3, 0), (R1, 3, 4, 0, 1, 2, 1), (R1, 2, 3, 4, 0, 1, 2), (R1, 1, 2, 3, 4, 0, 3),
     (R2, 0, 1, 2, 3, 4, 4), (R2, 4, 0, 1, 2, 3, 5), (R2, 3, 4, 0, 1, 2, 6), (R2, 2, 3, 4, 0, 1, 7),
     (R2, 1, 2, 3, 4, 0, 8), (R2, 0, 1, 2, 3, 4, 9), (R2, 4, 0, 1, 2, 3, 10), (R2, 3, 4, 0, 1, 2, 11),
     (R2, 2, 3, 4, 0, 1, 12), (R2, 1, 2, 3, 4, 0, 13), (R2, 0, 1, 2, 3, 4, 14), (R2, 4, 0, 1, 2, 3, 15),
     (R2, 3, 4, 0, 1, 2, 0), (R2, 2, 3, 4, 0, 1, 1), (R2, 1, 2, 3, 4, 0, 2), (R2, 0, 1, 2, 3, 4, 3),
     (R2, 4, 0, 1, 2, 3, 4), (R2, 3, 4, 0, 1, 2, 5), (R2, 2, 3, 4, 0, 1, 6), (R2, 1, 2, 3, 4, 0, 7),
     (R3, 0, 1, 2, 3, 4, 8), (R3, 4, 0, 1, 2, 3, 9), (R3, 3, 4, 0, 1, 2, 10), (R3, 2, 3, 4, 0, 1, 11),
     (R3, 1, 2, 3, 4, 0, 12), (R3, 0, 1, 2, 3, 4, 13), (R3, 4, 0, 1, 2, 3, 14), (R3, 3, 4, 0, 1, 2, 15),
     (R3, 2, 3, 4, 0, 1, 0), (R3, 1, 2, 3, 4, 0, 1), (R3, 0, 1, 2, 3, 4, 2), (R3, 4, 0, 1, 2, 3, 3),
     (R3, 3, 4, 0, 1, 2, 4), (R3, 2, 3, 4, 0, 1, 5), (R3, 1, 2, 3, 4, 0, 6), (R3, 0, 1, 2, 3, 4, 7),
     (R3, 4, 0, 1, 2, 3, 8), (R3, 3, 4, 0, 1, 2, 9), (R3, 2, 3, 4, 0, 1, 10), (R3, 1, 2, 3, 4, 0, 11),
     (R4, 0, 1, 2, 3, 4, 12), (R4, 4, 0, 1, 2, 3, 13), (R4, 3, 4, 0, 1, 2, 14), (R4, 2, 3, 4, 0, 1, 15),
     (R4, 1, 2, 3, 4, 0, 0), (R4, 0, 1, 2, 3, 4, 1), (R4, 4, 0, 1, 2, 3, 2), (R4, 3, 4, 0, 1, 2, 3),
     (R4, 2, 3, 4, 0, 1, 4), (R4, 1, 2, 3, 4, 0, 5), (R4, 0, 1, 2, 3, 4, 6), (R4, 4, 0, 1, 2, 3, 7),
     (R4, 3, 4, 0, 1, 2, 8), (R4, 2, 3, 4, 0, 1, 9), (R4, 1, 2, 3, 4, 0, 10), (R4, 0, 1, 2, 3, 4, 11),
     (R4, 4, 0, 1, 2, 3, 12), (R4, 3, 4, 0, 1, 2, 13), (R4, 2, 3, 4, 0, 1, 14), (R4, 1, 2, 3, 4, 0, 15)]"

definition sha_transform :: "SHA1 \<Rightarrow> u32 list \<Rightarrow> SHA1 \<times> u32 list" where
  "sha_transform h block =
     (let (regs, block') = foldl sha_round (sha_digest h, block) transform_rounds
      in (h\<lparr>sha_digest := map2 (+) (sha_digest h) regs, sha_transforms := sha_transforms h + 1\<rparr>, block'))"

definition bufferToBlock :: "bytes \<Rightarrow> u32 list" where
  "bufferToBlock buf = map (\<lambda>idx. ucast (buf ! (4 * idx + 3)) OR push_bit 8 (ucast (buf ! (4 * idx + 2)))
      OR push_bit 16 (ucast (buf ! (4 * idx + 1))) OR push_bit 24 (ucast (buf ! (4 * idx)))) [0..<16]"

text \<open>\<^verbatim>\<open>std::memcpy\<close> into the buffer at an offset.\<close>

definition copy_at :: "bytes \<Rightarrow> nat \<Rightarrow> bytes \<Rightarrow> bytes" where
  "copy_at buf off data = take off buf @ data @ drop (off + length data) buf"

text \<open>
  The loop of \<^verbatim>\<open>update\<close>. A buffer that is already full, which no call leaves behind, would make the loop of the source spin; the model stops there.
\<close>

function sha_update :: "SHA1 \<Rightarrow> bytes \<Rightarrow> SHA1" where
  "sha_update h data =
     (if data = [] then h
      else if 64 \<le> sha_bufferSize h then h
      else
        (let toCopy = min (64 - sha_bufferSize h) (length data);
             h1 = h\<lparr>sha_buffer := copy_at (sha_buffer h) (sha_bufferSize h) (take toCopy data), sha_bufferSize := sha_bufferSize h + toCopy\<rparr>
         in sha_update (if sha_bufferSize h1 = 64 then (fst (sha_transform h1 (bufferToBlock (sha_buffer h1))))\<lparr>sha_bufferSize := 0\<rparr> else h1)
              (drop toCopy data)))"
  by pat_completeness auto
termination
  by (relation "measure (\<lambda>(h, data). length data)") auto

declare sha_update.simps [simp del]

text \<open>The padding loop of \<^verbatim>\<open>final\<close>.\<close>

function pad_buffer :: "bytes \<Rightarrow> nat \<Rightarrow> bytes" where
  "pad_buffer buf n = (if n < 64 then pad_buffer (buf[n := 0]) (Suc n) else buf)"
  by pat_completeness auto
termination
  by (relation "measure (\<lambda>(buf, n). 64 - n)") auto

declare pad_buffer.simps [simp del]

definition digest_bytes :: "u32 list \<Rightarrow> bytes" where
  "digest_bytes ws = concat (map Write32BE ws)"

definition sha_final :: "SHA1 \<Rightarrow> bytes \<times> SHA1" where
  "sha_final h =
     (let totalBits = (sha_transforms h * 64 + of_nat (sha_bufferSize h)) * 8;
          buf1 = (sha_buffer h)[sha_bufferSize h := 0x80];
          origSize = sha_bufferSize h + 1;
          buf2 = pad_buffer buf1 origSize;
          h1 = h\<lparr>sha_buffer := buf2, sha_bufferSize := max origSize 64\<rparr>;
          block = bufferToBlock buf2;
          (h2, block1) = (if origSize > 64 - 8
                          then (let (h', b) = sha_transform h1 block in (h', replicate 14 0 @ drop 14 b)) else (h1, block));
          block2 = block1[15 := ucast totalBits, 14 := ucast (drop_bit 32 totalBits)];
          (h3, b3) = sha_transform h2 block2
      in (digest_bytes (sha_digest h3), sha_reset h3))"

section \<open>The standard\<close>

text \<open>FIPS 180-4: the message schedule, the functions and constants of the eighty steps, and the hash of one block.\<close>

fun schedule :: "u32 list \<Rightarrow> nat \<Rightarrow> u32" where
  "schedule M t = (if t < 16 then M ! t else rol (schedule M (t - 3) XOR schedule M (t - 8) XOR schedule M (t - 14) XOR schedule M (t - 16)) 1)"

declare schedule.simps [simp del]

definition f_t :: "nat \<Rightarrow> u32 \<Rightarrow> u32 \<Rightarrow> u32 \<Rightarrow> u32" where
  "f_t t x y z =
     (if t < 20 then (x AND y) XOR (NOT x AND z) else if t < 40 then x XOR y XOR z
      else if t < 60 then (x AND y) XOR (x AND z) XOR (y AND z) else x XOR y XOR z)"

definition K_t :: "nat \<Rightarrow> u32" where
  "K_t t = (if t < 20 then 0x5a827999 else if t < 40 then 0x6ed9eba1 else if t < 60 then 0x8f1bbcdc else 0xca62c1d6)"

fun fips_step :: "u32 list \<Rightarrow> u32 \<times> u32 \<times> u32 \<times> u32 \<times> u32 \<Rightarrow> nat \<Rightarrow> u32 \<times> u32 \<times> u32 \<times> u32 \<times> u32" where
  "fips_step M (a, b, c, d, e) t = (rol a 5 + f_t t b c d + e + K_t t + schedule M t, a, rol b 30, c, d)"

definition fips_block :: "u32 list \<Rightarrow> u32 list \<Rightarrow> u32 list" where
  "fips_block H M =
     (let (a, b, c, d, e) = foldl (fips_step M) (H ! 0, H ! 1, H ! 2, H ! 3, H ! 4) [0..<80]
      in [H ! 0 + a, H ! 1 + b, H ! 2 + c, H ! 3 + d, H ! 4 + e])"

text \<open>The padding to a multiple of 64 bytes, with the length in bits as a 64-bit number, and the blocks of sixteen words.\<close>

definition fips_pad :: "bytes \<Rightarrow> bytes" where
  "fips_pad msg = (let bits = of_nat (8 * length msg) :: u64 in
     msg @ [0x80] @ replicate ((119 - length msg mod 64) mod 64) 0 @ Write32BE (ucast (drop_bit 32 bits)) @ Write32BE (ucast bits))"

definition block_words :: "bytes \<Rightarrow> u32 list" where
  "block_words bs = map (\<lambda>i. Read32BE (drop (4 * i) bs)) [0..<16]"

function blocks64 :: "bytes \<Rightarrow> bytes list" where
  "blocks64 bs = (if length bs < 64 then [] else take 64 bs # blocks64 (drop 64 bs))"
  by pat_completeness auto
termination
  by (relation "measure length") auto

declare blocks64.simps [simp del]

definition fips_sha1 :: "bytes \<Rightarrow> bytes" where
  "fips_sha1 msg = digest_bytes (foldl fips_block kInitialDigest (map block_words (blocks64 (fips_pad msg))))"

section \<open>One block\<close>

definition round_kind :: "nat \<Rightarrow> Round" where
  "round_kind i = (if i < 16 then R0 else if i < 20 then R1 else if i < 40 then R2 else if i < 60 then R3 else R4)"

lemma transform_rounds_eq:
  "transform_rounds = map (\<lambda>i. (round_kind i, 4 * i mod 5, (4 * i + 1) mod 5, (4 * i + 2) mod 5, (4 * i + 3) mod 5, (4 * i + 4) mod 5, i mod 16)) [0..<80]"
  by code_simp

lemma round_functions: "round_mix (round_kind t) x y z = f_t t x y z" "round_const (round_kind t) = K_t t"
proof -
  have "(x AND (y XOR z)) XOR z = (x AND y) XOR (NOT x AND z)" "((x OR y) AND z) OR (x AND y) = (x AND y) XOR (x AND z) XOR (y AND z)"
    by (rule bit_word_eqI, auto simp: bit_simps)+
  then show "round_mix (round_kind t) x y z = f_t t x y z" by (auto simp: round_mix_def round_kind_def f_t_def)
  show "round_const (round_kind t) = K_t t" by (auto simp: round_const_def round_kind_def K_t_def)
qed

text \<open>The circular buffer holds the last sixteen words of the schedule, and the registers are those of the standard, rotated.\<close>

definition window :: "u32 list \<Rightarrow> nat \<Rightarrow> u32 list \<Rightarrow> bool" where
  "window M i block \<longleftrightarrow> length block = 16 \<and> (\<forall>t. t < max i 16 \<longrightarrow> max i 16 \<le> t + 16 \<longrightarrow> block ! (t mod 16) = schedule M t)"

fun rotated :: "nat \<Rightarrow> u32 list \<Rightarrow> u32 \<times> u32 \<times> u32 \<times> u32 \<times> u32 \<Rightarrow> bool" where
  "rotated i regs (a, b, c, d, e) \<longleftrightarrow> length regs = 5 \<and> regs ! (4 * i mod 5) = a \<and> regs ! ((4 * i + 1) mod 5) = b
     \<and> regs ! ((4 * i + 2) mod 5) = c \<and> regs ! ((4 * i + 3) mod 5) = d \<and> regs ! ((4 * i + 4) mod 5) = e"

lemma mod_back: "k \<le> 16 \<Longrightarrow> 16 \<le> i \<Longrightarrow> (i mod 16 + k) mod 16 = (i - (16 - k)) mod (16 :: nat)"
proof -
  assume k: "k \<le> 16" "16 \<le> i"
  have "(i mod 16 + k) mod 16 = (i + k) mod 16" by (rule mod_add_left_eq)
  also have "i + k = (i - (16 - k)) + 16" using k by simp
  finally show ?thesis by (simp only: mod_add_self2)
qed

lemma window_next:
  assumes "window M i block"
  defines "block1 \<equiv> if round_kind i = R0 then block else block[i mod 16 := blk block (i mod 16)]"
  shows "window M (Suc i) block1" "block1 ! (i mod 16) = schedule M i"
proof -
  have w: "length block = 16" "\<And>t. t < max i 16 \<Longrightarrow> max i 16 \<le> t + 16 \<Longrightarrow> block ! (t mod 16) = schedule M t"
    using assms(1) by (auto simp: window_def)
  have "window M (Suc i) block1 \<and> block1 ! (i mod 16) = schedule M i"
  proof (cases "i < 16")
    case True
    then have "block1 = block" by (simp add: block1_def round_kind_def)
    then show ?thesis using True w by (simp add: window_def)
  next
    case False
    then have b1: "block1 = block[i mod 16 := blk block (i mod 16)]" by (auto simp: block1_def round_kind_def)
    have m: "(i mod 16 + 13) mod 16 = (i - 3) mod 16" "(i mod 16 + 8) mod 16 = (i - 8) mod 16" "(i mod 16 + 2) mod 16 = (i - 14) mod 16"
      using mod_back [of 13 i] mod_back [of 8 i] mod_back [of 2 i] False by simp_all
    have m4: "i mod 16 = (i - 16) mod 16" using False by (simp only: not_less le_mod_geq)
    have e: "block ! ((i - 3) mod 16) = schedule M (i - 3)" "block ! ((i - 8) mod 16) = schedule M (i - 8)" "block ! ((i - 14) mod 16) = schedule M (i - 14)"
      "block ! ((i - 16) mod 16) = schedule M (i - 16)" by (rule w(2); use False in simp)+
    have "blk block (i mod 16) = rol (schedule M (i - 3) XOR schedule M (i - 8) XOR schedule M (i - 14) XOR schedule M (i - 16)) 1"
      unfolding blk_def m e(1-3) using e(4) by (simp only: m4 [symmetric])
    also have "\<dots> = schedule M i" using False by (subst (5) schedule.simps) simp
    finally have new: "block1 ! (i mod 16) = schedule M i" using w(1) by (simp add: b1)
    moreover have "block1 ! (t mod 16) = schedule M t" if t: "t < Suc i" "Suc i \<le> t + 16" for t
    proof (cases "t = i")
      case False
      then have "t mod 16 \<noteq> i mod 16" using t mod_eq_dvd_iff_nat [of t i 16] dvd_imp_le [of 16 "i - t"] by auto
      then show ?thesis using w(2) [of t] False t \<open>\<not> i < 16\<close> by (simp add: b1)
    qed (simp add: new)
    ultimately show ?thesis using False w(1) by (simp add: window_def b1)
  qed
  then show "window M (Suc i) block1" "block1 ! (i mod 16) = schedule M i" by auto
qed

lemma rotated_next:
  assumes "rotated i regs (a, b, c, d, e)"
  shows "rotated (Suc i) (regs[(4 * i + 4) mod 5 := x, (4 * i + 1) mod 5 := y]) (x, a, y, c, d)"
proof -
  define k where "k = 4 * i mod 5"
  have kr: "k \<in> {0, 1, 2, 3, 4}" unfolding k_def by auto
  have m: "(4 * i + j) mod 5 = (k + j) mod 5" for j unfolding k_def by (simp add: mod_simps)
  have s: "4 * Suc i = 4 * i + 4" by simp
  have old: "length regs = 5" "regs ! k = a" "regs ! ((k + 2) mod 5) = c" "regs ! ((k + 3) mod 5) = d"
    using assms by (simp_all only: rotated.simps m k_def)
  show ?thesis unfolding rotated.simps s add.assoc m using kr old(1,2,3,4)
    by (elim insertE emptyE) (simp_all add: nth_list_update numeral_2_eq_2)
qed

lemma rounds_rotated:
  assumes "length H = 5" "length M = 16"
  shows "\<exists>regs block. foldl sha_round (H, M) (map (\<lambda>i. (round_kind i, 4 * i mod 5, (4 * i + 1) mod 5, (4 * i + 2) mod 5, (4 * i + 3) mod 5, (4 * i + 4) mod 5, i mod 16)) [0..<n])
      = (regs, block) \<and> window M n block \<and> rotated n regs (foldl (fips_step M) (H ! 0, H ! 1, H ! 2, H ! 3, H ! 4) [0..<n])"
proof (induction n)
  case 0
  have "t < 16 \<Longrightarrow> M ! (t mod 16) = schedule M t" for t by (simp add: schedule.simps [of M t])
  then show ?case using assms by (simp add: window_def numeral_2_eq_2)
next
  case (Suc n)
  let ?rs = "\<lambda>i. (round_kind i, 4 * i mod 5, (4 * i + 1) mod 5, (4 * i + 2) mod 5, (4 * i + 3) mod 5, (4 * i + 4) mod 5, i mod 16)"
  obtain regs block where IH: "foldl sha_round (H, M) (map ?rs [0..<n]) = (regs, block)" "window M n block"
    "rotated n regs (foldl (fips_step M) (H ! 0, H ! 1, H ! 2, H ! 3, H ! 4) [0..<n])" using Suc.IH by blast
  obtain a b c d e where st: "foldl (fips_step M) (H ! 0, H ! 1, H ! 2, H ! 3, H ! 4) [0..<n] = (a, b, c, d, e)" by (metis prod_cases5)
  define block1 where "block1 = (if round_kind n = R0 then block else block[n mod 16 := blk block (n mod 16)])"
  note w = window_next [OF IH(2), folded block1_def]
  let ?x = "rol a 5 + f_t n b c d + e + K_t n + schedule M n"
  have r: "rotated n regs (a, b, c, d, e)" using IH(3) st by simp
  have "sha_round (regs, block) (?rs n) = (regs[(4 * n + 4) mod 5 := ?x, (4 * n + 1) mod 5 := rol b 30], block1)"
    using r unfolding sha_round.simps Let_def block1_def [symmetric] w(2) round_functions by (simp only: rotated.simps ac_simps)
  moreover have "rotated (Suc n) (regs[(4 * n + 4) mod 5 := ?x, (4 * n + 1) mod 5 := rol b 30]) (?x, a, rol b 30, c, d)" by (rule rotated_next [OF r])
  ultimately show ?case using IH(1) st w(1) by (intro exI [of _ "regs[(4 * n + 4) mod 5 := ?x, (4 * n + 1) mod 5 := rol b 30]"] exI [of _ block1])
    (simp add: window_def)
qed

lemma list_of_5: "length xs = 5 \<Longrightarrow> xs = [xs ! 0, xs ! 1, xs ! 2, xs ! 3, xs ! 4]"
  by (auto simp: numeral_eq_Suc length_Suc_conv)

lemma rotated_80: "rotated 80 regs (a, b, c, d, e) \<Longrightarrow> regs = [a, b, c, d, e]"
  using list_of_5 [of regs] by simp

lemma sha_transform_eq:
  assumes "length (sha_digest h) = 5" "length M = 16"
  shows "\<exists>block. sha_transform h M = (h\<lparr>sha_digest := fips_block (sha_digest h) M, sha_transforms := sha_transforms h + 1\<rparr>, block) \<and> length block = 16"
proof -
  let ?H = "sha_digest h"
  obtain a b c d e where st: "foldl (fips_step M) (?H ! 0, ?H ! 1, ?H ! 2, ?H ! 3, ?H ! 4) [0..<80] = (a, b, c, d, e)" by (metis prod_cases5)
  obtain regs block where r: "foldl sha_round (?H, M) transform_rounds = (regs, block)" "window M 80 block" "regs = [a, b, c, d, e]"
    using rounds_rotated [OF assms, of 80] rotated_80 unfolding transform_rounds_eq st by blast
  obtain x0 x1 x2 x3 x4 where "?H = [x0, x1, x2, x3, x4]" using assms(1) by (auto simp: numeral_eq_Suc length_Suc_conv)
  then show ?thesis using r st by (auto simp: sha_transform_def fips_block_def window_def)
qed

lemma length_fips_block [simp]: "length (fips_block H M) = 5"
  by (simp add: fips_block_def split: prod.split)

lemma length_blocks [simp]: "length H = 5 \<Longrightarrow> length (foldl fips_block H Ms) = 5"
  by (induction Ms arbitrary: H) simp_all

lemma length_kInitialDigest [simp]: "length kInitialDigest = 5"
  by (simp add: kInitialDigest_def)

section \<open>The incremental interface\<close>

lemma bufferToBlock_eq: "length buf = 64 \<Longrightarrow> bufferToBlock buf = block_words buf"
  by (auto simp: bufferToBlock_def block_words_def Read32BE_def ac_simps intro!: map_cong)

lemma Read32BE_append: "4 \<le> length d \<Longrightarrow> Read32BE (d @ e) = Read32BE d"
  by (auto simp: Read32BE_def nth_append)

lemma block_words_split:
  assumes "length p = 56" "length x = 8"
  shows "block_words (p @ x) = map (\<lambda>i. Read32BE (drop (4 * i) p)) [0..<14] @ [Read32BE x, Read32BE (drop 4 x)]"
proof -
  have "[0..<16] = [0..<14] @ [14, 15 :: nat]" by code_simp
  moreover have "i < 14 \<Longrightarrow> Read32BE (drop (4 * i) (p @ x)) = Read32BE (drop (4 * i) p)" for i
    using Read32BE_append [of "drop (4 * i) p" x] assms by simp
  ultimately show ?thesis using assms by (simp add: block_words_def)
qed

text \<open>What the hasher holds after a message: its whole blocks are in the digest, the rest is in the buffer.\<close>

definition absorbed :: "SHA1 \<Rightarrow> bytes list \<Rightarrow> bytes \<Rightarrow> bool" where
  "absorbed h bs t \<longleftrightarrow> sha_digest h = foldl fips_block kInitialDigest (map block_words bs) \<and> length (sha_digest h) = 5
     \<and> sha_transforms h = of_nat (length bs) \<and> sha_bufferSize h = length t \<and> length t < 64
     \<and> length (sha_buffer h) = 64 \<and> take (length t) (sha_buffer h) = t \<and> (\<forall>b \<in> set bs. length b = 64)"

lemma absorbed_new: "absorbed (newSHA1 garbage) [] []"
  by (simp add: absorbed_def newSHA1_def sha_reset_def kInitialDigest_def)

lemma copy_at_props:
  "length buf = 64 \<Longrightarrow> off + length d \<le> 64 \<Longrightarrow> length (copy_at buf off d) = 64 \<and> take (off + length d) (copy_at buf off d) = take off buf @ d"
  by (simp add: copy_at_def)

lemma absorbed_update:
  "absorbed h bs t \<Longrightarrow> \<exists>bs' t'. absorbed (sha_update h data) bs' t' \<and> concat bs' @ t' = concat bs @ t @ data"
proof (induction h data arbitrary: bs t rule: sha_update.induct)
  case (1 h data)
  note a = 1(2) [unfolded absorbed_def]
  show ?case
  proof (cases "data = []")
    case True
    then have "sha_update h data = h" by (simp add: sha_update.simps [of h "[]"])
    then show ?thesis using 1(2) True by auto
  next
    case False
    define n where "n = min (64 - sha_bufferSize h) (length data)"
    define h1 where "h1 = h\<lparr>sha_buffer := copy_at (sha_buffer h) (sha_bufferSize h) (take n data), sha_bufferSize := sha_bufferSize h + n\<rparr>"
    define h2 where "h2 = (if sha_bufferSize h1 = 64 then (fst (sha_transform h1 (bufferToBlock (sha_buffer h1))))\<lparr>sha_bufferSize := 0\<rparr> else h1)"
    have size: "sha_bufferSize h = length t" "\<not> 64 \<le> sha_bufferSize h" "length (take n data) = n" "length t + n \<le> 64" using a by (auto simp: n_def)
    have u: "sha_update h data = sha_update h2 (drop n data)"
      using False size(2) unfolding sha_update.simps [of h data] Let_def n_def [symmetric] h1_def [symmetric] h2_def [symmetric] by simp
    have buf: "length (sha_buffer h1) = 64" "take (length t + n) (sha_buffer h1) = t @ take n data"
      using copy_at_props [of "sha_buffer h" "length t" "take n data"] size a by (simp_all add: h1_def)
    have "\<exists>bs' t'. absorbed h2 bs' t' \<and> concat bs' @ t' = concat bs @ t @ take n data"
    proof (cases "length t + n = 64")
      case True
      then have b: "sha_buffer h1 = t @ take n data" using buf by simp
      have "length (sha_digest h1) = 5" "length (bufferToBlock (sha_buffer h1)) = 16" using a by (simp_all add: h1_def bufferToBlock_def)
      from sha_transform_eq [OF this] have "absorbed h2 (bs @ [t @ take n data]) []"
        using a True size buf b by (auto simp: absorbed_def h2_def h1_def bufferToBlock_eq)
      then show ?thesis by (intro exI [of _ "bs @ [t @ take n data]"] exI [of _ "[]"]) simp
    next
      case False
      then have "absorbed h1 bs (t @ take n data)" using a size buf by (simp add: absorbed_def h1_def)
      then show ?thesis using False size by (intro exI conjI) (auto simp: h2_def h1_def)
    qed
    then obtain bs' t' where s: "absorbed h2 bs' t'" "concat bs' @ t' = concat bs @ t @ take n data" by blast
    from 1(1) [OF False size(2) n_def h1_def, folded h2_def, OF s(1)] s(2) u show ?thesis by (metis append.assoc append_take_drop_id)
  qed
qed

lemma absorbed_updates:
  "absorbed h bs t \<Longrightarrow> \<exists>bs' t'. absorbed (foldl sha_update h ds) bs' t' \<and> concat bs' @ t' = concat bs @ t @ concat ds"
proof (induction ds arbitrary: h bs t)
  case (Cons d ds)
  obtain bs' t' where "absorbed (sha_update h d) bs' t'" "concat bs' @ t' = concat bs @ t @ d" using absorbed_update [OF Cons.prems] by blast
  then show ?case using Cons.IH [of "sha_update h d" bs' t'] by (metis append.assoc concat.simps(2) foldl_Cons)
qed auto

lemma blocks64_concat:
  "(\<forall>b \<in> set bs. length b = 64) \<Longrightarrow> blocks64 (concat bs @ rest) = bs @ blocks64 rest"
proof (induction bs)
  case (Cons b bs)
  then show ?case by (simp add: blocks64.simps [of "b @ _"])
qed simp

lemma pad_buffer_eq: "length buf = 64 \<Longrightarrow> n \<le> 64 \<Longrightarrow> pad_buffer buf n = take n buf @ replicate (64 - n) 0"
proof (induction buf n rule: pad_buffer.induct)
  case (1 buf n)
  show ?case
  proof (cases "n < 64")
    case True
    then have "pad_buffer buf n = take (Suc n) (buf[n := 0]) @ replicate (64 - Suc n) 0" using 1 by (simp add: pad_buffer.simps [of buf n])
    moreover have "take (Suc n) (buf[n := 0]) = take n buf @ [0]" using 1(2) True by (simp add: take_Suc_conv_app_nth)
    moreover have "[0] @ replicate (64 - Suc n) 0 = replicate (64 - n) (0 :: u8)" using True by (simp add: Suc_diff_Suc flip: replicate_Suc)
    ultimately show ?thesis by simp
  next
    case False
    then have "n = 64" using 1(3) by simp
    then show ?thesis using 1(2) by (simp add: pad_buffer.simps [of buf 64])
  qed
qed

lemma final_blocks:
  assumes "length t < 64"
  defines "full \<equiv> t @ [0x80] @ replicate (63 - length t) (0 :: u8)"
  shows "t @ [0x80] @ replicate ((119 - length t) mod 64) 0 @ w
    = (if length t + 1 > 56 then full @ replicate 56 0 @ w else take 56 full @ w)"
proof (cases "length t + 1 > 56")
  case True
  then have lt: "119 - length t < 64" and eq: "119 - length t = 63 - length t + 56" using assms(1) by linarith+
  have "(119 - length t) mod 64 = 63 - length t + 56" unfolding mod_less [OF lt] by (rule eq)
  then show ?thesis using True by (simp only: full_def replicate_add if_True append.assoc)
next
  case False
  then obtain k where "55 = length t + k" using le_Suc_ex [of "length t" 55] by auto
  then have "119 - length t = k + 64" "55 - length t = k" "k < 64" by simp_all
  then have "(119 - length t) mod 64 = 55 - length t" by simp
  moreover have "56 - length t = Suc (55 - length t)" using False by simp
  ultimately show ?thesis using False by (simp add: full_def min_def)
qed

lemma last_words:
  assumes "length p = 14" "length b = 16"
  shows "(p @ drop 14 b)[15 := lo, 14 := hi] = p @ [hi, lo]"
proof -
  have "length (drop 14 b) = 2" using assms(2) by simp
  then obtain y z where "drop 14 b = [y, z]" by (cases "drop 14 b" rule: list.exhaust; cases "tl (drop 14 b)") (auto simp: Suc_length_conv)
  then show ?thesis using assms(1) by (simp add: list_update_append)
qed

lemma sha_final_eq:
  assumes a: "absorbed h bs t"
  shows "fst (sha_final h) = fips_sha1 (concat bs @ t)"
proof -
  define bits where "bits = (of_nat (8 * length (concat bs @ t)) :: u64)"
  define w where "w = Write32BE (ucast (drop_bit 32 bits)) @ Write32BE (ucast bits)"
  define full where "full = t @ [0x80] @ replicate (63 - length t) (0 :: u8)"
  note ab = a [unfolded absorbed_def]
  have lw: "length w = 8" and lf: "length full = 64" using ab by (simp_all add: w_def full_def)
  have "\<forall>b \<in> set bs. length b = 64" using ab by simp
  then have len: "length (concat bs) = 64 * length bs" by (induction bs) simp_all
  have total: "(sha_transforms h * 64 + of_nat (sha_bufferSize h)) * 8 = bits"
    using ab by (simp add: len bits_def algebra_simps)
  have "take (length t + 1) ((sha_buffer h)[length t := 0x80]) = t @ [0x80]" using ab by (simp add: take_Suc_conv_app_nth)
  then have buf: "pad_buffer ((sha_buffer h)[sha_bufferSize h := 0x80]) (sha_bufferSize h + 1) = full"
    using ab pad_buffer_eq [of "(sha_buffer h)[length t := 0x80]" "length t + 1"] by (simp add: full_def)
  have words: "block_words (p @ w) = map (\<lambda>i. Read32BE (drop (4 * i) p)) [0..<14]
      @ [ucast (drop_bit 32 bits), ucast bits]" if "length p = 56" for p
    unfolding block_words_split [OF that lw] using Read32BE_Write32BE [of _ "[]"] by (simp add: w_def Read32BE_Write32BE)
  have pad: "fips_pad (concat bs @ t) = concat bs @ (if length t + 1 > 56 then full @ (replicate 56 0 @ w) else take 56 full @ w)"
    using final_blocks [of t w] ab by (simp add: fips_pad_def Let_def w_def full_def len bits_def)
  have b64: "length b = 64 \<Longrightarrow> blocks64 (b @ r) = b # blocks64 r" "blocks64 [] = []" for b r :: bytes
    by (simp_all add: blocks64.simps [of "b @ r"] blocks64.simps [of "[]"])
  have split: "blocks64 (fips_pad (concat bs @ t)) = bs @ (if length t + 1 > 56 then [full, replicate 56 0 @ w] else [take 56 full @ w])"
    unfolding pad using ab lf lw blocks64_concat [of bs] b64(1) [of full] b64(1) [of "replicate 56 0 @ w" "[]"] b64(1) [of "take 56 full @ w" "[]"] b64(2) by simp
  have d: "length (sha_digest h) = 5" and D: "sha_digest h = foldl fips_block kInitialDigest (map block_words bs)" using ab by auto
  show ?thesis
  proof (cases "length t + 1 > 56")
    case True
    let ?h1 = "h\<lparr>sha_buffer := full, sha_bufferSize := max (sha_bufferSize h + 1) 64\<rparr>"
    obtain b where b: "sha_transform ?h1 (block_words full) = (?h1\<lparr>sha_digest := fips_block (sha_digest h) (block_words full), sha_transforms := sha_transforms h + 1\<rparr>, b)"
      "length b = 16" using sha_transform_eq [of ?h1 "block_words full"] d by (auto simp: block_words_def)
    have zero: "Read32BE (drop (4 * i) (replicate 56 0)) = 0" if "i < 14" for i using that by (simp add: Read32BE_def)
    have "map (\<lambda>i. Read32BE (drop (4 * i) (replicate 56 0))) [0..<14] = replicate 14 0" using zero by (intro nth_equalityI) auto
    then have two: "block_words (replicate 56 0 @ w) = replicate 14 0 @ [ucast (drop_bit 32 bits), ucast bits]" using words [of "replicate 56 0"] by simp
    have block2: "(replicate 14 0 @ drop 14 b)[15 := ucast bits, 14 := ucast (drop_bit 32 bits)] = block_words (replicate 56 0 @ w)"
      unfolding two using last_words [of "replicate 14 0" b] b(2) by simp
    let ?h2 = "?h1\<lparr>sha_digest := fips_block (sha_digest h) (block_words full), sha_transforms := sha_transforms h + 1\<rparr>"
    obtain b3 where "sha_transform ?h2 (block_words (replicate 56 0 @ w)) = (?h2\<lparr>sha_digest := fips_block (sha_digest ?h2) (block_words (replicate 56 0 @ w)),
        sha_transforms := sha_transforms ?h2 + 1\<rparr>, b3)" using sha_transform_eq [of ?h2 "block_words (replicate 56 0 @ w)"] by (auto simp: block_words_def)
    then have "fst (sha_final h) = digest_bytes (fips_block (fips_block (sha_digest h) (block_words full)) (block_words (replicate 56 0 @ w)))"
      using True ab b unfolding sha_final_def Let_def total buf bufferToBlock_eq [OF lf] by (simp add: block2)
    then show ?thesis unfolding fips_sha1_def split using True D by simp
  next
    case False
    let ?h1 = "h\<lparr>sha_buffer := full, sha_bufferSize := max (sha_bufferSize h + 1) 64\<rparr>"
    have "(block_words full)[15 := ucast bits, 14 := ucast (drop_bit 32 bits)] = block_words (take 56 full @ w)"
    proof -
      have "block_words full = map (\<lambda>i. Read32BE (drop (4 * i) (take 56 full))) [0..<14] @ drop 14 (block_words full)"
        using block_words_split [of "take 56 full" "drop 56 full"] lf by simp
      then show ?thesis using last_words [of "map (\<lambda>i. Read32BE (drop (4 * i) (take 56 full))) [0..<14]" "block_words full"] words [of "take 56 full"] lf
        by (simp add: block_words_def)
    qed
    moreover obtain b3 where "sha_transform ?h1 (block_words (take 56 full @ w)) = (?h1\<lparr>sha_digest := fips_block (sha_digest ?h1) (block_words (take 56 full @ w)),
        sha_transforms := sha_transforms ?h1 + 1\<rparr>, b3)" using sha_transform_eq [of ?h1 "block_words (take 56 full @ w)"] d by (auto simp: block_words_def)
    ultimately have "fst (sha_final h) = digest_bytes (fips_block (sha_digest h) (block_words (take 56 full @ w)))"
      using False ab unfolding sha_final_def Let_def total buf bufferToBlock_eq [OF lf] by simp
    then show ?thesis unfolding fips_sha1_def split using False D by simp
  qed
qed

text \<open>
  The incremental hasher computes SHA-1: whatever the buffer holds at first and however the message is cut into calls of \<^verbatim>\<open>update\<close>,
  \<^verbatim>\<open>final\<close> returns the digest that the standard defines for the whole message (with the length of the message taken modulo
  \<open>2 ^ 64\<close> bits, as the padding has room for).
\<close>

lemma sha1_correct:
  "fst (sha_final (foldl sha_update (newSHA1 garbage) ds)) = fips_sha1 (concat ds)"
proof -
  obtain bs t where "absorbed (foldl sha_update (newSHA1 garbage) ds) bs t" "concat bs @ t = concat ds"
    using absorbed_updates [OF absorbed_new, of garbage ds] by auto
  then show ?thesis using sha_final_eq by metis
qed

end
