(* ===== verification/Codecs.thy ===== *)
theory Codecs
  imports Ascii
begin

text \<open>
  The base64 codecs: the padded encoder of the WebSocket handshake (\<^verbatim>\<open>base64-encode.hpp\<close>), and the base64url encoder and decoder of JSON web
  tokens (\<^verbatim>\<open>base64url.hpp\<close>). The encoders are compared with RFC 4648, and decoding inverts encoding.
\<close>

section \<open>Base64\<close>

definition kB64Table :: bytes where
  "kB64Table = bytes_of ''ABCDEFGHIJKLMNOPQRSTUVWXYZabcdefghijklmnopqrstuvwxyz0123456789+/''"

definition kB64UrlTable :: bytes where
  "kB64UrlTable = bytes_of ''ABCDEFGHIJKLMNOPQRSTUVWXYZabcdefghijklmnopqrstuvwxyz0123456789-_''"

text \<open>
  The loop that both encoders share: eight bits in, six bits out while there are six. The accumulator keeps the bits already written; they
  fall off its upper end.
\<close>

definition b64_digit :: "bytes \<Rightarrow> u32 \<Rightarrow> nat \<Rightarrow> u8" where
  "b64_digit table accumulator shift = table ! unat (drop_bit shift accumulator AND 63)"

function b64_drain :: "bytes \<Rightarrow> u32 \<Rightarrow> nat \<Rightarrow> bytes \<Rightarrow> nat \<times> bytes" where
  "b64_drain table accumulator bitsCollected out =
     (if bitsCollected \<ge> 6
      then b64_drain table accumulator (bitsCollected - 6) (out @ [b64_digit table accumulator (bitsCollected - 6)])
      else (bitsCollected, out))"
  by pat_completeness auto
termination
  by (relation "measure (\<lambda>(table, acc, bits, out). bits)") auto

declare b64_drain.simps [simp del]

fun b64_loop :: "bytes \<Rightarrow> u32 \<Rightarrow> nat \<Rightarrow> bytes \<Rightarrow> bytes \<Rightarrow> u32 \<times> nat \<times> bytes" where
  "b64_loop table accumulator bitsCollected out [] = (accumulator, bitsCollected, out)"
| "b64_loop table accumulator bitsCollected out (ch # binData) =
     (let acc = push_bit 8 accumulator OR ucast ch;
          (bits, out') = b64_drain table acc (bitsCollected + 8) out
      in b64_loop table acc bits out' binData)"

definition b64_encode_with :: "bytes \<Rightarrow> bytes \<Rightarrow> bytes" where
  "b64_encode_with table binData =
     (let (acc, bits, out) = b64_loop table 0 0 [] binData
      in if bits \<noteq> 0 then out @ [b64_digit table (push_bit (6 - bits) acc) 0] else out)"

definition B64EncodedLen :: "nat \<Rightarrow> nat" where
  "B64EncodedLen binDataLen = (binDataLen + 2) div 3 * 4"

text \<open>\<^verbatim>\<open>B64Encode\<close> fills the output of the given length up with \<open>=\<close>.\<close>

definition B64Encode :: "bytes \<Rightarrow> nat \<Rightarrow> bytes" where
  "B64Encode binData outLen = (let out = b64_encode_with kB64Table binData in out @ replicate (outLen - length out) (of_char CHR ''=''))"

definition B64UrlEncodedLen :: "nat \<Rightarrow> nat" where
  "B64UrlEncodedLen binDataLen = binDataLen div 3 * 4 + (if binDataLen mod 3 = 0 then 0 else binDataLen mod 3 + 1)"

definition B64UrlEncode :: "bytes \<Rightarrow> bytes" where
  "B64UrlEncode binData = b64_encode_with kB64UrlTable binData"

definition B64UrlMaxDecodedLen :: "nat \<Rightarrow> nat" where
  "B64UrlMaxDecodedLen encodedLen = encodedLen div 4 * 3 + 2"

definition B64UrlSextet :: "u8 \<Rightarrow> int" where
  "B64UrlSextet ch =
     (let c = unat ch in
      if 65 \<le> c \<and> c \<le> 90 then int c - 65 else if 97 \<le> c \<and> c \<le> 122 then int c - 97 + 26
      else if 48 \<le> c \<and> c \<le> 57 then int c - 48 + 52 else if c = 45 then 62 else if c = 95 then 63 else -1)"

fun b64url_loop :: "u32 \<Rightarrow> nat \<Rightarrow> bytes \<Rightarrow> bytes \<Rightarrow> bytes option" where
  "b64url_loop accumulator bitsCollected out [] = Some out"
| "b64url_loop accumulator bitsCollected out (ch # rest) =
     (let val = B64UrlSextet ch in
      if val < 0 then None
      else
        (let acc = push_bit 6 accumulator OR of_int val; bits = bitsCollected + 6
         in if bits \<ge> 8 then b64url_loop acc (bits - 8) (out @ [ucast (drop_bit (bits - 8) acc AND 0xFF)]) rest
            else b64url_loop acc bits out rest))"

definition trim_equals :: "bytes \<Rightarrow> bytes" where
  "trim_equals s = rev (dropWhile (\<lambda>c. c = of_char CHR ''='') (rev s))"

definition B64UrlDecode :: "bytes \<Rightarrow> bytes option" where
  "B64UrlDecode s =
     (let t = trim_equals s in
      if length t mod 4 = 1 then None else b64url_loop 0 0 [] t)"

text \<open>RFC 4648: three bytes are a 24-bit number, written as four digits of six bits; what is left is padded with zero bits.\<close>

fun rfc4648 :: "bytes \<Rightarrow> bytes \<Rightarrow> bytes \<Rightarrow> bytes" where
  "rfc4648 table pad [] = []"
| "rfc4648 table pad [a] = (let n = push_bit 16 (ucast a) :: u32 in
     [b64_digit table n 18, b64_digit table n 12] @ pad @ pad)"
| "rfc4648 table pad [a, b] = (let n = push_bit 16 (ucast a) OR push_bit 8 (ucast b) :: u32 in
     [b64_digit table n 18, b64_digit table n 12, b64_digit table n 6] @ pad)"
| "rfc4648 table pad (a # b # c # rest) = (let n = push_bit 16 (ucast a) OR push_bit 8 (ucast b) OR ucast c :: u32 in
     [b64_digit table n 18, b64_digit table n 12, b64_digit table n 6, b64_digit table n 0]
     @ rfc4648 table pad rest)"

lemma b64_drain_steps:
  "b64_drain table acc (0 + 8) out = (2, out @ [b64_digit table acc 2])"
  "b64_drain table acc (2 + 8) out = (4, out @ [b64_digit table acc 4])"
  "b64_drain table acc (4 + 8) out = (0, out @ [b64_digit table acc 6, b64_digit table acc 0])"
  by (simp_all add: b64_drain.simps)

lemma induct_list3 [case_names none one two more]:
  assumes "P []" "\<And>a. P [a]" "\<And>a b. P [a, b]" "\<And>a b c rest. P rest \<Longrightarrow> P (a # b # c # rest)"
  shows "P xs"
proof (induction xs rule: length_induct)
  case (1 xs)
  consider "xs = []" | a where "xs = [a]" | a b where "xs = [a, b]" | a b c rest where "xs = a # b # c # rest"
    by (metis list.exhaust)
  then show ?case by cases (use assms 1 in auto)
qed

lemma b64_digit_cong: "(\<And>i. i < 6 \<Longrightarrow> bit x (k + i) = bit y (l + i)) \<Longrightarrow> b64_digit table x k = b64_digit table y l"
proof -
  assume a: "\<And>i. i < 6 \<Longrightarrow> bit x (k + i) = bit y (l + i)"
  have m: "(63 :: u32) = mask 6" by (simp add: mask_eq_exp_minus_1)
  have "drop_bit k x AND 63 = drop_bit l y AND 63" unfolding m by (rule bit_word_eqI) (auto simp: bit_simps a)
  then show ?thesis by (simp add: b64_digit_def)
qed

lemma sextets:
  fixes a b c :: u8 and acc :: u32
  shows "b64_digit table (push_bit 8 acc OR ucast a) 2 = b64_digit table (push_bit 16 (ucast a)) 18"
    "b64_digit table (push_bit 8 (push_bit 8 acc OR ucast a) OR ucast b) 4 = b64_digit table (push_bit 16 (ucast a) OR push_bit 8 (ucast b)) 12"
    "b64_digit table (push_bit 8 (push_bit 8 (push_bit 8 acc OR ucast a) OR ucast b) OR ucast c) 6 = b64_digit table (push_bit 16 (ucast a) OR push_bit 8 (ucast b) OR ucast c) 6"
    "b64_digit table (push_bit 8 (push_bit 8 (push_bit 8 acc OR ucast a) OR ucast b) OR ucast c) 0 = b64_digit table (push_bit 16 (ucast a) OR push_bit 8 (ucast b) OR ucast c) 0"
    "b64_digit table (push_bit (6 - 2) (push_bit 8 acc OR ucast a)) 0 = b64_digit table (push_bit 16 (ucast a)) 12"
    "b64_digit table (push_bit (6 - 4) (push_bit 8 (push_bit 8 acc OR ucast a) OR ucast b)) 0 = b64_digit table (push_bit 16 (ucast a) OR push_bit 8 (ucast b)) 6"
    "b64_digit table (push_bit 16 (ucast a) OR push_bit 8 (ucast b) OR ucast c) 18 = b64_digit table (push_bit 16 (ucast a)) 18"
    "b64_digit table (push_bit 16 (ucast a) OR push_bit 8 (ucast b)) 18 = b64_digit table (push_bit 16 (ucast a)) 18"
    "b64_digit table (push_bit 16 (ucast a) OR push_bit 8 (ucast b) OR ucast c) 12 = b64_digit table (push_bit 16 (ucast a) OR push_bit 8 (ucast b)) 12"
  by - (rule b64_digit_cong, auto simp: bit_simps dest: bit_imp_le_length)+

lemma b64_loop_groups:
  "(let (acc', bits, out') = b64_loop table acc 0 out ds in if bits \<noteq> 0 then out' @ [b64_digit table (push_bit (6 - bits) acc') 0] else out')
     = out @ rfc4648 table [] ds"
proof (induction ds arbitrary: acc out rule: induct_list3)
  case (more a b c rest)
  show ?case unfolding b64_loop.simps Let_def using more
    by (simp only: b64_drain_steps split_conv rfc4648.simps sextets Let_def append.assoc append_Cons append_Nil)
next
  case (one a)
  show ?case unfolding b64_loop.simps Let_def b64_drain_steps split_conv rfc4648.simps sextets by simp
next
  case (two a b)
  show ?case unfolding b64_loop.simps Let_def b64_drain_steps split_conv rfc4648.simps sextets by simp
qed simp

lemma b64_lengths:
  "B64UrlEncodedLen (Suc (Suc (Suc n))) = B64UrlEncodedLen n + 4" "B64EncodedLen (Suc (Suc (Suc n))) = B64EncodedLen n + 4"
proof -
  have s: "Suc (Suc (Suc n)) = n + 3" "Suc (Suc (Suc n)) + 2 = (n + 2) + 3" by simp_all
  show "B64UrlEncodedLen (Suc (Suc (Suc n))) = B64UrlEncodedLen n + 4" unfolding B64UrlEncodedLen_def s(1) by (simp add: div_add_self2 mod_add_self2)
  show "B64EncodedLen (Suc (Suc (Suc n))) = B64EncodedLen n + 4" unfolding B64EncodedLen_def s(2) by (simp only: div_add_self2) simp
qed

lemma length_rfc4648: "length (rfc4648 table [] ds) = B64UrlEncodedLen (length ds)"
proof (induction ds rule: induct_list3)
  case (more a b c rest)
  then show ?case by (simp add: b64_lengths Let_def)
qed (simp_all add: B64UrlEncodedLen_def Let_def)

lemma rfc4648_pad: "rfc4648 table [p] ds = rfc4648 table [] ds @ replicate (B64EncodedLen (length ds) - B64UrlEncodedLen (length ds)) p"
proof (induction ds rule: induct_list3)
  case (more a b c rest)
  then show ?case by (simp add: b64_lengths Let_def)
qed (simp_all add: B64UrlEncodedLen_def B64EncodedLen_def Let_def numeral_2_eq_2)

lemma b64_encode_with_eq: "b64_encode_with table ds = rfc4648 table [] ds"
  using b64_loop_groups [of table 0 "[]" ds] by (simp add: b64_encode_with_def)

text \<open>
  The encoders are RFC 4648: the bit accumulator produces, for every input, the digits of the three-byte groups, with the padding of
  the standard in the buffer that the WebSocket handshake provides, and without it in the base64url of tokens, where the number of characters is the
  one the caller reserved.
\<close>

lemma base64_correct:
  "B64Encode ds (B64EncodedLen (length ds)) = rfc4648 kB64Table [of_char CHR ''=''] ds
   \<and> B64UrlEncode ds = rfc4648 kB64UrlTable [] ds \<and> length (B64UrlEncode ds) = B64UrlEncodedLen (length ds)"
  by (simp add: B64Encode_def B64UrlEncode_def b64_encode_with_eq rfc4648_pad length_rfc4648)

lemma sextet_table: "i < 64 \<Longrightarrow> B64UrlSextet (kB64UrlTable ! i) = int i"
proof -
  have "list_all (\<lambda>i. B64UrlSextet (kB64UrlTable ! i) = int i) [0..<64]" by code_simp
  then show "i < 64 \<Longrightarrow> ?thesis" by (simp add: list_all_iff)
qed

lemma sextet_digit: "B64UrlSextet (b64_digit kB64UrlTable n k) = uint (take_bit 6 (drop_bit k n))"
proof -
  have m: "(63 :: u32) = mask 6" by (simp add: mask_eq_exp_minus_1)
  have "unat (take_bit 6 (drop_bit k n)) < 64" by (simp add: unsigned_take_bit_eq take_bit_nat_less_exp [of 6, simplified])
  then show ?thesis unfolding b64_digit_def m by (simp add: sextet_table flip: take_bit_eq_mask)
qed

text \<open>What the decoder gets back from four, three or two digits.\<close>

lemma b64url_steps:
  fixes n :: u32
  defines "s k \<equiv> take_bit 6 (drop_bit k n)" and "ch k \<equiv> b64_digit kB64UrlTable n k"
  shows "b64url_loop acc 0 out (ch k # rest) = b64url_loop (push_bit 6 acc OR s k) 6 out rest"
    "b64url_loop acc 6 out (ch k # rest) = b64url_loop (push_bit 6 acc OR s k) 4 (out @ [ucast (drop_bit 4 (push_bit 6 acc OR s k) AND 0xFF)]) rest"
    "b64url_loop acc 4 out (ch k # rest) = b64url_loop (push_bit 6 acc OR s k) 2 (out @ [ucast (drop_bit 2 (push_bit 6 acc OR s k) AND 0xFF)]) rest"
    "b64url_loop acc 2 out (ch k # rest) = b64url_loop (push_bit 6 acc OR s k) 0 (out @ [ucast (drop_bit 0 (push_bit 6 acc OR s k) AND 0xFF)]) rest"
  unfolding s_def ch_def by (simp_all add: sextet_digit Let_def)

lemma ucast_cong:
  assumes "list_all (\<lambda>i. bit x i = bit a i) [0, 1, 2, 3, 4, 5, 6, 7]"
  shows "ucast ((x :: u32) AND 0xFF) = (a :: u8)"
proof -
  have m: "(255 :: u32) = mask 8" by (simp add: mask_eq_exp_minus_1)
  have "bit x i = bit a i" if "i < 8" for i
  proof -
    have "i = 0 \<or> i = 1 \<or> i = 2 \<or> i = 3 \<or> i = 4 \<or> i = 5 \<or> i = 6 \<or> i = 7" using that by linarith
    then show ?thesis using assms by auto
  qed
  then show ?thesis unfolding m by (intro bit_word_eqI) (auto simp: bit_simps)
qed

lemma bit_high: "8 \<le> n \<Longrightarrow> bit (a :: u8) n \<longleftrightarrow> False"
  using bit_imp_le_length [of a n] by auto

lemma decoded_bytes:
  fixes a b c :: u8 and acc n :: u32
  assumes "n = push_bit 16 (ucast a) OR push_bit 8 (ucast b) OR ucast c"
  defines "s k \<equiv> take_bit 6 (drop_bit k n)"
  shows "ucast (drop_bit 4 (push_bit 6 (push_bit 6 acc OR s 18) OR s 12) AND 0xFF) = a"
    "ucast (drop_bit 2 (push_bit 6 (push_bit 6 (push_bit 6 acc OR s 18) OR s 12) OR s 6) AND 0xFF) = b"
    "ucast (drop_bit 0 (push_bit 6 (push_bit 6 (push_bit 6 (push_bit 6 acc OR s 18) OR s 12) OR s 6) OR s 0) AND 0xFF) = c"
  unfolding s_def assms(1) by - (rule ucast_cong, simp only: list.pred_inject bit_or_iff bit_push_bit_iff bit_take_bit_iff bit_drop_bit_eq o_apply bit_unsigned_iff,
      simp add: bit_high bit_0 [symmetric] numeral_2_eq_2 del: bit_0)+

lemma b64url_loop_groups: "b64url_loop acc 0 out (rfc4648 kB64UrlTable [] ds) = Some (out @ ds)"
proof (induction ds arbitrary: acc out rule: induct_list3)
  case (one a)
  have n: "push_bit 16 (ucast a) = (push_bit 16 (ucast a) OR push_bit 8 (ucast (0 :: u8)) OR ucast (0 :: u8) :: u32)" by simp
  show ?case unfolding rfc4648.simps Let_def append_Nil2 b64url_steps decoded_bytes(1) [OF n] b64url_loop.simps(1) ..
next
  case (two a b)
  have n: "push_bit 16 (ucast a) OR push_bit 8 (ucast b) = (push_bit 16 (ucast a) OR push_bit 8 (ucast b) OR ucast (0 :: u8) :: u32)" by simp
  show ?case unfolding rfc4648.simps Let_def append_Nil2 b64url_steps decoded_bytes [OF n] b64url_loop.simps(1) by simp
next
  case (more a b c rest)
  have digits: "rfc4648 kB64UrlTable [] (a # b # c # rest) = (let n = push_bit 16 (ucast a) OR push_bit 8 (ucast b) OR ucast c :: u32 in
      b64_digit kB64UrlTable n 18 # b64_digit kB64UrlTable n 12 # b64_digit kB64UrlTable n 6 # b64_digit kB64UrlTable n 0 # rfc4648 kB64UrlTable [] rest)"
    by (simp add: Let_def)
  show ?case unfolding digits Let_def b64url_steps decoded_bytes [OF refl] more by simp
qed simp

lemma digits_in_table: "c \<in> set (rfc4648 kB64UrlTable [] ds) \<Longrightarrow> B64UrlSextet c \<ge> 0"
  by (induction ds rule: induct_list3) (auto simp: Let_def sextet_digit)

lemma trim_padding: "trim_equals (rfc4648 kB64UrlTable [] ds @ replicate k (of_char CHR ''='')) = rfc4648 kB64UrlTable [] ds"
proof -
  let ?p = "\<lambda>c :: u8. c = of_char CHR ''=''"
  have no: "\<not> ?p c" if "c \<in> set (rfc4648 kB64UrlTable [] ds)" for c
    using digits_in_table [OF that] by (auto simp: B64UrlSextet_def)
  have "dropWhile ?p (replicate k (of_char CHR ''='') @ rev (rfc4648 kB64UrlTable [] ds)) = dropWhile ?p (rev (rfc4648 kB64UrlTable [] ds))"
    by (induction k) simp_all
  also have "\<dots> = rev (rfc4648 kB64UrlTable [] ds)"
    using no by (cases "rev (rfc4648 kB64UrlTable [] ds)") (auto simp: dropWhile_eq_self_iff hd_rev)
  finally show ?thesis by (simp add: trim_equals_def)
qed

lemma length_trim_equals: "length (trim_equals s) \<le> length s"
  unfolding trim_equals_def by (metis length_dropWhile_le length_rev)

lemma encoded_len_mod: "B64UrlEncodedLen n mod 4 \<noteq> 1"
  by (simp add: B64UrlEncodedLen_def)

text \<open>The decoder never writes more than its caller reserves: six bits come in for every eight that go out.\<close>

lemma b64url_loop_bound: "b64url_loop acc bits out s = Some r \<Longrightarrow> 8 * length r \<le> 8 * length out + bits + 6 * length s"
  by (induction s arbitrary: acc bits out) (fastforce simp: Let_def split: if_splits)+

text \<open>
  C27. The base64url of tokens round trips, with or without padding after it, and decoding any input at all writes at most the bytes that
  the caller reserved for it.
\<close>

theorem base64url_roundtrip:
  "B64UrlDecode (B64UrlEncode ds @ replicate k (of_char CHR ''='')) = Some ds
   \<and> (case B64UrlDecode s of None \<Rightarrow> True | Some r \<Rightarrow> length r \<le> B64UrlMaxDecodedLen (length s))"
proof
  show "B64UrlDecode (B64UrlEncode ds @ replicate k (of_char CHR ''='')) = Some ds"
    using b64url_loop_groups [of 0 "[]" ds] encoded_len_mod [of "length ds"]
    unfolding B64UrlDecode_def B64UrlEncode_def b64_encode_with_eq trim_padding by (simp add: length_rfc4648)
  show "case B64UrlDecode s of None \<Rightarrow> True | Some r \<Rightarrow> length r \<le> B64UrlMaxDecodedLen (length s)"
  proof (cases "B64UrlDecode s")
    case (Some r)
    then have "8 * length r \<le> 6 * length s" using b64url_loop_bound [of 0 0 "[]" "trim_equals s" r] length_trim_equals [of s]
      by (auto simp: B64UrlDecode_def Let_def split: if_splits)
    then show ?thesis using Some by (simp add: B64UrlMaxDecodedLen_def)
  qed simp
qed

end
