(* ===== verification/Url.thy ===== *)
theory Url
  imports Ascii
begin

text \<open>
  Percent-encoding and the decoding of request targets: \<^verbatim>\<open>char-hexadecimal-converter.hpp\<close>, \<^verbatim>\<open>url-encode.hpp\<close>, \<^verbatim>\<open>url-decode.cpp\<close>, and
  \<^verbatim>\<open>decodePath\<close> with the query parameter iterator of \<^verbatim>\<open>http-request-view.cpp\<close>. The decoders work in place: the model keeps
  the buffer they read and write, with the pointers as positions in it.
\<close>

section \<open>Hexadecimal digits and encoding\<close>

definition kUpperHexits :: bytes where
  "kUpperHexits = bytes_of ''0123456789ABCDEF''"

definition to_upper_hex :: "u8 \<Rightarrow> bytes" where
  "to_upper_hex value = [kUpperHexits ! unat (drop_bit 4 value), kUpperHexits ! unat (value AND 0x0F)]"

definition from_hex_digit :: "u8 \<Rightarrow> int" where
  "from_hex_digit ch =
     (let c = unat ch in
      if 48 \<le> c \<and> c < 58 then int c - 48 else if 65 \<le> c \<and> c < 71 then int c - 65 + 10
      else if 97 \<le> c \<and> c < 103 then int c - 97 + 10 else -1)"

abbreviation percent :: u8 where "percent \<equiv> 0x25"
abbreviation plus_sign :: u8 where "plus_sign \<equiv> 0x2B"
abbreviation equals_sign :: u8 where "equals_sign \<equiv> 0x3D"
abbreviation ampersand :: u8 where "ampersand \<equiv> 0x26"
abbreviation space_char :: u8 where "space_char \<equiv> 0x20"

definition kNewKeyValueSep :: u8 where "kNewKeyValueSep = 0x1F"
definition kNewPairSep :: u8 where "kNewPairSep = 0"

definition URLEncodedSize :: "bytes \<Rightarrow> (u8 \<Rightarrow> bool) \<Rightarrow> nat" where
  "URLEncodedSize data isNotEncoded = foldl (\<lambda>n ch. n + 2 * (if isNotEncoded ch then 0 else 1)) 0 data + length data"

text \<open>The runs of characters that stay as they are, each followed by one that is encoded.\<close>

function URLEncode :: "bytes \<Rightarrow> (u8 \<Rightarrow> bool) \<Rightarrow> bytes \<Rightarrow> bytes" where
  "URLEncode data isNotEncoded buf =
     (if data = [] then buf
      else
        (let run = takeWhile isNotEncoded data; it = dropWhile isNotEncoded data; buf1 = buf @ run
         in case it of [] \<Rightarrow> buf1 | ch # rest \<Rightarrow> URLEncode rest isNotEncoded (buf1 @ [percent] @ to_upper_hex ch)))"
  by pat_completeness auto
termination
proof (relation "measure (\<lambda>(data, f, buf). length data)", goal_cases)
  case (2 data f buf x xa xb ch rest)
  then have "length (ch # rest) \<le> length data" using length_dropWhile_le [of f data] by metis
  then show ?case by simp
qed simp

declare URLEncode.simps [simp del]

section \<open>Decoding in place\<close>

function decode_loop :: "u8 \<Rightarrow> bool \<Rightarrow> bytes \<Rightarrow> nat \<Rightarrow> nat \<Rightarrow> nat \<Rightarrow> (bytes \<times> nat) option" where
  "decode_loop plusAs strictInvalid buf first lst out =
     (if first < lst then
        (let ch = buf ! first in
         if ch = plus_sign then decode_loop plusAs strictInvalid (buf[out := plusAs]) (first + 1) lst (out + 1)
         else if ch = percent then
           (if first + 2 \<ge> lst then
              (if strictInvalid then None else decode_loop plusAs strictInvalid (buf[out := percent]) (first + 1) lst (out + 1))
            else
              (let c1 = buf ! (first + 1); c2 = buf ! (first + 2); v1 = from_hex_digit c1; v2 = from_hex_digit c2 in
               if v1 < 0 \<or> v2 < 0 then
                 (if strictInvalid then None
                  else decode_loop plusAs strictInvalid (buf[out := percent, out + 1 := c1, out + 2 := c2]) (first + 3) lst (out + 3))
               else decode_loop plusAs strictInvalid (buf[out := push_bit 4 (of_int v1) OR of_int v2]) (first + 3) lst (out + 1)))
         else decode_loop plusAs strictInvalid (buf[out := ch]) (first + 1) lst (out + 1))
      else Some (buf, out))"
  by pat_completeness auto
termination
  by (relation "measure (\<lambda>(p, s, buf, first, lst, out). lst - first)") auto

declare decode_loop.simps [simp del]

text \<open>\<^verbatim>\<open>DecodeInPlace\<close>: the buffer and the new end, or \<open>None\<close> for the null pointer.\<close>

definition DecodeInPlace :: "bytes \<Rightarrow> nat \<Rightarrow> nat \<Rightarrow> u8 \<Rightarrow> bool \<Rightarrow> (bytes \<times> nat) option" where
  "DecodeInPlace buf first lst plusAs strictInvalid = decode_loop plusAs strictInvalid buf first lst first"

definition memchr :: "bytes \<Rightarrow> nat \<Rightarrow> nat \<Rightarrow> u8 \<Rightarrow> nat option" where
  "memchr buf first lst c = find (\<lambda>i. buf ! i = c) [first..<lst]"

definition memmove :: "bytes \<Rightarrow> nat \<Rightarrow> nat \<Rightarrow> nat \<Rightarrow> bytes" where
  "memmove buf dest src n = take dest buf @ take n (drop src buf) @ drop (dest + n) buf"

text \<open>
  Decoding one component \<open>[begin, compEnd)\<close> and closing the gap it leaves: the buffer, the end of the decoded component and by how much
  everything after it has moved.
\<close>

definition decode_component :: "bytes \<Rightarrow> nat \<Rightarrow> nat \<Rightarrow> nat \<Rightarrow> u8 \<Rightarrow> (bytes \<times> nat) option" where
  "decode_component buf first compEnd lst plusAs =
     (case DecodeInPlace buf first compEnd plusAs False of
        None \<Rightarrow> None
      | Some (buf1, newEnd) \<Rightarrow>
          if newEnd - first < compEnd - first
          then Some (memmove buf1 newEnd compEnd (lst - compEnd), compEnd - newEnd)
          else Some (buf1, 0))"

text \<open>The ends of the next pair and of its key, with the separators after them replaced.\<close>

definition mark_pair :: "bytes \<Rightarrow> nat \<Rightarrow> nat \<Rightarrow> nat \<times> nat \<times> bytes" where
  "mark_pair buf first lst =
     (let keyEnd = memchr buf first lst equals_sign;
          (pairEnd, buf1) = (case memchr buf first lst ampersand of None \<Rightarrow> (lst, buf) | Some p \<Rightarrow> (p, buf[p := kNewPairSep]))
      in case keyEnd of
           None \<Rightarrow> (pairEnd, pairEnd, buf1)
         | Some k \<Rightarrow> if k > pairEnd then (pairEnd, pairEnd, buf1) else (pairEnd, k, buf1[k := kNewKeyValueSep]))"

text \<open>The loop of \<^verbatim>\<open>DecodeQueryParamsInPlace\<close>; the definition leaves open whether it ends.\<close>

partial_function (option) decode_query :: "bytes \<Rightarrow> nat \<Rightarrow> nat \<Rightarrow> (bytes \<times> nat) option" where
  "decode_query buf first lst =
     (if first < lst then
        (let (pairEnd, keyEnd, buf2) = mark_pair buf first lst;
             valueBegin = (if keyEnd < pairEnd then keyEnd + 1 else pairEnd)
         in case decode_component buf2 first keyEnd lst plus_sign of
              None \<Rightarrow> None
            | Some (buf3, shift) \<Rightarrow>
                (let lst1 = lst - shift; valueBegin1 = valueBegin - shift; valueEnd1 = pairEnd - shift in
                 if valueBegin1 < valueEnd1 then
                   (case decode_component buf3 valueBegin1 valueEnd1 lst1 space_char of
                      None \<Rightarrow> None
                    | Some (buf4, shift2) \<Rightarrow>
                        (let lst2 = lst1 - shift2; pairEnd2 = valueEnd1 - shift2
                         in decode_query buf4 (if pairEnd2 < lst2 then pairEnd2 + 1 else lst2) lst2))
                 else decode_query buf3 (if valueEnd1 < lst1 then valueEnd1 + 1 else lst1) lst1))
      else Some (buf, lst))"

declare decode_query.simps [code]

definition DecodeQueryParamsInPlace :: "bytes \<Rightarrow> (bytes \<times> nat) option" where
  "DecodeQueryParamsInPlace query = decode_query query 0 (length query)"

text \<open>
  \<^verbatim>\<open>decodePath\<close> on the part \<open>[pathStart, pathEnd)\<close> of the connection buffer: the query after the first \<open>?\<close> is decoded, then the path
  before it, strictly and with \<open>+\<close> kept. The result is the buffer with the views \<^verbatim>\<open>_pPath\<close> and \<^verbatim>\<open>_pDecodedQueryParams\<close> (position and length),
  or \<open>None\<close> when the target is refused. (The lengths are kept in 32 bits, which a target within the header limit fits.)
\<close>

type_synonym view = "nat \<times> nat"

definition view_bytes :: "bytes \<Rightarrow> view \<Rightarrow> bytes" where
  "view_bytes buf v = take (snd v) (drop (fst v) buf)"

definition decodePath :: "bytes \<Rightarrow> nat \<Rightarrow> nat \<Rightarrow> (bytes \<times> view \<times> view) option" where
  "decodePath buf pathStart pathEnd =
     (let questionMark = (case memchr buf pathStart pathEnd 0x3F of None \<Rightarrow> pathEnd | Some k \<Rightarrow> k) in
      case (if questionMark \<noteq> pathEnd
            then map_option (\<lambda>(buf1, paramsEnd). (buf1, (questionMark + 1, paramsEnd - (questionMark + 1))))
                   (decode_query buf (questionMark + 1) pathEnd)
            else Some (buf, (pathEnd, 0))) of
        None \<Rightarrow> None
      | Some (buf1, params) \<Rightarrow>
          (case DecodeInPlace buf1 pathStart questionMark plus_sign True of
             None \<Rightarrow> None
           | Some (buf2, pathLast) \<Rightarrow>
               if pathLast = pathStart then None else Some (buf2, (pathStart, pathLast - pathStart), params)))"

text \<open>A request target alone: the decoded path and the decoded query.\<close>

definition decode_target :: "bytes \<Rightarrow> (bytes \<times> bytes) option" where
  "decode_target target =
     map_option (\<lambda>(buf, path, params). (view_bytes buf path, view_bytes buf params)) (decodePath target 0 (length target))"

section \<open>Reading the parameters\<close>

text \<open>The iterator: \<open>advance\<close> on the rest of the query after \<open>_begKey\<close>, and the parameter it stands on.\<close>

definition query_advance :: "bytes \<Rightarrow> bytes" where
  "query_advance rest = (case dropWhile (\<lambda>c. c \<noteq> kNewPairSep) (tl rest) of [] \<Rightarrow> [] | c # after \<Rightarrow> after)"

definition query_deref :: "bytes \<Rightarrow> bytes \<times> bytes" where
  "query_deref rest =
     (let pair = take 1 rest @ takeWhile (\<lambda>c. c \<noteq> kNewPairSep) (tl rest);
          key = takeWhile (\<lambda>c. c \<noteq> kNewKeyValueSep) pair
      in (key, drop (length key + 1) pair))"

lemma query_advance_shorter: "rest \<noteq> [] \<Longrightarrow> length (query_advance rest) < length rest"
  using length_dropWhile_le [of "\<lambda>c. c \<noteq> kNewPairSep" "tl rest"] by (cases rest) (auto simp: query_advance_def split: list.split)

function query_params :: "bytes \<Rightarrow> (bytes \<times> bytes) list" where
  "query_params rest = (if rest = [] then [] else query_deref rest # query_params (query_advance rest))"
  by pat_completeness auto
termination
  by (relation "measure length") (auto simp: query_advance_shorter)

declare query_params.simps [simp del]


section \<open>What the decoder computes\<close>

text \<open>Percent-decoding as a function on byte strings, and the decoded form of a query.\<close>

fun pct_decode :: "u8 \<Rightarrow> bool \<Rightarrow> bytes \<Rightarrow> bytes option" where
  "pct_decode plusAs strict [] = Some []"
| "pct_decode plusAs strict (ch # rest) =
     (if ch = plus_sign then map_option ((#) plusAs) (pct_decode plusAs strict rest)
      else if ch = percent then
        (case rest of
           c1 # c2 # more_bytes \<Rightarrow>
             (if from_hex_digit c1 < 0 \<or> from_hex_digit c2 < 0
              then (if strict then None else map_option ((@) [percent, c1, c2]) (pct_decode plusAs strict more_bytes))
              else map_option ((#) (push_bit 4 (of_int (from_hex_digit c1)) OR of_int (from_hex_digit c2)))
                     (pct_decode plusAs strict more_bytes))
         | _ \<Rightarrow> if strict then None else map_option ((#) percent) (pct_decode plusAs strict rest))
      else map_option ((#) ch) (pct_decode plusAs strict rest))"

declare pct_decode.simps(2) [simp del]

lemma pct_decode_plain:
  "c \<noteq> percent \<or> length rest < 2 \<Longrightarrow> pct_decode p s (c # rest) =
     (if c = percent \<and> s then None else map_option ((#) (if c = plus_sign then p else c)) (pct_decode p s rest))"
  by (subst pct_decode.simps(2)) (auto split: list.split)

lemma pct_decode_percent:
  "pct_decode p s (percent # c1 # c2 # rest) =
     (if from_hex_digit c1 < 0 \<or> from_hex_digit c2 < 0
      then (if s then None else map_option ((@) [percent, c1, c2]) (pct_decode p s rest))
      else map_option ((#) (push_bit 4 (of_int (from_hex_digit c1)) OR of_int (from_hex_digit c2))) (pct_decode p s rest))"
  by (subst pct_decode.simps(2)) simp

definition lenient :: "u8 \<Rightarrow> bytes \<Rightarrow> bytes" where
  "lenient plusAs xs = the (pct_decode plusAs False xs)"

definition decoded_pair :: "bytes \<Rightarrow> bytes" where
  "decoded_pair pair =
     lenient plus_sign (takeWhile (\<lambda>c. c \<noteq> equals_sign) pair)
     @ (case dropWhile (\<lambda>c. c \<noteq> equals_sign) pair of [] \<Rightarrow> [] | _ # val \<Rightarrow> kNewKeyValueSep # lenient space_char val)"

function decoded_query :: "bytes \<Rightarrow> bytes" where
  "decoded_query q =
     decoded_pair (takeWhile (\<lambda>c. c \<noteq> ampersand) q)
     @ (case dropWhile (\<lambda>c. c \<noteq> ampersand) q of [] \<Rightarrow> [] | _ # rest \<Rightarrow> kNewPairSep # decoded_query rest)"
  by pat_completeness auto
termination
proof (relation "measure length", goal_cases)
  case (2 q c rest)
  then show ?case using length_dropWhile_le [of "\<lambda>c. c \<noteq> ampersand" q] by simp
qed simp

declare decoded_query.simps [simp del]

lemma pct_decode_lenient: "pct_decode plusAs False xs = Some (lenient plusAs xs)"
proof -
  have "pct_decode plusAs False xs \<noteq> None"
    by (induction plusAs False xs rule: pct_decode.induct) (auto simp: pct_decode.simps(2) split: list.split)
  then show ?thesis by (auto simp: lenient_def)
qed

lemma lenient_Nil [simp]: "lenient p [] = []"
  by (simp add: lenient_def)

section \<open>The decoder in place\<close>

text \<open>A write below the read position overwrites the first byte of the gap between them.\<close>

lemma write_gap:
  "n = length pre \<Longrightarrow> gap \<noteq> [] \<Longrightarrow> (pre @ gap @ post)[n := x] = (pre @ [x]) @ tl gap @ post"
  by (cases gap) auto

lemma write_gap3:
  assumes "n = length pre" "3 \<le> length gap"
  shows "(pre @ gap @ post)[n := x, n + 1 := y, n + 2 := z] = (pre @ [x, y, z]) @ drop 3 gap @ post"
proof -
  obtain a b c g where "gap = a # b # c # g" using assms(2) by (auto simp: Suc_le_length_iff numeral_3_eq_3)
  then show ?thesis using assms(1) by (simp add: list_update_append)
qed

definition decoded_at :: "bytes \<Rightarrow> nat \<Rightarrow> bytes \<Rightarrow> bytes option \<Rightarrow> (bytes \<times> nat) option \<Rightarrow> bool" where
  "decoded_at pre n post d r =
     (case d of None \<Rightarrow> r = None
      | Some ds \<Rightarrow> \<exists>junk. r = Some (pre @ ds @ junk @ post, length pre + length ds) \<and> length ds + length junk = n)"

lemma decoded_at_prefix:
  "decoded_at (pre @ xs) n post d r \<Longrightarrow> m = n + length xs \<Longrightarrow> decoded_at pre m post (map_option ((@) xs) d) r"
  by (cases d) (auto simp: decoded_at_def)


lemma append_single: "(@) [x] = (#) x"
  by (rule ext) simp

text \<open>One step of the loop, by what it reads.\<close>

lemma decode_loop_plain:
  assumes "first < lst" "buf ! first = c" "c = percent \<Longrightarrow> lst \<le> first + 2"
  shows "decode_loop p s buf first lst out =
    (if c = percent \<and> s then None
     else decode_loop p s (buf[out := if c = plus_sign then p else c]) (first + 1) lst (out + 1))"
  using assms by (subst decode_loop.simps) simp

lemma decode_loop_percent:
  assumes "first + 2 < lst" "buf ! first = percent" "buf ! (first + 1) = c1" "buf ! (first + 2) = c2"
  shows "decode_loop p s buf first lst out =
    (if from_hex_digit c1 < 0 \<or> from_hex_digit c2 < 0
     then (if s then None
           else decode_loop p s (buf[out := percent, out + 1 := c1, out + 2 := c2]) (first + 3) lst (out + 3))
     else decode_loop p s (buf[out := push_bit 4 (of_int (from_hex_digit c1)) OR of_int (from_hex_digit c2)])
            (first + 3) lst (out + 1))"
  using assms by (subst decode_loop.simps) (simp add: Let_def)

lemma decode_loop_decodes:
  "decoded_at pre (length gap + length src) post (pct_decode p s src)
     (decode_loop p s (pre @ gap @ src @ post) (length pre + length gap) (length pre + length gap + length src) (length pre))"
proof (induction "length src" arbitrary: src pre gap rule: less_induct)
  case less
  have one: "decoded_at pre (length gap + length src) post (map_option ((#) x) (pct_decode p s rest))
      (decode_loop p s ((pre @ gap @ src @ post)[length pre := x]) (length pre + length gap + 1)
        (length pre + length gap + length src) (length pre + 1))" if src: "src = c # rest" for c x rest
  proof -
    have "decoded_at (pre @ [x]) (length (tl (gap @ [c])) + length rest) post (pct_decode p s rest)
      (decode_loop p s ((pre @ [x]) @ tl (gap @ [c]) @ rest @ post) (length (pre @ [x]) + length (tl (gap @ [c])))
        (length (pre @ [x]) + length (tl (gap @ [c])) + length rest) (length (pre @ [x])))"
      by (rule less.hyps) (simp add: src)
    from decoded_at_prefix [OF this, of "length gap + length src"] show ?thesis
      using write_gap [of "length pre" pre "gap @ [c]" "rest @ post" x] by (simp add: src append_single ac_simps)
  qed
  have three: "decoded_at pre (length gap + length src) post (map_option ((@) xs) (pct_decode p s rest))
      (decode_loop p s b (length pre + length gap + 3) (length pre + length gap + length src) (length pre + length xs))"
    if src: "src = c1 # c2 # c3 # rest" and b: "b = (pre @ xs) @ g @ rest @ post"
      and g: "length g = length gap + 3 - length xs" "length xs \<le> 3" for c1 c2 c3 xs rest b g
  proof -
    have "decoded_at (pre @ xs) (length g + length rest) post (pct_decode p s rest)
      (decode_loop p s ((pre @ xs) @ g @ rest @ post) (length (pre @ xs) + length g)
        (length (pre @ xs) + length g + length rest) (length (pre @ xs)))"
      by (rule less.hyps) (simp add: src)
    from decoded_at_prefix [OF this, of "length gap + length src"] show ?thesis using g by (simp add: src b ac_simps numeral_3_eq_3)
  qed
  show ?case
  proof (cases src)
    case Nil
    then show ?thesis by (simp add: decode_loop.simps decoded_at_def)
  next
    case (Cons c rest)
    have c: "(pre @ gap @ src @ post) ! (length pre + length gap) = c"
      using nth_at [of "length pre + length gap" "pre @ gap" c "rest @ post"] by (simp add: Cons)
    show ?thesis
    proof (cases "c = percent \<and> 2 \<le> length rest")
      case False
      then have spec: "pct_decode p s src = (if c = percent \<and> s then None
          else map_option ((#) (if c = plus_sign then p else c)) (pct_decode p s rest))"
        unfolding Cons by (intro pct_decode_plain) auto
      have loop: "decode_loop p s (pre @ gap @ src @ post) (length pre + length gap)
          (length pre + length gap + length src) (length pre) = (if c = percent \<and> s then None else
          decode_loop p s ((pre @ gap @ src @ post)[length pre := if c = plus_sign then p else c]) (length pre + length gap + 1)
            (length pre + length gap + length src) (length pre + 1))"
        by (rule decode_loop_plain [OF _ c]) (use False Cons in auto)
      show ?thesis unfolding spec loop using one [OF Cons] by (simp add: decoded_at_def [of _ _ _ None])
    next
      case True
      then obtain c1 c2 bs where rest: "rest = c1 # c2 # bs" by (cases rest; cases "tl rest") auto
      have c12: "(pre @ gap @ src @ post) ! (length pre + length gap + 1) = c1"
        "(pre @ gap @ src @ post) ! (length pre + length gap + 2) = c2"
        using nth_at [of "length pre + length gap + 1" "pre @ gap @ [c]" c1 "c2 # bs @ post"]
          nth_at [of "length pre + length gap + 2" "pre @ gap @ [c, c1]" c2 "bs @ post"] by (simp_all add: Cons rest)
      let ?v = "push_bit 4 (of_int (from_hex_digit c1)) OR of_int (from_hex_digit c2)"
      have w1: "(pre @ gap @ src @ post)[length pre := ?v] = (pre @ [?v]) @ tl (gap @ [c, c1, c2]) @ bs @ post"
        using write_gap [of "length pre" pre "gap @ [c, c1, c2]"] by (simp add: Cons rest)
      have w3: "(pre @ gap @ src @ post)[length pre := percent, length pre + 1 := c1, length pre + 2 := c2]
          = (pre @ [percent, c1, c2]) @ drop 3 (gap @ [c, c1, c2]) @ bs @ post"
        using write_gap3 [of "length pre" pre "gap @ [c, c1, c2]"] by (simp add: Cons rest)
      have src: "src = c # c1 # c2 # bs" by (simp add: Cons rest)
      have loop: "decode_loop p s (pre @ gap @ src @ post) (length pre + length gap)
          (length pre + length gap + length src) (length pre) =
        (if from_hex_digit c1 < 0 \<or> from_hex_digit c2 < 0
         then (if s then None else decode_loop p s ((pre @ [percent, c1, c2]) @ drop 3 (gap @ [c, c1, c2]) @ bs @ post)
            (length pre + length gap + 3) (length pre + length gap + length src) (length pre + 3))
         else decode_loop p s ((pre @ [?v]) @ tl (gap @ [c, c1, c2]) @ bs @ post)
            (length pre + length gap + 3) (length pre + length gap + length src) (length pre + 1))"
        unfolding w1 [symmetric] w3 [symmetric] by (rule decode_loop_percent [OF _ _ c12]) (use True c Cons in auto)
      have spec: "pct_decode p s src =
        (if from_hex_digit c1 < 0 \<or> from_hex_digit c2 < 0
         then (if s then None else map_option ((@) [percent, c1, c2]) (pct_decode p s bs))
         else map_option ((@) [?v]) (pct_decode p s bs))"
        using True by (simp add: src append_single pct_decode_percent)
      have "decoded_at pre (length gap + length src) post (map_option ((@) [percent, c1, c2]) (pct_decode p s bs))
         (decode_loop p s ((pre @ [percent, c1, c2]) @ drop 3 (gap @ [c, c1, c2]) @ bs @ post)
            (length pre + length gap + 3) (length pre + length gap + length src) (length pre + 3))"
        using three [OF src refl, of "drop 3 (gap @ [c, c1, c2])" "[percent, c1, c2]"] by (auto simp: numeral_3_eq_3)
      moreover have "decoded_at pre (length gap + length src) post (map_option ((@) [?v]) (pct_decode p s bs))
         (decode_loop p s ((pre @ [?v]) @ tl (gap @ [c, c1, c2]) @ bs @ post)
            (length pre + length gap + 3) (length pre + length gap + length src) (length pre + 1))"
        using three [OF src refl, of "tl (gap @ [c, c1, c2])" "[?v]"] by simp
      ultimately show ?thesis unfolding spec loop by (cases s) (simp_all add: decoded_at_def [of _ _ _ None])
    qed
  qed
qed

lemma DecodeInPlace_decodes:
  "decoded_at pre (length src) post (pct_decode p s src)
     (DecodeInPlace (pre @ src @ post) (length pre) (length pre + length src) p s)"
  using decode_loop_decodes [of pre "[]" src post p s] by (simp add: DecodeInPlace_def)

lemma decode_component_decodes:
  assumes "n = length pre" "k = n + length part" "m = k + length rest"
  obtains left where "decode_component (pre @ part @ rest @ junk) n k m p
      = Some (pre @ lenient p part @ rest @ left @ junk, length part - length (lenient p part))"
    "length (lenient p part) + length left = length part"
proof -
  let ?d = "lenient p part"
  obtain j where dec: "DecodeInPlace (pre @ part @ rest @ junk) n k p False
      = Some (pre @ ?d @ j @ rest @ junk, n + length ?d)" and j: "length ?d + length j = length part"
    using DecodeInPlace_decodes [of pre part "rest @ junk" p False] assms
    by (auto simp: decoded_at_def pct_decode_lenient)
  have "memmove (pre @ ?d @ j @ rest @ junk) (n + length ?d) k (m - k)
      = pre @ ?d @ rest @ drop (length rest) (j @ rest @ junk)"
    using assms j by (simp add: memmove_def)
  moreover have "length ?d < length part \<longleftrightarrow> j \<noteq> []" using j by (cases j) auto
  ultimately have "decode_component (pre @ part @ rest @ junk) n k m p
      = Some (pre @ ?d @ rest @ (if j = [] then [] else drop (length rest) (j @ rest)) @ junk, length part - length ?d)"
    using dec j assms by (auto simp: decode_component_def)
  then show ?thesis by (rule that) (use j in auto)
qed

text \<open>Where the code looks for a separator.\<close>

lemma memchr_split:
  assumes "n = length pre" "m = n + length q"
  shows "memchr (pre @ q @ post) n m c =
    (if c \<in> set q then Some (n + length (takeWhile (\<lambda>x. x \<noteq> c) q)) else None)"
proof -
  have "memchr (pre @ q @ post) n m c = map_option ((+) n) (find (\<lambda>i. q ! i = c) [0..<length q])"
  proof -
    have "[n..<m] = map ((+) n) [0..<length q]" using assms by (auto intro: nth_equalityI)
    moreover have "find (\<lambda>i. (pre @ q @ post) ! i = c) (map ((+) n) is) = map_option ((+) n) (find (\<lambda>i. q ! i = c) is)"
      if "\<forall>i\<in>set is. i < length q" for "is"
      using that assms by (induction "is") (auto simp: nth_append)
    ultimately show ?thesis by (simp add: memchr_def)
  qed
  moreover have "find (\<lambda>i. q ! i = c) [0..<length q] =
    (if c \<in> set q then Some (length (takeWhile (\<lambda>x. x \<noteq> c) q)) else None)"
  proof (induction q)
    case (Cons a q)
    have "find (\<lambda>i. (a # q) ! i = c) (map Suc is) = map_option Suc (find (\<lambda>i. q ! i = c) is)" for "is"
      by (induction "is") auto
    then show ?case using Cons by (simp add: upt_conv_Cons map_Suc_upt [symmetric] del: upt_Suc map_Suc_upt)
  qed simp
  ultimately show ?thesis by simp
qed

definition marked :: "u8 \<Rightarrow> bytes \<Rightarrow> bytes" where
  "marked c xs = (case xs of [] \<Rightarrow> [] | _ # rest \<Rightarrow> c # rest)"

lemma marked_simps [simp]: "marked c [] = []" "marked c (x # xs) = c # xs" "length (marked c xs) = length xs"
  by (simp_all add: marked_def split: list.split)

lemma mark_pair_splits:
  assumes n: "n = length pre" and m: "m = n + length q"
    and pair: "pair = takeWhile (\<lambda>c. c \<noteq> ampersand) q" and tail: "tail = dropWhile (\<lambda>c. c \<noteq> ampersand) q"
    and key: "key = takeWhile (\<lambda>c. c \<noteq> equals_sign) pair" and val: "val = dropWhile (\<lambda>c. c \<noteq> equals_sign) pair"
  shows "mark_pair (pre @ q @ junk) n m =
    (n + length pair, n + length key, pre @ key @ marked kNewKeyValueSep val @ marked kNewPairSep tail @ junk)"
proof -
  have q: "q = pair @ tail" "pair = key @ val" by (simp_all add: pair tail key val)
  have amp: "memchr (pre @ q @ junk) n m ampersand = (if tail = [] then None else Some (n + length pair))"
    unfolding memchr_split [OF n m] pair tail by (auto simp: dropWhile_eq_Nil_conv)
  have b1: "(pre @ q @ junk)[n + length pair := kNewPairSep] = pre @ pair @ marked kNewPairSep tail @ junk" if "tail \<noteq> []"
    using that n by (cases tail) (auto simp: q(1) list_update_append)
  have b2: "(pre @ pair @ xs)[n + length key := kNewKeyValueSep] = pre @ key @ marked kNewKeyValueSep val @ xs"
    if "val \<noteq> []" for xs
    using that n by (cases val) (auto simp: q(2) list_update_append)
  have eq: "memchr (pre @ q @ junk) n m equals_sign = Some (n + length key)" if v: "val \<noteq> []"
  proof -
    have "equals_sign \<in> set pair" using v by (auto simp: val dropWhile_eq_Nil_conv)
    then show ?thesis unfolding memchr_split [OF n m] key by (simp add: q(1) takeWhile_append1)
  qed
  have late: "case memchr (pre @ q @ junk) n m equals_sign of None \<Rightarrow> True | Some k \<Rightarrow> n + length pair < k" if v: "val = []"
  proof -
    have no: "x \<noteq> equals_sign" if "x \<in> set pair" for x using v that by (auto simp: val dropWhile_eq_Nil_conv)
    then have tw: "takeWhile (\<lambda>c. c \<noteq> equals_sign) q = pair @ takeWhile (\<lambda>c. c \<noteq> equals_sign) tail"
      unfolding q(1) by (intro takeWhile_append2) simp
    have "takeWhile (\<lambda>c. c \<noteq> equals_sign) tail \<noteq> []" if "equals_sign \<in> set q"
    proof (cases tail)
      case (Cons a list)
      then have "a = ampersand" using hd_dropWhile [of "\<lambda>c. c \<noteq> ampersand" q] unfolding tail [symmetric] by simp
      then show ?thesis using Cons by simp
    qed (use that no q(1) in auto)
    then show ?thesis unfolding memchr_split [OF n m] tw by (auto simp: not_le)
  qed
  show ?thesis
  proof (cases "val = []")
    case True
    then show ?thesis using late [OF True] amp b1 n m q unfolding mark_pair_def
      by (cases "tail = []") (auto split: option.split)
  next
    case False
    have "length key < length pair" using False q(2) by (cases val) auto
    then show ?thesis using eq [OF False] amp b1 b2 [OF False] n m q unfolding mark_pair_def
      by (cases "tail = []") auto
  qed
qed

text \<open>One pair: what the loop has done when it comes to the next one.\<close>

lemma decode_query_step:
  assumes n: "n = length pre" and m: "m = n + length q" and q: "q \<noteq> []"
    and pair: "pair = takeWhile (\<lambda>c. c \<noteq> ampersand) q" and tail: "tail = dropWhile (\<lambda>c. c \<noteq> ampersand) q"
  obtains left where "decode_query (pre @ q @ junk) n m =
    decode_query (pre @ decoded_pair pair @ marked kNewPairSep tail @ left @ junk)
      (length pre + length (decoded_pair pair) + (if tail = [] then 0 else 1))
      (length pre + length (decoded_pair pair) + length tail)"
    "length (decoded_pair pair) + length tail + length left = length q"
proof -
  define key where "key = takeWhile (\<lambda>c. c \<noteq> equals_sign) pair"
  define val where "val = dropWhile (\<lambda>c. c \<noteq> equals_sign) pair"
  let ?k = "lenient plus_sign key" and ?tail = "marked kNewPairSep tail"
  have q': "q = pair @ tail" "pair = key @ val" by (simp_all add: pair tail key_def val_def)
  have lt: "n < m" using m q by simp
  obtain j1 where key: "decode_component (pre @ key @ (marked kNewKeyValueSep val @ ?tail) @ junk) n (n + length key) m plus_sign
      = Some (pre @ ?k @ (marked kNewKeyValueSep val @ ?tail) @ j1 @ junk, length key - length ?k)" and k: "length ?k + length j1 = length key"
    by (rule decode_component_decodes [OF n refl, of m key "marked kNewKeyValueSep val @ ?tail" junk plus_sign])
      (use m q' in auto)
  note unfold = decode_query.simps [of "pre @ q @ junk" n m] mark_pair_splits [OF n m pair tail key_def val_def, of junk]
  show ?thesis
  proof (cases "tl val = []")
    case True
    then have d: "decoded_pair pair = ?k @ marked kNewKeyValueSep val"
      unfolding decoded_pair_def key_def [symmetric] val_def [symmetric] by (cases val) auto
    have "decode_query (pre @ q @ junk) n m = decode_query (pre @ (?k @ marked kNewKeyValueSep val) @ ?tail @ j1 @ junk)
        (length pre + length (?k @ marked kNewKeyValueSep val) + (if tail = [] then 0 else 1))
        (length pre + length (?k @ marked kNewKeyValueSep val) + length tail)"
      using lt key k True n m q' unfolding unfold by (cases val; cases tail) (auto simp: Let_def ac_simps)
    then show ?thesis by (rule that [unfolded d]) (use k q' in simp)
  next
    case False
    then obtain e v where val: "val = e # v" "v \<noteq> []" by (cases val) auto
    let ?v = "lenient space_char v" and ?pre = "pre @ ?k @ [kNewKeyValueSep]"
    have d: "decoded_pair pair = ?k @ kNewKeyValueSep # ?v"
      unfolding decoded_pair_def key_def [symmetric] val_def [symmetric] by (simp add: val)
    obtain j2 where vdec: "decode_component (?pre @ v @ ?tail @ j1 @ junk) (length ?pre) (length ?pre + length v)
        (length ?pre + length v + length tail) space_char = Some (?pre @ ?v @ ?tail @ j2 @ j1 @ junk, length v - length ?v)"
      and v: "length ?v + length j2 = length v"
      by (rule decode_component_decodes [OF refl refl, of "length ?pre + length v + length tail" ?pre v ?tail "j1 @ junk" space_char]) auto
    have "decode_query (pre @ q @ junk) n m = decode_query (pre @ (?k @ kNewKeyValueSep # ?v) @ ?tail @ (j2 @ j1) @ junk)
        (length pre + length (?k @ kNewKeyValueSep # ?v) + (if tail = [] then 0 else 1))
        (length pre + length (?k @ kNewKeyValueSep # ?v) + length tail)"
      using lt key k vdec v n m q' val unfolding unfold by (cases tail) (auto simp: Let_def ac_simps)
    then show ?thesis by (rule that [unfolded d]) (use k v val q' in simp)
  qed
qed

lemma decode_query_decodes:
  "\<exists>left. decode_query (pre @ q @ junk) (length pre) (length pre + length q)
     = Some (pre @ decoded_query q @ left @ junk, length pre + length (decoded_query q)) \<and> length (decoded_query q) + length left = length q"
proof (induction "length q" arbitrary: q pre junk rule: less_induct)
  case less
  show ?case
  proof (cases "q = []")
    case True
    then show ?thesis by (simp add: decode_query.simps [of _ "length pre"] decoded_query.simps [of "[]"] decoded_pair_def)
  next
    case False
    define pair where "pair = takeWhile (\<lambda>c. c \<noteq> ampersand) q"
    define tail where "tail = dropWhile (\<lambda>c. c \<noteq> ampersand) q"
    obtain j where step: "decode_query (pre @ q @ junk) (length pre) (length pre + length q) =
      decode_query (pre @ decoded_pair pair @ marked kNewPairSep tail @ j @ junk)
        (length pre + length (decoded_pair pair) + (if tail = [] then 0 else 1))
        (length pre + length (decoded_pair pair) + length tail)"
      and j: "length (decoded_pair pair) + length tail + length j = length q"
      by (rule decode_query_step [OF refl refl False pair_def tail_def])
    have dq: "decoded_query q = decoded_pair pair @ (case tail of [] \<Rightarrow> [] | _ # r \<Rightarrow> kNewPairSep # decoded_query r)"
      by (subst decoded_query.simps) (simp add: pair_def tail_def)
    show ?thesis
    proof (cases tail)
      case Nil
      then show ?thesis unfolding step dq using j
        by (simp add: decode_query.simps [of _ "length pre + length (decoded_pair pair)"])
    next
      case (Cons c r)
      have "length r < length q" using length_dropWhile_le [of "\<lambda>c. c \<noteq> ampersand" q] Cons by (simp add: tail_def [symmetric])
      from less.hyps [OF this, of "pre @ decoded_pair pair @ [kNewPairSep]" "j @ junk"] obtain left where
        "decode_query ((pre @ decoded_pair pair @ [kNewPairSep]) @ r @ j @ junk) (length (pre @ decoded_pair pair @ [kNewPairSep]))
           (length (pre @ decoded_pair pair @ [kNewPairSep]) + length r)
         = Some ((pre @ decoded_pair pair @ [kNewPairSep]) @ decoded_query r @ left @ j @ junk,
             length (pre @ decoded_pair pair @ [kNewPairSep]) + length (decoded_query r))"
        "length (decoded_query r) + length left = length r" by auto
      then show ?thesis unfolding step dq using j by (intro exI [of _ "left @ j"]) (simp add: Cons ac_simps)
    qed
  qed
qed

text \<open>
  C22. Decoding the query string in place ends for every input, and what it leaves in the buffer, up to the end it returns, is
  the query with each key and value percent-decoded on its own (\<open>+\<close> a space in values only, malformed escapes kept), the
  separators replaced by the internal ones, whatever was moved in between.\<close>

theorem query_decoding_terminates:
  "\<exists>left. DecodeQueryParamsInPlace query = Some (decoded_query query @ left, length (decoded_query query))
     \<and> length (decoded_query query) + length left = length query"
  using decode_query_decodes [of "[]" query "[]"] by (simp add: DecodeQueryParamsInPlace_def)

section \<open>Decoding what was encoded\<close>

definition url_enc :: "(u8 \<Rightarrow> bool) \<Rightarrow> bytes \<Rightarrow> bytes" where
  "url_enc keep data = concat (map (\<lambda>c. if keep c then [c] else percent # to_upper_hex c) data)"

lemma url_enc_simps [simp]:
  "url_enc keep [] = []"
  "url_enc keep (c # cs) = (if keep c then [c] else percent # to_upper_hex c) @ url_enc keep cs"
  "url_enc keep (as @ bs) = url_enc keep as @ url_enc keep bs"
  by (simp_all add: url_enc_def)

lemma url_enc_kept: "list_all keep cs \<Longrightarrow> url_enc keep cs = cs"
  by (induction cs) auto

lemma URLEncode_enc: "URLEncode data keep buf = buf @ url_enc keep data"
proof (induction data keep buf rule: URLEncode.induct)
  case (1 data keep buf)
  have split: "data = takeWhile keep data @ dropWhile keep data" by simp
  have run: "url_enc keep (takeWhile keep data) = takeWhile keep data"
    by (rule url_enc_kept) (auto simp: list_all_iff dest: set_takeWhileD)
  show ?case
  proof (cases "dropWhile keep data")
    case Nil
    then have "takeWhile keep data = data" using split by (metis append_Nil2)
    then show ?thesis using run Nil by (subst URLEncode.simps) (simp only: Let_def list.case if_cancel, auto)
  next
    case (Cons ch rest)
    then have d: "data \<noteq> []" "\<not> keep ch" using hd_dropWhile [of keep data] by auto
    have "url_enc keep data = takeWhile keep data @ url_enc keep (dropWhile keep data)"
      by (subst (1) split) (simp only: url_enc_simps run)
    then show ?thesis using 1 [OF d(1) refl refl refl Cons] Cons d by (subst URLEncode.simps) (simp add: Let_def)
  qed
qed

lemma length_url_enc: "length (url_enc keep data) = URLEncodedSize data keep"
proof -
  have "foldl (\<lambda>n ch. n + 2 * (if keep ch then 0 else 1)) n data + length data = n + length (url_enc keep data)" for n
    by (induction data arbitrary: n) (auto simp: to_upper_hex_def)
  from this [of 0] show ?thesis by (simp add: URLEncodedSize_def)
qed

lemma hexit:
  assumes "n < 16"
  shows "from_hex_digit (kUpperHexits ! n) = int n" "kUpperHexits ! n \<in> set kUpperHexits"
proof -
  have "list_all (\<lambda>n. from_hex_digit (kUpperHexits ! n) = int n) [0..<16]" by code_simp
  then show "from_hex_digit (kUpperHexits ! n) = int n" using assms by (simp add: list_all_iff)
  show "kUpperHexits ! n \<in> set kUpperHexits"
    by (rule nth_mem) (use assms in \<open>simp add: kUpperHexits_def bytes_of_def\<close>)
qed

lemma nibbles:
  "unat (drop_bit 4 (c :: u8)) < 16" "unat (c AND 0x0F) < 16" "push_bit 4 (drop_bit 4 c) OR (c AND 0x0F) = c"
proof -
  have low: "(0x0F :: u8) = mask 4" by (simp add: mask_eq_exp_minus_1)
  show "unat (drop_bit 4 c) < 16" 
    using unat_u8_lt [of c] by (subst unat_drop_bit_eq) (simp add: drop_bit_eq_div)
  have "unat (take_bit 4 c) = take_bit 4 (unat c)" by (simp add: unsigned_take_bit_eq)
  then show "unat (c AND 0x0F) < 16" unfolding low take_bit_eq_mask [symmetric] by (simp only: take_bit_eq_mod) simp
  show "push_bit 4 (drop_bit 4 c) OR (c AND 0x0F) = c" unfolding low
    by (rule bit_word_eqI) (auto simp: bit_simps)
qed

lemma pct_decode_hex:
  "pct_decode p s (percent # to_upper_hex c @ rest) = map_option ((#) c) (pct_decode p s rest)"
proof -
  have "(of_int (int (unat x)) :: u8) = x" for x :: u8 by simp
  then show ?thesis using nibbles [of c]
    by (simp only: to_upper_hex_def append.simps pct_decode_percent hexit) simp
qed

lemma pct_decode_enc:
  assumes "\<not> keep percent" "keep plus_sign \<Longrightarrow> p = plus_sign"
  shows "pct_decode p s (url_enc keep data) = Some data"
  proof (induction data)
  case (Cons a data)
  then have "pct_decode p s (a # url_enc keep data) = Some (a # data)" if "keep a"
    using assms that by (subst pct_decode_plain) auto
  then show ?case using Cons by (simp add: pct_decode_hex)
qed simp

lemma lenient_enc:
  "\<not> keep percent \<Longrightarrow> (keep plus_sign \<Longrightarrow> p = plus_sign) \<Longrightarrow> lenient p (url_enc keep data) = data"
  using pct_decode_enc [of keep p False data] by (simp add: lenient_def)

lemma set_url_enc:
  "c \<in> set (url_enc keep data) \<Longrightarrow> keep c \<or> c = percent \<or> c \<in> set kUpperHexits"
proof (induction data)
  case (Cons a data)
  have "set (to_upper_hex a) \<subseteq> set kUpperHexits" using nibbles [of a] by (simp add: to_upper_hex_def hexit)
  then show ?case using Cons by (auto split: if_splits)
qed simp


section \<open>Reading the decoded query back\<close>

text \<open>A decoded query made of whole pairs: what the iterator finds in it.\<close>

fun joined :: "(bytes \<times> bytes) list \<Rightarrow> bytes" where
  "joined [] = []"
| "joined [(k, v)] = k @ kNewKeyValueSep # v"
| "joined ((k, v) # ps) = k @ kNewKeyValueSep # v @ kNewPairSep # joined ps"

definition clean_pair :: "bytes \<times> bytes \<Rightarrow> bool" where
  "clean_pair p \<longleftrightarrow> kNewKeyValueSep \<notin> set (fst p) \<and> kNewPairSep \<notin> set (fst p) \<and> kNewPairSep \<notin> set (snd p)"

lemma clean_pair_read:
  assumes "clean_pair (k, v)" and rest: "rest = [] \<or> (\<exists>r. rest = kNewPairSep # r)"
  shows "query_deref ((k @ kNewKeyValueSep # v) @ rest) = (k, v)"
    "query_advance ((k @ kNewKeyValueSep # v) @ rest) = tl rest"
proof -
  let ?pair = "k @ kNewKeyValueSep # v"
  have no: "x \<noteq> kNewPairSep" if "x \<in> set ?pair" for x
    using assms(1) that by (auto simp: clean_pair_def kNewPairSep_def kNewKeyValueSep_def)
  then have no': "x \<noteq> kNewPairSep" if "x \<in> set (tl ?pair)" for x using that list.set_sel(2) [of ?pair x] by auto
  have t: "tl (?pair @ rest) = tl ?pair @ rest" "take 1 (?pair @ rest) = take 1 ?pair" by (cases k; simp)+
  have tw: "takeWhile (\<lambda>c. c \<noteq> kNewPairSep) (tl ?pair @ rest) = tl ?pair"
    using rest no' by (subst takeWhile_append2) auto
  have dw: "dropWhile (\<lambda>c. c \<noteq> kNewPairSep) (tl ?pair @ rest) = rest"
    using rest no' by (subst dropWhile_append2) auto
  have whole: "take 1 ?pair @ tl ?pair = ?pair" by (cases k) auto
  have key: "takeWhile (\<lambda>c. c \<noteq> kNewKeyValueSep) ?pair = k"
    using assms(1) by (subst takeWhile_append2) (auto simp: clean_pair_def)
  show "query_deref (?pair @ rest) = (k, v)"
    unfolding query_deref_def t tw whole Let_def key by simp
  show "query_advance (?pair @ rest) = tl rest"
    unfolding query_advance_def t dw using rest by (auto split: list.split)
qed

lemma query_params_joined: "list_all clean_pair ps \<Longrightarrow> query_params (joined ps) = ps"
proof (induction ps rule: joined.induct)
  case 1
  then show ?case by (simp add: query_params.simps)
next
  case (2 k v)
  then show ?case using clean_pair_read [of k v "[]"] by (simp add: query_params.simps)
next
  case (3 k v p ps)
  then show ?case using clean_pair_read [of k v "kNewPairSep # joined (p # ps)"]
    by (subst query_params.simps) simp
qed

text \<open>The encoded form of the same pairs.\<close>

fun encoded_pairs :: "(u8 \<Rightarrow> bool) \<Rightarrow> (bytes \<times> bytes) list \<Rightarrow> bytes" where
  "encoded_pairs keep [] = []"
| "encoded_pairs keep [(k, v)] = url_enc keep k @ equals_sign # url_enc keep v"
| "encoded_pairs keep ((k, v) # ps) = url_enc keep k @ equals_sign # url_enc keep v @ ampersand # encoded_pairs keep ps"

definition query_safe :: "(u8 \<Rightarrow> bool) \<Rightarrow> bool" where
  "query_safe keep \<longleftrightarrow> \<not> keep percent \<and> \<not> keep plus_sign \<and> \<not> keep ampersand \<and> \<not> keep equals_sign"

lemma separators_not_hex: "list_all (\<lambda>c. c \<noteq> percent \<and> c \<notin> set kUpperHexits) [ampersand, equals_sign, 0x3F]"
  by code_simp

lemma query_safe_enc:
  assumes "query_safe keep"
  shows "ampersand \<notin> set (url_enc keep xs)" "equals_sign \<notin> set (url_enc keep xs)"
  using set_url_enc [of ampersand keep xs] set_url_enc [of equals_sign keep xs] assms separators_not_hex
  by (auto simp: query_safe_def)

lemma decoded_encoded_pair:
  assumes "query_safe keep"
  shows "decoded_pair (url_enc keep k @ equals_sign # url_enc keep v) = k @ kNewKeyValueSep # v"
proof -
  have no: "x \<noteq> equals_sign" if "x \<in> set (url_enc keep k)" for x using query_safe_enc [OF assms, of k] that by auto
  have "takeWhile (\<lambda>c. c \<noteq> equals_sign) (url_enc keep k @ equals_sign # url_enc keep v) = url_enc keep k"
    "dropWhile (\<lambda>c. c \<noteq> equals_sign) (url_enc keep k @ equals_sign # url_enc keep v) = equals_sign # url_enc keep v"
    using no by (subst takeWhile_append2 dropWhile_append2; auto)+
  moreover have "lenient p (url_enc keep xs) = xs" for p xs using assms by (intro lenient_enc) (auto simp: query_safe_def)
  ultimately show ?thesis by (simp add: decoded_pair_def)
qed

lemma decoded_encoded_pairs: "query_safe keep \<Longrightarrow> decoded_query (encoded_pairs keep ps) = joined ps"
proof (induction keep ps rule: encoded_pairs.induct)
  case (1 keep)
  then show ?case by (subst decoded_query.simps) (simp add: decoded_pair_def)
next
  case (2 keep k v)
  have no: "x \<noteq> ampersand" if "x \<in> set (url_enc keep k @ equals_sign # url_enc keep v)" for x
    using query_safe_enc [OF 2] that by auto
  then have "takeWhile (\<lambda>c. c \<noteq> ampersand) (url_enc keep k @ equals_sign # url_enc keep v) = url_enc keep k @ equals_sign # url_enc keep v"
    "dropWhile (\<lambda>c. c \<noteq> ampersand) (url_enc keep k @ equals_sign # url_enc keep v) = []"
    by (simp_all only: takeWhile_eq_all_conv dropWhile_eq_Nil_conv) auto
  then show ?case by (subst decoded_query.simps) (simp only: encoded_pairs.simps joined.simps decoded_encoded_pair [OF 2] list.case append_Nil2)
next
  case (3 keep k v p ps)
  let ?pair = "url_enc keep k @ equals_sign # url_enc keep v"
  have no: "x \<noteq> ampersand" if "x \<in> set ?pair" for x using query_safe_enc [OF 3(2)] that by auto
  have "takeWhile (\<lambda>c. c \<noteq> ampersand) (?pair @ ampersand # encoded_pairs keep (p # ps)) = ?pair"
    "dropWhile (\<lambda>c. c \<noteq> ampersand) (?pair @ ampersand # encoded_pairs keep (p # ps)) = ampersand # encoded_pairs keep (p # ps)"
    using no by (subst takeWhile_append2 dropWhile_append2; auto)+
  moreover have "encoded_pairs keep ((k, v) # p # ps) = ?pair @ ampersand # encoded_pairs keep (p # ps)" by simp
  ultimately show ?case
    by (subst decoded_query.simps) (simp only: decoded_encoded_pair [OF 3(2)] 3(1) [OF 3(2)] list.case, simp)
qed

section \<open>The request target\<close>

text \<open>
  In a larger buffer the decoder leaves everything around the target alone, and the part it may rewrite keeps its length.
\<close>

definition target_spec :: "bytes \<Rightarrow> (bytes \<times> bytes) option" where
  "target_spec target =
     (case pct_decode plus_sign True (takeWhile (\<lambda>c. c \<noteq> 0x3F) target) of
        None \<Rightarrow> None
      | Some path \<Rightarrow> if path = [] then None
          else Some (path, case dropWhile (\<lambda>c. c \<noteq> 0x3F) target of [] \<Rightarrow> [] | _ # query \<Rightarrow> decoded_query query))"

lemma view_bytes_at [simp]: "n = length pre \<Longrightarrow> m = length xs \<Longrightarrow> view_bytes (pre @ xs @ post) (n, m) = xs"
  by (simp add: view_bytes_def)

lemma decodePath_total:
  assumes s: "s = length pre" and e: "e = s + length target"
  shows "case target_spec target of
      None \<Rightarrow> decodePath (pre @ target @ post) s e = None
    | Some (path, query) \<Rightarrow> \<exists>mid pv qv. decodePath (pre @ target @ post) s e = Some (pre @ mid @ post, pv, qv)
        \<and> length mid = length target \<and> fst pv + snd pv \<le> e \<and> fst qv + snd qv \<le> e
        \<and> view_bytes (pre @ mid @ post) pv = path \<and> view_bytes (pre @ mid @ post) qv = query"
proof -
  define p where "p = takeWhile (\<lambda>c. c \<noteq> 0x3F) target"
  define rest where "rest = dropWhile (\<lambda>c. c \<noteq> 0x3F) target"
  have t: "target = p @ rest" by (simp add: p_def rest_def)
  have find: "memchr (pre @ target @ post) s e 0x3F = (if rest = [] then None else Some (s + length p))"
    using memchr_split [OF s e, of post "0x3F"] by (auto simp: p_def rest_def dropWhile_eq_Nil_conv)
  have spec: "target_spec target = (case pct_decode plus_sign True p of None \<Rightarrow> None
      | Some path \<Rightarrow> if path = [] then None
          else Some (path, case rest of [] \<Rightarrow> [] | _ # query \<Rightarrow> decoded_query query))"
    unfolding target_spec_def p_def rest_def by (rule refl)
  obtain rest' qv where q: "(if (case memchr (pre @ target @ post) s e 0x3F of None \<Rightarrow> e | Some k \<Rightarrow> k) \<noteq> e
      then map_option (\<lambda>(buf1, paramsEnd). (buf1, (s + length p + 1, paramsEnd - (s + length p + 1))))
             (decode_query (pre @ target @ post) (s + length p + 1) e)
      else Some (pre @ target @ post, (e, 0))) = Some (pre @ p @ rest' @ post, qv)"
    and rest': "length rest' = length rest" and qb: "fst qv + snd qv \<le> e"
    and qv: "\<And>d. length d = length p \<Longrightarrow>
      view_bytes (pre @ d @ rest' @ post) qv = (case rest of [] \<Rightarrow> [] | _ # query \<Rightarrow> decoded_query query)"
  proof (cases rest)
    case Nil
    show ?thesis by (rule that [of "[]" "(e, 0)"]) (use Nil t e find in \<open>auto simp: view_bytes_def\<close>)
  next
    case (Cons c query)
    obtain left where l: "decode_query ((pre @ p @ [c]) @ query @ post) (length (pre @ p @ [c])) (length (pre @ p @ [c]) + length query)
       = Some ((pre @ p @ [c]) @ decoded_query query @ left @ post, length (pre @ p @ [c]) + length (decoded_query query))"
       "length (decoded_query query) + length left = length query"
      using decode_query_decodes [of "pre @ p @ [c]" query post] by blast
    show ?thesis
      by (rule that [of "c # decoded_query query @ left" "(s + length p + 1, length (decoded_query query))"])
        (use l s e t Cons find in \<open>auto simp: view_bytes_def add.assoc\<close>)
  qed
  have loc: "(case memchr (pre @ target @ post) s e 0x3F of None \<Rightarrow> e | Some k \<Rightarrow> k) = s + length p"
    using find t e by auto
  have eq: "decodePath (pre @ target @ post) s e =
    (case DecodeInPlace (pre @ p @ rest' @ post) s (s + length p) plus_sign True of
       None \<Rightarrow> None
     | Some (buf2, pathLast) \<Rightarrow> if pathLast = s then None else Some (buf2, (s, pathLast - s), qv))"
    unfolding decodePath_def Let_def using q unfolding loc by simp
  show ?thesis
  proof (cases "pct_decode plus_sign True p")
    case None
    then have "DecodeInPlace (pre @ p @ rest' @ post) s (s + length p) plus_sign True = None"
      using DecodeInPlace_decodes [of pre p "rest' @ post" plus_sign True] s by (simp add: decoded_at_def)
    then show ?thesis unfolding spec eq None by simp
  next
    case (Some d)
    obtain j where dec: "DecodeInPlace (pre @ p @ rest' @ post) s (s + length p) plus_sign True
        = Some (pre @ d @ j @ rest' @ post, s + length d)" and j: "length d + length j = length p"
      using DecodeInPlace_decodes [of pre p "rest' @ post" plus_sign True] Some s by (auto simp: decoded_at_def)
    show ?thesis
    proof (cases "d = []")
      case True
      then show ?thesis unfolding spec eq Some dec by simp
    next
      case False
      have views: "view_bytes (pre @ (d @ j @ rest') @ post) (s, length d) = d"
        "view_bytes (pre @ (d @ j @ rest') @ post) qv = (case rest of [] \<Rightarrow> [] | _ # query \<Rightarrow> decoded_query query)"
        using qv [of "d @ j"] j s by (simp_all add: view_bytes_def)
      have "target_spec target = Some (d, case rest of [] \<Rightarrow> [] | _ # query \<Rightarrow> decoded_query query)"
        using False by (simp add: spec Some)
      moreover have "decodePath (pre @ target @ post) s e = Some (pre @ (d @ j @ rest') @ post, (s, length d), qv)"
        using False by (simp add: eq dec)
      moreover have "length (d @ j @ rest') = length target" "s + length d \<le> e" using rest' j t e by simp_all
      ultimately show ?thesis using views qb by (simp only: option.case prod.case) force
    qed
  qed
qed

lemma decode_target_total: "decode_target target = target_spec target"
  using decodePath_total [of 0 "[]" "length target" target "[]"]
  by (auto simp: decode_target_def split: option.splits prod.splits)

text \<open>
  Two requests in which the handlers see parameters nobody sent: an empty pair is glued to the key after it, and an escaped separator byte
  starts a parameter of its own.
\<close>

lemma query_parameters_confused:
  "map_option (\<lambda>(buf, n). query_params (take n buf)) (DecodeQueryParamsInPlace (bytes_of ''&admin=1''))
     = Some [(0 # bytes_of ''admin'', bytes_of ''1'')]"
  "map_option (\<lambda>(buf, n). query_params (take n buf)) (DecodeQueryParamsInPlace (bytes_of ''a=b%00admin%1f1''))
     = Some [(bytes_of ''a'', bytes_of ''b''), (bytes_of ''admin'', bytes_of ''1'')]"
  by - code_simp+

end
