(* ===== verification/Decimal.thy ===== *)
theory Decimal
  imports Prelude
begin

text \<open>
  The number of decimal digits of an integer (\<^verbatim>\<open>ndigits.hpp\<close>, \<^verbatim>\<open>nchars.hpp\<close>), which the code uses to size the buffers into which
  \<^verbatim>\<open>std::to_chars\<close> then writes. The routine estimates the count from the position of the highest bit; the theorem shows that it is exact
  for all 64-bit values.
\<close>

text \<open>\<^verbatim>\<open>std::countl_zero\<close>, and \<^verbatim>\<open>std::to_chars\<close> of an unsigned integer in base ten.\<close>

definition countl_zero :: "u64 \<Rightarrow> nat" where
  "countl_zero n = length (takeWhile Not (map (bit n) (rev [0..<64])))"

fun to_chars :: "nat \<Rightarrow> bytes" where
  "to_chars n = (if n < 10 then [] else to_chars (n div 10)) @ [of_nat (48 + n mod 10)]"

declare to_chars.simps [simp del]

text \<open>The table of the powers of ten less one, which ends with the greatest 64-bit value.\<close>

fun pow10 :: "nat \<Rightarrow> u64" where
  "pow10 0 = 9"
| "pow10 (Suc i) = (if Suc i < 19 then pow10 i * 10 + 9 else 0xFFFFFFFFFFFFFFFF)"

definition ndigits :: "u64 \<Rightarrow> u8" where
  "ndigits n =
     (if n < 10 then 1
      else
        (let floorLog2 = 63 - countl_zero n;
             estimate = floorLog2 * 1233 div 4096
         in of_nat ((if pow10 estimate < n then estimate + 1 else estimate) + 1)))"

definition nchars :: "u64 \<Rightarrow> u8" where
  "nchars n = ndigits n"

section \<open>The highest bit\<close>

lemma top_bit_bounds:
  assumes "k \<le> 64" "\<forall>i. k \<le> i \<longrightarrow> i < 64 \<longrightarrow> \<not> bit (n :: u64) i"
  shows "unat n < 2 ^ k"
proof -
  have "take_bit k n = n"
    by (rule bit_word_eqI) (use assms in \<open>auto simp: bit_take_bit_iff not_le [symmetric]\<close>)
  then have "unat n = take_bit k (unat n)" by (metis unsigned_take_bit_eq)
  then show ?thesis by (metis take_bit_nat_less_exp)
qed

lemma bit_ge: "bit (n :: u64) k \<Longrightarrow> 2 ^ k \<le> unat n"
proof -
  assume "bit n k"
  then have "bit (unat n) k" by (simp add: bit_unsigned_iff)
  then have "unat n div 2 ^ k \<noteq> 0" by (auto simp: bit_iff_odd elim!: oddE)
  then show ?thesis by (metis div_less not_le)
qed

lemma floor_log2:
  assumes "n \<noteq> (0 :: u64)"
  shows "2 ^ (63 - countl_zero n) \<le> unat n" "unat n < 2 ^ (64 - countl_zero n)" "countl_zero n < 64"
proof -
  let ?bits = "map (bit n) (rev [0..<64])"
  let ?z = "countl_zero n"
  have nth: "?bits ! i = bit n (63 - i)" if "i < 64" for i using that by (simp add: rev_nth)
  have "?z < length ?bits"
  proof (rule ccontr)
    assume "\<not> ?z < length ?bits"
    then have "takeWhile Not ?bits = ?bits"
      by (subst takeWhile_eq_take) (simp add: countl_zero_def not_less)
    then have "\<not> bit n i" if "i < 64" for i using that by (simp add: takeWhile_eq_all_conv)
    then have "n = 0" by (intro bit_word_eqI) auto
    then show False using assms by simp
  qed
  then show z: "?z < 64" by simp
  have "bit n (63 - ?z)" using nth_length_takeWhile [of Not ?bits] z nth [OF z] by (simp add: countl_zero_def)
  then show "2 ^ (63 - ?z) \<le> unat n" by (rule bit_ge)
  have "\<not> bit n i" if "64 - ?z \<le> i" "i < 64" for i
  proof -
    have j: "63 - i < ?z" using that by simp
    then have "takeWhile Not ?bits ! (63 - i) = ?bits ! (63 - i)" by (intro takeWhile_nth) (simp add: countl_zero_def)
    moreover have "\<not> takeWhile Not ?bits ! (63 - i)"
      using j nth_mem [of "63 - i" "takeWhile Not ?bits"] set_takeWhileD by (fastforce simp: countl_zero_def)
    ultimately show ?thesis using nth [of "63 - i"] that by simp
  qed
  then show "unat n < 2 ^ (64 - ?z)" by (intro top_bit_bounds) auto
qed

section \<open>The estimate is exact\<close>

lemma length_to_chars: "10 ^ k \<le> n \<Longrightarrow> n < 10 ^ (k + 1) \<Longrightarrow> length (to_chars n) = k + 1"
proof (induction k arbitrary: n)
  case 0
  then show ?case by (simp add: to_chars.simps [of n])
next
  case (Suc k)
  have "10 \<le> n" using Suc.prems(1) le_trans [of 10 "10 ^ Suc k" n] by simp
  moreover have "10 ^ k \<le> n div 10" "n div 10 < 10 ^ (k + 1)" using Suc.prems by (auto simp: less_eq_div_iff_mult_less_eq div_less_iff_less_mult mult.commute)
  ultimately show ?case using Suc.IH [of "n div 10"] by (simp add: to_chars.simps [of n])
qed

text \<open>For each position of the highest bit, the estimate is the digit count less one or less two.\<close>

lemma estimate_close:
  assumes "3 \<le> f" "f < 64"
  shows "(10 :: nat) ^ (f * 1233 div 4096) \<le> 2 ^ f" "(2 :: nat) ^ (f + 1) \<le> 10 ^ (f * 1233 div 4096 + 2)"
    "f * 1233 div 4096 < 19"
proof -
  have "f \<in> set [3..<64]" using assms by (simp only: set_upt atLeastLessThan_iff)
  moreover have "list_all (\<lambda>f. (10 :: nat) ^ (f * 1233 div 4096) \<le> 2 ^ f \<and> (2 :: nat) ^ (f + 1) \<le> 10 ^ (f * 1233 div 4096 + 2)
      \<and> f * 1233 div 4096 < 19) [3..<64]"
    by (simp add: upt_rec)
  ultimately show "(10 :: nat) ^ (f * 1233 div 4096) \<le> 2 ^ f" "(2 :: nat) ^ (f + 1) \<le> 10 ^ (f * 1233 div 4096 + 2)"
    "f * 1233 div 4096 < 19" unfolding list_all_iff by blast+
qed

lemma unat_pow10:
  assumes "i < 19"
  shows "unat (pow10 i) = 10 ^ (i + 1) - 1"
proof -
  have "pow10 i = of_nat (10 ^ (i + 1) - 1)"
    using assms
  proof (induction i)
    case (Suc i)
    have "(10 :: nat) ^ (Suc i + 1) - 1 = (10 ^ (i + 1) - 1) * 10 + 9" by (simp add: diff_mult_distrib)
    then show ?case using Suc by (simp only: of_nat_add of_nat_mult of_nat_numeral pow10.simps) simp
  qed simp
  moreover have "(10 :: nat) ^ (i + 1) \<le> 10 ^ 19" using assms by (intro power_increasing) auto
  then have "(10 :: nat) ^ (i + 1) - 1 < 2 ^ 64" by simp
  ultimately show ?thesis by (simp only: unat_of_nat) simp
qed

lemma ndigits_length: "unat (ndigits n) = length (to_chars (unat n))"
proof (cases "n < 10")
  case True
  then have "unat n < 10" by (simp add: word_less_nat_alt)
  then show ?thesis using True by (simp add: ndigits_def to_chars.simps [of "unat n"])
next
  case False
  then have ten: "10 \<le> unat n" by (simp add: word_less_nat_alt)
  define f where "f = 63 - countl_zero n"
  define e where "e = f * 1233 div 4096"
  have "n \<noteq> 0" using ten by auto
  note log = floor_log2 [OF this]
  have f: "2 ^ f \<le> unat n" "unat n < 2 ^ (f + 1)" "f < 64"
    using log unfolding f_def by (simp_all add: Suc_diff_Suc [symmetric] del: power_Suc Suc_diff_Suc)
  have "\<not> f < 3" using f(2) ten power_increasing [of "f + 1" 3 "2 :: nat"] by auto
  then have e: "10 ^ e \<le> unat n" "unat n < 10 ^ (e + 2)" "e < 19"
    using estimate_close [of f] f unfolding e_def by linarith+
  have "length (to_chars (unat n)) = (if 10 ^ (e + 1) - 1 < unat n then e + 1 else e) + 1"
    using length_to_chars [of e "unat n"] length_to_chars [of "e + 1" "unat n"] e by auto
  moreover have "unat (ndigits n) = (if 10 ^ (e + 1) - 1 < unat n then e + 1 else e) + 1"
    using False e(3) unfolding ndigits_def Let_def f_def [symmetric] e_def [symmetric]
    by (simp add: word_less_nat_alt unat_pow10 unat_of_nat del: of_nat_add of_nat_Suc)
  ultimately show ?thesis by simp
qed

text \<open>
  C26. The digit count computed from the position of the highest bit is, for every 64-bit value, exactly the number of characters
  that are then written for it.\<close>

theorem ndigits_exact: "unat (ndigits n) = length (to_chars (unat n))"
  by (rule ndigits_length)

end
