(* ===== verification/Https_Redirect.thy ===== *)
theory Https_Redirect
  imports Url Decimal
begin

text \<open>
  The automatic redirection to HTTPS: \<^verbatim>\<open>https-redirect.cpp\<close> and the target that \<^verbatim>\<open>SingleHttpServer::emitHttpsRedirect\<close> builds with it from a decoded request.
  A buffer is the bytes appended to it; where the code reserves a capacity first, the operation also returns it. The theorems show that the target decodes to the same
  path and parameters as the request it was built from, and that what is written fits what was reserved.
\<close>

definition kHttpsScheme :: bytes where
  "kHttpsScheme = bytes_of ''https://''"

definition kStandardHttpsPort :: u16 where
  "kStandardHttpsPort = 443"

definition IsUnreserved :: "u8 \<Rightarrow> bool" where
  "IsUnreserved ch \<longleftrightarrow>
     0x41 \<le> ch \<and> ch \<le> 0x5A \<or> 0x61 \<le> ch \<and> ch \<le> 0x7A \<or> 0x30 \<le> ch \<and> ch \<le> 0x39
     \<or> ch = 0x2D \<or> ch = 0x2E \<or> ch = 0x5F \<or> ch = 0x7E"

text \<open>The characters \<open>/:@!$&'()*+,;=\<close>.\<close>

definition kPathExtra :: bytes where
  "kPathExtra = [0x2F, 0x3A, 0x40, 0x21, 0x24, 0x26, 0x27, 0x28, 0x29, 0x2A, 0x2B, 0x2C, 0x3B, 0x3D]"

definition IsPathSafe :: "u8 \<Rightarrow> bool" where
  "IsPathSafe ch \<longleftrightarrow> IsUnreserved ch \<or> ch \<in> set kPathExtra"

definition StripPortFromHost :: "bytes \<Rightarrow> bytes" where
  "StripPortFromHost hostHeader =
     (if hostHeader = [] then hostHeader
      else if hd hostHeader = 0x5B then
        (case memchr hostHeader 0 (length hostHeader) 0x5D of
           Some closing \<Rightarrow> take (closing + 1) hostHeader
         | None \<Rightarrow> hostHeader)
      else
        (case memchr hostHeader 0 (length hostHeader) 0x3A of
           Some colon \<Rightarrow> take colon hostHeader
         | None \<Rightarrow> hostHeader))"

text \<open>The buffer and the capacity reserved for it; \<open>None\<close> is the result \<^verbatim>\<open>false\<close>.\<close>

definition AppendHttpsAuthority :: "bytes \<Rightarrow> u16 \<Rightarrow> (bytes \<times> nat) option" where
  "AppendHttpsAuthority hostHeader targetPort =
     (let host = StripPortFromHost hostHeader in
      if host = [] then None
      else
        (let addPort = targetPort \<noteq> kStandardHttpsPort;
             hostNbChars = (if addPort then nchars (ucast targetPort) else 0);
             requiredCapacity = length kHttpsScheme + length host + (if addPort then 1 + unat hostNbChars else 0);
             out = kHttpsScheme @ host @ (if addPort then 0x3A # to_chars (unat targetPort) else [])
         in Some (out, requiredCapacity)))"

definition AppendUrlEncodedPath :: "bytes \<Rightarrow> bytes \<Rightarrow> bytes \<times> nat" where
  "AppendUrlEncodedPath out decodedPath =
     (URLEncode decodedPath IsPathSafe out, length out + URLEncodedSize decodedPath IsPathSafe)"

definition AppendUrlEncodedQueryParam :: "bytes \<Rightarrow> u8 \<Rightarrow> bytes \<Rightarrow> bytes \<Rightarrow> bytes \<times> nat" where
  "AppendUrlEncodedQueryParam out leadingChar decodedKey decodedValue =
     (URLEncode decodedValue IsUnreserved (URLEncode decodedKey IsUnreserved (out @ [leadingChar]) @ [equals_sign]),
      length out + (1 + URLEncodedSize decodedKey IsUnreserved + 1 + URLEncodedSize decodedValue IsUnreserved))"

text \<open>
  The loop over \<^verbatim>\<open>queryParamsRange()\<close>, and the value of the \<^verbatim>\<open>Location\<close> header: \<open>None\<close> when the request has no host, which is answered with 400.
\<close>

fun append_params :: "bytes \<Rightarrow> u8 \<Rightarrow> (bytes \<times> bytes) list \<Rightarrow> bytes" where
  "append_params urlBuf querySep [] = urlBuf"
| "append_params urlBuf querySep ((key, val) # ps) =
     append_params (fst (AppendUrlEncodedQueryParam urlBuf querySep key val)) ampersand ps"

definition redirect_location :: "bytes \<Rightarrow> u16 \<Rightarrow> bytes \<Rightarrow> bytes \<Rightarrow> bytes option" where
  "redirect_location hostHeader targetPort path query =
     (case AppendHttpsAuthority hostHeader targetPort of
        None \<Rightarrow> None
      | Some (urlBuf, _) \<Rightarrow> Some (append_params (fst (AppendUrlEncodedPath urlBuf path)) 0x3F (query_params query)))"

section \<open>What is written\<close>

lemma query_safe_unreserved: "query_safe IsUnreserved"
  unfolding query_safe_def IsUnreserved_def by code_simp

lemma path_safe:
  "\<not> IsPathSafe percent" "0x3F \<notin> set (url_enc IsPathSafe xs)"
proof -
  show p: "\<not> IsPathSafe percent" by code_simp
  have "\<not> IsPathSafe 0x3F" by code_simp
  then show "0x3F \<notin> set (url_enc IsPathSafe xs)"
    using set_url_enc [of "0x3F" IsPathSafe xs] separators_not_hex by auto
qed

lemma append_params_encoded:
  "append_params buf sep ps = buf @ (if ps = [] then [] else sep # encoded_pairs IsUnreserved ps)"
proof (induction IsUnreserved ps arbitrary: buf sep rule: encoded_pairs.induct)
  case (3 k v p ps)
  show ?case unfolding append_params.simps(2) 3 by (simp add: AppendUrlEncodedQueryParam_def URLEncode_enc)
qed (simp_all add: AppendUrlEncodedQueryParam_def URLEncode_enc)

lemma redirect_location_written:
  "redirect_location hostHeader port path query =
     map_option (\<lambda>(auth, _). auth @ url_enc IsPathSafe path
       @ (if query_params query = [] then [] else 0x3F # encoded_pairs IsUnreserved (query_params query)))
       (AppendHttpsAuthority hostHeader port)"
  by (auto simp: redirect_location_def AppendUrlEncodedPath_def URLEncode_enc append_params_encoded split: option.split)

text \<open>A key that the iterator returns holds no separator, and no byte of a value is the pair separator.\<close>

lemma query_deref_clean:
  assumes "rest \<noteq> []" "kNewPairSep \<notin> set (fst (query_deref rest))"
  shows "clean_pair (query_deref rest)"
proof -
  obtain c cs where rest: "rest = c # cs" using assms(1) by (cases rest) auto
  define pair where "pair = take 1 rest @ takeWhile (\<lambda>c. c \<noteq> kNewPairSep) (tl rest)"
  have d: "query_deref rest = (takeWhile (\<lambda>c. c \<noteq> kNewKeyValueSep) pair,
      drop (length (takeWhile (\<lambda>c. c \<noteq> kNewKeyValueSep) pair) + 1) pair)"
    by (simp add: query_deref_def pair_def Let_def)
  have "kNewKeyValueSep \<notin> set (takeWhile (\<lambda>c. c \<noteq> kNewKeyValueSep) pair)" using set_takeWhileD by fastforce
  moreover have "kNewPairSep \<notin> set (drop (Suc n) pair)" for n
    using set_takeWhileD [of kNewPairSep] set_drop_subset [of n "takeWhile (\<lambda>c. c \<noteq> kNewPairSep) cs"]
    by (auto simp: pair_def rest)
  ultimately show ?thesis using assms(2) by (simp add: clean_pair_def d)
qed

lemma query_params_clean:
  "list_all (\<lambda>(key, val). kNewPairSep \<notin> set key) (query_params query) \<Longrightarrow> list_all clean_pair (query_params query)"
proof (induction query rule: query_params.induct)
  case (1 rest)
  then show ?case
    by (cases "rest = []") (auto simp: query_params.simps [of rest] query_params.simps [of "[]"] case_prod_beta intro: query_deref_clean)
qed

text \<open>
  C21. A client that follows the redirect asks for the same resource: when no parameter was glued to an empty pair before it, the location is the new authority followed
  by a target that decodes to the path of the request and to a query with the parameters of the request.\<close>

theorem redirect_keeps_request:
  assumes "decode_target target = Some (path, query)" "StripPortFromHost hostHeader \<noteq> []"
    and "list_all (\<lambda>(key, val). kNewPairSep \<notin> set key) (query_params query)"
  shows "\<exists>auth target' query'.
    redirect_location hostHeader port path query = Some (fst auth @ target') \<and> AppendHttpsAuthority hostHeader port = Some auth
    \<and> length (fst auth) = snd auth \<and> decode_target target' = Some (path, query') \<and> query_params query' = query_params query"
proof -
  define ps where "ps = query_params query"
  let ?target = "url_enc IsPathSafe path @ (if ps = [] then [] else 0x3F # encoded_pairs IsUnreserved ps)"
  obtain auth where auth: "AppendHttpsAuthority hostHeader port = Some auth"
    using assms(2) by (simp add: AppendHttpsAuthority_def Let_def)
  have "unat (ucast port :: u64) = unat port" 
    using unsigned_less [where ?'a = nat, of port] by (simp add: unsigned_ucast_eq take_bit_nat_eq_self)
  then have cap: "length (fst auth) = snd auth"
    using auth by (auto simp: AppendHttpsAuthority_def Let_def nchars_def ndigits_length split: if_splits)
  have path: "path \<noteq> []" using assms(1) by (auto simp: decode_target_total target_spec_def split: option.splits if_splits)
  have no: "x \<noteq> 0x3F" if "x \<in> set (url_enc IsPathSafe path)" for x using path_safe(2) [of path] that by auto
  then have none: "dropWhile (\<lambda>c. c \<noteq> 0x3F) (url_enc IsPathSafe path) = []" by (auto simp: dropWhile_eq_Nil_conv)
  have "decode_target ?target = Some (path, joined ps)"
    using path no pct_decode_enc [of IsPathSafe plus_sign True path] path_safe(1)
      decoded_encoded_pairs [OF query_safe_unreserved, of ps]
    by (auto simp: decode_target_total target_spec_def none takeWhile_append2 dropWhile_append2 dropWhile_eq_Nil_conv takeWhile_eq_all_conv)
  moreover have "query_params (joined ps) = ps"
    using query_params_clean [OF assms(3)] by (simp add: ps_def query_params_joined)
  moreover have "redirect_location hostHeader port path query = Some (fst auth @ ?target)"
    by (simp add: redirect_location_written auth ps_def case_prod_beta)
  ultimately show ?thesis using auth cap ps_def by blast
qed

text \<open>The request \<^verbatim>\<open>/a%20b?x=1%26y\<close> to host \<^verbatim>\<open>h:80\<close>.\<close>

definition sample_target :: bytes where
  "sample_target = bytes_of ''/a%20b?x=1%26y''"

definition sample_path :: bytes where
  "sample_path = bytes_of ''/a b''"

definition sample_query :: bytes where
  "sample_query = bytes_of ''x'' @ [0x1F] @ bytes_of ''1&y''"

definition sample_host :: bytes where
  "sample_host = bytes_of ''h:80''"

theorem redirect_keeps_request_witness:
  "\<exists>auth target' query'.
    redirect_location sample_host 8443 sample_path sample_query = Some (fst auth @ target') \<and> AppendHttpsAuthority sample_host 8443 = Some auth
    \<and> length (fst auth) = snd auth \<and> decode_target target' = Some (sample_path, query') \<and> query_params query' = query_params sample_query"
proof (rule redirect_keeps_request)
  show "decode_target sample_target = Some (sample_path, sample_query)" by code_simp
  show "StripPortFromHost sample_host \<noteq> []" by code_simp
  show "list_all (\<lambda>(key, val). kNewPairSep \<notin> set key) (query_params sample_query)" by code_simp
qed

end
