(* ===== verification/Concat_Strings.thy ===== *)
theory Concat_Strings
  imports Ascii Decimal
begin

text \<open>
  Lists of strings in one buffer (\<^verbatim>\<open>dynamic-concatenated-strings.hpp\<close>): each part is followed by the separator, which is a parameter
  of the class; \<^verbatim>\<open>ConcatenatedStrings\<close> uses a zero byte, \<^verbatim>\<open>ConcatenatedHeaders\<close> a CRLF and \<^verbatim>\<open>ConcatenatedHeaderValues\<close>
  a comma and a space. The model is the buffer; a search that finds no separator, which the code does not expect, is
  \<open>None\<close>. The theorems show that the buffer is a list of strings for the callers.
\<close>

section \<open>The operations\<close>

text \<open>\<^verbatim>\<open>std::string_view::find\<close>.\<close>

fun sv_find :: "bytes \<Rightarrow> bytes \<Rightarrow> nat option" where
  "sv_find pat [] = (if pat = [] then Some 0 else None)"
| "sv_find pat (c # cs) = (if take (length pat) (c # cs) = pat then Some 0 else map_option Suc (sv_find pat cs))"

definition sv_contains :: "bytes \<Rightarrow> bytes \<Rightarrow> bool" where
  "sv_contains str pat \<longleftrightarrow> sv_find pat str \<noteq> None"

text \<open>\<^verbatim>\<open>append\<close> of a string; \<open>None\<close> is the exception \<^verbatim>\<open>std::invalid_argument\<close>. \<^verbatim>\<open>append\<close> of an unsigned integer never fails.\<close>

definition cs_append :: "bytes \<Rightarrow> bytes \<Rightarrow> bytes \<Rightarrow> bytes option" where
  "cs_append kSep buf str = (if sv_contains str kSep then None else Some (buf @ str @ kSep))"

definition cs_append_integral :: "bytes \<Rightarrow> bytes \<Rightarrow> u64 \<Rightarrow> bytes" where
  "cs_append_integral kSep buf val = buf @ to_chars (unat val) @ kSep"

definition appendAsHttp1Header :: "bytes \<Rightarrow> bytes \<Rightarrow> bytes \<Rightarrow> bytes \<Rightarrow> bytes option" where
  "appendAsHttp1Header kSep buf name val =
     (if sv_contains name kSep \<or> sv_contains val kSep then None else Some (buf @ name @ [0x3A, 0x20] @ val @ kSep))"

lemma drop_shorter [termination_simp]: "remaining \<noteq> [] \<Longrightarrow> kSep \<noteq> [] \<Longrightarrow> length remaining - (n + length kSep) < length remaining"
  by (simp add: length_greater_0_conv [symmetric] del: length_greater_0_conv)

text \<open>The loops over the parts; a template instance has a separator that is not empty.\<close>

function cs_contains :: "bytes \<Rightarrow> bytes \<Rightarrow> bytes \<Rightarrow> bool option" where
  "cs_contains kSep remaining part =
     (if remaining = [] \<or> kSep = [] then Some False
      else case sv_find kSep remaining of
             None \<Rightarrow> None
           | Some nextSep \<Rightarrow>
               if nextSep = length part \<and> take nextSep remaining = part then Some True
               else cs_contains kSep (drop (nextSep + length kSep) remaining) part)"
  by pat_completeness auto
termination
  by (relation "measure (\<lambda>(kSep, remaining, part). length remaining)") (auto intro: drop_shorter)

function cs_containsCI :: "bytes \<Rightarrow> bytes \<Rightarrow> bytes \<Rightarrow> bool option" where
  "cs_containsCI kSep remaining part =
     (if remaining = [] \<or> kSep = [] then Some False
      else case sv_find kSep remaining of
             None \<Rightarrow> None
           | Some nextSep \<Rightarrow>
               if CaseInsensitiveEqual (take nextSep remaining) part then Some True
               else cs_containsCI kSep (drop (nextSep + length kSep) remaining) part)"
  by pat_completeness auto
termination
  by (relation "measure (\<lambda>(kSep, remaining, part). length remaining)") (auto intro: drop_shorter)

text \<open>The iterator from \<^verbatim>\<open>begin\<close> to \<^verbatim>\<open>end\<close>.\<close>

function cs_parts :: "bytes \<Rightarrow> bytes \<Rightarrow> bytes list option" where
  "cs_parts kSep remaining =
     (if remaining = [] \<or> kSep = [] then Some []
      else case sv_find kSep remaining of
             None \<Rightarrow> None
           | Some sepPos \<Rightarrow> map_option ((#) (take sepPos remaining)) (cs_parts kSep (drop (sepPos + length kSep) remaining)))"
  by pat_completeness auto
termination
  by (relation "measure (\<lambda>(kSep, remaining). length remaining)") (auto intro: drop_shorter)

function nbConcatenatedStrings :: "bytes \<Rightarrow> bytes \<Rightarrow> nat \<Rightarrow> nat option" where
  "nbConcatenatedStrings kSep remaining n =
     (if remaining = [] \<or> kSep = [] then Some n
      else case sv_find kSep remaining of
             None \<Rightarrow> None
           | Some pos \<Rightarrow> nbConcatenatedStrings kSep (drop (pos + length kSep) remaining) (n + 1))"
  by pat_completeness auto
termination
  by (relation "measure (\<lambda>(kSep, remaining, k). length remaining)") (auto intro: drop_shorter)

declare cs_contains.simps [simp del] cs_containsCI.simps [simp del] cs_parts.simps [simp del] nbConcatenatedStrings.simps [simp del]

definition fullSize :: "bytes \<Rightarrow> bytes \<Rightarrow> nat" where
  "fullSize kSep buf = (if buf = [] then 0 else length buf - length kSep)"

definition fullString :: "bytes \<Rightarrow> bytes \<Rightarrow> bytes" where
  "fullString kSep buf = take (fullSize kSep buf) buf"

section \<open>Separators\<close>

text \<open>
  A separator is found where it was put when no proper suffix of it is also a prefix of it.
\<close>

definition unbordered :: "bytes \<Rightarrow> bool" where
  "unbordered s \<longleftrightarrow> s \<noteq> [] \<and> list_all (\<lambda>n. drop n s \<noteq> take (length s - n) s) [1..<length s]"

lemma sv_find_sep:
  "unbordered s \<Longrightarrow> \<not> sv_contains p s \<Longrightarrow> sv_find s (p @ s @ rest) = Some (length p)"
proof (induction p)
  case Nil
  then obtain c cs where "s = c # cs" by (cases s) (auto simp: unbordered_def)
  then show ?case by simp
next
  case (Cons c p)
  have "take (length s) (c # p @ s @ rest) \<noteq> s"
  proof
    assume eq: "take (length s) (c # p @ s @ rest) = s"
    show False
    proof (cases "length s \<le> length (c # p)")
      case True
      then have "take (length s) (c # p) = s" using eq take_append [of "length s" "c # p" "s @ rest"] by simp
      then show False using Cons.prems(2) by (simp add: sv_contains_def)
    next
      case False
      let ?k = "length (c # p)"
      have "s = (c # p) @ take (length s - ?k) s" using eq False take_append [of "length s" "c # p" "s @ rest"] by simp
      then have "drop ?k s = take (length s - ?k) s" by (metis append_eq_conv_conj)
      then show False using Cons.prems(1) False by (auto simp: unbordered_def list_all_iff)
    qed
  qed
  then show ?case using Cons by (auto simp: sv_contains_def split: if_splits)
qed

definition layout :: "bytes \<Rightarrow> bytes list \<Rightarrow> bytes" where
  "layout kSep ps = concat (map (\<lambda>p. p @ kSep) ps)"

lemma layout_simps [simp]:
  "layout s [] = []" "layout s (p # ps) = p @ s @ layout s ps" "layout s (ps @ qs) = layout s ps @ layout s qs"
  by (simp_all add: layout_def)

text \<open>A separator makes the strings without it a prefix-free code.\<close>

locale separator =
  fixes kSep :: bytes
  assumes unbordered: "unbordered kSep"
begin

lemma nonempty [simp]: "kSep \<noteq> []"
  using unbordered by (simp add: unbordered_def)

lemmas find_sep = sv_find_sep [OF unbordered]

lemma parts_layout: "list_all (\<lambda>p. \<not> sv_contains p kSep) ps \<Longrightarrow> cs_parts kSep (layout kSep ps) = Some ps"
  by (induction ps) (simp_all add: cs_parts.simps [of kSep] find_sep)

lemma contains_layout:
  "list_all (\<lambda>p. \<not> sv_contains p kSep) ps \<Longrightarrow> cs_contains kSep (layout kSep ps) part = Some (part \<in> set ps)"
  by (induction ps) (auto simp: cs_contains.simps [of kSep] find_sep)

lemma containsCI_layout:
  "list_all (\<lambda>p. \<not> sv_contains p kSep) ps \<Longrightarrow>
     cs_containsCI kSep (layout kSep ps) part = Some (list_ex (\<lambda>p. map tolower p = map tolower part) ps)"
  by (induction ps) (auto simp: cs_containsCI.simps [of kSep] find_sep CaseInsensitiveEqual_iff)

lemma nb_layout:
  "list_all (\<lambda>p. \<not> sv_contains p kSep) ps \<Longrightarrow> nbConcatenatedStrings kSep (layout kSep ps) n = Some (n + length ps)"
  by (induction ps arbitrary: n) (simp_all add: nbConcatenatedStrings.simps [of kSep] find_sep)

lemma append_layout:
  "cs_append kSep (layout kSep ps) str = (if sv_contains str kSep then None else Some (layout kSep (ps @ [str])))"
  by (simp add: cs_append_def)

end

text \<open>The three instances of the class template.\<close>

datatype ConcatKind = ConcatenatedStrings | ConcatenatedHeaders | ConcatenatedHeaderValues

fun sep_of :: "ConcatKind \<Rightarrow> bytes" where
  "sep_of ConcatenatedStrings = [0]"
| "sep_of ConcatenatedHeaders = [0x0D, 0x0A]"
| "sep_of ConcatenatedHeaderValues = [0x2C, 0x20]"

interpretation sep: separator "sep_of kind"
  by unfold_locales (cases kind; simp add: unbordered_def)

text \<open>A caller that appends one string after the other, passing over those that are refused.\<close>

definition cs_build :: "ConcatKind \<Rightarrow> bytes list \<Rightarrow> bytes" where
  "cs_build kind = foldl (\<lambda>buf str. case cs_append (sep_of kind) buf str of None \<Rightarrow> buf | Some b \<Rightarrow> b) []"

lemma cs_build_layout:
  "cs_build kind strs = layout (sep_of kind) (filter (\<lambda>s. \<not> sv_contains s (sep_of kind)) strs)"
  by (induction strs rule: rev_induct) (simp_all add: cs_build_def sep.append_layout)

text \<open>
  C25. For each of the three separators, the buffer filled by any sequence of appends is the list of the strings that were accepted: iteration yields exactly those, in order,
  the two membership tests and the count agree with the list, and no search runs past the end of the buffer.\<close>

theorem concatenated_strings_refine_list:
  "let accepted = filter (\<lambda>s. \<not> sv_contains s (sep_of kind)) strs; buf = cs_build kind strs in
     cs_parts (sep_of kind) buf = Some accepted
     \<and> cs_contains (sep_of kind) buf part = Some (part \<in> set accepted)
     \<and> cs_containsCI (sep_of kind) buf part = Some (list_ex (\<lambda>p. map tolower p = map tolower part) accepted)
     \<and> nbConcatenatedStrings (sep_of kind) buf 0 = Some (length accepted)"
proof -
  have "list_all (\<lambda>p. \<not> sv_contains p (sep_of kind)) (filter (\<lambda>s. \<not> sv_contains s (sep_of kind)) strs)"
    by (simp add: list_all_iff)
  then show ?thesis
    unfolding cs_build_layout Let_def
    by (simp add: sep.parts_layout sep.contains_layout sep.containsCI_layout sep.nb_layout)
qed

end
