(* ===== verification/Http1_Head.thy ===== *)
theory Http1_Head
  imports Url
begin

text \<open>
  Parsing the head of an HTTP/1.x request in the connection buffer: \<^verbatim>\<open>HttpRequestView::initTrySetHead\<close>, with the method and version parsers,
  \<^verbatim>\<open>ParseHeaderLine\<close> and \<^verbatim>\<open>AddOrMergeHeaderInPlace\<close>. The parser rewrites the buffer it reads (it decodes the target and merges repeated
  headers in place), and what it returns are views into it, so the model keeps the buffer as a list of bytes and a view as a position with a length. The theorems
  show that a rendered request is parsed back, with repeated headers merged, and that the in-place merge is the merge of the values as long as no value was
  replaced by a later one; two examples show where the rewriting is observable.
\<close>

section \<open>Lines and headers\<close>

lemma memchr_bounds: "memchr buf first lst c = Some p \<Longrightarrow> first \<le> p \<and> p < lst \<and> buf ! p = c"
  by (auto simp: memchr_def find_Some_iff)

function SearchCRLF :: "bytes \<Rightarrow> nat \<Rightarrow> nat \<Rightarrow> nat" where
  "SearchCRLF buf first lst =
     (case memchr buf first lst 0x0D of
        None \<Rightarrow> lst
      | Some p \<Rightarrow> if p + 1 < lst \<and> buf ! (p + 1) = 0x0A then p else SearchCRLF buf (p + 1) lst)"
  by pat_completeness auto
termination
  by (relation "measure (\<lambda>(buf, first, lst). lst - first)") (auto dest!: memchr_bounds)

declare SearchCRLF.simps [simp del]

lemma SearchCRLF_bounds: "first \<le> lst \<Longrightarrow> first \<le> SearchCRLF buf first lst \<and> SearchCRLF buf first lst \<le> lst"
proof (induction buf first lst rule: SearchCRLF.induct)
  case (1 buf first lst)
  show ?case
  proof (cases "memchr buf first lst 0x0D")
    case None
    then show ?thesis using 1 by (subst (1 2) SearchCRLF.simps) simp
  next
    case (Some p)
    then show ?thesis using 1(1) [OF Some] memchr_bounds [OF Some] by (subst (1 2) SearchCRLF.simps) auto
  qed
qed

datatype Method = GET | HEAD | POST | PUT | DELETE | CONNECT | OPTIONS | TRACE | PATCH

fun MethodToStr :: "Method \<Rightarrow> bytes" where
  "MethodToStr GET = bytes_of ''GET''"
| "MethodToStr HEAD = bytes_of ''HEAD''"
| "MethodToStr POST = bytes_of ''POST''"
| "MethodToStr PUT = bytes_of ''PUT''"
| "MethodToStr DELETE = bytes_of ''DELETE''"
| "MethodToStr CONNECT = bytes_of ''CONNECT''"
| "MethodToStr OPTIONS = bytes_of ''OPTIONS''"
| "MethodToStr TRACE = bytes_of ''TRACE''"
| "MethodToStr PATCH = bytes_of ''PATCH''"

text \<open>The switch on the length and the first letter.\<close>

definition try_method :: "bytes \<Rightarrow> Method \<Rightarrow> Method option" where
  "try_method str m = (if CaseInsensitiveEqual str (MethodToStr m) then Some m else None)"

definition MethodStrToOptEnum :: "bytes \<Rightarrow> Method option" where
  "MethodStrToOptEnum str =
     (let n = length str; c = toupper (hd str) in
      if n = 3 then (if c = 0x47 then try_method str GET else if c = 0x50 then try_method str PUT else None)
      else if n = 4 then (if c = 0x48 then try_method str HEAD else if c = 0x50 then try_method str POST else None)
      else if n = 5 then (if c = 0x54 then try_method str TRACE else if c = 0x50 then try_method str PATCH else None)
      else if n = 6 then try_method str DELETE
      else if n = 7 then (if c = 0x43 then try_method str CONNECT else if c = 0x4F then try_method str OPTIONS else None)
      else None)"

text \<open>\<^verbatim>\<open>MajorMinorVersion\<close>: the byte \<^verbatim>\<open>_data\<close>, zero for a text that is no version. Only the length, the dot and the digits are looked at.\<close>

definition parseVersion :: "bytes \<Rightarrow> u8" where
  "parseVersion str =
     (if length str = 8 then
        (let major = str ! 5; minor = str ! 7 in
         if 0x31 \<le> major \<and> major \<le> 0x39 \<and> str ! 6 = 0x2E \<and> 0x30 \<le> minor \<and> minor \<le> 0x39
         then push_bit 4 (major - 0x30) OR (minor - 0x30) else 0)
      else 0)"

definition version_major :: "u8 \<Rightarrow> u8" where "version_major d = drop_bit 4 d"
definition version_minor :: "u8 \<Rightarrow> u8" where "version_minor d = d AND 0x0F"

definition writeFull :: "u8 \<Rightarrow> bytes" where
  "writeFull d = bytes_of ''HTTP/'' @ [0x30 + version_major d, 0x2E, 0x30 + version_minor d]"

text \<open>
  \<^verbatim>\<open>ParseHeaderLine\<close> on \<open>[lineStart, lineLast)\<close>: the views of name and value, or \<open>None\<close> for the empty name that stands for a line without a colon.
\<close>

definition skip_ows :: "bytes \<Rightarrow> nat \<Rightarrow> nat \<Rightarrow> nat" where
  "skip_ows buf first lst = first + length (takeWhile is_ows (take (lst - first) (drop first buf)))"

definition trim_ows_end :: "bytes \<Rightarrow> nat \<Rightarrow> nat \<Rightarrow> nat" where
  "trim_ows_end buf first lst = lst - length (takeWhile is_ows (rev (take (lst - first) (drop first buf))))"

definition ParseHeaderLine :: "bytes \<Rightarrow> nat \<Rightarrow> nat \<Rightarrow> (view \<times> view) option" where
  "ParseHeaderLine buf lineStart lineLast =
     (case memchr buf lineStart lineLast 0x3A of
        None \<Rightarrow> None
      | Some colon \<Rightarrow>
          (let valueFirst = skip_ows buf (colon + 1) lineLast; valueLast = trim_ows_end buf valueFirst lineLast
           in Some ((lineStart, colon - lineStart), (valueFirst, valueLast - valueFirst))))"

section \<open>Merging in place\<close>

type_synonym header_views = "(view \<times> view) list"

definition shift_view :: "nat \<Rightarrow> view \<Rightarrow> view" where
  "shift_view n v = (fst v + n, snd v)"

text \<open>The map keeps the first spelling of a name; its entries are listed in the order in which they were added.\<close>

definition find_entry :: "bytes \<Rightarrow> header_views \<Rightarrow> bytes \<Rightarrow> nat option" where
  "find_entry buf hs name = find (\<lambda>i. CaseInsensitiveEqual (view_bytes buf (fst (hs ! i))) name) [0..<length hs]"

definition AddOrMergeHeaderInPlace ::
    "bytes \<Rightarrow> header_views \<Rightarrow> view \<Rightarrow> view \<Rightarrow> nat \<Rightarrow> bool \<Rightarrow> (bytes \<times> header_views) option" where
  "AddOrMergeHeaderInPlace buf hs name val currentLineStart mergeUnknown =
     (case find_entry buf hs (view_bytes buf name) of
        None \<Rightarrow> Some (buf, hs @ [(name, val)])
      | Some i \<Rightarrow>
          (let (k, v) = hs ! i; mergeSep = ReqHeaderValueSeparator (view_bytes buf k) mergeUnknown in
           if mergeSep = 0 then None
           else if snd v = 0 \<or> mergeSep = 0x4F then Some (buf, hs[i := (k, val)])
           else if snd val = 0 then Some (buf, hs)
           else
             (let szToMove = snd val + 1;
                  tmp = view_bytes buf val;
                  firstValueLast = fst v + snd v;
                  buf1 = memmove buf (firstValueLast + szToMove) firstValueLast (currentLineStart - firstValueLast);
                  hs1 = map (\<lambda>(key, v'). if fst key > firstValueLast then (shift_view szToMove key, shift_view szToMove v') else (key, v')) hs;
                  buf2 = take firstValueLast buf1 @ [mergeSep] @ tmp @ drop (firstValueLast + szToMove) buf1
              in Some (buf2, hs1[i := (k, (fst v, snd v + szToMove))]))))"

section \<open>The head\<close>

datatype HeadStatus =
  StatusCodeOK | NeedMoreData | StatusCodeBadRequest | StatusCodeNotImplemented | StatusCodeHTTPVersionNotSupported
| StatusCodeRequestHeaderFieldsTooLarge

record RequestHead =
  req_method :: Method
  req_path :: view
  req_query :: view
  req_version :: u8
  req_headers :: header_views
  headSpanSize :: nat

text \<open>The loop over the header lines; the position after the loop is that of the empty line.\<close>

function header_lines :: "bytes \<Rightarrow> header_views \<Rightarrow> nat \<Rightarrow> nat \<Rightarrow> nat \<Rightarrow> bool \<Rightarrow> HeadStatus \<times> bytes \<times> header_views \<times> nat" where
  "header_lines buf hs first lst maxHeadersBytes mergeUnknown =
     (if first < lst then
        (let lineLast = SearchCRLF buf first lst in
         if lineLast = lst then (NeedMoreData, buf, hs, first)
         else if lineLast = first then (StatusCodeOK, buf, hs, first)
         else if maxHeadersBytes < lineLast + 2 then (StatusCodeRequestHeaderFieldsTooLarge, buf, hs, first)
         else
           (case ParseHeaderLine buf first lineLast of
              None \<Rightarrow> (StatusCodeBadRequest, buf, hs, first)
            | Some (name, val) \<Rightarrow>
                if snd name = 0 \<or> list_ex is_ows (view_bytes buf name) then (StatusCodeBadRequest, buf, hs, first)
                else
                  (case AddOrMergeHeaderInPlace buf hs name val first mergeUnknown of
                     None \<Rightarrow> (StatusCodeBadRequest, buf, hs, first)
                   | Some (buf1, hs1) \<Rightarrow> header_lines buf1 hs1 (lineLast + 2) lst maxHeadersBytes mergeUnknown)))
      else (NeedMoreData, buf, hs, first))"
  by pat_completeness auto
termination
proof (relation "measure (\<lambda>(buf, hs, first, lst, m, u). lst - first)", goal_cases)
  case (2 buf hs first lst)
  then show ?case using SearchCRLF_bounds [of first lst buf] by auto
qed simp

declare header_lines.simps [simp del]

definition find_char :: "bytes \<Rightarrow> nat \<Rightarrow> nat \<Rightarrow> u8 \<Rightarrow> nat" where
  "find_char buf first lst c = (case memchr buf first lst c of None \<Rightarrow> lst | Some p \<Rightarrow> p)"

definition kHttpReqLineMinLen :: nat where
  "kHttpReqLineMinLen = 3 + 3 + 8 + 2"

text \<open>
  \<^verbatim>\<open>initTrySetHead\<close>: the status, the buffer as it is then, and the head when it is complete. Where the line has no second space, the start of the version
  lies behind the end of the line, and the length that results is not that of a version.
\<close>

definition initTrySetHead :: "bytes \<Rightarrow> nat \<Rightarrow> bool \<Rightarrow> HeadStatus \<times> bytes \<times> RequestHead option" where
  "initTrySetHead buf maxHeadersBytes mergeUnknown =
     (let lst = length buf; lineLast = SearchCRLF buf 0 lst in
      if lineLast = lst then (NeedMoreData, buf, None)
      else if lineLast < kHttpReqLineMinLen - 2 then (StatusCodeBadRequest, buf, None)
      else
        (let nextSep = find_char buf 0 lineLast 0x20 in
         if nextSep = lineLast then (StatusCodeBadRequest, buf, None)
         else
           (case MethodStrToOptEnum (take nextSep buf) of
              None \<Rightarrow> (StatusCodeNotImplemented, buf, None)
            | Some meth \<Rightarrow>
                (let pathFirst = nextSep + 1; pathLast = find_char buf pathFirst lineLast 0x20 in
                 (case decodePath buf pathFirst pathLast of
                    None \<Rightarrow> (StatusCodeBadRequest, buf, None)
                  | Some (buf1, path, query) \<Rightarrow>
                      (let versionFirst = pathLast + 1;
                           version = (if pathLast = lineLast then 0 else parseVersion (view_bytes buf1 (versionFirst, lineLast - versionFirst))) in
                       if version = 0 then (StatusCodeBadRequest, buf1, None)
                       else if version_major version \<noteq> 1 \<or> version_minor version > 1 then (StatusCodeHTTPVersionNotSupported, buf1, None)
                       else if lineLast + 2 = lst then (NeedMoreData, buf1, None)
                       else
                         (case header_lines buf1 [] (lineLast + 2) lst maxHeadersBytes mergeUnknown of
                            (StatusCodeOK, buf2, hs, first) \<Rightarrow>
                              (StatusCodeOK, buf2, Some \<lparr>req_method = meth, req_path = path, req_query = query, req_version = version,
                                 req_headers = hs, headSpanSize = first + 2\<rparr>)
                          | (st, buf2, _, _) \<Rightarrow> (st, buf2, None))))))))"

text \<open>What a handler sees of a head: method, path, query and headers as bytes.\<close>

definition headers_seen :: "bytes \<Rightarrow> header_views \<Rightarrow> (bytes \<times> bytes) list" where
  "headers_seen buf hs = map (\<lambda>(k, v). (view_bytes buf k, view_bytes buf v)) hs"

definition head_seen :: "HeadStatus \<times> bytes \<times> RequestHead option \<Rightarrow> HeadStatus \<times> (Method \<times> bytes \<times> bytes \<times> (bytes \<times> bytes) list) option" where
  "head_seen r = (case r of (st, buf, h) \<Rightarrow>
     (st, map_option (\<lambda>h. (req_method h, view_bytes buf (req_path h), view_bytes buf (req_query h), headers_seen buf (req_headers h))) h))"

section \<open>Lines in a buffer\<close>

lemma SearchCRLF_line:
  assumes "n = length pre" "m = n + length line + 2 + length post" "0x0D \<notin> set line"
  shows "SearchCRLF (pre @ line @ [0x0D, 0x0A] @ post) n m = n + length line"
proof -
  have no: "takeWhile (\<lambda>x. x \<noteq> 0x0D) (line @ 0x0D # xs) = line" for xs using assms(3) by (subst takeWhile_append2) auto
  have "memchr (pre @ (line @ [0x0D, 0x0A] @ post) @ []) n m 0x0D = Some (n + length line)"
    by (subst memchr_split) (use assms no in auto)
  then have "memchr (pre @ line @ [0x0D, 0x0A] @ post) n m 0x0D = Some (n + length line)" by simp
  moreover have "(pre @ line @ [0x0D, 0x0A] @ post) ! (n + length line + 1) = 0x0A"
    using nth_at [of "n + length line + 1" "pre @ line @ [0x0D]" "0x0A" post] assms(1) by simp
  ultimately show ?thesis using assms by (subst SearchCRLF.simps) simp
qed

lemma memchr_first:
  assumes "n = length pre" "m = n + length xs + 1 + length ys" "c \<notin> set xs"
  shows "memchr (pre @ xs @ c # ys @ post) n m c = Some (n + length xs)"
proof -
  have "takeWhile (\<lambda>x. x \<noteq> c) (xs @ c # ys) = xs" using assms(3) by (subst takeWhile_append2) auto
  then have "memchr (pre @ (xs @ c # ys) @ post) n m c = Some (n + length xs)"
    by (subst memchr_split) (use assms in auto)
  then show ?thesis by simp
qed

definition trimmed :: "bytes \<Rightarrow> bool" where
  "trimmed v \<longleftrightarrow> v \<noteq> [] \<and> \<not> is_ows (hd v) \<and> \<not> is_ows (last v)"

lemma ParseHeaderLine_line:
  assumes "n = length pre" "m = n + length name + 2 + length val" "0x3A \<notin> set name" "trimmed val"
  shows "ParseHeaderLine (pre @ name @ [0x3A, 0x20] @ val @ post) n m
    = Some ((n, length name), (n + length name + 2, length val))"
proof -
  let ?buf = "pre @ name @ [0x3A, 0x20] @ val @ post"
  have "memchr ?buf n m 0x3A = Some (n + length name)"
    using memchr_first [of n pre m name "[0x20] @ val" "0x3A" post] assms by simp
  moreover have "skip_ows ?buf (n + length name + 1) m = n + length name + 2"
    using assms by (cases val) (auto simp: skip_ows_def trimmed_def is_ows_def)
  moreover have "trim_ows_end ?buf (n + length name + 2) m = m"
  proof -
    have "take (m - (n + length name + 2)) (drop (n + length name + 2) ?buf) = val" using assms by simp
    moreover have "takeWhile is_ows (rev val) = []" using assms(4) by (cases val rule: rev_cases) (auto simp: trimmed_def)
    ultimately show ?thesis by (simp add: trim_ows_end_def)
  qed
  ultimately show ?thesis using assms(2) by (simp add: ParseHeaderLine_def)
qed

section \<open>The layout of the parsed part\<close>

text \<open>
  The part of the buffer that holds parsed headers is a sequence of segments: bytes of no interest, a name, bytes between, a value.
\<close>

type_synonym segment = "bytes \<times> bytes \<times> bytes \<times> bytes"

definition seg_bytes :: "segment list \<Rightarrow> bytes" where
  "seg_bytes segs = concat (map (\<lambda>(g, k, m, v). g @ k @ m @ v) segs)"

fun seg_views :: "nat \<Rightarrow> segment list \<Rightarrow> header_views" where
  "seg_views off [] = []"
| "seg_views off ((g, k, m, v) # segs) =
     ((off + length g, length k), (off + length g + length k + length m, length v))
     # seg_views (off + length g + length k + length m + length v) segs"

definition seg_headers :: "segment list \<Rightarrow> (bytes \<times> bytes) list" where
  "seg_headers segs = map (\<lambda>(g, k, m, v). (k, v)) segs"

lemma seg_simps [simp]:
  "seg_bytes [] = []" "seg_bytes ((g, k, m, v) # segs) = g @ k @ m @ v @ seg_bytes segs"
  "seg_bytes (as @ bs) = seg_bytes as @ seg_bytes bs"
  "seg_headers [] = []" "seg_headers ((g, k, m, v) # segs) = (k, v) # seg_headers segs"
  "seg_headers (as @ bs) = seg_headers as @ seg_headers bs" "length (seg_headers segs) = length segs"
  by (simp_all add: seg_bytes_def seg_headers_def)

lemma seg_views_append [simp]: "seg_views off (as @ bs) = seg_views off as @ seg_views (off + length (seg_bytes as)) bs"
  by (induction off as rule: seg_views.induct) (simp_all add: ac_simps)

lemma length_seg_views [simp]: "length (seg_views off segs) = length segs"
  by (induction off segs rule: seg_views.induct) simp_all

lemma headers_seen_segs:
  "off = length pre \<Longrightarrow> headers_seen (pre @ seg_bytes segs @ post) (seg_views off segs) = seg_headers segs"
proof (induction segs arbitrary: off pre)
  case (Cons s segs)
  obtain g k m v where s: "s = (g, k, m, v)" by (cases s)
  have "headers_seen ((pre @ g @ k @ m @ v) @ seg_bytes segs @ post) (seg_views (length (pre @ g @ k @ m @ v)) segs) = seg_headers segs"
    by (rule Cons.IH) simp
  then show ?case using Cons.prems by (simp add: s headers_seen_def view_bytes_def ac_simps)
qed (simp add: headers_seen_def)

lemma find_entry_seen:
  "find_entry buf hs name = find (\<lambda>i. CaseInsensitiveEqual (fst (headers_seen buf hs ! i)) name) [0..<length hs]"
proof -
  have "find (\<lambda>i. CaseInsensitiveEqual (view_bytes buf (fst (hs ! i))) name) is
      = find (\<lambda>i. CaseInsensitiveEqual (fst (headers_seen buf hs ! i)) name) is" if "set is \<subseteq> {0..<length hs}" for "is"
    using that by (induction "is") (auto simp: headers_seen_def case_prod_beta)
  then show ?thesis by (simp add: find_entry_def)
qed

lemma shift_segs_after:
  assumes "list_all (\<lambda>(g, _). g \<noteq> []) segs" "bound \<le> off"
  shows "map (\<lambda>(key, v). if fst key > bound then (shift_view n key, shift_view n v) else (key, v)) (seg_views off segs)
    = seg_views (off + n) segs"
  using assms
proof (induction off segs rule: seg_views.induct)
  case (2 off g k m v segs)
  then have "bound < off + length g" by (cases g) auto
  then show ?case using 2 by (simp add: shift_view_def ac_simps)
qed simp

lemma shift_segs_before:
  assumes "off + length (seg_bytes segs) \<le> bound"
  shows "map (\<lambda>(key, v). if fst key > bound then (shift_view n key, shift_view n v) else (key, v)) (seg_views off segs) = seg_views off segs"
  using assms by (induction off segs rule: seg_views.induct) (auto simp: ac_simps)


section \<open>Merging\<close>

text \<open>
  The merge of the values: the headers a request amounts to, or \<open>None\<close> when a repetition is forbidden or when it replaces the value (the policy of
  headers such as \<^verbatim>\<open>Authorization\<close>), which the theorem about the in-place merge leaves out.
\<close>

definition find_name :: "(bytes \<times> bytes) list \<Rightarrow> bytes \<Rightarrow> nat option" where
  "find_name am name = find (\<lambda>i. CaseInsensitiveEqual (fst (am ! i)) name) [0..<length am]"

fun merged :: "bool \<Rightarrow> (bytes \<times> bytes) list \<Rightarrow> (bytes \<times> bytes) list \<Rightarrow> (bytes \<times> bytes) list option" where
  "merged u am [] = Some am"
| "merged u am ((n, v) # hs) =
     (case find_name am n of
        None \<Rightarrow> merged u (am @ [(n, v)]) hs
      | Some i \<Rightarrow>
          (let (k, w) = am ! i; sep = ReqHeaderValueSeparator k u in
           if sep = 0 \<or> sep = 0x4F then None else merged u (am[i := (k, w @ [sep] @ v)]) hs))"

definition segs_ok :: "segment list \<Rightarrow> bool" where
  "segs_ok segs \<longleftrightarrow> list_all (\<lambda>(g, _). g \<noteq> []) (tl segs) \<and> list_all (\<lambda>(g, k, m, v). v \<noteq> []) segs"

lemma add_segment:
  assumes off: "off = length pre" and new: "find_name (seg_headers segs) name = None" and val: "val \<noteq> []"
    and gap: "segs \<noteq> [] \<Longrightarrow> gap \<noteq> []" and ok: "segs_ok segs"
    and cur: "cur = length (pre @ seg_bytes segs @ gap)"
  shows "AddOrMergeHeaderInPlace (pre @ seg_bytes segs @ gap @ (name @ mid @ val) @ post) (seg_views off segs)
      (cur, length name) (cur + length name + length mid, length val) cur u
    = Some (pre @ seg_bytes (segs @ [(gap, name, mid, val)]) @ post, seg_views off (segs @ [(gap, name, mid, val)]))"
    "segs_ok (segs @ [(gap, name, mid, val)])"
proof -
  let ?buf = "pre @ seg_bytes segs @ gap @ (name @ mid @ val) @ post"
  have "view_bytes ?buf (cur, length name) = name" using cur by (simp add: view_bytes_def)
  then have "find_entry ?buf (seg_views off segs) (view_bytes ?buf (cur, length name)) = None"
    using new headers_seen_segs [OF off, of segs "gap @ (name @ mid @ val) @ post"]
    by (simp add: find_entry_seen find_name_def)
  then show "AddOrMergeHeaderInPlace ?buf (seg_views off segs)
      (cur, length name) (cur + length name + length mid, length val) cur u
    = Some (pre @ seg_bytes (segs @ [(gap, name, mid, val)]) @ post, seg_views off (segs @ [(gap, name, mid, val)]))"
    using cur off by (simp add: AddOrMergeHeaderInPlace_def ac_simps)
  show "segs_ok (segs @ [(gap, name, mid, val)])" using ok gap val by (cases segs) (auto simp: segs_ok_def)
qed

lemma merge_segment:
  assumes off: "off = length pre" and i: "find_name (seg_headers (as @ (g, k, m, w) # bs)) name = Some (length as)"
    and sep: "sep = ReqHeaderValueSeparator k u" "sep \<noteq> 0" "sep \<noteq> 0x4F" and val: "val \<noteq> []" and nm: "name \<noteq> []"
    and gap: "gap \<noteq> []" and ok: "segs_ok (as @ (g, k, m, w) # bs)"
    and cur: "cur = length (pre @ seg_bytes (as @ (g, k, m, w) # bs) @ gap)" and mid: "mid \<noteq> []"
  shows "AddOrMergeHeaderInPlace (pre @ seg_bytes (as @ (g, k, m, w) # bs) @ gap @ (name @ mid @ val) @ post)
      (seg_views off (as @ (g, k, m, w) # bs)) (cur, length name) (cur + length name + length mid, length val) cur u
    = Some (pre @ seg_bytes (as @ (g, k, m, w @ [sep] @ val) # bs) @ gap @ drop (length val + 1) (name @ mid @ val) @ post,
        seg_views off (as @ (g, k, m, w @ [sep] @ val) # bs))"
    "segs_ok (as @ (g, k, m, w @ [sep] @ val) # bs)"
proof -
  let ?segs = "as @ (g, k, m, w) # bs" and ?L = "name @ mid @ val" and ?sz = "length val + 1"
  let ?buf = "pre @ seg_bytes ?segs @ gap @ ?L @ post"
  let ?A = "pre @ seg_bytes as @ g @ k @ m @ w" and ?B = "seg_bytes bs @ gap"
  have buf: "?buf = ?A @ ?B @ ?L @ post" by simp
  have nv: "view_bytes ?buf (cur, length name) = name" "view_bytes ?buf (cur + length name + length mid, length val) = val"
    using cur by (simp_all add: view_bytes_def)
  have hit: "find_entry ?buf (seg_views off ?segs) (view_bytes ?buf (cur, length name)) = Some (length as)"
    using i headers_seen_segs [OF off, of ?segs "gap @ ?L @ post"] nv(1) by (simp add: find_entry_seen find_name_def)
  let ?o = "off + length (seg_bytes as) + length g"
  have entry: "seg_views off ?segs ! length as = ((?o, length k), (?o + length k + length m, length w))"
    by (simp add: nth_append)
  have key: "view_bytes ?buf (?o, length k) = k" using off by (simp add: view_bytes_def)
  have w: "w \<noteq> []" using ok by (simp add: segs_ok_def)
  have fvl: "?o + length k + length m + length w = length ?A" using off by simp
  have lenL: "?sz \<le> length ?L" using nm mid by (cases name; cases mid) auto
  have moved: "memmove ?buf (length ?A + ?sz) (length ?A) (cur - length ?A) = take (length ?A + ?sz) ?buf @ ?B @ drop ?sz ?L @ post"
  proof -
    have "cur - length ?A = length ?B" using cur by simp
    then show ?thesis unfolding memmove_def buf using lenL by simp
  qed
  have written: "take (length ?A) (take (length ?A + ?sz) ?buf @ ?B @ drop ?sz ?L @ post) @ [sep] @ val
      @ drop (length ?A + ?sz) (take (length ?A + ?sz) ?buf @ ?B @ drop ?sz ?L @ post) = ?A @ [sep] @ val @ ?B @ drop ?sz ?L @ post"
    unfolding buf using lenL by simp
  have shifted: "(map (\<lambda>(key, v'). if fst key > length ?A then (shift_view ?sz key, shift_view ?sz v') else (key, v')) (seg_views off ?segs))
      [length as := ((?o, length k), (?o + length k + length m, length w + ?sz))] = seg_views off (as @ (g, k, m, w @ [sep] @ val) # bs)"
    using shift_segs_before [of off as "length ?A" ?sz] shift_segs_after [of bs "length ?A" "length ?A" ?sz] ok off
    by (cases as) (auto simp: segs_ok_def list_update_append ac_simps)
  show "AddOrMergeHeaderInPlace ?buf (seg_views off ?segs) (cur, length name) (cur + length name + length mid, length val) cur u
    = Some (pre @ seg_bytes (as @ (g, k, m, w @ [sep] @ val) # bs) @ gap @ drop ?sz ?L @ post,
        seg_views off (as @ (g, k, m, w @ [sep] @ val) # bs))"
    unfolding AddOrMergeHeaderInPlace_def hit option.case entry prod.case Let_def key sep(1) [symmetric] fst_conv snd_conv fvl nv(2)
      moved written shifted
    using sep w val by simp
  show "segs_ok (as @ (g, k, m, w @ [sep] @ val) # bs)" using ok by (cases as) (auto simp: segs_ok_def)
qed

section \<open>Rendered requests\<close>

definition good_header :: "bytes \<times> bytes \<Rightarrow> bool" where
  "good_header h \<longleftrightarrow> fst h \<noteq> [] \<and> 0x0D \<notin> set (fst h) \<and> 0x3A \<notin> set (fst h) \<and> \<not> list_ex is_ows (fst h)
     \<and> 0x0D \<notin> set (snd h) \<and> trimmed (snd h)"

definition header_line :: "bytes \<times> bytes \<Rightarrow> bytes" where
  "header_line h = fst h @ [0x3A, 0x20] @ snd h @ [0x0D, 0x0A]"

text \<open>What the two searches in a line find.\<close>

definition line_end :: "nat \<Rightarrow> bytes \<times> bytes \<Rightarrow> nat" where
  "line_end first h = first + length (fst h) + 2 + length (snd h)"

lemma header_line_views:
  assumes "good_header (n, v)" "buf = pre @ header_line (n, v) @ post" "first = length pre" "lst = length buf"
  shows "SearchCRLF buf first lst = line_end first (n, v)"
    "ParseHeaderLine buf first (line_end first (n, v)) = Some ((first, length n), (first + length n + 2, length v))"
    "memchr buf first (line_end first (n, v)) 0x3A = Some (first + length n)"
    "view_bytes buf (first, length n) = n" "line_end first (n, v) + 2 = first + length (header_line (n, v))"
proof -
  have buf: "buf = pre @ (n @ [0x3A, 0x20] @ v) @ [0x0D, 0x0A] @ post" using assms(2) by (simp add: header_line_def)
  have h: "n \<noteq> []" "0x0D \<notin> set n" "0x3A \<notin> set n" "\<not> list_ex is_ows n" "0x0D \<notin> set v" "trimmed v"
    using assms(1) by (simp_all add: good_header_def)
  show "SearchCRLF buf first lst = line_end first (n, v)"
    unfolding buf line_end_def using SearchCRLF_line [of first pre lst "n @ [0x3A, 0x20] @ v" post] assms(3,4) buf h by simp
  show "ParseHeaderLine buf first (line_end first (n, v)) = Some ((first, length n), (first + length n + 2, length v))"
    using ParseHeaderLine_line [of first pre "line_end first (n, v)" n v "[0x0D, 0x0A] @ post"] assms(3) h by (simp add: buf line_end_def)
  show "memchr buf first (line_end first (n, v)) 0x3A = Some (first + length n)"
    using memchr_first [of first pre "line_end first (n, v)" n "[0x20] @ v" "0x3A" "[0x0D, 0x0A] @ post"] assms(3) h
    by (simp add: buf line_end_def)
  show "view_bytes buf (first, length n) = n" using assms(3) by (simp add: view_bytes_def buf)
  show "line_end first (n, v) + 2 = first + length (header_line (n, v))" by (simp add: header_line_def line_end_def)
qed

text \<open>One line of the loop, up to the call that stores it.\<close>

lemma header_lines_step:
  assumes "good_header (n, v)" "buf = pre @ header_line (n, v) @ post" "first = length pre" "lst = length buf"
    "lst - length post \<le> maxBytes"
  shows "header_lines buf hs first lst maxBytes u =
    (case AddOrMergeHeaderInPlace buf hs (first, length n) (first + length n + 2, length v) first u of
       None \<Rightarrow> (StatusCodeBadRequest, buf, hs, first)
     | Some (buf1, hs1) \<Rightarrow> header_lines buf1 hs1 (first + length (header_line (n, v))) lst maxBytes u)"
proof -
  note line = header_line_views [OF assms(1-4)]
  have h: "n \<noteq> []" "\<not> list_ex is_ows n" using assms(1) by (simp_all add: good_header_def)
  have pos: "first < lst" "line_end first (n, v) \<noteq> lst" "line_end first (n, v) \<noteq> first" "\<not> maxBytes < line_end first (n, v) + 2"
    using assms(2-5) by (simp_all add: header_line_def line_end_def)
  show ?thesis unfolding line(5) [symmetric]
    by (subst header_lines.simps) (use pos line h in simp)
qed

lemma header_lines_end:
  assumes "buf = pre @ [0x0D, 0x0A] @ post" "first = length pre" "lst = length buf"
  shows "header_lines buf hs first lst maxBytes u = (StatusCodeOK, buf, hs, first)"
  using assms SearchCRLF_line [of first pre lst "[]" post] by (subst header_lines.simps) simp

text \<open>Storing a header that may be stored: a new segment, or a longer value and a longer gap.\<close>

lemma store_segment:
  assumes good: "good_header (n, v)" and merge: "merged u (seg_headers segs) ((n, v) # hs) = Some am" and ok: "segs_ok segs"
    and gap: "segs \<noteq> [] \<Longrightarrow> gap \<noteq> []" and off: "off = length pre" and first: "first = length (pre @ seg_bytes segs @ gap)"
    and buf: "buf = (pre @ seg_bytes segs @ gap) @ header_line (n, v) @ post"
  shows "\<exists>segs' gap'. AddOrMergeHeaderInPlace buf (seg_views off segs) (first, length n) (first + length n + 2, length v) first u
      = Some ((pre @ seg_bytes segs' @ gap') @ post, seg_views off segs')
    \<and> merged u (seg_headers segs') hs = Some am \<and> segs_ok segs' \<and> gap' \<noteq> []
    \<and> length (pre @ seg_bytes segs' @ gap') = first + length (header_line (n, v))"
proof -
  let ?mid = "[0x3A, 0x20]"
  have nv: "n \<noteq> []" "v \<noteq> []" using good by (auto simp: good_header_def trimmed_def)
  have flat: "buf = pre @ seg_bytes segs @ gap @ (n @ ?mid @ v) @ [0x0D, 0x0A] @ post" using buf by (simp add: header_line_def)
  have hl: "length (header_line (n, v)) = length n + length v + 4" by (simp add: header_line_def)
  show ?thesis
  proof (cases "find_name (seg_headers segs) n")
    case None
    let ?segs = "segs @ [(gap, n, ?mid, v)]"
    note args = off None nv(2) gap ok first
    note add = add_segment(1) [OF args, where mid = ?mid and post = "[0x0D, 0x0A] @ post" and u = u] add_segment(2) [OF args, where mid = ?mid]
    show ?thesis using add merge None first hl unfolding flat
      by (intro exI [of _ ?segs] exI [of _ "[0x0D, 0x0A]"]) simp
  next
    case (Some i)
    then have "i < length segs" by (auto simp: find_name_def find_Some_iff)
    then obtain as s bs where s: "segs = as @ s # bs" "length as = i" by (metis id_take_nth_drop length_take min.absorb4)
    obtain g k m w where s4: "s = (g, k, m, w)" by (cases s)
    define sep where "sep = ReqHeaderValueSeparator k u"
    have nth: "seg_headers segs ! i = (k, w)" using s s4 by (simp add: nth_append)
    have sep: "sep \<noteq> 0" "sep \<noteq> 0x4F" and rest: "merged u ((seg_headers segs)[i := (k, w @ [sep] @ v)]) hs = Some am"
      using merge Some nth by (auto simp: sep_def Let_def split: if_splits)
    let ?segs = "as @ (g, k, m, w @ [sep] @ v) # bs" and ?gap = "gap @ drop (length v + 1) (n @ ?mid @ v) @ [0x0D, 0x0A]"
    have upd: "(seg_headers segs)[i := (k, w @ [sep] @ v)] = seg_headers ?segs"
      using s s4 by (simp add: list_update_append)
    have step: "AddOrMergeHeaderInPlace buf (seg_views off segs) (first, length n) (first + length n + 2, length v) first u
      = Some ((pre @ seg_bytes ?segs @ ?gap) @ post, seg_views off ?segs)" and ok': "segs_ok ?segs"
      using merge_segment(1) [OF off, where as = as and g = g and k = k and m = m and w = w and bs = bs and name = n and sep = sep
          and u = u and val = v and gap = gap and cur = first and mid = ?mid and post = "[0x0D, 0x0A] @ post"]
        merge_segment(2) [OF off, where as = as and g = g and k = k and m = m and w = w and bs = bs and name = n and sep = sep
          and u = u and val = v and gap = gap and cur = first and mid = ?mid]
        Some s s4 sep sep_def nv ok gap first by (simp_all add: flat)
    show ?thesis unfolding step using rest upd ok' first hl s s4
      by (intro exI [of _ ?segs] exI [of _ ?gap]) auto
  qed
qed

lemma header_lines_parses:
  assumes "list_all good_header hs" "merged u (seg_headers segs) hs = Some am" "segs_ok segs" "segs \<noteq> [] \<Longrightarrow> gap \<noteq> []"
    and "off = length pre" "first = length (pre @ seg_bytes segs @ gap)"
    and "buf = (pre @ seg_bytes segs @ gap) @ concat (map header_line hs) @ [0x0D, 0x0A] @ post" "lst = length buf"
    and "lst \<le> maxBytes + length post"
  shows "\<exists>segs' gap'. header_lines buf (seg_views off segs) first lst maxBytes u
      = (StatusCodeOK, pre @ seg_bytes segs' @ gap' @ [0x0D, 0x0A] @ post, seg_views off segs', length (pre @ seg_bytes segs' @ gap'))
    \<and> seg_headers segs' = am \<and> length (pre @ seg_bytes segs' @ gap' @ [0x0D, 0x0A] @ post) = lst"
  using assms
proof (induction hs arbitrary: segs gap first buf)
  case Nil
  have "header_lines buf (seg_views off segs) first lst maxBytes u = (StatusCodeOK, buf, seg_views off segs, first)"
    by (rule header_lines_end [of buf "pre @ seg_bytes segs @ gap" post]) (use Nil.prems(6-8) in auto)
  then show ?case using Nil.prems by (intro exI [of _ segs] exI [of _ gap]) simp
next
  case (Cons h hs)
  obtain n v where h: "h = (n, v)" by (cases h)
  let ?post = "concat (map header_line hs) @ [0x0D, 0x0A] @ post"
  have good: "good_header (n, v)" and rest: "list_all good_header hs" using Cons.prems(1) h by simp_all
  have buf: "buf = (pre @ seg_bytes segs @ gap) @ header_line (n, v) @ ?post" using Cons.prems(7) h by simp
  have step: "header_lines buf (seg_views off segs) first lst maxBytes u =
    (case AddOrMergeHeaderInPlace buf (seg_views off segs) (first, length n) (first + length n + 2, length v) first u of
       None \<Rightarrow> (StatusCodeBadRequest, buf, seg_views off segs, first)
     | Some (buf1, hs1) \<Rightarrow> header_lines buf1 hs1 (first + length (header_line (n, v))) lst maxBytes u)"
    by (rule header_lines_step [OF good buf]) (use Cons.prems(6,8,9) buf in auto)
  obtain segs' gap' where store: "AddOrMergeHeaderInPlace buf (seg_views off segs) (first, length n) (first + length n + 2, length v) first u
      = Some ((pre @ seg_bytes segs' @ gap') @ ?post, seg_views off segs')"
    and next_inv: "merged u (seg_headers segs') hs = Some am" "segs_ok segs'" "gap' \<noteq> []"
      "length (pre @ seg_bytes segs' @ gap') = first + length (header_line (n, v))"
    using store_segment [OF good Cons.prems(2) [unfolded h] Cons.prems(3-6) buf] by blast
  have eq: "header_lines buf (seg_views off segs) first lst maxBytes u
      = header_lines ((pre @ seg_bytes segs' @ gap') @ ?post) (seg_views off segs') (first + length (header_line (n, v))) lst maxBytes u"
    unfolding step store by simp
  show ?case unfolding eq
    by (rule Cons.IH [of segs' gap', OF rest next_inv(1,2)]) (use Cons.prems(5,6,8,9) next_inv(3,4) buf in auto)
qed

definition request_line :: "Method \<Rightarrow> bytes \<Rightarrow> u8 \<Rightarrow> bytes" where
  "request_line m target ver = MethodToStr m @ [0x20] @ target @ [0x20] @ writeFull ver @ [0x0D, 0x0A]"

definition render_head :: "Method \<Rightarrow> bytes \<Rightarrow> u8 \<Rightarrow> (bytes \<times> bytes) list \<Rightarrow> bytes" where
  "render_head m target ver hs = request_line m target ver @ concat (map header_line hs) @ [0x0D, 0x0A]"

declare CaseInsensitiveEqual_iff [code]

definition method_ok :: "Method \<Rightarrow> bool" where
  "method_ok m \<longleftrightarrow> (let s = MethodToStr m in
     MethodStrToOptEnum s = Some m \<and> 0x20 \<notin> set s \<and> 0x0D \<notin> set s \<and> 3 \<le> length s)"

lemma method_ok_all: "list_all method_ok [GET, HEAD, POST, PUT, DELETE, CONNECT, OPTIONS, TRACE, PATCH]"
  by code_simp

lemma method_text:
  "MethodStrToOptEnum (MethodToStr m) = Some m" "0x20 \<notin> set (MethodToStr m)" "0x0D \<notin> set (MethodToStr m)" "3 \<le> length (MethodToStr m)"
proof -
  have "method_ok m" using method_ok_all by (cases m) simp_all
  then show "MethodStrToOptEnum (MethodToStr m) = Some m" "0x20 \<notin> set (MethodToStr m)" "0x0D \<notin> set (MethodToStr m)"
    "3 \<le> length (MethodToStr m)" unfolding method_ok_def Let_def by blast+
qed

lemma version_text:
  assumes "ver \<in> {0x10, 0x11}"
  shows "parseVersion (writeFull ver) = ver" "0x0D \<notin> set (writeFull ver)" "length (writeFull ver) = 8"
    "ver \<noteq> 0" "version_major ver = 1" "\<not> version_minor ver > 1"
proof -
  have "list_all (\<lambda>ver. parseVersion (writeFull ver) = ver \<and> 0x0D \<notin> set (writeFull ver) \<and> length (writeFull ver) = 8
      \<and> ver \<noteq> 0 \<and> version_major ver = 1 \<and> \<not> version_minor ver > 1) [0x10, 0x11]" by code_simp
  then have "parseVersion (writeFull ver) = ver \<and> 0x0D \<notin> set (writeFull ver) \<and> length (writeFull ver) = 8
      \<and> ver \<noteq> 0 \<and> version_major ver = 1 \<and> \<not> version_minor ver > 1" using assms by auto
  then show "parseVersion (writeFull ver) = ver" "0x0D \<notin> set (writeFull ver)" "length (writeFull ver) = 8"
    "ver \<noteq> 0" "version_major ver = 1" "\<not> version_minor ver > 1" by blast+
qed

lemma view_bytes_prefix: "fst v + snd v \<le> length xs \<Longrightarrow> view_bytes (xs @ ys) v = view_bytes xs v"
  by (simp add: view_bytes_def)

text \<open>The request line, up to the headers.\<close>

lemma request_line_parses:
  assumes target: "decode_target target = Some (path, query)" "0x0D \<notin> set target" "0x20 \<notin> set target" and ver: "ver \<in> {0x10, 0x11}"
    and rest: "rest \<noteq> []"
  shows "\<exists>line pv qv. length line = length (request_line m target ver)
    \<and> view_bytes line pv = path \<and> view_bytes line qv = query \<and> fst pv + snd pv \<le> length line \<and> fst qv + snd qv \<le> length line
    \<and> initTrySetHead (request_line m target ver @ rest) maxBytes u =
      (case header_lines (line @ rest) [] (length line) (length (line @ rest)) maxBytes u of
         (StatusCodeOK, buf2, hs, first) \<Rightarrow>
           (StatusCodeOK, buf2, Some \<lparr>req_method = m, req_path = pv, req_query = qv, req_version = ver,
              req_headers = hs, headSpanSize = first + 2\<rparr>)
       | (st, buf2, _, _) \<Rightarrow> (st, buf2, None))"
proof -
  let ?M = "MethodToStr m" and ?V = "writeFull ver"
  note mt = method_text [of m] and vt = version_text [OF ver]
  let ?pre = "?M @ [0x20]" and ?post = "[0x20] @ ?V @ [0x0D, 0x0A] @ rest"
  let ?buf = "?M @ [0x20] @ target @ [0x20] @ ?V @ [0x0D, 0x0A] @ rest"
  define s where "s = length ?M + 1"
  define e where "e = s + length target"
  define lp where "lp = e + 1 + 8"
  have spec: "target_spec target = Some (path, query)" using target(1) by (simp add: decode_target_total)
  obtain mid pv qv where dp: "decodePath (?pre @ target @ ?post) s e = Some (?pre @ mid @ ?post, pv, qv)"
    and mid: "length mid = length target" and pb: "fst pv + snd pv \<le> e" and qb: "fst qv + snd qv \<le> e"
    and pv: "view_bytes (?pre @ mid @ ?post) pv = path" and qv: "view_bytes (?pre @ mid @ ?post) qv = query"
    using decodePath_total [of s ?pre e target ?post] spec by (auto simp: s_def e_def)
  have "path \<noteq> []" using spec by (auto simp: target_spec_def split: option.splits if_splits)
  then have tne: "target \<noteq> []" using spec by (auto simp: target_spec_def)
  have line: "SearchCRLF ?buf 0 (length ?buf) = lp"
    using SearchCRLF_line [of 0 "[]" "length ?buf" "?M @ [0x20] @ target @ [0x20] @ ?V" rest] target mt vt
    by (simp add: lp_def e_def s_def)
  have sp1: "find_char ?buf 0 lp 0x20 = length ?M"
    using memchr_first [of 0 "[]" lp ?M "target @ [0x20] @ ?V" "0x20" "[0x0D, 0x0A] @ rest"] mt vt
    by (simp add: find_char_def lp_def e_def s_def)
  have sp2: "find_char ?buf s lp 0x20 = e"
    using memchr_first [of s ?pre lp target ?V "0x20" "[0x0D, 0x0A] @ rest"] target vt
    by (simp add: find_char_def lp_def e_def s_def)
  have num: "lp \<noteq> length ?buf" "\<not> lp < kHttpReqLineMinLen - 2" "length ?M \<noteq> lp" "e \<noteq> lp" "lp + 2 \<noteq> length ?buf"
    using mt(4) vt tne rest by (cases target; auto simp: lp_def e_def s_def kHttpReqLineMinLen_def)+
  let ?line = "?pre @ mid @ [0x20] @ ?V @ [0x0D, 0x0A]"
  have buf1: "?pre @ mid @ ?post = ?line @ rest" by simp
  have lens: "length (?line @ rest) = length ?buf" "length ?line = lp + 2" "length ?line = length (request_line m target ver)"
    using mid vt by (simp_all add: lp_def e_def s_def request_line_def)
  have ver_view: "view_bytes (?pre @ mid @ ?post) (e + 1, lp - (e + 1)) = ?V"
    using view_bytes_at [of "e + 1" "?pre @ mid @ [0x20]" "lp - (e + 1)" ?V "[0x0D, 0x0A] @ rest"] mid vt by (simp add: e_def s_def lp_def)
  have dp': "decodePath ?buf s e = Some (?pre @ mid @ ?post, pv, qv)" using dp by simp
  have "initTrySetHead ?buf maxBytes u =
    (case header_lines (?line @ rest) [] (lp + 2) (length ?buf) maxBytes u of
       (StatusCodeOK, buf2, hs, first) \<Rightarrow>
         (StatusCodeOK, buf2, Some \<lparr>req_method = m, req_path = pv, req_query = qv, req_version = ver,
            req_headers = hs, headSpanSize = first + 2\<rparr>)
     | (st, buf2, _, _) \<Rightarrow> (st, buf2, None))"
    unfolding initTrySetHead_def Let_def line sp1 s_def [symmetric] sp2 dp' option.case prod.case ver_view vt(1)
    using num mt(1) vt(4-6) by (simp add: buf1)
  moreover have "view_bytes ?line pv = path" "view_bytes ?line qv = query"
    using pv qv pb qb lens(2) view_bytes_prefix [of pv ?line rest] view_bytes_prefix [of qv ?line rest] unfolding buf1 by (simp_all add: lp_def)
  ultimately show ?thesis using lens pb qb
    by (intro exI [of _ ?line] exI [of _ pv] exI [of _ qv]) (simp add: request_line_def lp_def)
qed

text \<open>
  C15. A request that arrives whole is parsed to what it says: for every method, every target that decodes, both versions and any list of well-formed
  headers whose repetitions may be joined, the parser accepts the head, reports the method, the decoded path and query and the headers with the repeated values
  joined, rewrites nothing behind the head, and leaves the body just behind the end it reports.\<close>

theorem http1_head_roundtrip:
  assumes "decode_target target = Some (path, query)" "0x0D \<notin> set target" "0x20 \<notin> set target" "ver \<in> {0x10, 0x11}"
    and "list_all good_header hs" "merged u [] hs = Some headers" "length (render_head m target ver hs) \<le> maxBytes"
  shows "\<exists>buf h. initTrySetHead (render_head m target ver hs @ body) maxBytes u = (StatusCodeOK, buf, Some h)
    \<and> req_method h = m \<and> req_version h = ver \<and> view_bytes buf (req_path h) = path \<and> view_bytes buf (req_query h) = query
    \<and> headers_seen buf (req_headers h) = headers
    \<and> headSpanSize h = length (render_head m target ver hs) \<and> drop (headSpanSize h) buf = body"
proof -
  let ?rest = "concat (map header_line hs) @ [0x0D, 0x0A] @ body"
  obtain line pv qv where line: "length line = length (request_line m target ver)"
    and views: "view_bytes line pv = path" "view_bytes line qv = query" "fst pv + snd pv \<le> length line" "fst qv + snd qv \<le> length line"
    and head: "initTrySetHead (request_line m target ver @ ?rest) maxBytes u =
      (case header_lines (line @ ?rest) [] (length line) (length (line @ ?rest)) maxBytes u of
         (StatusCodeOK, buf2, hs, first) \<Rightarrow>
           (StatusCodeOK, buf2, Some \<lparr>req_method = m, req_path = pv, req_query = qv, req_version = ver,
              req_headers = hs, headSpanSize = first + 2\<rparr>)
       | (st, buf2, _, _) \<Rightarrow> (st, buf2, None))"
    using request_line_parses [OF assms(1-4), of ?rest m maxBytes u] by auto
  have size: "length line + length (concat (map header_line hs)) + 2 \<le> maxBytes"
    using assms(7) line by (simp add: render_head_def)
  have "\<exists>segs' gap'. header_lines (line @ ?rest) (seg_views (length line) []) (length line) (length (line @ ?rest)) maxBytes u
      = (StatusCodeOK, line @ seg_bytes segs' @ gap' @ [0x0D, 0x0A] @ body, seg_views (length line) segs', length (line @ seg_bytes segs' @ gap'))
    \<and> seg_headers segs' = headers \<and> length (line @ seg_bytes segs' @ gap' @ [0x0D, 0x0A] @ body) = length (line @ ?rest)"
    by (rule header_lines_parses [OF assms(5), where gap = "[]"]) (use assms(6) size in \<open>simp_all add: segs_ok_def\<close>)
  then obtain segs gap where loop: "header_lines (line @ ?rest) [] (length line) (length (line @ ?rest)) maxBytes u
      = (StatusCodeOK, line @ seg_bytes segs @ gap @ [0x0D, 0x0A] @ body, seg_views (length line) segs, length (line @ seg_bytes segs @ gap))"
    and segs: "seg_headers segs = headers" and len: "length (line @ seg_bytes segs @ gap @ [0x0D, 0x0A] @ body) = length (line @ ?rest)"
    unfolding seg_views.simps(1) by blast
  let ?buf = "line @ seg_bytes segs @ gap @ [0x0D, 0x0A] @ body"
  let ?h = "\<lparr>req_method = m, req_path = pv, req_query = qv, req_version = ver,
    req_headers = seg_views (length line) segs, headSpanSize = length (line @ seg_bytes segs @ gap) + 2\<rparr>"
  have "initTrySetHead (render_head m target ver hs @ body) maxBytes u = (StatusCodeOK, ?buf, Some ?h)"
    using head unfolding loop by (simp add: render_head_def)
  moreover have "headers_seen ?buf (seg_views (length line) segs) = headers"
    using headers_seen_segs [of "length line" line segs "gap @ [0x0D, 0x0A] @ body"] segs by simp
  moreover have "view_bytes ?buf pv = path" "view_bytes ?buf qv = query"
    using views by (simp_all add: view_bytes_prefix)
  moreover have "headSpanSize ?h = length (render_head m target ver hs)" using len line by (simp add: render_head_def)
  moreover have "drop (headSpanSize ?h) ?buf = body" by simp
  ultimately show ?thesis by (intro exI [of _ ?buf] exI [of _ ?h]) simp
qed

text \<open>The table of merge policies with its names as bytes, for evaluation.\<close>

lemma kEntries_bytes [code]:
  "kEntries =
     [([0x41, 0x63, 0x63, 0x65, 0x70, 0x74], 0x2C),
      ([0x41, 0x63, 0x63, 0x65, 0x70, 0x74, 0x2D, 0x43, 0x68, 0x61, 0x72, 0x73, 0x65, 0x74], 0x2C),
      ([0x41, 0x63, 0x63, 0x65, 0x70, 0x74, 0x2D, 0x44, 0x61, 0x74, 0x65, 0x74, 0x69, 0x6D, 0x65], 0x2C),
      ([0x61, 0x63, 0x63, 0x65, 0x70, 0x74, 0x2D, 0x65, 0x6E, 0x63, 0x6F, 0x64, 0x69, 0x6E, 0x67], 0x2C),
      ([0x41, 0x63, 0x63, 0x65, 0x70, 0x74, 0x2D, 0x4C, 0x61, 0x6E, 0x67, 0x75, 0x61, 0x67, 0x65], 0x2C),
      ([0x41, 0x75, 0x74, 0x68, 0x6F, 0x72, 0x69, 0x7A, 0x61, 0x74, 0x69, 0x6F, 0x6E], 0x4F),
      ([0x63, 0x61, 0x63, 0x68, 0x65, 0x2D, 0x63, 0x6F, 0x6E, 0x74, 0x72, 0x6F, 0x6C], 0x2C),
      ([0x63, 0x6F, 0x6E, 0x6E, 0x65, 0x63, 0x74, 0x69, 0x6F, 0x6E], 0x2C),
      ([0x63, 0x6F, 0x6E, 0x74, 0x65, 0x6E, 0x74, 0x2D, 0x6C, 0x65, 0x6E, 0x67, 0x74, 0x68], 0),
      ([0x43, 0x6F, 0x6E, 0x74, 0x65, 0x6E, 0x74, 0x2D, 0x4D, 0x44, 0x35], 0),
      ([0x43, 0x6F, 0x6E, 0x74, 0x65, 0x6E, 0x74, 0x2D, 0x54, 0x72, 0x61, 0x6E, 0x73, 0x66, 0x65, 0x72, 0x2D, 0x45, 0x6E, 0x63, 0x6F, 0x64, 0x69, 0x6E, 0x67], 0),
      ([0x63, 0x6F, 0x6E, 0x74, 0x65, 0x6E, 0x74, 0x2D, 0x74, 0x79, 0x70, 0x65], 0x4F),
      ([0x43, 0x6F, 0x6F, 0x6B, 0x69, 0x65], 0x3B),
      ([0x44, 0x4E, 0x54], 0x2C),
      ([0x45, 0x78, 0x70, 0x65, 0x63, 0x74], 0x2C),
      ([0x46, 0x6F, 0x72, 0x77, 0x61, 0x72, 0x64, 0x65, 0x64], 0x2C),
      ([0x46, 0x72, 0x6F, 0x6D], 0x4F),
      ([0x48, 0x6F, 0x73, 0x74], 0),
      ([0x49, 0x66, 0x2D, 0x4D, 0x61, 0x74, 0x63, 0x68], 0x2C),
      ([0x49, 0x66, 0x2D, 0x4D, 0x6F, 0x64, 0x69, 0x66, 0x69, 0x65, 0x64, 0x2D, 0x53, 0x69, 0x6E, 0x63, 0x65], 0x4F),
      ([0x49, 0x66, 0x2D, 0x4E, 0x6F, 0x6E, 0x65, 0x2D, 0x4D, 0x61, 0x74, 0x63, 0x68], 0x2C),
      ([0x49, 0x66, 0x2D, 0x52, 0x61, 0x6E, 0x67, 0x65], 0x4F),
      ([0x49, 0x66, 0x2D, 0x55, 0x6E, 0x6D, 0x6F, 0x64, 0x69, 0x66, 0x69, 0x65, 0x64, 0x2D, 0x53, 0x69, 0x6E, 0x63, 0x65], 0x4F),
      ([0x4D, 0x61, 0x78, 0x2D, 0x46, 0x6F, 0x72, 0x77, 0x61, 0x72, 0x64, 0x73], 0x4F),
      ([0x4F, 0x72, 0x69, 0x67, 0x69, 0x6E], 0x2C),
      ([0x50, 0x72, 0x61, 0x67, 0x6D, 0x61], 0x2C),
      ([0x50, 0x72, 0x65, 0x66, 0x65, 0x72], 0x2C),
      ([0x50, 0x72, 0x6F, 0x78, 0x79, 0x2D, 0x41, 0x75, 0x74, 0x68, 0x6F, 0x72, 0x69, 0x7A, 0x61, 0x74, 0x69, 0x6F, 0x6E], 0x4F),
      ([0x72, 0x61, 0x6E, 0x67, 0x65], 0x4F),
      ([0x52, 0x65, 0x66, 0x65, 0x72, 0x65, 0x72], 0x4F),
      ([0x53, 0x61, 0x76, 0x65, 0x2D, 0x44, 0x61, 0x74, 0x61], 0x2C),
      ([0x53, 0x65, 0x63, 0x2D, 0x46, 0x65, 0x74, 0x63, 0x68, 0x2D, 0x44, 0x65, 0x73, 0x74], 0x2C),
      ([0x53, 0x65, 0x63, 0x2D, 0x46, 0x65, 0x74, 0x63, 0x68, 0x2D, 0x4D, 0x6F, 0x64, 0x65], 0x2C),
      ([0x53, 0x65, 0x63, 0x2D, 0x46, 0x65, 0x74, 0x63, 0x68, 0x2D, 0x53, 0x69, 0x74, 0x65], 0x2C),
      ([0x53, 0x65, 0x63, 0x2D, 0x46, 0x65, 0x74, 0x63, 0x68, 0x2D, 0x55, 0x73, 0x65, 0x72], 0x2C),
      ([0x53, 0x65, 0x63, 0x2D, 0x57, 0x65, 0x62, 0x53, 0x6F, 0x63, 0x6B, 0x65, 0x74, 0x2D, 0x45, 0x78, 0x74, 0x65, 0x6E, 0x73, 0x69, 0x6F, 0x6E, 0x73], 0x2C),
      ([0x53, 0x65, 0x63, 0x2D, 0x57, 0x65, 0x62, 0x53, 0x6F, 0x63, 0x6B, 0x65, 0x74, 0x2D, 0x50, 0x72, 0x6F, 0x74, 0x6F, 0x63, 0x6F, 0x6C], 0x2C),
      ([0x74, 0x65], 0x2C),
      ([0x74, 0x72, 0x61, 0x69, 0x6C, 0x65, 0x72], 0x2C),
      ([0x74, 0x72, 0x61, 0x6E, 0x73, 0x66, 0x65, 0x72, 0x2D, 0x65, 0x6E, 0x63, 0x6F, 0x64, 0x69, 0x6E, 0x67], 0x2C),
      ([0x75, 0x70, 0x67, 0x72, 0x61, 0x64, 0x65], 0x2C),
      ([0x55, 0x70, 0x67, 0x72, 0x61, 0x64, 0x65, 0x2D, 0x49, 0x6E, 0x73, 0x65, 0x63, 0x75, 0x72, 0x65, 0x2D, 0x52, 0x65, 0x71, 0x75, 0x65, 0x73, 0x74, 0x73], 0),
      ([0x75, 0x73, 0x65, 0x72, 0x2D, 0x61, 0x67, 0x65, 0x6E, 0x74], 0x20),
      ([0x76, 0x61, 0x72, 0x79], 0x2C),
      ([0x56, 0x69, 0x61], 0x2C),
      ([0x57, 0x61, 0x72, 0x6E, 0x69, 0x6E, 0x67], 0x2C)]"
  by code_simp

text \<open>A request with a repeated header, an encoded target and a body.\<close>

definition sample_headers1 :: "(bytes \<times> bytes) list" where
  "sample_headers1 = [(bytes_of ''Accept'', bytes_of ''a''), (bytes_of ''Host'', bytes_of ''x''), (bytes_of ''accept'', bytes_of ''b'')]"

lemma sample_merged: "merged False [] sample_headers1 = Some [(bytes_of ''Accept'', bytes_of ''a,b''), (bytes_of ''Host'', bytes_of ''x'')]"
  by code_simp

theorem http1_head_roundtrip_witness:
  "\<exists>buf h. initTrySetHead (render_head GET (bytes_of ''/a%41'') 0x11 sample_headers1 @ [1, 2]) 60 False = (StatusCodeOK, buf, Some h)
    \<and> req_method h = GET \<and> req_version h = 0x11 \<and> view_bytes buf (req_path h) = bytes_of ''/aA'' \<and> view_bytes buf (req_query h) = []
    \<and> headers_seen buf (req_headers h) = [(bytes_of ''Accept'', bytes_of ''a,b''), (bytes_of ''Host'', bytes_of ''x'')]
    \<and> headSpanSize h = length (render_head GET (bytes_of ''/a%41'') 0x11 sample_headers1) \<and> drop (headSpanSize h) buf = [1, 2]"
proof (rule http1_head_roundtrip [OF _ _ _ _ _ sample_merged])
  show "decode_target (bytes_of ''/a%41'') = Some (bytes_of ''/aA'', [])" by code_simp
  show "0x0D \<notin> set (bytes_of ''/a%41'')" "0x20 \<notin> set (bytes_of ''/a%41'')" by code_simp+
  show "list_all good_header sample_headers1" by code_simp
  show "length (render_head GET (bytes_of ''/a%41'') 0x11 sample_headers1) \<le> 60" by code_simp
qed simp

section \<open>Where the rewriting shows\<close>

text \<open>
  The server calls the parser again on the same buffer whenever more bytes have arrived, be it for the head or for the body. The second call decodes the target a second
  time, together with what the first decoding left behind it: the same request is for \<^verbatim>\<open>/aA\<close> when it arrives whole and for \<^verbatim>\<open>/aA41\<close> when it arrives
  in two parts.
\<close>

definition split_part1 :: bytes where
  "split_part1 = bytes_of ''GET /a%41 HTTP/1.1'' @ [0x0D, 0x0A] @ bytes_of ''Host: x'' @ [0x0D, 0x0A]"

definition split_second :: bytes where
  "split_second = fst (snd (initTrySetHead split_part1 99 False)) @ [0x0D, 0x0A]"

lemma split_head_differs:
  "head_seen (initTrySetHead (split_part1 @ [0x0D, 0x0A]) 99 False)
     = (StatusCodeOK, Some (GET, bytes_of ''/aA'', [], [(bytes_of ''Host'', bytes_of ''x'')]))"
  "fst (initTrySetHead split_part1 99 False) = NeedMoreData"
  "head_seen (initTrySetHead split_second 99 False)
     = (StatusCodeOK, Some (GET, bytes_of ''/aA41'', [], [(bytes_of ''Host'', bytes_of ''x'')]))"
  by - code_simp+

text \<open>
  A header whose first value is empty takes the value of its repetition, whose view then lies behind headers that come later. A merge of one of
  those moves the bytes under that view without moving the view: \<^verbatim>\<open>Via\<close> is read as a colon.
\<close>

definition straddling_head :: bytes where
  "straddling_head = bytes_of ''GET / HTTP/1.1'' @ [0x0D, 0x0A] @ bytes_of ''Via:'' @ [0x0D, 0x0A] @ bytes_of ''TE: a'' @ [0x0D, 0x0A]
     @ bytes_of ''Via: v'' @ [0x0D, 0x0A] @ bytes_of ''TE: b'' @ [0x0D, 0x0A, 0x0D, 0x0A]"

lemma merge_moves_other_value:
  "head_seen (initTrySetHead straddling_head 99 False)
     = (StatusCodeOK, Some (GET, bytes_of ''/'', [], [(bytes_of ''Via'', bytes_of '':''), (bytes_of ''TE'', bytes_of ''a,b'')]))"
  by code_simp

end
