(* ===== verification/Http1_Body.thy ===== *)
theory Http1_Body
  imports Http1_Head Decimal
begin

text \<open>
  The body of an HTTP/1.x request: \<^verbatim>\<open>decodeBodyIfReady\<close> with its two forms, a body of a declared length and a chunked body with trailers
  (\<^verbatim>\<open>http-parser.cpp\<close>), and the writer that produces the chunked form (\<^verbatim>\<open>Http1WriterTransport\<close>). A chunked body that a content coding has
  compressed is collected as a list of chunks; running the codec on it is left to the compression libraries. The theorem shows that what the writer emits is
  decoded to the same bytes and trailers, and that no part of it, however short, is taken for an error or for a complete body.
\<close>

section \<open>The writer\<close>

definition kHexits :: bytes where
  "kHexits = [0x30, 0x31, 0x32, 0x33, 0x34, 0x35, 0x36, 0x37, 0x38, 0x39, 0x61, 0x62, 0x63, 0x64, 0x65, 0x66]"

definition hex_digits :: "u64 \<Rightarrow> nat" where
  "hex_digits v = (if v = 0 then 1 else (64 - countl_zero v + 3) div 4)"

text \<open>The digits are written from the end of the field backwards.\<close>

function hex_loop :: "nat \<Rightarrow> bytes \<Rightarrow> bytes" where
  "hex_loop v out =
     (let out1 = kHexits ! (v mod 16) # out; v1 = v div 16 in if v1 \<noteq> 0 then hex_loop v1 out1 else out1)"
  by pat_completeness auto
termination by (relation "measure fst") auto

declare hex_loop.simps [simp del]

definition to_lower_hex :: "nat \<Rightarrow> bytes" where
  "to_lower_hex v = hex_loop v []"

abbreviation crlf :: bytes where "crlf \<equiv> [0x0D, 0x0A]"

definition emitData :: "bool \<Rightarrow> bytes \<Rightarrow> bytes" where
  "emitData chunked dat = (if chunked then to_lower_hex (length dat) @ crlf @ dat @ crlf else dat)"

definition emitEnd :: "bool \<Rightarrow> bytes \<Rightarrow> bytes" where
  "emitEnd chunked trailers =
     (if \<not> chunked then [] else if trailers = [] then [0x30] @ crlf @ crlf else [0x30] @ crlf @ trailers @ crlf)"

section \<open>Content codings\<close>

text \<open>
  \<^verbatim>\<open>HeaderValueReverseTokensIterator\<close>: the tokens of a header value from the last to the first. \<open>token_begin\<close> looks for the separator before the first
  \<open>n\<close> bytes end; quotes protect it, unless an odd number of backslashes precedes them.
\<close>

fun token_begin :: "u8 \<Rightarrow> bytes \<Rightarrow> bool \<Rightarrow> nat \<Rightarrow> nat" where
  "token_begin sep hv inQuotes 0 = 0"
| "token_begin sep hv inQuotes (Suc p) =
     (let ch = hv ! p in
      if ch = 0x22 then
        (let backslashes = length (takeWhile (\<lambda>c. c = 0x5C) (rev (take p hv)))
         in token_begin sep hv (if even backslashes then \<not> inQuotes else inQuotes) p)
      else if \<not> inQuotes \<and> ch = sep then Suc p
      else token_begin sep hv inQuotes p)"

lemma token_begin_le: "token_begin sep hv q n \<le> n"
  by (induction n arbitrary: q) (auto simp: Let_def le_Suc_eq)

function reverse_tokens :: "u8 \<Rightarrow> bytes \<Rightarrow> nat \<Rightarrow> bool \<Rightarrow> bytes list" where
  "reverse_tokens sep hv lst emitLeadingEmpty =
     (if lst = 0 then (if emitLeadingEmpty then [[]] else [])
      else
        (let tokenBegin = token_begin sep hv False lst;
             token = rev (dropWhile is_ows (rev (dropWhile is_ows (take (lst - tokenBegin) (drop tokenBegin hv)))));
             lst1 = (if tokenBegin = 0 then 0 else length (dropWhile is_ows (rev (take (tokenBegin - 1) hv))))
         in token # reverse_tokens sep hv lst1 emitLeadingEmpty))"
  by pat_completeness auto
termination
proof (relation "measure (\<lambda>(sep, hv, lst, e). lst)", goal_cases)
  case (2 sep hv lst e tb token lst1)
  have "length (dropWhile is_ows (rev (take (tb - 1) hv))) \<le> tb - 1"
    by (metis (no_types) length_dropWhile_le length_rev length_take min.cobounded2 order_trans)
  then show ?case using 2 token_begin_le [of sep hv False lst] by auto
qed simp

declare reverse_tokens.simps [simp del]

datatype DecompressCode = WillNotDecompress | MalformedEncoding | DoDecompress

definition hdr_identity :: bytes where "hdr_identity = bytes_of ''identity''"

definition WillDecompress :: "bool \<Rightarrow> bytes option \<Rightarrow> DecompressCode" where
  "WillDecompress enable contentEncoding =
     (if \<not> enable then WillNotDecompress
      else case contentEncoding of
        None \<Rightarrow> WillNotDecompress
      | Some encodingStr \<Rightarrow>
          if encodingStr = [] then MalformedEncoding
          else
            (let encodings = reverse_tokens 0x2C encodingStr (length encodingStr) (encodingStr ! 0 = 0x2C) in
             if [] \<in> set encodings then MalformedEncoding
             else if list_ex (\<lambda>e. \<not> CaseInsensitiveEqual e hdr_identity) encodings then DoDecompress else WillNotDecompress))"

section \<open>State\<close>

datatype BodyDecodeStatus = Ready | NeedMore | Error

text \<open>
  The part of \<^verbatim>\<open>ConnectionState\<close> the body decoder works on. \<open>queued\<close> lists the status codes of the messages it queues (100 for the interim
  response), \<open>compressedChunks\<close> what is handed to the codec.
\<close>

record BodyState =
  inBuffer :: bytes
  req_head :: RequestHead
  bodyAndTrailersBuffer :: bytes
  trailerLen :: nat
  req_trailers :: header_views
  req_body :: bytes
  compressedChunks :: "bytes list"
  queued :: "nat list"

record BodyConfig =
  maxHeaderBytes :: nat
  mergeUnknownRequestHeaders :: bool
  decompression_enable :: bool
  maxCompressedBytes :: nat

definition headerValue :: "BodyState \<Rightarrow> bytes \<Rightarrow> bytes option" where
  "headerValue st name =
     map_option (\<lambda>i. view_bytes (inBuffer st) (snd (req_headers (req_head st) ! i)))
       (find_entry (inBuffer st) (req_headers (req_head st)) name)"

definition emitSimpleError :: "nat \<Rightarrow> BodyState \<Rightarrow> BodyState" where
  "emitSimpleError code st = st\<lparr>queued := queued st @ [code]\<rparr>"

section \<open>A declared length\<close>

text \<open>\<^verbatim>\<open>std::from_chars\<close> for \<^verbatim>\<open>std::size_t\<close>: the value of the digits and what follows them; nothing without a digit or beyond 64 bits.\<close>

definition from_chars :: "bytes \<Rightarrow> (nat \<times> bytes) option" where
  "from_chars str =
     (let is_digit = (\<lambda>c. 0x30 \<le> c \<and> c \<le> 0x39); digits = takeWhile is_digit str;
          v = foldl (\<lambda>n c. n * 10 + unat (c - 0x30)) 0 digits
      in if digits = [] \<or> 2 ^ 64 \<le> v then None else Some (v, dropWhile is_digit str))"

definition hdr_content_length :: bytes where "hdr_content_length = bytes_of ''content-length''"
definition hdr_content_encoding :: bytes where "hdr_content_encoding = bytes_of ''content-encoding''"

definition decodeFixedLengthBody :: "BodyState \<Rightarrow> bool \<Rightarrow> nat \<Rightarrow> BodyDecodeStatus \<times> BodyState \<times> nat" where
  "decodeFixedLengthBody st0 expectContinue maxBodyBytes =
     (let st = st0\<lparr>trailerLen := 0\<rparr>; headerEnd = headSpanSize (req_head st) in
      case headerValue st hdr_content_length of
        None \<Rightarrow> (Ready, st\<lparr>req_body := []\<rparr>, headerEnd)
      | Some lenViewAll \<Rightarrow>
          (case from_chars lenViewAll of
             Some (declaredContentLen, []) \<Rightarrow>
               if maxBodyBytes < declaredContentLen then (Error, emitSimpleError 413 st, 0)
               else
                 (let st1 = (if expectContinue \<and> declaredContentLen > 0 then st\<lparr>queued := queued st @ [100]\<rparr> else st);
                      totalNeeded = (headerEnd + declaredContentLen) mod 2 ^ 64 in
                  if length (inBuffer st1) < totalNeeded then (NeedMore, st1, 0)
                  else (Ready, st1\<lparr>req_body := take declaredContentLen (drop headerEnd (inBuffer st1))\<rparr>, totalNeeded))
           | _ \<Rightarrow> (Error, emitSimpleError 400 st, 0)))"

section \<open>Chunks\<close>

fun chunk_size :: "nat \<Rightarrow> bytes \<Rightarrow> nat \<Rightarrow> nat + nat" where
  "chunk_size maxBodyBytes [] chunkSize = Inr chunkSize"
| "chunk_size maxBodyBytes (ch # rest) chunkSize =
     (let digit = from_hex_digit ch in
      if digit < 0 then Inl 400
      else
        (let chunkSize1 = (chunkSize * 16 + nat digit) mod 2 ^ 64 in
         if maxBodyBytes < chunkSize1 then Inl 413 else chunk_size maxBodyBytes rest chunkSize1))"

definition kForbiddenTrailers :: "bytes list" where
  "kForbiddenTrailers = map bytes_of
     [''authorization'', ''cache-control'', ''content-encoding'', ''content-length'', ''content-range'', ''content-type'', ''cookie'',
      ''expect'', ''expires'', ''host'', ''if-match'', ''if-modified-since'', ''if-none-match'', ''if-unmodified-since'', ''pragma'',
      ''range'', ''set-cookie'', ''te'', ''trailer'', ''transfer-encoding'', ''vary'']"

definition IsForbiddenTrailerHeader :: "bytes \<Rightarrow> bool" where
  "IsForbiddenTrailerHeader name = list_ex (CaseInsensitiveEqual name) kForbiddenTrailers"

lemma SearchCRLF_found: "SearchCRLF buf first lst \<noteq> lst \<Longrightarrow> first \<le> SearchCRLF buf first lst \<and> SearchCRLF buf first lst < lst"
  using SearchCRLF_bounds [of first lst buf] by (cases "first \<le> lst") (auto simp: SearchCRLF.simps [of buf first lst] memchr_def)

text \<open>The first pass over the trailers: the end of the trailer section, or a reason to stop.\<close>

datatype TrailerScan = ScanMore | ScanError nat | ScanEnd nat

function scan_trailers :: "bytes \<Rightarrow> nat \<Rightarrow> nat \<Rightarrow> nat \<Rightarrow> TrailerScan" where
  "scan_trailers buf trailerStart maxHeader tempPos =
     (let lineLast = SearchCRLF buf tempPos (length buf) in
      if lineLast = length buf then ScanMore
      else if tempPos - trailerStart > maxHeader then ScanError 431
      else if tempPos = lineLast then ScanEnd (lineLast + 2)
      else
        (case memchr buf tempPos lineLast 0x3A of
           None \<Rightarrow> ScanError 400
         | Some colon \<Rightarrow>
             if IsForbiddenTrailerHeader (view_bytes buf (tempPos, colon - tempPos)) then ScanError 400
             else scan_trailers buf trailerStart maxHeader (lineLast + 2)))"
  by pat_completeness auto
termination
  by (relation "measure (\<lambda>(buf, s, m, p). length buf - p)") (auto dest!: SearchCRLF_found)

declare scan_trailers.simps [simp del]

text \<open>
  The second pass, on the copy of the trailers. The first pass has seen the end and the colon of every line, so a line without either does not occur here.
\<close>

function parseHeadersUnchecked :: "bytes \<Rightarrow> header_views \<Rightarrow> nat \<Rightarrow> nat \<Rightarrow> bool \<Rightarrow> (bytes \<times> header_views) option" where
  "parseHeadersUnchecked buf hs first lst mergeUnknown =
     (if first < lst then
        (let lineEnd = SearchCRLF buf first lst in
         case ParseHeaderLine buf first lineEnd of
           None \<Rightarrow> None
         | Some (name, val) \<Rightarrow>
             (case AddOrMergeHeaderInPlace buf hs name val first mergeUnknown of
                None \<Rightarrow> None
              | Some (buf1, hs1) \<Rightarrow> parseHeadersUnchecked buf1 hs1 (lineEnd + 2) lst mergeUnknown))
      else Some (buf, hs))"
  by pat_completeness auto
termination
proof (relation "measure (\<lambda>(buf, hs, first, lst, u). lst - first)", goal_cases)
  case (2 buf hs first lst)
  then show ?case using SearchCRLF_bounds [of first lst buf] by auto
qed simp

declare parseHeadersUnchecked.simps [simp del]

text \<open>The last chunk at \<open>pos\<close>: the buffer with the trailers, their views, and the end of the body.\<close>

datatype ChunkResult = ChunkMore bytes | ChunkError bytes nat nat | ChunkEnd bytes nat header_views nat "bytes list"

definition last_chunk :: "BodyConfig \<Rightarrow> bytes \<Rightarrow> nat \<Rightarrow> bytes \<Rightarrow> bytes list \<Rightarrow> ChunkResult" where
  "last_chunk cfg buf pos bodyAndTrailers chunks =
     (if take 2 (drop pos buf) = crlf then ChunkEnd bodyAndTrailers 0 [] (pos + 2) chunks
      else
        (case scan_trailers buf pos (maxHeaderBytes cfg) pos of
           ScanMore \<Rightarrow> ChunkMore bodyAndTrailers
         | ScanError code \<Rightarrow> ChunkError bodyAndTrailers 0 code
         | ScanEnd trailerEndPos \<Rightarrow>
             (let len = trailerEndPos - pos - 2; bt = bodyAndTrailers @ take len (drop pos buf) in
              case parseHeadersUnchecked bt [] (length bt - len) (length bt) (mergeUnknownRequestHeaders cfg) of
                None \<Rightarrow> ChunkError bt len 400
              | Some (bt1, trailers) \<Rightarrow> ChunkEnd bt1 len trailers trailerEndPos chunks)))"

function chunk_loop :: "BodyConfig \<Rightarrow> bool \<Rightarrow> nat \<Rightarrow> bytes \<Rightarrow> nat \<Rightarrow> bytes \<Rightarrow> bytes list \<Rightarrow> nat \<Rightarrow> ChunkResult" where
  "chunk_loop cfg decompress maxBodyBytes buf pos bodyAndTrailers chunks totalCompressedSize =
     (let lineEnd = SearchCRLF buf pos (length buf) in
      if lineEnd = length buf then ChunkMore bodyAndTrailers
      else
        (let sizeLineEnd = find_char buf pos lineEnd 0x3B in
         case chunk_size maxBodyBytes (view_bytes buf (pos, sizeLineEnd - pos)) 0 of
           Inl code \<Rightarrow> ChunkError bodyAndTrailers 0 code
         | Inr chunkSize \<Rightarrow>
             (let pos1 = lineEnd + 2 in
              if length buf < (pos1 + chunkSize + 2) mod 2 ^ 64 then ChunkMore bodyAndTrailers
              else if chunkSize = 0 then last_chunk cfg buf pos1 bodyAndTrailers chunks
              else
                (let total1 = totalCompressedSize + chunkSize; pos2 = pos1 + chunkSize in
                 if decompress \<and> (total1 > maxBodyBytes \<or> (maxCompressedBytes cfg \<noteq> 0 \<and> total1 > maxCompressedBytes cfg))
                 then ChunkError bodyAndTrailers 0 413
                 else if \<not> decompress \<and> length bodyAndTrailers + min chunkSize (length buf - pos1) > maxBodyBytes
                 then ChunkError bodyAndTrailers 0 413
                 else
                   (let piece = take chunkSize (drop pos1 buf);
                        bt = (if decompress then bodyAndTrailers else bodyAndTrailers @ piece);
                        chunks1 = (if decompress then chunks @ [piece] else chunks);
                        total2 = (if decompress then total1 else totalCompressedSize) in
                    if take 2 (drop pos2 buf) \<noteq> crlf then ChunkError bt 0 400
                    else chunk_loop cfg decompress maxBodyBytes buf (pos2 + 2) bt chunks1 total2)))))"
  by pat_completeness auto
termination
  by (relation "measure (\<lambda>(cfg, d, m, buf, pos, bt, cs, t). length buf - pos)") (auto dest!: SearchCRLF_found)

declare chunk_loop.simps [simp del]

text \<open>
  \<^verbatim>\<open>decodeChunkedBody\<close>. With compressed chunks the body is what the codec makes of them, and the trailers are appended to that.
\<close>

definition decodeChunkedBody :: "BodyConfig \<Rightarrow> BodyState \<Rightarrow> bool \<Rightarrow> nat \<Rightarrow> BodyDecodeStatus \<times> BodyState \<times> nat" where
  "decodeChunkedBody cfg st0 expectContinue maxBodyBytes =
     (let st1 = (if expectContinue then st0\<lparr>queued := queued st0 @ [100]\<rparr> else st0);
          st = st1\<lparr>bodyAndTrailersBuffer := [], trailerLen := 0\<rparr>;
          decompressCode = WillDecompress (decompression_enable cfg) (headerValue st hdr_content_encoding) in
      if decompressCode = MalformedEncoding then (Error, emitSimpleError 400 st, 0)
      else
        (case chunk_loop cfg (decompressCode = DoDecompress) maxBodyBytes (inBuffer st) (headSpanSize (req_head st)) [] [] 0 of
           ChunkMore bt \<Rightarrow> (NeedMore, st\<lparr>bodyAndTrailersBuffer := bt\<rparr>, 0)
         | ChunkError bt len code \<Rightarrow> (Error, emitSimpleError code (st\<lparr>bodyAndTrailersBuffer := bt, trailerLen := len\<rparr>), 0)
         | ChunkEnd bt len trailers pos chunks \<Rightarrow>
             (let st2 = st\<lparr>bodyAndTrailersBuffer := bt, trailerLen := len,
                    req_trailers := (if len = 0 then req_trailers st else trailers), compressedChunks := chunks\<rparr>
              in (Ready, if chunks \<noteq> [] then st2 else st2\<lparr>req_body := take (length bt - len) bt\<rparr>, pos))))"

definition decodeBodyIfReady :: "BodyConfig \<Rightarrow> BodyState \<Rightarrow> bool \<Rightarrow> bool \<Rightarrow> nat \<Rightarrow> BodyDecodeStatus \<times> BodyState \<times> nat" where
  "decodeBodyIfReady cfg st isChunked expectContinue maxBodyBytes =
     (if isChunked then decodeChunkedBody cfg st expectContinue maxBodyBytes
      else decodeFixedLengthBody st expectContinue maxBodyBytes)"

section \<open>Sizes in hexadecimal\<close>

lemma hex_loop_append: "hex_loop v out = hex_loop v [] @ out"
proof (induction v arbitrary: out rule: less_induct)
  case (less v)
  show ?case
  proof (cases "v div 16 = 0")
    case True
    then show ?thesis by (simp add: hex_loop.simps [of v] Let_def)
  next
    case False
    then have "v div 16 < v" by (intro div_less_dividend) (auto intro: gr0I)
    note ih = less.IH [OF this]
    show ?thesis using False ih [of "kHexits ! (v mod 16) # out"] ih [of "[kHexits ! (v mod 16)]"]
      by (simp add: hex_loop.simps [of v] Let_def)
  qed
qed

lemma to_lower_hex_rec: "to_lower_hex v = (if v < 16 then [] else to_lower_hex (v div 16)) @ [kHexits ! (v mod 16)]"
  using hex_loop_append [of "v div 16" "[kHexits ! (v mod 16)]"]
  by (auto simp: to_lower_hex_def hex_loop.simps [of v "[]"] Let_def div_eq_0_iff)

lemma hexit_value:
  assumes "d < 16"
  shows "from_hex_digit (kHexits ! d) = int d" "kHexits ! d \<noteq> 0x0D" "kHexits ! d \<noteq> 0x3B"
proof -
  have "list_all (\<lambda>d. from_hex_digit (kHexits ! d) = int d \<and> kHexits ! d \<noteq> 0x0D \<and> kHexits ! d \<noteq> 0x3B) [0..<16]" by code_simp
  then show "from_hex_digit (kHexits ! d) = int d" "kHexits ! d \<noteq> 0x0D" "kHexits ! d \<noteq> 0x3B"
    using assms by (simp_all add: list_all_iff del: upt_Suc)
qed

lemma to_lower_hex_bytes: "0x0D \<notin> set (to_lower_hex v)" "0x3B \<notin> set (to_lower_hex v)" "to_lower_hex v \<noteq> []"
proof (induction v rule: less_induct)
  case (less v)
  { case 1
    show ?case using less(1) [of "v div 16"] hexit_value(2) [of "v mod 16"] by (subst to_lower_hex_rec) auto }
  { case 2
    show ?case using less(2) [of "v div 16"] hexit_value(3) [of "v mod 16"] by (subst to_lower_hex_rec) auto }
  { case 3
    show ?case by (subst to_lower_hex_rec) auto }
qed

lemma chunk_size_append:
  "chunk_size m (xs @ ys) n = (case chunk_size m xs n of Inl e \<Rightarrow> Inl e | Inr n' \<Rightarrow> chunk_size m ys n')"
  by (induction m xs n rule: chunk_size.induct) (auto simp: Let_def)

lemma chunk_size_hex: "v \<le> m \<Longrightarrow> v < 2 ^ 64 \<Longrightarrow> chunk_size m (to_lower_hex v) 0 = Inr v"
proof (induction v rule: less_induct)
  case (less v)
  have digit: "from_hex_digit (kHexits ! (v mod 16)) = int (v mod 16)" by (rule hexit_value) simp
  show ?case
  proof (cases "v < 16")
    case True
    then show ?thesis using less.prems digit by (subst to_lower_hex_rec) simp
  next
    case False
    then have "chunk_size m (to_lower_hex (v div 16)) 0 = Inr (v div 16)" using less.prems by (intro less.IH) auto
    then show ?thesis using False less.prems digit
      by (subst to_lower_hex_rec) (simp add: chunk_size_append Let_def nat_int)
  qed
qed

lemma length_to_lower_hex: "16 ^ k \<le> n \<Longrightarrow> n < 16 ^ (k + 1) \<Longrightarrow> length (to_lower_hex n) = k + 1"
proof (induction k arbitrary: n)
  case 0
  then show ?case by (subst to_lower_hex_rec) simp
next
  case (Suc k)
  have "16 \<le> n" using Suc.prems(1) le_trans [of 16 "16 ^ Suc k" n] by simp
  moreover have "16 ^ k \<le> n div 16" "n div 16 < 16 ^ (k + 1)"
    using Suc.prems by (auto simp: less_eq_div_iff_mult_less_eq div_less_iff_less_mult mult.commute)
  ultimately show ?case using Suc.IH [of "n div 16"] by (subst to_lower_hex_rec) simp
qed

text \<open>The size line fills exactly the room that \<^verbatim>\<open>hex_digits\<close> reserves for it.\<close>

lemma hex_digits_exact: "length (to_lower_hex (unat v)) = hex_digits v"
proof (cases "v = 0")
  case True
  then show ?thesis by (subst to_lower_hex_rec) (simp add: hex_digits_def)
next
  case False
  define f where "f = 63 - countl_zero v"
  note log = floor_log2 [OF False]
  have f: "2 ^ f \<le> unat v" "unat v < 2 ^ (f + 1)" "64 - countl_zero v = f + 1"
    using log unfolding f_def by (simp_all add: Suc_diff_Suc [symmetric] del: power_Suc Suc_diff_Suc)
  let ?k = "f div 4"
  have pow: "(16 :: nat) ^ n = 2 ^ (4 * n)" for n by (simp add: power_mult)
  have "4 * ?k \<le> f" "f + 1 \<le> 4 * (?k + 1)" by presburger+
  then have "16 ^ ?k \<le> (2 :: nat) ^ f" "(2 :: nat) ^ (f + 1) \<le> 16 ^ (?k + 1)"
    unfolding pow by (intro power_increasing; simp)+
  then have "length (to_lower_hex (unat v)) = ?k + 1" using f(1,2) by (intro length_to_lower_hex) linarith+
  moreover have "(f + 1 + 3) div 4 = ?k + 1" by presburger
  ultimately show ?thesis using False f(3) by (simp add: hex_digits_def)
qed

section \<open>A chunk\<close>

lemma SearchCRLF_none:
  assumes "n = length pre" "0x0D \<notin> set line" "k < length line + 2"
  shows "SearchCRLF (pre @ take k (line @ crlf)) n (length (pre @ take k (line @ crlf))) = length (pre @ take k (line @ crlf))"
proof (cases "k \<le> length line")
  case True
  have "memchr (pre @ take k line @ []) n (n + length (take k line)) 0x0D = None"
    by (subst memchr_split) (use assms in_set_takeD [of "0x0D" k line] in auto)
  then show ?thesis using True assms(1) by (subst SearchCRLF.simps) simp
next
  case False
  then have k: "k = length line + 1" using assms(3) by simp
  have part: "take k (line @ crlf) = line @ [0x0D]" by (simp add: k)
  have hit: "memchr (pre @ line @ 0x0D # [] @ []) n (n + length line + 1 + length []) 0x0D = Some (n + length line)"
    by (rule memchr_first) (use assms in auto)
  have miss: "memchr (pre @ line @ [0x0D]) (n + length line + 1) (n + length line + 1) 0x0D = None" by (simp add: memchr_def)
  show ?thesis unfolding part using hit miss assms(1)
    by (subst SearchCRLF.simps, simp) (subst SearchCRLF.simps, simp)
qed

lemma take_within: "k \<le> length xs \<Longrightarrow> take k (xs @ ys) = take k xs"
  "length xs \<le> k \<Longrightarrow> take k (xs @ ys) = xs @ take (k - length xs) ys"
  by simp_all

text \<open>The size line of a chunk of \<open>v\<close> bytes.\<close>

lemma size_line:
  assumes "buf = pre @ to_lower_hex v @ crlf @ post" "pos = length pre" "v \<le> m" "v < 2 ^ 64"
  shows "SearchCRLF buf pos (length buf) = pos + length (to_lower_hex v)"
    "find_char buf pos (pos + length (to_lower_hex v)) 0x3B = pos + length (to_lower_hex v)"
    "chunk_size m (view_bytes buf (pos, length (to_lower_hex v))) 0 = Inr v"
proof -
  show "SearchCRLF buf pos (length buf) = pos + length (to_lower_hex v)"
    unfolding assms(1) by (rule SearchCRLF_line) (use assms(2) to_lower_hex_bytes(1) in auto)
  have "memchr (pre @ to_lower_hex v @ crlf @ post) pos (pos + length (to_lower_hex v)) 0x3B = None"
    by (subst memchr_split) (use assms(2) to_lower_hex_bytes(2) in auto)
  then show "find_char buf pos (pos + length (to_lower_hex v)) 0x3B = pos + length (to_lower_hex v)"
    by (simp add: assms(1) find_char_def)
  show "chunk_size m (view_bytes buf (pos, length (to_lower_hex v))) 0 = Inr v"
    using assms chunk_size_hex [of v m] by simp
qed

lemma chunk_step:
  assumes "d \<noteq> []" "buf = pre @ emitData True d @ post" "length bt + length d \<le> m" "length buf < 2 ^ 64"
  shows "chunk_loop cfg False m buf (length pre) bt chunks t
    = chunk_loop cfg False m buf (length (pre @ emitData True d)) (bt @ d) chunks t"
proof -
  define hx where "hx = to_lower_hex (length d)"
  have buf: "buf = pre @ hx @ crlf @ d @ crlf @ post" using assms(2) by (simp add: emitData_def hx_def)
  note line = size_line [OF buf [unfolded hx_def] refl, of m, folded hx_def]
  have d: "length d \<le> m" "length d < 2 ^ 64" using assms(3,4) buf by simp_all
  have data: "take (length d) (drop (length pre + length hx + 2) buf) = d"
    "take 2 (drop (length pre + length hx + 2 + length d) buf) = crlf" by (simp_all add: buf)
  have size: "\<not> length buf < (length pre + length hx + 2 + length d + 2) mod 2 ^ 64"
    "length pre + length hx \<noteq> length buf" "min (length d) (length buf - (length pre + length hx + 2)) = length d"
    using assms(4) by (simp_all add: buf)
  have next_pos: "length (pre @ emitData True d) = length pre + length hx + 2 + length d + 2" by (simp add: emitData_def hx_def)
  show ?thesis unfolding next_pos
    by (subst chunk_loop.simps) (use line [OF d] data size assms(1,3) in \<open>simp add: Let_def\<close>)
qed

text \<open>Less than the size line, the data it announces and the line end that follows.\<close>

lemma chunk_short:
  assumes "k < length (to_lower_hex v) + 2 + v + 2" "buf = pre @ take k (to_lower_hex v @ crlf @ post)" "v \<le> m"
    "length pre + length (to_lower_hex v) + 2 + v + 2 < 2 ^ 64"
  shows "chunk_loop cfg d m buf (length pre) bt chunks t = ChunkMore bt"
proof -
  define hx where "hx = to_lower_hex v"
  have enc: "to_lower_hex v @ crlf @ post = (hx @ crlf) @ post" by (simp add: hx_def)
  show ?thesis
  proof (cases "k < length hx + 2")
    case True
    then have "buf = pre @ take k (hx @ crlf)"
      using assms(2) take_within(1) [of k "hx @ crlf" post] unfolding enc by (simp only: length_append list.size)
    then show ?thesis using SearchCRLF_none [of "length pre" pre hx k] True to_lower_hex_bytes(1) [of v]
      by (subst chunk_loop.simps) (simp add: hx_def)
  next
    case False
    then have buf: "buf = pre @ hx @ crlf @ take (k - (length hx + 2)) post"
      using assms(2) take_within(2) [of "hx @ crlf" k post] unfolding enc by simp
    note line = size_line [OF buf [unfolded hx_def] refl assms(3), folded hx_def]
    have short: "length buf < (length pre + length hx + 2 + v + 2) mod 2 ^ 64" "length pre + length hx \<noteq> length buf" "v < 2 ^ 64"
      using assms(1,4) False buf by (simp_all add: hx_def)
    show ?thesis by (subst chunk_loop.simps) (use line short in \<open>simp add: Let_def\<close>)
  qed
qed

section \<open>Trailers\<close>

definition good_trailer :: "bytes \<times> bytes \<Rightarrow> bool" where
  "good_trailer h \<longleftrightarrow> good_header h \<and> \<not> IsForbiddenTrailerHeader (fst h)"

definition trailer_lines :: "(bytes \<times> bytes) list \<Rightarrow> bytes" where
  "trailer_lines ts = concat (map header_line ts)"

lemma trailer_lines_simps [simp]: "trailer_lines [] = []" "trailer_lines (h # ts) = header_line h @ trailer_lines ts"
  by (simp_all add: trailer_lines_def)

lemma scan_step:
  assumes "good_trailer h" "buf = pre @ header_line h @ post" "length pre \<le> s + mx"
  shows "scan_trailers buf s mx (length pre) = scan_trailers buf s mx (length (pre @ header_line h))"
proof -
  obtain n v where h: "h = (n, v)" by (cases h)
  have good: "good_header (n, v)" "\<not> IsForbiddenTrailerHeader n" using assms(1) h by (simp_all add: good_trailer_def)
  note line = header_line_views [OF good(1) assms(2) [unfolded h] refl refl]
  have pos: "line_end (length pre) (n, v) \<noteq> length buf" "length pre \<noteq> line_end (length pre) (n, v)" "\<not> length pre - s > mx"
    using assms(2,3) by (auto simp: h header_line_def line_end_def)
  have next_pos: "length (pre @ header_line h) = line_end (length pre) (n, v) + 2" using line(5) h by simp
  show ?thesis unfolding next_pos
    by (subst scan_trailers.simps) (use line pos good(2) in \<open>simp add: Let_def\<close>)
qed

lemma scan_whole:
  assumes "list_all good_trailer ts" "buf = pre @ trailer_lines ts @ crlf @ post" "length pre + length (trailer_lines ts) \<le> s + mx"
  shows "scan_trailers buf s mx (length pre) = ScanEnd (length pre + length (trailer_lines ts) + 2)"
  using assms
proof (induction ts arbitrary: pre)
  case Nil
  have "SearchCRLF buf (length pre) (length buf) = length pre + length []"
    using SearchCRLF_line [of "length pre" pre "length buf" "[]" post] Nil.prems(2) by simp
  then show ?case using Nil.prems by (subst scan_trailers.simps) (simp add: Let_def)
next
  case (Cons h ts)
  have "scan_trailers buf s mx (length pre) = scan_trailers buf s mx (length (pre @ header_line h))"
    by (rule scan_step) (use Cons.prems in auto)
  also have "\<dots> = ScanEnd (length (pre @ header_line h) + length (trailer_lines ts) + 2)"
    by (rule Cons.IH) (use Cons.prems in auto)
  finally show ?case by (simp add: ac_simps)
qed

lemma scan_partial:
  assumes "list_all good_trailer ts" "k < length (trailer_lines ts) + 2" "buf = pre @ take k (trailer_lines ts @ crlf)"
    "length pre + length (trailer_lines ts) \<le> s + mx"
  shows "scan_trailers buf s mx (length pre) = ScanMore"
  using assms
proof (induction ts arbitrary: pre k)
  case Nil
  then show ?case using SearchCRLF_none [of "length pre" pre "[]" k] by (subst scan_trailers.simps) (simp add: Let_def)
next
  case (Cons h ts)
  obtain n v where h: "h = (n, v)" by (cases h)
  show ?case
  proof (cases "k < length (header_line h)")
    case True
    let ?line = "n @ [0x3A, 0x20] @ v"
    have hl: "header_line h = ?line @ crlf" by (simp add: h header_line_def)
    have "buf = pre @ take k (?line @ crlf)"
      using Cons.prems(3) True take_within(1) [of k "header_line h" "trailer_lines ts @ crlf"] by (simp add: hl)
    moreover have "0x0D \<notin> set ?line" using Cons.prems(1) h by (simp add: good_trailer_def good_header_def)
    ultimately show ?thesis using SearchCRLF_none [of "length pre" pre ?line k] True hl
      by (subst scan_trailers.simps) (simp add: Let_def)
  next
    case False
    let ?k = "k - length (header_line h)"
    have buf: "buf = pre @ header_line h @ take ?k (trailer_lines ts @ crlf)" using Cons.prems(3) False by simp
    have "scan_trailers buf s mx (length pre) = scan_trailers buf s mx (length (pre @ header_line h))"
      by (rule scan_step [OF _ buf]) (use Cons.prems in auto)
    also have "\<dots> = ScanMore" by (rule Cons.IH [of ?k]) (use Cons.prems False buf in auto)
    finally show ?thesis .
  qed
qed

lemma trailers_parse:
  assumes "list_all good_header ts" "merged u (seg_headers segs) ts = Some am" "segs_ok segs" "segs \<noteq> [] \<Longrightarrow> gap \<noteq> []"
    and "off = length pre" "first = length (pre @ seg_bytes segs @ gap)"
    and "buf = (pre @ seg_bytes segs @ gap) @ trailer_lines ts" "lst = length buf"
  shows "\<exists>segs' gap'. parseHeadersUnchecked buf (seg_views off segs) first lst u = Some (pre @ seg_bytes segs' @ gap', seg_views off segs')
    \<and> seg_headers segs' = am \<and> length (pre @ seg_bytes segs' @ gap') = lst"
  using assms
proof (induction ts arbitrary: segs gap first buf)
  case Nil
  then show ?case by (intro exI [of _ segs] exI [of _ gap]) (simp add: parseHeadersUnchecked.simps)
next
  case (Cons h ts)
  obtain n v where h: "h = (n, v)" by (cases h)
  have good: "good_header (n, v)" and rest: "list_all good_header ts" using Cons.prems(1) h by simp_all
  have buf: "buf = (pre @ seg_bytes segs @ gap) @ header_line (n, v) @ trailer_lines ts" using Cons.prems(7) h by simp
  note line = header_line_views [OF good buf Cons.prems(6,8)]
  obtain segs' gap' where store: "AddOrMergeHeaderInPlace buf (seg_views off segs) (first, length n) (first + length n + 2, length v) first u
      = Some ((pre @ seg_bytes segs' @ gap') @ trailer_lines ts, seg_views off segs')"
    and next_inv: "merged u (seg_headers segs') ts = Some am" "segs_ok segs'" "gap' \<noteq> []"
      "length (pre @ seg_bytes segs' @ gap') = first + length (header_line (n, v))"
    using store_segment [OF good Cons.prems(2) [unfolded h] Cons.prems(3-6) buf] by blast
  have "first < lst" using Cons.prems(6,8) buf by (simp add: header_line_def)
  then have eq: "parseHeadersUnchecked buf (seg_views off segs) first lst u
      = parseHeadersUnchecked ((pre @ seg_bytes segs' @ gap') @ trailer_lines ts) (seg_views off segs') (first + length (header_line (n, v))) lst u"
    by (subst parseHeadersUnchecked.simps) (use line store in \<open>simp add: Let_def\<close>)
  show ?case unfolding eq
    by (rule Cons.IH [of segs' gap', OF rest next_inv(1,2)]) (use Cons.prems(5,6,8) next_inv(3,4) buf in auto)
qed

lemma trailers_not_empty_line:
  assumes "list_all good_trailer ts" "ts \<noteq> []" "2 \<le> length xs" "xs = take k (trailer_lines ts @ post)"
  shows "take 2 xs \<noteq> crlf"
proof -
  obtain n v ts' where ts: "ts = (n, v) # ts'" using assms(2) by (cases ts) auto
  then obtain c n' where "n = c # n'" "c \<noteq> 0x0D" using assms(1) by (cases n) (auto simp: good_trailer_def good_header_def)
  then show ?thesis using assms(3,4) ts by (cases k) (auto simp: header_line_def)
qed

lemma last_chunk_whole:
  assumes "list_all good_trailer ts" "merged (mergeUnknownRequestHeaders cfg) [] ts = Some am"
    "buf = pre @ trailer_lines ts @ crlf @ post" "length (trailer_lines ts) \<le> maxHeaderBytes cfg"
  shows "\<exists>bt' views. last_chunk cfg buf (length pre) bt chunks
      = ChunkEnd (bt @ bt') (length (trailer_lines ts)) views (length pre + length (trailer_lines ts) + 2) chunks
    \<and> length bt' = length (trailer_lines ts) \<and> headers_seen (bt @ bt') views = am \<and> (ts = [] \<longrightarrow> views = [])"
proof (cases "ts = []")
  case True
  then show ?thesis using assms by (simp add: last_chunk_def headers_seen_def)
next
  case False
  let ?T = "trailer_lines ts"
  have "2 \<le> length ?T" using False by (cases ts) (auto simp: header_line_def)
  then have start: "take 2 (drop (length pre) buf) \<noteq> crlf"
    using trailers_not_empty_line [OF assms(1) False, of "drop (length pre) buf" "length buf" "crlf @ post"] assms(3) by simp
  have scan: "scan_trailers buf (length pre) (maxHeaderBytes cfg) (length pre) = ScanEnd (length pre + length ?T + 2)"
    by (rule scan_whole) (use assms in auto)
  have good: "list_all good_header ts" using assms(1) by (auto simp: list_all_iff good_trailer_def)
  have "\<exists>segs' gap'. parseHeadersUnchecked (bt @ ?T) (seg_views (length bt) []) (length bt) (length (bt @ ?T)) (mergeUnknownRequestHeaders cfg)
      = Some (bt @ seg_bytes segs' @ gap', seg_views (length bt) segs')
    \<and> seg_headers segs' = am \<and> length (bt @ seg_bytes segs' @ gap') = length (bt @ ?T)"
    by (rule trailers_parse [OF good, where gap = "[]"]) (use assms(2) in \<open>simp_all add: segs_ok_def\<close>)
  then obtain segs gap where parse: "parseHeadersUnchecked (bt @ ?T) [] (length bt) (length (bt @ ?T)) (mergeUnknownRequestHeaders cfg)
      = Some (bt @ seg_bytes segs @ gap, seg_views (length bt) segs)"
    and segs: "seg_headers segs = am" "length (bt @ seg_bytes segs @ gap) = length (bt @ ?T)"
    unfolding seg_views.simps(1) by blast
  have copy: "take (length ?T) (drop (length pre) buf) = ?T" using assms(3) by simp
  have idx: "length pre + length ?T + 2 - length pre - 2 = length ?T" by simp
  have "last_chunk cfg buf (length pre) bt chunks
      = ChunkEnd (bt @ seg_bytes segs @ gap) (length ?T) (seg_views (length bt) segs) (length pre + length ?T + 2) chunks"
    unfolding last_chunk_def scan TrailerScan.case Let_def idx copy length_append add_diff_cancel_right' parse [unfolded length_append]
    using start by simp
  moreover have "headers_seen (bt @ seg_bytes segs @ gap) (seg_views (length bt) segs) = am"
    using headers_seen_segs [of "length bt" bt segs gap] segs(1) by simp
  ultimately show ?thesis using segs(2) False by (intro exI [of _ "seg_bytes segs @ gap"] exI [of _ "seg_views (length bt) segs"]) simp
qed

lemma last_chunk_partial:
  assumes "list_all good_trailer ts" "2 \<le> k" "k < length (trailer_lines ts) + 2" "buf = pre @ take k (trailer_lines ts @ crlf)"
    "length (trailer_lines ts) \<le> maxHeaderBytes cfg"
  shows "last_chunk cfg buf (length pre) bt chunks = ChunkMore bt"
proof -
  have ts: "ts \<noteq> []" using assms(2,3) by auto
  have "take 2 (drop (length pre) buf) \<noteq> crlf"
    using trailers_not_empty_line [OF assms(1) ts, of "drop (length pre) buf" k crlf] assms(2-4) by simp
  moreover have "scan_trailers buf (length pre) (maxHeaderBytes cfg) (length pre) = ScanMore"
    by (rule scan_partial [OF assms(1,3,4)]) (use assms(5) in simp)
  ultimately show ?thesis by (simp add: last_chunk_def)
qed

section \<open>A body\<close>

definition chunk_stream :: "bytes list \<Rightarrow> (bytes \<times> bytes) list \<Rightarrow> bytes" where
  "chunk_stream ds ts = concat (map (emitData True) ds) @ emitEnd True (trailer_lines ts)"

lemma zero_line: "to_lower_hex 0 = [0x30]"
  by (subst to_lower_hex_rec) (simp add: kHexits_def)

lemma emitEnd_line: "emitEnd True tr = to_lower_hex 0 @ crlf @ tr @ crlf"
  by (simp add: emitEnd_def zero_line)

lemma chunk_stream_simps [simp]:
  "chunk_stream [] ts = to_lower_hex 0 @ crlf @ trailer_lines ts @ crlf" "chunk_stream (d # ds) ts = emitData True d @ chunk_stream ds ts"
  by (simp_all add: chunk_stream_def emitEnd_line)

lemma end_step:
  assumes "buf = pre @ to_lower_hex 0 @ crlf @ post" "2 \<le> length post" "length buf < 2 ^ 64"
  shows "chunk_loop cfg d m buf (length pre) bt chunks t = last_chunk cfg buf (length pre + 3) bt chunks"
proof -
  have v: "0 \<le> m" "(0 :: nat) < 2 ^ 64" by simp_all
  define p where "p = length pre + length (to_lower_hex 0)"
  note line = size_line [OF assms(1) refl v, folded p_def]
  have p: "p \<noteq> length buf" "\<not> length buf < (p + 2 + 0 + 2) mod 2 ^ 64" "p - length pre = length (to_lower_hex 0)"
    using assms by (simp_all add: p_def)
  have next_pos: "length pre + 3 = p + 2" by (simp add: p_def zero_line)
  show ?thesis unfolding next_pos
    by (subst chunk_loop.simps) (simp only: Let_def line p(1,3) sum.case p(2) if_False if_True refl)
qed

lemma chunk_loop_whole:
  assumes "[] \<notin> set ds" "length bt + length (concat ds) \<le> m" "list_all good_trailer ts"
    "merged (mergeUnknownRequestHeaders cfg) [] ts = Some am" "buf = pre @ chunk_stream ds ts @ post"
    "length (trailer_lines ts) \<le> maxHeaderBytes cfg" "length buf < 2 ^ 64"
  shows "\<exists>bt' views. chunk_loop cfg False m buf (length pre) bt [] t
      = ChunkEnd (bt @ concat ds @ bt') (length (trailer_lines ts)) views (length (pre @ chunk_stream ds ts)) []
    \<and> length bt' = length (trailer_lines ts) \<and> headers_seen (bt @ concat ds @ bt') views = am \<and> (ts = [] \<longrightarrow> views = [])"
  using assms
proof (induction ds arbitrary: pre bt)
  case Nil
  have buf: "buf = (pre @ to_lower_hex 0 @ crlf) @ trailer_lines ts @ crlf @ post" using Nil.prems(5) by simp
  have "chunk_loop cfg False m buf (length pre) bt [] t = last_chunk cfg buf (length pre + 3) bt []"
    by (rule end_step [of _ _ "trailer_lines ts @ crlf @ post"]) (use Nil.prems in auto)
  then show ?case using last_chunk_whole [OF Nil.prems(3,4) buf Nil.prems(6), of bt "[]"]
    by (simp add: zero_line numeral_3_eq_3)
next
  case (Cons d ds)
  have "chunk_loop cfg False m buf (length pre) bt [] t = chunk_loop cfg False m buf (length (pre @ emitData True d)) (bt @ d) [] t"
    by (rule chunk_step [of _ _ _ "chunk_stream ds ts @ post"]) (use Cons.prems in auto)
  moreover have "\<exists>bt' views. chunk_loop cfg False m buf (length (pre @ emitData True d)) (bt @ d) [] t
      = ChunkEnd ((bt @ d) @ concat ds @ bt') (length (trailer_lines ts)) views (length ((pre @ emitData True d) @ chunk_stream ds ts)) []
    \<and> length bt' = length (trailer_lines ts) \<and> headers_seen ((bt @ d) @ concat ds @ bt') views = am \<and> (ts = [] \<longrightarrow> views = [])"
    by (rule Cons.IH) (use Cons.prems in auto)
  ultimately show ?case by simp
qed

lemma chunk_loop_partial:
  assumes "[] \<notin> set ds" "length bt + length (concat ds) \<le> m" "list_all good_trailer ts" "k < length (chunk_stream ds ts)"
    "buf = pre @ take k (chunk_stream ds ts)" "length (trailer_lines ts) \<le> maxHeaderBytes cfg" "length (pre @ chunk_stream ds ts) < 2 ^ 64"
  shows "\<exists>bt'. chunk_loop cfg False m buf (length pre) bt [] t = ChunkMore bt'"
  using assms
proof (induction ds arbitrary: pre bt k)
  case Nil
  let ?T = "trailer_lines ts"
  show ?case
  proof (cases "k < 5")
    case True
    then have "chunk_loop cfg False m buf (length pre) bt [] t = ChunkMore bt"
      by (intro chunk_short [of k 0 _ _ "?T @ crlf"]) (use Nil.prems(5,7) in \<open>auto simp: zero_line\<close>)
    then show ?thesis by blast
  next
    case False
    have buf: "buf = (pre @ to_lower_hex 0 @ crlf) @ take (k - 3) (?T @ crlf)"
      using Nil.prems(5) take_within(2) [of "to_lower_hex 0 @ crlf" k "?T @ crlf"] False by (simp add: zero_line numeral_3_eq_3)
    have "chunk_loop cfg False m buf (length pre) bt [] t = last_chunk cfg buf (length pre + 3) bt []"
      by (rule end_step [of _ _ "take (k - 3) (?T @ crlf)"]) (use Nil.prems(4,7) False buf in \<open>auto simp: zero_line\<close>)
    also have "\<dots> = last_chunk cfg buf (length (pre @ to_lower_hex 0 @ crlf)) bt []" by (simp add: zero_line numeral_3_eq_3)
    also have "\<dots> = ChunkMore bt"
      by (rule last_chunk_partial [OF Nil.prems(3) _ _ buf Nil.prems(6)]) (use False Nil.prems(4) in \<open>auto simp: zero_line\<close>)
    finally show ?thesis by blast
  qed
next
  case (Cons d ds)
  show ?case
  proof (cases "k < length (emitData True d)")
    case True
    then have "chunk_loop cfg False m buf (length pre) bt [] t = ChunkMore bt"
      by (intro chunk_short [of k "length d" _ _ "d @ crlf @ chunk_stream ds ts"]) (use Cons.prems(2,5,7) in \<open>auto simp: emitData_def\<close>)
    then show ?thesis by blast
  next
    case False
    let ?k = "k - length (emitData True d)"
    have buf: "buf = pre @ emitData True d @ take ?k (chunk_stream ds ts)" using Cons.prems(5) False by simp
    have "chunk_loop cfg False m buf (length pre) bt [] t = chunk_loop cfg False m buf (length (pre @ emitData True d)) (bt @ d) [] t"
      by (rule chunk_step [OF _ buf]) (use Cons.prems buf in auto)
    moreover have "\<exists>bt'. chunk_loop cfg False m buf (length (pre @ emitData True d)) (bt @ d) [] t = ChunkMore bt'"
      by (rule Cons.IH [of _ ?k]) (use Cons.prems False buf in auto)
    ultimately show ?thesis by simp
  qed
qed

text \<open>The header views lie in the head, so what follows it does not change their contents.\<close>

definition headers_within :: "nat \<Rightarrow> RequestHead \<Rightarrow> bool" where
  "headers_within n h \<longleftrightarrow> list_all (\<lambda>(k, v). fst k + snd k \<le> n \<and> fst v + snd v \<le> n) (req_headers h)"

lemma headerValue_head:
  assumes "headers_within (length front) (req_head st)" "inBuffer st = front @ xs"
  shows "headerValue st name = headerValue (st\<lparr>inBuffer := front\<rparr>) name"
proof -
  have within: "fst (fst (req_headers (req_head st) ! i)) + snd (fst (req_headers (req_head st) ! i)) \<le> length front"
    "fst (snd (req_headers (req_head st) ! i)) + snd (snd (req_headers (req_head st) ! i)) \<le> length front"
    if "i < length (req_headers (req_head st))" for i
    using assms(1) that by (auto simp: headers_within_def list_all_length case_prod_beta)
  have same: "find (\<lambda>i. CaseInsensitiveEqual (view_bytes (front @ xs) (fst (req_headers (req_head st) ! i))) name) is
      = find (\<lambda>i. CaseInsensitiveEqual (view_bytes front (fst (req_headers (req_head st) ! i))) name) is"
    if "set is \<subseteq> {0..<length (req_headers (req_head st))}" for "is"
    using that by (induction "is") (auto simp: view_bytes_prefix within)
  show ?thesis unfolding headerValue_def assms(2)
    using same [of "[0..<length (req_headers (req_head st))]"]
    by (auto simp: find_entry_def view_bytes_prefix within find_Some_iff split: option.splits intro!: option.map_cong0)
qed

text \<open>
  C16. A chunked body as the writer emits it, from any non-empty pieces of data and any list of well-formed trailers that are allowed and whose
  repetitions may be joined, within the limits of the configuration: the decoder finds it ready, returns the data and the trailers with repeated values joined, and
  reports the end of the body, whatever follows. A proper part of it from the beginning, however short, is neither an error nor a body.\<close>

theorem chunked_body_roundtrip:
  assumes "[] \<notin> set ds" "length (concat ds) \<le> maxBody" "list_all good_trailer ts" "length (trailer_lines ts) \<le> maxHeaderBytes cfg"
    and "merged (mergeUnknownRequestHeaders cfg) [] ts = Some trailers"
    and "headSpanSize (req_head st) = length front" "headers_within (length front) (req_head st)" "req_trailers st = []"
    and "inBuffer st = front @ chunk_stream ds ts @ rest" "length (inBuffer st) < 2 ^ 64"
    and "WillDecompress (decompression_enable cfg) (headerValue st hdr_content_encoding) = WillNotDecompress"
  shows "(\<exists>st'. decodeBodyIfReady cfg st True False maxBody = (Ready, st', length (front @ chunk_stream ds ts))
      \<and> req_body st' = concat ds \<and> headers_seen (bodyAndTrailersBuffer st') (req_trailers st') = trailers
      \<and> trailerLen st' = length (trailer_lines ts) \<and> queued st' = queued st)
    \<and> (\<forall>k < length (chunk_stream ds ts). \<exists>st'. decodeBodyIfReady cfg (st\<lparr>inBuffer := front @ take k (chunk_stream ds ts)\<rparr>) True False maxBody
        = (NeedMore, st', 0) \<and> queued st' = queued st)"
proof -
  have plain: "WillDecompress (decompression_enable cfg)
      (headerValue (st\<lparr>inBuffer := front @ xs, bodyAndTrailersBuffer := [], trailerLen := 0\<rparr>) hdr_content_encoding) = WillNotDecompress" for xs
    using assms(11) headerValue_head [OF assms(7), of "chunk_stream ds ts @ rest" hdr_content_encoding] assms(9)
      headerValue_head [of front "st\<lparr>inBuffer := front @ xs, bodyAndTrailersBuffer := [], trailerLen := 0\<rparr>" xs hdr_content_encoding] assms(7)
    by (simp add: headerValue_def)
  let ?st = "st\<lparr>bodyAndTrailersBuffer := [], trailerLen := 0\<rparr>"
  have st: "?st = st\<lparr>inBuffer := front @ chunk_stream ds ts @ rest, bodyAndTrailersBuffer := [], trailerLen := 0\<rparr>"
    by (simp add: assms(9) [symmetric])
  obtain bt' views where loop: "chunk_loop cfg False maxBody (inBuffer st) (length front) [] [] 0
      = ChunkEnd (concat ds @ bt') (length (trailer_lines ts)) views (length (front @ chunk_stream ds ts)) []"
    and bt': "length bt' = length (trailer_lines ts)" "headers_seen (concat ds @ bt') views = trailers" "ts = [] \<Longrightarrow> views = []"
    using chunk_loop_whole [OF assms(1) _ assms(3,5,9,4,10), of "[]" maxBody 0] assms(2) by auto
  have "views = []" if "length (trailer_lines ts) = 0" using that bt'(3) by (cases ts) (auto simp: header_line_def)
  then have "\<exists>st'. decodeBodyIfReady cfg st True False maxBody = (Ready, st', length (front @ chunk_stream ds ts))
      \<and> req_body st' = concat ds \<and> headers_seen (bodyAndTrailersBuffer st') (req_trailers st') = trailers
      \<and> trailerLen st' = length (trailer_lines ts) \<and> queued st' = queued st"
    using plain [of "chunk_stream ds ts @ rest", folded st] loop bt' assms(6,8)
    by (auto simp: decodeBodyIfReady_def decodeChunkedBody_def Let_def)
  moreover have "\<exists>st'. decodeBodyIfReady cfg (st\<lparr>inBuffer := front @ take k (chunk_stream ds ts)\<rparr>) True False maxBody = (NeedMore, st', 0)
      \<and> queued st' = queued st" if k: "k < length (chunk_stream ds ts)" for k
  proof -
    obtain bt where "chunk_loop cfg False maxBody (front @ take k (chunk_stream ds ts)) (length front) [] [] 0 = ChunkMore bt"
      using chunk_loop_partial [OF assms(1) _ assms(3) k refl assms(4), of "[]" maxBody front 0] assms(2,9,10) by auto
    then show ?thesis using plain [of "take k (chunk_stream ds ts)"] assms(6)
      by (simp add: decodeBodyIfReady_def decodeChunkedBody_def Let_def)
  qed
  ultimately show ?thesis by blast
qed

text \<open>A body in two pieces with a repeated trailer.\<close>

definition sample_state :: BodyState where
  "sample_state = \<lparr>inBuffer = [0x47] @ chunk_stream [[1, 2], [3]] [([0x58], [0x61]), ([0x78], [0x62])] @ [9],
     req_head = \<lparr>req_method = POST, req_path = (0, 1), req_query = (0, 0), req_version = 0x11, req_headers = [], headSpanSize = 1\<rparr>,
     bodyAndTrailersBuffer = [7], trailerLen = 5, req_trailers = [], req_body = [], compressedChunks = [], queued = []\<rparr>"

definition sample_config :: BodyConfig where
  "sample_config = \<lparr>maxHeaderBytes = 20, mergeUnknownRequestHeaders = True, decompression_enable = True, maxCompressedBytes = 0\<rparr>"

lemma sample_trailers: "merged (mergeUnknownRequestHeaders sample_config) [] [([0x58], [0x61]), ([0x78], [0x62])] = Some [([0x58], [0x61, 0x2C, 0x62])]"
  by code_simp

theorem chunked_body_roundtrip_witness:
  "(\<exists>st'. decodeBodyIfReady sample_config sample_state True False 3
        = (Ready, st', length ([0x47] @ chunk_stream [[1, 2], [3]] [([0x58], [0x61]), ([0x78], [0x62])]))
      \<and> req_body st' = [1, 2, 3] \<and> headers_seen (bodyAndTrailersBuffer st') (req_trailers st') = [([0x58], [0x61, 0x2C, 0x62])]
      \<and> trailerLen st' = 12 \<and> queued st' = [])
    \<and> (\<exists>st'. decodeBodyIfReady sample_config (sample_state\<lparr>inBuffer := [0x47] @ take 4 (chunk_stream [[1, 2], [3]] [([0x58], [0x61]), ([0x78], [0x62])])\<rparr>)
        True False 3 = (NeedMore, st', 0) \<and> queued st' = [])"
proof -
  have "[] \<notin> set [[1 :: u8, 2], [3]]" "length (concat [[1 :: u8, 2], [3]]) \<le> 3" by simp_all
  note data = this
  have "list_all good_trailer [([0x58], [0x61]), ([0x78], [0x62])]" by code_simp
  note trailers = this
  have size: "length (trailer_lines [([0x58], [0x61]), ([0x78], [0x62])]) = 12" by code_simp
  have max: "length (trailer_lines [([0x58], [0x61]), ([0x78], [0x62])]) \<le> maxHeaderBytes sample_config" unfolding size sample_config_def by simp
  have head: "headSpanSize (req_head sample_state) = length [0x47 :: u8]" "headers_within (length [0x47 :: u8]) (req_head sample_state)"
    "req_trailers sample_state = []" "inBuffer sample_state = [0x47] @ chunk_stream [[1, 2], [3]] [([0x58], [0x61]), ([0x78], [0x62])] @ [9]"
    by (simp_all add: sample_state_def headers_within_def)
  have "length (inBuffer sample_state) = 32" by code_simp
  then have len: "length (inBuffer sample_state) < 2 ^ 64" by simp
  have enc: "WillDecompress (decompression_enable sample_config) (headerValue sample_state hdr_content_encoding) = WillNotDecompress" by code_simp
  have four: "4 < length (chunk_stream [[1, 2], [3]] [([0x58], [0x61]), ([0x78], [0x62])])" by code_simp
  have queue: "queued sample_state = []" by (simp add: sample_state_def)
  show ?thesis
    using chunked_body_roundtrip [OF data trailers max sample_trailers head len enc] four unfolding size queue by (auto simp del: chunk_stream_simps)
qed

section \<open>A declared length\<close>

lemma decimal_digit:
  assumes "d < 10"
  shows "(0x30 :: u8) \<le> of_nat (48 + d) \<and> of_nat (48 + d) \<le> (0x39 :: u8)" "unat (of_nat (48 + d) - (0x30 :: u8)) = d"
proof -
  have "list_all (\<lambda>d. (0x30 :: u8) \<le> of_nat (48 + d) \<and> of_nat (48 + d) \<le> (0x39 :: u8) \<and> unat (of_nat (48 + d) - (0x30 :: u8)) = d) [0..<10]"
    by code_simp
  then show "(0x30 :: u8) \<le> of_nat (48 + d) \<and> of_nat (48 + d) \<le> (0x39 :: u8)" "unat (of_nat (48 + d) - (0x30 :: u8)) = d"
    using assms by (auto simp: list_all_iff simp del: upt_Suc)
qed

lemma to_chars_digits:
  "list_all (\<lambda>c. 0x30 \<le> c \<and> c \<le> 0x39) (to_chars n) \<and> foldl (\<lambda>n c. n * 10 + unat (c - 0x30)) 0 (to_chars n) = n"
proof (induction n rule: less_induct)
  case (less n)
  note digit = decimal_digit [of "n mod 10"]
  show ?case
  proof (cases "n < 10")
    case True
    then show ?thesis using digit by (subst (1 2) to_chars.simps) simp
  next
    case False
    then show ?thesis using less.IH [of "n div 10"] digit by (subst (1 2) to_chars.simps) simp
  qed
qed

lemma from_chars_to_chars: "n < 2 ^ 64 \<Longrightarrow> from_chars (to_chars n) = Some (n, [])"
proof -
  assume n: "n < 2 ^ 64"
  let ?P = "\<lambda>c :: u8. 0x30 \<le> c \<and> c \<le> 0x39"
  have "takeWhile ?P (to_chars n) = to_chars n" "dropWhile ?P (to_chars n) = []"
    using to_chars_digits [of n] by (simp_all add: list_all_iff takeWhile_eq_all_conv dropWhile_eq_Nil_conv)
  moreover have "to_chars n \<noteq> []" by (subst to_chars.simps) simp
  ultimately show ?thesis using to_chars_digits [of n] n by (simp add: from_chars_def Let_def del: takeWhile_eq_all_conv dropWhile_eq_Nil_conv)
qed

text \<open>A body whose length is declared in decimal is ready exactly when all of it has arrived.\<close>

lemma fixed_body_exact:
  assumes "headerValue (st\<lparr>trailerLen := 0\<rparr>) hdr_content_length = Some (to_chars n)" "n \<le> maxBody" "headSpanSize (req_head st) = length front"
    "inBuffer st = front @ xs" "length front + n < 2 ^ 64"
  shows "decodeBodyIfReady cfg st False False maxBody =
    (if length xs < n then (NeedMore, st\<lparr>trailerLen := 0\<rparr>, 0)
     else (Ready, st\<lparr>trailerLen := 0, req_body := take n xs\<rparr>, length front + n))"
  using assms from_chars_to_chars [of n]
  by (simp add: decodeBodyIfReady_def decodeFixedLengthBody_def Let_def)

section \<open>Where the decoder is lenient\<close>

text \<open>
  A size line without a digit counts as the last chunk: the empty line before the data ends the body and the data is left for the next request.
\<close>

lemma empty_size_line_ends_body:
  "length xs < 2 ^ 60 \<Longrightarrow> chunk_loop cfg False maxBody (crlf @ crlf @ xs) 0 [] [] 0 = ChunkEnd [] 0 [] 4 []"
proof -
  have "SearchCRLF ([] @ [] @ crlf @ crlf @ xs) 0 (length (crlf @ crlf @ xs)) = 0 + length ([] :: bytes)"
    by (rule SearchCRLF_line) simp_all
  then show ?thesis by (subst chunk_loop.simps) (simp add: Let_def find_char_def memchr_def view_bytes_def last_chunk_def)
qed

text \<open>With \<^verbatim>\<open>Expect: 100-continue\<close>, every call that finds the body incomplete queues the interim response again.\<close>

lemma continue_queued_again:
  assumes "decodeBodyIfReady cfg st True True maxBody = (NeedMore, st', n)"
  shows "queued st' = queued st @ [100]"
  using assms by (auto simp: decodeBodyIfReady_def decodeChunkedBody_def Let_def split: ChunkResult.splits if_splits)

text \<open>
  Before a handler runs, \<^verbatim>\<open>maybeDecompressRequestBody\<close> parses the trailers of a non-empty body a second time from the same buffer, in which the
  first parse has joined repeated values in place. What that left behind of a repeated line is then read as a trailer of its own.
\<close>

definition repeated_trailer :: bytes where
  "repeated_trailer = trailer_lines [([0x58, 0x79, 0x7A], [0x61]), ([0x58, 0x79, 0x7A], [0x62])]"

definition trailers_once :: "(bytes \<times> header_views) option" where
  "trailers_once = parseHeadersUnchecked repeated_trailer [] 0 (length repeated_trailer) True"

definition trailers_twice :: "(bytes \<times> header_views) option" where
  "trailers_twice = (case trailers_once of None \<Rightarrow> None | Some (buf, _) \<Rightarrow> parseHeadersUnchecked buf [] 0 (length buf) True)"

lemma trailers_parsed_twice:
  "map_option (\<lambda>(buf, hs). headers_seen buf hs) trailers_once = Some [([0x58, 0x79, 0x7A], [0x61, 0x2C, 0x62])]"
  "map_option (\<lambda>(buf, hs). headers_seen buf hs) trailers_twice = Some [([0x58, 0x79, 0x7A], [0x61, 0x2C, 0x62]), ([0x7A], [0x62])]"
  by - code_simp+

end
