(* ===== verification/Route_Constraint.thy ===== *)
theory Route_Constraint
  imports Decimal Ascii
begin

text \<open>
  Constraints on path parameters (\<^verbatim>\<open>route-constraint.cpp\<close>): a parser for a subset of regular expressions and a backtracking matcher for it. Patterns outside the
  subset go to \<^verbatim>\<open>std::regex\<close>, which is a parameter here. The theorem shows that the matcher, which terminates on every input, accepts exactly the texts that can be cut
  into repetitions of the pattern's atoms, and that the parser reads a written pattern back.
\<close>

section \<open>Patterns\<close>

record CharClass =
  ranges :: "(u8 \<times> u8) list"
  negated :: bool

record Atom =
  charClass :: CharClass
  minRep :: u32
  maxRep :: u32

text \<open>\<^verbatim>\<open>char\<close> is a signed type on the platforms the code is built for.\<close>

definition contains :: "CharClass \<Rightarrow> u8 \<Rightarrow> bool" where
  "contains cc ch \<longleftrightarrow> negated cc \<noteq> list_ex (\<lambda>(lo, hi). sint lo \<le> sint ch \<and> sint ch \<le> sint hi) (ranges cc)"

section \<open>The matcher\<close>

text \<open>The inner loop: as many bytes from \<open>valuePos\<close> on as the atom takes.\<close>

definition greedy :: "Atom \<Rightarrow> bytes \<Rightarrow> nat \<Rightarrow> nat" where
  "greedy atom val valuePos =
     length (takeWhile (contains (charClass atom)) (take (unat (maxRep atom)) (drop valuePos val)))"

text \<open>
  The state of the matcher is the stack of the atoms before \<^verbatim>\<open>atomIdx\<close>, the last first, each with its entry in \<^verbatim>\<open>usedPerAtom\<close>, the atoms from \<^verbatim>\<open>atomIdx\<close> on
  (entries of \<^verbatim>\<open>usedPerAtom\<close> from there on are never read), and \<^verbatim>\<open>valuePos\<close>. The weight of a state bounds the steps that are left.
\<close>

fun subtree :: "nat \<Rightarrow> nat \<Rightarrow> nat \<Rightarrow> nat" where
  "subtree len n 0 = n + 1"
| "subtree len n (Suc m) = (len + 1) * subtree len n m + n + 1"

fun stack_weight :: "nat \<Rightarrow> nat \<Rightarrow> (Atom \<times> nat) list \<Rightarrow> nat \<Rightarrow> nat" where
  "stack_weight len n [] m = 0"
| "stack_weight len n ((a, c) # st) m = c * subtree len n m + stack_weight len n st (Suc m)"

lemma subtree_gt: "n < subtree len n m"
  by (cases m) auto

lemma greedy_le: "greedy atom val pos \<le> length val"
  unfolding greedy_def by (rule order_trans [OF length_takeWhile_le]) simp

function forward :: "bytes \<Rightarrow> (Atom \<times> nat) list \<Rightarrow> Atom list \<Rightarrow> nat \<Rightarrow> bool"
  and backtrack :: "bytes \<Rightarrow> (Atom \<times> nat) list \<Rightarrow> Atom list \<Rightarrow> nat \<Rightarrow> bool" where
  "forward val st [] pos = (if pos = length val then True else backtrack val st [] pos)"
| "forward val st (atom # rest) pos =
     (let count = greedy atom val pos in
      if unat (minRep atom) \<le> count then forward val ((atom, count) # st) rest (pos + count)
      else backtrack val st (atom # rest) pos)"
| "backtrack val [] rest pos = False"
| "backtrack val ((atom, used) # st) rest pos =
     (let pos1 = pos - used in
      if unat (minRep atom) < used then forward val ((atom, used - 1) # st) rest (pos1 + (used - 1))
      else backtrack val st (atom # rest) pos1)"
  by pat_completeness auto
termination
proof (relation "measure (\<lambda>s. case s of
     Inl (val, st, rest, pos) \<Rightarrow> (let n = length st + length rest in
       stack_weight (length val) n st (length rest) + subtree (length val) n (length rest))
   | Inr (val, st, rest, pos) \<Rightarrow> (let n = length st + length rest in
       stack_weight (length val) n st (length rest) + length st))", goal_cases)
  case (2 val st pos)
  then show ?case using subtree_gt [of "length st" "length val" 0] by (simp add: Let_def)
next
  case (3 val st atom rest pos count)
  have "count \<le> length val" using 3 greedy_le [of atom val pos] by simp
  then show ?case by (auto simp: Let_def intro!: le_imp_less_Suc le_SucI trans_le_add1 mult_le_mono1)
next
  case (4 val st atom rest pos count)
  then show ?case by (simp add: Let_def)
next
  case (5 val atom used st rest pos pos1)
  then obtain u where "used = Suc u" by (cases used) auto
  then show ?case by (simp add: Let_def)
next
  case (6 val atom used st rest pos pos1)
  then show ?case by (simp add: Let_def)
qed simp

declare forward.simps [simp del] backtrack.simps [simp del]

definition fast_matches :: "Atom list \<Rightarrow> bytes \<Rightarrow> bool" where
  "fast_matches atoms val = forward val [] atoms 0"

section \<open>The parser\<close>

fun shorthand :: "u8 \<Rightarrow> (u8 \<times> u8) list option" where
  "shorthand ch =
     (if ch = 0x64 then Some [(0x30, 0x39)]
      else if ch = 0x77 then Some [(0x61, 0x7A), (0x41, 0x5A), (0x30, 0x39), (0x5F, 0x5F)]
      else if ch = 0x73 then Some [(0x20, 0x20), (0x09, 0x09), (0x0A, 0x0A), (0x0D, 0x0D)]
      else None)"

text \<open>One item of a class: a shorthand, a range or a single character, with the position behind it.\<close>

definition class_item :: "bytes \<Rightarrow> nat \<Rightarrow> (u8 \<times> u8) list \<times> nat" where
  "class_item pattern pos =
     (let escaped = (pattern ! pos = 0x5C \<and> pos + 1 < length pattern);
          pos1 = (if escaped then pos + 1 else pos); ch = pattern ! pos1 in
      case (if escaped then shorthand ch else None) of
        Some rs \<Rightarrow> (rs, pos1 + 1)
      | None \<Rightarrow>
          if pos1 + 2 < length pattern \<and> pattern ! (pos1 + 1) = 0x2D \<and> pattern ! (pos1 + 2) \<noteq> 0x5D then
            (if pattern ! (pos1 + 2) = 0x5C \<and> pos1 + 3 < length pattern then ([(ch, pattern ! (pos1 + 3))], pos1 + 4)
             else ([(ch, pattern ! (pos1 + 2))], pos1 + 3))
          else ([(ch, ch)], pos1 + 1))"

lemma class_item_pos: "pos < snd (class_item pattern pos)"
  by (auto simp: class_item_def Let_def split: option.splits)

function class_loop :: "bytes \<Rightarrow> nat \<Rightarrow> (u8 \<times> u8) list \<Rightarrow> (u8 \<times> u8) list \<times> nat" where
  "class_loop pattern pos rs =
     (if pos < length pattern \<and> pattern ! pos \<noteq> 0x5D
      then class_loop pattern (snd (class_item pattern pos)) (rs @ fst (class_item pattern pos)) else (rs, pos))"
  by pat_completeness auto
termination
  by (relation "measure (\<lambda>(pattern, pos, rs). length pattern - pos)") (auto intro!: diff_less_mono2 class_item_pos)

declare class_loop.simps [simp del]

text \<open>\<open>None\<close> is the exception \<^verbatim>\<open>std::regex_error\<close> for a class that is not closed.\<close>

definition ParseCharClass :: "bytes \<Rightarrow> nat \<Rightarrow> (CharClass \<times> nat) option" where
  "ParseCharClass pattern pos =
     (let neg = (pos < length pattern \<and> pattern ! pos = 0x5E);
          (rs, pos1) = class_loop pattern (if neg then pos + 1 else pos) [] in
      if length pattern \<le> pos1 then None else Some (\<lparr>ranges = rs, negated = neg\<rparr>, pos1 + 1))"

function digits_loop :: "bytes \<Rightarrow> nat \<Rightarrow> u32 \<Rightarrow> u32 \<times> nat" where
  "digits_loop pattern pos v =
     (if pos < length pattern \<and> 0x30 \<le> pattern ! pos \<and> pattern ! pos \<le> 0x39
      then digits_loop pattern (pos + 1) (v * 10 + ucast (pattern ! pos - 0x30)) else (v, pos))"
  by pat_completeness auto
termination by (relation "measure (\<lambda>(pattern, pos, v). length pattern - pos)") auto

declare digits_loop.simps [simp del]

definition ParseQuantifier :: "bytes \<Rightarrow> nat \<Rightarrow> (u32 \<times> u32) \<times> nat" where
  "ParseQuantifier pattern pos =
     (if length pattern \<le> pos then ((1, 1), pos)
      else if pattern ! pos = 0x2B then ((1, 0xFFFFFFFF), pos + 1)
      else if pattern ! pos = 0x2A then ((0, 0xFFFFFFFF), pos + 1)
      else if pattern ! pos = 0x3F then ((0, 1), pos + 1)
      else if pattern ! pos = 0x7B then
        (let (minVal, pos1) = digits_loop pattern (pos + 1) 0 in
         if pos1 < length pattern \<and> pattern ! pos1 = 0x7D then ((minVal, minVal), pos1 + 1)
         else if pos1 < length pattern \<and> pattern ! pos1 = 0x2C then
           (if pos1 + 1 < length pattern \<and> pattern ! (pos1 + 1) = 0x7D then ((minVal, 0xFFFFFFFF), pos1 + 2)
            else
              (let (maxVal, pos2) = digits_loop pattern (pos1 + 1) 0 in
               if pos2 < length pattern \<and> pattern ! pos2 = 0x7D then ((minVal, maxVal), pos2 + 1) else ((0, 0), pos2)))
         else ((0, 0), pos1))
      else ((1, 1), pos))"

datatype AtomStart = StartClass CharClass nat | StartFallback | StartError

definition escaped_class :: "u8 \<Rightarrow> CharClass" where
  "escaped_class ch =
     (case shorthand ch of
        Some rs \<Rightarrow> \<lparr>ranges = rs, negated = False\<rparr>
      | None \<Rightarrow>
          (case (if ch \<in> {0x44, 0x57, 0x53} then shorthand (ch + 0x20) else None) of
             Some rs \<Rightarrow> \<lparr>ranges = rs, negated = True\<rparr>
           | None \<Rightarrow> \<lparr>ranges = [(ch, ch)], negated = False\<rparr>))"

definition atom_start :: "bytes \<Rightarrow> nat \<Rightarrow> AtomStart" where
  "atom_start pattern pos =
     (let ch = pattern ! pos in
      if ch = 0x5B then
        (case ParseCharClass pattern (pos + 1) of None \<Rightarrow> StartError | Some (cc, pos1) \<Rightarrow> StartClass cc pos1)
      else if ch = 0x2E then StartClass \<lparr>ranges = [(0x0A, 0x0A), (0x0D, 0x0D)], negated = True\<rparr> (pos + 1)
      else if ch = 0x5C then
        (if length pattern \<le> pos + 1 then StartFallback else StartClass (escaped_class (pattern ! (pos + 1))) (pos + 2))
      else if ch \<in> {0x28, 0x7C, 0x29, 0x5E, 0x24} then StartFallback
      else StartClass \<lparr>ranges = [(ch, ch)], negated = False\<rparr> (pos + 1))"

datatype CompileResult = Compiled "Atom list" | CompileFallback | CompileError

lemma class_loop_pos: "pos \<le> snd (class_loop pattern pos rs)"
proof (induction pattern pos rs rule: class_loop.induct)
  case (1 pattern pos rs)
  show ?case using 1 class_item_pos [of pos pattern] by (subst class_loop.simps) (auto intro: order_trans less_imp_le)
qed

lemma digits_loop_pos: "pos \<le> snd (digits_loop pattern pos v)"
proof (induction pattern pos v rule: digits_loop.induct)
  case (1 pattern pos v)
  show ?case
  proof (cases "pos < length pattern \<and> 0x30 \<le> pattern ! pos \<and> pattern ! pos \<le> 0x39")
    case True
    from 1 [OF True] show ?thesis by (subst digits_loop.simps) (use True in simp)
  next
    case False
    then show ?thesis by (subst digits_loop.simps) auto
  qed
qed

lemma ParseQuantifier_pos: "pos \<le> snd (ParseQuantifier pattern pos)"
  using digits_loop_pos [of "pos + 1" pattern 0] digits_loop_pos [of "snd (digits_loop pattern (pos + 1) 0) + 1" pattern 0]
  by (auto simp: ParseQuantifier_def Let_def case_prod_beta)

lemma atom_start_pos: "atom_start pattern pos = StartClass cc pos1 \<Longrightarrow> pos < pos1"
  using class_loop_pos [of "pos + 1" pattern "[]"] class_loop_pos [of "pos + 2" pattern "[]"]
  by (auto simp: atom_start_def ParseCharClass_def Let_def case_prod_beta split: if_splits)

function compile_loop :: "bytes \<Rightarrow> nat \<Rightarrow> Atom list \<Rightarrow> CompileResult" where
  "compile_loop pattern pos atoms =
     (if pos < length pattern then
        (case atom_start pattern pos of
           StartError \<Rightarrow> CompileError
         | StartFallback \<Rightarrow> CompileFallback
         | StartClass cc pos1 \<Rightarrow>
             (let (minRep, maxRep) = fst (ParseQuantifier pattern pos1); pos2 = snd (ParseQuantifier pattern pos1) in
              if minRep = 0 \<and> maxRep = 0 \<and> pattern ! (pos2 - 1) \<noteq> 0x7D then CompileFallback
              else compile_loop pattern pos2 (atoms @ [\<lparr>charClass = cc, minRep = minRep, maxRep = maxRep\<rparr>])))
      else Compiled atoms)"
  by pat_completeness auto
termination
proof (relation "measure (\<lambda>(pattern, pos, atoms). length pattern - pos)", goal_cases)
  case (2 pattern pos atoms cc pos1)
  then show ?case using atom_start_pos [of pattern pos cc pos1] ParseQuantifier_pos [of pos1 pattern] by auto
qed simp

declare compile_loop.simps [simp del]

definition TryCompileFast :: "bytes \<Rightarrow> CompileResult" where
  "TryCompileFast pattern = compile_loop pattern 0 []"

text \<open>The constraint: \<open>None\<close> is the exception of the parser, \<open>regex_match\<close> stands for \<^verbatim>\<open>std::regex_match\<close> with the compiled expression.\<close>

datatype RouteConstraint = EmptyConstraint | FastConstraint "Atom list" | RegexConstraint bytes

definition initializeCompiledState :: "bytes \<Rightarrow> RouteConstraint option" where
  "initializeCompiledState pattern =
     (if pattern = [] then Some EmptyConstraint
      else case TryCompileFast pattern of
        Compiled atoms \<Rightarrow> Some (FastConstraint atoms)
      | CompileFallback \<Rightarrow> Some (RegexConstraint pattern)
      | CompileError \<Rightarrow> None)"

definition constraint_matches :: "(bytes \<Rightarrow> bytes \<Rightarrow> bool) \<Rightarrow> RouteConstraint \<Rightarrow> bytes \<Rightarrow> bool" where
  "constraint_matches regex_match rc val =
     (case rc of EmptyConstraint \<Rightarrow> True | FastConstraint atoms \<Rightarrow> fast_matches atoms val | RegexConstraint pattern \<Rightarrow> regex_match pattern val)"

section \<open>The language of a pattern\<close>

fun lang :: "Atom list \<Rightarrow> bytes \<Rightarrow> bool" where
  "lang [] s \<longleftrightarrow> s = []"
| "lang (a # as) s \<longleftrightarrow>
     (\<exists>k \<le> length s. unat (minRep a) \<le> k \<and> k \<le> unat (maxRep a) \<and> list_all (contains (charClass a)) (take k s) \<and> lang as (drop k s))"

declare lang.simps(2) [simp del]

lemma greedy_iff:
  assumes "pos \<le> length val"
  shows "k \<le> greedy a val pos \<longleftrightarrow>
    k \<le> length (drop pos val) \<and> k \<le> unat (maxRep a) \<and> list_all (contains (charClass a)) (take k (drop pos val))"
proof -
  let ?P = "contains (charClass a)" and ?s = "drop pos val"
  have prefix: "k \<le> length (takeWhile ?P xs) \<longleftrightarrow> k \<le> length xs \<and> list_all ?P (take k xs)" for k xs
  proof (induction xs arbitrary: k)
    case (Cons x xs)
    then show ?case by (cases k) auto
  qed simp
  show ?thesis unfolding greedy_def prefix by (auto simp: min_def)
qed

text \<open>What is left to try when the last choices, from the top of the stack down, are reduced.\<close>

fun alternatives :: "bytes \<Rightarrow> (Atom \<times> nat) list \<Rightarrow> Atom list \<Rightarrow> nat \<Rightarrow> bool" where
  "alternatives val [] rest pos \<longleftrightarrow> False"
| "alternatives val ((a, c) # st) rest pos \<longleftrightarrow>
     (\<exists>c' < c. unat (minRep a) \<le> c' \<and> lang rest (drop (pos - c + c') val)) \<or> alternatives val st (a # rest) (pos - c)"

fun stack_ok :: "bytes \<Rightarrow> (Atom \<times> nat) list \<Rightarrow> nat \<Rightarrow> bool" where
  "stack_ok val [] pos \<longleftrightarrow> pos = 0"
| "stack_ok val ((a, c) # st) pos \<longleftrightarrow> c \<le> pos \<and> unat (minRep a) \<le> c \<and> c \<le> greedy a val (pos - c) \<and> stack_ok val st (pos - c)"

lemma stack_ok_pos: "stack_ok val st pos \<Longrightarrow> pos \<le> length val"
proof (induction st arbitrary: pos)
  case (Cons x st)
  obtain a c where x: "x = (a, c)" by (cases x)
  then have "pos - c \<le> length val" "c \<le> greedy a val (pos - c)" "c \<le> pos" using Cons by auto
  then show ?case using greedy_iff [of "pos - c" val c a] by auto
qed simp

lemma lang_greedy:
  assumes "pos \<le> length val"
  shows "lang (a # as) (drop pos val) \<longleftrightarrow> (\<exists>k \<le> greedy a val pos. unat (minRep a) \<le> k \<and> lang as (drop (pos + k) val))"
  using greedy_iff [OF assms, of _ a] by (auto simp: lang.simps(2) add.commute)

lemma matcher_explores:
  "stack_ok val st pos \<Longrightarrow> forward val st rest pos \<longleftrightarrow> lang rest (drop pos val) \<or> alternatives val st rest pos"
  "stack_ok val st pos \<Longrightarrow> backtrack val st rest pos \<longleftrightarrow> alternatives val st rest pos"
proof (induction val st rest pos and val st rest pos rule: forward_backtrack.induct)
  case (1 val st pos)
  then show ?case using stack_ok_pos [OF 1(2)] by (auto simp: forward.simps)
next
  case (2 val st a rest pos)
  let ?g = "greedy a val pos"
  have pos: "pos \<le> length val" by (rule stack_ok_pos [OF 2(3)])
  show ?case
  proof (cases "unat (minRep a) \<le> ?g")
    case True
    have "forward val ((a, ?g) # st) rest (pos + ?g)
        \<longleftrightarrow> lang rest (drop (pos + ?g) val) \<or> alternatives val ((a, ?g) # st) rest (pos + ?g)"
      by (rule 2(1) [OF refl True]) (use 2(3) True in simp)
    moreover have "alternatives val ((a, ?g) # st) rest (pos + ?g) \<longleftrightarrow>
        (\<exists>c < ?g. unat (minRep a) \<le> c \<and> lang rest (drop (pos + c) val)) \<or> alternatives val st (a # rest) pos" by simp
    ultimately show ?thesis
      unfolding forward.simps(2) Let_def lang_greedy [OF pos, of a rest] using True by (auto simp: le_less)
  next
    case False
    then show ?thesis using 2(2) [OF refl False 2(3)] lang_greedy [OF pos, of a rest] by (auto simp: forward.simps(2))
  qed
next
  case (3 val rest pos)
  then show ?case by (simp add: backtrack.simps)
next
  case (4 val a c st rest pos)
  show ?case
  proof (cases "unat (minRep a) < c")
    case True
    have "forward val ((a, c - 1) # st) rest (pos - c + (c - 1))
        \<longleftrightarrow> lang rest (drop (pos - c + (c - 1)) val) \<or> alternatives val ((a, c - 1) # st) rest (pos - c + (c - 1))"
      by (rule 4(1) [OF refl True]) (use 4(3) True in auto)
    moreover have "(\<exists>c' < c. unat (minRep a) \<le> c' \<and> Q c') \<longleftrightarrow> Q (c - 1) \<or> (\<exists>c' < c - 1. unat (minRep a) \<le> c' \<and> Q c')" for Q
    proof -
      obtain d where "c = Suc d" using True by (cases c) auto
      then show ?thesis using True by (auto simp: less_Suc_eq)
    qed
    moreover have "pos - c + (c - 1) - (c - 1) = pos - c" by simp
    ultimately show ?thesis unfolding backtrack.simps(2) alternatives.simps(2) Let_def using True by simp
  next
    case False
    then show ?thesis using 4(2) [OF refl False] 4(3) unfolding backtrack.simps(2) alternatives.simps(2) Let_def by auto
  qed
qed

lemma fast_matches_lang: "fast_matches atoms val \<longleftrightarrow> lang atoms val"
  using matcher_explores(1) [of val "[]" 0 atoms] by (simp add: fast_matches_def)

section \<open>Written patterns\<close>

text \<open>A class written in brackets, with every range spelled out, and a quantifier with both bounds.\<close>

definition render_range :: "u8 \<times> u8 \<Rightarrow> bytes" where
  "render_range r = [fst r, 0x2D, snd r]"

definition render_class :: "CharClass \<Rightarrow> bytes" where
  "render_class cc = [0x5B] @ (if negated cc then [0x5E] else []) @ concat (map render_range (ranges cc)) @ [0x5D]"

definition render_quantifier :: "u32 \<Rightarrow> u32 \<Rightarrow> bytes" where
  "render_quantifier mn mx = [0x7B] @ to_chars (unat mn) @ [0x2C] @ to_chars (unat mx) @ [0x7D]"

definition render_atom :: "Atom \<Rightarrow> bytes" where
  "render_atom a = render_class (charClass a) @ render_quantifier (minRep a) (maxRep a)"

definition range_ok :: "u8 \<times> u8 \<Rightarrow> bool" where
  "range_ok r \<longleftrightarrow> fst r \<notin> {0x5C, 0x5D, 0x5E} \<and> snd r \<notin> {0x5C, 0x5D}"

definition atom_ok :: "Atom \<Rightarrow> bool" where
  "atom_ok a \<longleftrightarrow> list_all range_ok (ranges (charClass a))"

lemma class_loop_ranges:
  assumes "list_all range_ok rs" "pattern = pre @ concat (map render_range rs) @ [0x5D] @ post" "pos = length pre"
  shows "class_loop pattern pos acc = (acc @ rs, pos + length (concat (map render_range rs)))"
  using assms
proof (induction rs arbitrary: pre pos acc)
  case Nil
  then show ?case by (subst class_loop.simps) simp
next
  case (Cons r rs)
  obtain lo hi where r: "r = (lo, hi)" by (cases r)
  let ?tail = "concat (map render_range rs) @ [0x5D] @ post"
  have pat: "pattern = pre @ [lo, 0x2D, hi] @ ?tail" using Cons.prems(2) by (simp add: r render_range_def [of "(lo, hi)"])
  have ok: "lo \<noteq> 0x5C" "lo \<noteq> 0x5D" "hi \<noteq> 0x5C" "hi \<noteq> 0x5D" using Cons.prems(1) by (simp_all add: r range_ok_def)
  have chars: "pattern ! pos = lo" "pattern ! (pos + 1) = 0x2D" "pattern ! (pos + 2) = hi" "pos + 2 < length pattern"
    using Cons.prems(3) by (simp_all add: pat nth_append)
  then have item: "class_item pattern pos = ([r], pos + 3)" using ok by (simp add: class_item_def r)
  have "class_loop pattern (pos + 3) (acc @ [r]) = ((acc @ [r]) @ rs, pos + 3 + length (concat (map render_range rs)))"
    by (rule Cons.IH [of "pre @ [lo, 0x2D, hi]"]) (use Cons.prems pat in \<open>auto simp: r render_range_def [of "(lo, hi)"]\<close>)
  then show ?case using chars ok item by (subst class_loop.simps) (simp add: render_range_def [of r])
qed

lemma ParseCharClass_render:
  assumes "list_all range_ok (ranges cc)" "pattern = pre @ render_class cc @ post" "pos = length pre"
  shows "ParseCharClass pattern (pos + 1) = Some (cc, pos + length (render_class cc))"
proof -
  let ?neg = "if negated cc then [0x5E] else []" and ?rs = "concat (map render_range (ranges cc))"
  have pat: "pattern = (pre @ [0x5B] @ ?neg) @ ?rs @ [0x5D] @ post" using assms(2) by (simp add: render_class_def)
  have loop: "class_loop pattern (length (pre @ [0x5B] @ ?neg)) [] = (ranges cc, length (pre @ [0x5B] @ ?neg) + length ?rs)"
    using class_loop_ranges [OF assms(1) pat refl, of "[]"] by simp
  have first: "pos + 1 < length pattern \<and> pattern ! (pos + 1) = 0x5E \<longleftrightarrow> negated cc"
  proof (cases "negated cc")
    case False
    obtain x xs where x: "?rs @ [0x5D] = x # xs" "x \<noteq> 0x5E"
      using assms(1) by (cases "ranges cc") (auto simp: render_range_def range_ok_def)
    have "pattern = (pre @ [0x5B]) @ (?rs @ [0x5D]) @ post" using False by (simp add: pat)
    then show ?thesis unfolding x(1) using False x(2) assms(3) by (simp add: nth_append)
  qed (use assms(3) in \<open>simp add: pat nth_append\<close>)
  show ?thesis unfolding ParseCharClass_def Let_def first using loop assms(3)
    by (cases "negated cc") (simp_all add: pat render_class_def)
qed

lemma digit_add: "d < 10 \<Longrightarrow> (of_nat (48 + d) :: u8) - 0x30 = of_nat d \<and> (0x30 :: u8) \<le> of_nat (48 + d) \<and> of_nat (48 + d) \<le> (0x39 :: u8)"
proof -
  assume d: "d < 10"
  have "list_all (\<lambda>d. (of_nat (48 + d) :: u8) - 0x30 = of_nat d \<and> (0x30 :: u8) \<le> of_nat (48 + d) \<and> of_nat (48 + d) \<le> (0x39 :: u8)) [0..<10]"
    by code_simp
  then show ?thesis using d by (simp add: list_all_iff del: upt_Suc)
qed

lemma digits_loop_render:
  assumes "pattern = pre @ to_chars n @ [c] @ post" "pos = length pre" "c = 0x2C \<or> c = 0x7D"
  shows "digits_loop pattern pos v = (v * 10 ^ length (to_chars n) + of_nat n, pos + length (to_chars n))"
proof -
  have run: "digits_loop pattern pos v = digits_loop pattern (pos + length (to_chars n)) (v * 10 ^ length (to_chars n) + of_nat n)"
    if "pattern = pre @ to_chars n @ xs" "pos = length pre" for pre xs pos v
    using that
  proof (induction n arbitrary: pre xs v pos rule: less_induct)
    case (less n)
    define d where "d = n mod 10"
    have dig: "(of_nat (48 + d) :: u8) - 0x30 = of_nat d" "(0x30 :: u8) \<le> of_nat (48 + d)" "of_nat (48 + d) \<le> (0x39 :: u8)" and d: "d < 10"
      using digit_add [of d] by (simp_all add: d_def)
    have cast: "(ucast (of_nat d :: u8) :: u32) = of_nat d"
      using d by (simp add: word_eq_iff_unsigned unsigned_ucast_eq take_bit_nat_eq_self unsigned_of_nat)
    have last_step: "digits_loop pattern p w = digits_loop pattern (p + 1) (w * 10 + of_nat d)"
      if "pattern ! p = of_nat (48 + d)" "p < length pattern" for p w
      by (subst digits_loop.simps) (use that dig cast in simp)
    show ?case
    proof (cases "n < 10")
      case True
      then have "to_chars n = [of_nat (48 + d)]" "n = d" by (simp_all add: to_chars.simps d_def)
      then show ?thesis using last_step [of pos v] less.prems by simp
    next
      case False
      let ?q = "to_chars (n div 10)"
      have tc: "to_chars n = ?q @ [of_nat (48 + d)]" using False by (subst to_chars.simps) (simp add: d_def)
      have "digits_loop pattern pos v = digits_loop pattern (pos + length ?q) (v * 10 ^ length ?q + of_nat (n div 10))"
        by (rule less.IH) (use False less.prems tc in auto)
      also have "\<dots> = digits_loop pattern (pos + length ?q + 1) ((v * 10 ^ length ?q + of_nat (n div 10)) * 10 + of_nat d)"
        by (rule last_step) (use less.prems tc in \<open>auto simp: nth_append\<close>)
      also have "(v * 10 ^ length ?q + of_nat (n div 10)) * 10 + of_nat d = v * 10 ^ length (to_chars n) + (of_nat n :: u32)"
      proof -
        have "of_nat n = (of_nat (n div 10) * 10 + of_nat d :: u32)"
          by (metis d_def div_mult_mod_eq of_nat_add of_nat_mult of_nat_numeral)
        then show ?thesis by (simp add: tc algebra_simps)
      qed
      finally show ?thesis by (simp add: tc)
    qed
  qed
  have stop: "digits_loop pattern (pos + length (to_chars n)) w = (w, pos + length (to_chars n))" for w
    using assms by (subst digits_loop.simps) (auto simp: nth_append)
  show ?thesis using run [OF assms(1,2), of v] stop by simp
qed

lemma to_chars_first: "\<exists>c cs. to_chars n = c # cs \<and> c \<noteq> 0x7D"
proof (induction n rule: less_induct)
  case (less n)
  have "(0x7D :: u8) \<noteq> of_nat (48 + n mod 10)" using digit_add [of "n mod 10"] by auto
  then show ?case using less [of "n div 10"] by (cases "n < 10") (auto simp: to_chars.simps [of n])
qed

lemma ParseQuantifier_render:
  assumes "pattern = pre @ render_quantifier mn mx @ post" "pos = length pre"
  shows "ParseQuantifier pattern pos = ((mn, mx), pos + length (render_quantifier mn mx))"
proof -
  let ?a = "to_chars (unat mn)" and ?b = "to_chars (unat mx)"
  define p1 where "p1 = pos + 1 + length ?a"
  define p2 where "p2 = p1 + 1 + length ?b"
  have pat: "pattern = pre @ [0x7B] @ ?a @ [0x2C] @ ?b @ [0x7D] @ post" using assms(1) by (simp add: render_quantifier_def)
  have d1: "digits_loop pattern (pos + 1) 0 = (mn, p1)"
    using digits_loop_render [of pattern "pre @ [0x7B]" "unat mn" "0x2C" "?b @ [0x7D] @ post" "pos + 1" 0] pat assms(2) by (simp add: p1_def)
  have d2: "digits_loop pattern (p1 + 1) 0 = (mx, p2)"
    using digits_loop_render [of pattern "pre @ [0x7B] @ ?a @ [0x2C]" "unat mx" "0x7D" post "p1 + 1" 0] pat assms(2) by (simp add: p1_def p2_def)
  obtain c cs where b: "?b = c # cs" "c \<noteq> 0x7D" using to_chars_first [of "unat mx"] by auto
  have nth: "pattern ! pos = 0x7B" "pattern ! p1 = 0x2C" "pattern ! p2 = 0x7D" "pattern ! (p1 + 1) \<noteq> 0x7D"
    using assms(2) nth_at [of p1 "pre @ [0x7B] @ ?a" "0x2C" "?b @ [0x7D] @ post"]
      nth_at [of p2 "pre @ [0x7B] @ ?a @ [0x2C] @ ?b" "0x7D" post]
      nth_at [of "p1 + 1" "pre @ [0x7B] @ ?a @ [0x2C]" c "cs @ [0x7D] @ post"] b
    by (simp_all add: pat p1_def p2_def)
  have len: "pos < length pattern" "p1 < length pattern" "p2 < length pattern" "p2 + 1 = pos + length (render_quantifier mn mx)"
    using assms(2) by (simp_all add: pat p1_def p2_def render_quantifier_def)
  show ?thesis unfolding len(4) [symmetric] ParseQuantifier_def Let_def d1 prod.case d2 using nth len by simp
qed

lemma compile_loop_render:
  assumes "list_all atom_ok atoms" "pattern = pre @ concat (map render_atom atoms)" "pos = length pre"
  shows "compile_loop pattern pos acc = Compiled (acc @ atoms)"
  using assms
proof (induction atoms arbitrary: pre pos acc)
  case Nil
  then show ?case by (subst compile_loop.simps) simp
next
  case (Cons a atoms)
  let ?cc = "render_class (charClass a)" and ?q = "render_quantifier (minRep a) (maxRep a)" and ?tail = "concat (map render_atom atoms)"
  have pat: "pattern = pre @ ?cc @ ?q @ ?tail" using Cons.prems(2) by (simp add: render_atom_def [of a])
  have first: "pattern ! pos = 0x5B" "pos < length pattern" using Cons.prems(3) by (simp_all add: pat render_class_def)
  have "list_all range_ok (ranges (charClass a))" using Cons.prems(1) by (simp add: atom_ok_def)
  note cls = ParseCharClass_render [OF this pat Cons.prems(3)]
  then have start: "atom_start pattern pos = StartClass (charClass a) (pos + length ?cc)" by (simp add: atom_start_def first)
  have quant: "ParseQuantifier pattern (pos + length ?cc) = ((minRep a, maxRep a), pos + length ?cc + length ?q)"
    by (rule ParseQuantifier_render [of _ "pre @ ?cc" _ _ ?tail]) (use pat Cons.prems(3) in simp_all)
  have brace: "pattern ! (pos + length ?cc + length ?q - 1) = 0x7D"
    using Cons.prems(3) nth_at [of "pos + length ?cc + length ?q - 1"
        "pre @ ?cc @ [0x7B] @ to_chars (unat (minRep a)) @ [0x2C] @ to_chars (unat (maxRep a))" "0x7D" ?tail]
    by (simp add: pat render_quantifier_def)
  have atom: "\<lparr>charClass = charClass a, minRep = minRep a, maxRep = maxRep a\<rparr> = a" by simp
  have "compile_loop pattern (pos + length ?cc + length ?q) (acc @ [a]) = Compiled ((acc @ [a]) @ atoms)"
    by (rule Cons.IH [of "pre @ render_atom a"]) (use Cons.prems in \<open>auto simp: render_atom_def [of a]\<close>)
  then show ?case
    by (subst compile_loop.simps) (use brace in \<open>simp add: first start quant atom Let_def\<close>)
qed

text \<open>
  C19. The matcher of path constraints, which terminates on every pattern and every text, accepts exactly the texts that are a concatenation of repetitions of the
  atoms of the pattern within their bounds; and the parser reads any list of atoms back from its written form, so that a constraint made from that text matches
  this language.\<close>

theorem route_constraint_correct:
  "(fast_matches atoms val \<longleftrightarrow> lang atoms val)
    \<and> (list_all atom_ok atoms \<and> atoms \<noteq> [] \<longrightarrow>
        (\<exists>rc. initializeCompiledState (concat (map render_atom atoms)) = Some rc \<and> (constraint_matches regex_match rc val \<longleftrightarrow> lang atoms val)))"
proof (intro conjI impI)
  show "fast_matches atoms val \<longleftrightarrow> lang atoms val" by (rule fast_matches_lang)
  assume ok: "list_all atom_ok atoms \<and> atoms \<noteq> []"
  then have "TryCompileFast (concat (map render_atom atoms)) = Compiled atoms"
    using compile_loop_render [of atoms _ "[]" 0 "[]"] by (simp add: TryCompileFast_def)
  moreover have "concat (map render_atom atoms) \<noteq> []" using ok by (cases atoms) (auto simp: render_atom_def render_class_def)
  ultimately show "\<exists>rc. initializeCompiledState (concat (map render_atom atoms)) = Some rc \<and> (constraint_matches regex_match rc val \<longleftrightarrow> lang atoms val)"
    by (auto simp: initializeCompiledState_def constraint_matches_def fast_matches_lang)
qed

text \<open>One to three letters, then letters up to c or digits; the first atom has to give a byte back.\<close>

definition sample_atoms :: "Atom list" where
  "sample_atoms = [\<lparr>charClass = \<lparr>ranges = [(0x61, 0x7A)], negated = False\<rparr>, minRep = 1, maxRep = 3\<rparr>,
     \<lparr>charClass = \<lparr>ranges = [(0x61, 0x63), (0x30, 0x39)], negated = False\<rparr>, minRep = 1, maxRep = 5\<rparr>]"

theorem route_constraint_correct_witness:
  "fast_matches sample_atoms [0x78, 0x79, 0x62] \<and> lang sample_atoms [0x78, 0x79, 0x62]
    \<and> (\<exists>rc. initializeCompiledState (concat (map render_atom sample_atoms)) = Some rc \<and> constraint_matches (\<lambda>p v. False) rc [0x78, 0x79, 0x62])"
proof -
  have run: "fast_matches sample_atoms [0x78, 0x79, 0x62]" by code_simp
  have "list_all atom_ok sample_atoms \<and> sample_atoms \<noteq> []" by code_simp
  then show ?thesis using run route_constraint_correct [of sample_atoms "[0x78, 0x79, 0x62]" "\<lambda>p v. False"] by blast
qed

text \<open>Patterns as a user writes them, the second outside the subset.\<close>

lemma constraint_examples:
  "initializeCompiledState (bytes_of ''[a-f]+'') = Some (FastConstraint [\<lparr>charClass = \<lparr>ranges = [(0x61, 0x66)], negated = False\<rparr>, minRep = 1, maxRep = 0xFFFFFFFF\<rparr>])"
  "initializeCompiledState (bytes_of ''a|b'') = Some (RegexConstraint (bytes_of ''a|b''))"
  "initializeCompiledState (bytes_of ''[a'') = None"
  by - code_simp+

end
