(* ===== verification/Deadline_Queue.thy ===== *)
theory Deadline_Queue
  imports Prelude "HOL-Library.Multiset"
begin

text \<open>
  Keep-alive deadlines: the binary heap with back pointers of \<^verbatim>\<open>keep-alive-deadline-queue.cpp\<close> and the sweep of \<^verbatim>\<open>connection-manager.cpp\<close> that closes idle
  connections with it. A connection state is named by a number and its \<^verbatim>\<open>keepAliveDeadlineIndex\<close> is kept in a store, so that the model shows every write through
  \<^verbatim>\<open>pState\<close>. There is at most one entry per descriptor, so the 32-bit indices of the code do not wrap. The theorems show that the queue implements a map from connections to
  deadlines with access to the earliest one, and that the sweep ends and closes exactly the connections it should, provided that the time-out is not zero; with a time-out of
  zero, which the configuration allows, it does not end while a file is being sent.
\<close>

section \<open>The queue\<close>

record Entry =
  expiresAt :: int
  pState :: nat
  fd :: int

record DeadlineQueue =
  heap :: "Entry list"
  deadlineIndex :: "nat \<Rightarrow> nat"

definition kNoKeepAliveDeadlineIndex :: nat where
  "kNoKeepAliveDeadlineIndex = 2 ^ 32 - 1"

definition empty_queue :: DeadlineQueue where
  "empty_queue = \<lparr>heap = [], deadlineIndex = (\<lambda>_. kNoKeepAliveDeadlineIndex)\<rparr>"

definition ParentIndex :: "nat \<Rightarrow> nat" where "ParentIndex idx = (idx - 1) div 2"
definition LeftChildIndex :: "nat \<Rightarrow> nat" where "LeftChildIndex idx = idx * 2 + 1"

definition entry_less :: "Entry \<Rightarrow> Entry \<Rightarrow> bool" where
  "entry_less lhs rhs \<longleftrightarrow> (if expiresAt lhs \<noteq> expiresAt rhs then expiresAt lhs < expiresAt rhs else fd lhs < fd rhs)"

definition swapEntries :: "DeadlineQueue \<Rightarrow> nat \<Rightarrow> nat \<Rightarrow> DeadlineQueue" where
  "swapEntries q lhsIdx rhsIdx =
     (let h = (heap q)[lhsIdx := heap q ! rhsIdx, rhsIdx := heap q ! lhsIdx]
      in q\<lparr>heap := h, deadlineIndex := (deadlineIndex q)(pState (h ! lhsIdx) := lhsIdx, pState (h ! rhsIdx) := rhsIdx)\<rparr>)"

lemma length_swapEntries [simp]: "length (heap (swapEntries q i j)) = length (heap q)"
  by (simp add: swapEntries_def Let_def)

lemma ParentIndex_less [simp]: "0 < i \<Longrightarrow> ParentIndex i < i"
  by (simp add: ParentIndex_def)

function siftUp :: "DeadlineQueue \<Rightarrow> nat \<Rightarrow> DeadlineQueue" where
  "siftUp q idx =
     (if idx > 0 then
        (let parentIdx = ParentIndex idx in
         if entry_less (heap q ! idx) (heap q ! parentIdx) then siftUp (swapEntries q idx parentIdx) parentIdx else q)
      else q)"
  by pat_completeness auto
termination by (relation "measure snd") auto

declare siftUp.simps [simp del]

definition smallest_child :: "DeadlineQueue \<Rightarrow> nat \<Rightarrow> nat" where
  "smallest_child q idx =
     (let leftIdx = LeftChildIndex idx; rightIdx = leftIdx + 1
      in if rightIdx < length (heap q) \<and> entry_less (heap q ! rightIdx) (heap q ! leftIdx) then rightIdx else leftIdx)"

lemma smallest_child_greater: "idx < smallest_child q idx"
  by (simp add: smallest_child_def LeftChildIndex_def Let_def)

lemma smallest_child_bound: "LeftChildIndex idx < length (heap q) \<Longrightarrow> smallest_child q idx < length (heap q)"
  by (simp add: smallest_child_def Let_def)

function siftDown :: "DeadlineQueue \<Rightarrow> nat \<Rightarrow> DeadlineQueue" where
  "siftDown q idx =
     (if LeftChildIndex idx \<ge> length (heap q) then q
      else
        (let smallestIdx = smallest_child q idx in
         if entry_less (heap q ! smallestIdx) (heap q ! idx) then siftDown (swapEntries q idx smallestIdx) smallestIdx else q))"
  by pat_completeness auto
termination
proof (relation "measure (\<lambda>(q, idx). length (heap q) - idx)", goal_cases)
  case (2 q idx m)
  then show ?case using smallest_child_greater [of idx q] smallest_child_bound [of idx q] by auto
qed simp

declare siftDown.simps [simp del]

definition restoreHeapAt :: "DeadlineQueue \<Rightarrow> nat \<Rightarrow> DeadlineQueue" where
  "restoreHeapAt q idx =
     (if idx > 0 \<and> entry_less (heap q ! idx) (heap q ! ParentIndex idx) then siftUp q idx else siftDown q idx)"

definition upsert :: "DeadlineQueue \<Rightarrow> nat \<Rightarrow> int \<Rightarrow> int \<Rightarrow> DeadlineQueue" where
  "upsert q state f expires =
     (if deadlineIndex q state = kNoKeepAliveDeadlineIndex then
        (let idx = length (heap q) in
         siftUp (q\<lparr>heap := heap q @ [\<lparr>expiresAt = expires, pState = state, fd = f\<rparr>], deadlineIndex := (deadlineIndex q)(state := idx)\<rparr>) idx)
      else
        (let idx = deadlineIndex q state in
         restoreHeapAt (q\<lparr>heap := (heap q)[idx := (heap q ! idx)\<lparr>expiresAt := expires, fd := f\<rparr>]\<rparr>) idx))"

definition remove :: "DeadlineQueue \<Rightarrow> nat \<Rightarrow> DeadlineQueue" where
  "remove q state =
     (if deadlineIndex q state = kNoKeepAliveDeadlineIndex then q
      else
        (let idx = deadlineIndex q state; lastIdx = length (heap q) - 1;
             q1 = (if idx \<noteq> lastIdx then swapEntries q idx lastIdx else q);
             q2 = q1\<lparr>deadlineIndex := (deadlineIndex q1)(pState (last (heap q1)) := kNoKeepAliveDeadlineIndex), heap := butlast (heap q1)\<rparr>
         in if idx < length (heap q2) then restoreHeapAt q2 idx else q2))"

definition pop :: "DeadlineQueue \<Rightarrow> Entry \<times> DeadlineQueue" where
  "pop q = (let entry = hd (heap q) in (entry, remove q (pState entry)))"

definition clear_queue :: "DeadlineQueue \<Rightarrow> DeadlineQueue" where
  "clear_queue q =
     q\<lparr>heap := [], deadlineIndex := foldl (\<lambda>ix e. ix(pState e := kNoKeepAliveDeadlineIndex)) (deadlineIndex q) (heap q)\<rparr>"

section \<open>Order\<close>

definition entry_le :: "Entry \<Rightarrow> Entry \<Rightarrow> bool" where
  "entry_le e f \<longleftrightarrow> \<not> entry_less f e"

lemma entry_le_trans: "entry_le e f \<Longrightarrow> entry_le f g \<Longrightarrow> entry_le e g"
  by (auto simp: entry_le_def entry_less_def split: if_splits)

lemma entry_less_le: "entry_less e f \<Longrightarrow> entry_le e f"
  by (auto simp: entry_le_def entry_less_def split: if_splits)

lemma entry_le_refl [simp]: "entry_le e e"
  by (simp add: entry_le_def entry_less_def)

lemma parent_iff: "0 < i \<Longrightarrow> ParentIndex i = p \<longleftrightarrow> i = LeftChildIndex p \<or> i = LeftChildIndex p + 1"
  by (auto simp: ParentIndex_def LeftChildIndex_def)

definition edge :: "Entry list \<Rightarrow> nat \<Rightarrow> bool" where
  "edge h i \<longleftrightarrow> entry_le (h ! ParentIndex i) (h ! i)"

definition heap_ok :: "Entry list \<Rightarrow> bool" where
  "heap_ok h \<longleftrightarrow> (\<forall>i < length h. 0 < i \<longrightarrow> edge h i)"

text \<open>A heap but for the entry at \<open>p\<close>.\<close>

definition gap_at :: "Entry list \<Rightarrow> nat \<Rightarrow> bool" where
  "gap_at h p \<longleftrightarrow> (\<forall>i < length h. 0 < i \<and> i \<noteq> p \<and> ParentIndex i \<noteq> p \<longrightarrow> edge h i)
     \<and> (\<forall>i < length h. 0 < i \<and> ParentIndex i = p \<and> 0 < p \<longrightarrow> entry_le (h ! ParentIndex p) (h ! i))"

lemma heap_swapEntries:
  assumes "i < length (heap q)" "j < length (heap q)" "k < length (heap q)"
  shows "heap (swapEntries q i j) ! k = (if k = j then heap q ! i else if k = i then heap q ! j else heap q ! k)"
  using assms by (simp add: swapEntries_def Let_def nth_list_update)

lemma siftUp_order:
  assumes "gap_at (heap q) p" "p < length (heap q)" "\<forall>i < length (heap q). 0 < i \<and> ParentIndex i = p \<longrightarrow> edge (heap q) i"
  shows "heap_ok (heap (siftUp q p))"
  using assms
proof (induction q p rule: siftUp.induct)
  case (1 q p)
  let ?h = "heap q" and ?pp = "ParentIndex p"
  show ?case
  proof (cases "0 < p \<and> entry_less (?h ! p) (?h ! ?pp)")
    case True
    let ?q = "swapEntries q p ?pp"
    have pp: "?pp < p" "?pp < length ?h" using True 1(3) ParentIndex_less [of p] by linarith+
    note nth = heap_swapEntries [OF 1(3) pp(2)]
    note gap = 1(2) [unfolded gap_at_def]
    have sib: "edge ?h i" if "i < length ?h" "0 < i" "i \<noteq> p" "ParentIndex i = ?pp" for i using gap that pp by auto
    have up: "edge ?h ?pp" if "0 < ?pp" using gap that pp ParentIndex_less [of ?pp] by (metis less_trans nat_neq_iff)
    have bound: "ParentIndex i < length ?h" if "i < length ?h" "0 < i" for i using that ParentIndex_less [of i] by linarith
    have "gap_at (heap ?q) ?pp" unfolding gap_at_def
    proof (intro conjI allI impI)
      fix i assume i: "i < length (heap ?q)" "0 < i \<and> i \<noteq> ?pp \<and> ParentIndex i \<noteq> ?pp"
      then have "i \<noteq> p" by auto
      show "edge (heap ?q) i"
      proof (cases "ParentIndex i = p")
        case True
        then show ?thesis using i gap pp \<open>i \<noteq> p\<close> nth [of i] nth [of p] 1(3) by (auto simp: edge_def)
      next
        case False
        then show ?thesis using i gap \<open>i \<noteq> p\<close> nth [of i] nth [of "ParentIndex i"] bound [of i] by (auto simp: edge_def)
      qed
    next
      fix i assume i: "i < length (heap ?q)" "0 < i \<and> ParentIndex i = ?pp \<and> 0 < ?pp"
      have ppp: "ParentIndex ?pp < ?pp" using i by simp
      have "heap ?q ! ParentIndex ?pp = ?h ! ParentIndex ?pp" using nth [of "ParentIndex ?pp"] ppp pp by auto
      moreover have "entry_le (?h ! ParentIndex ?pp) (?h ! ?pp)" using up i by (simp add: edge_def)
      ultimately show "entry_le (heap ?q ! ParentIndex ?pp) (heap ?q ! i)"
        using nth [of i] i sib [of i] pp by (auto simp: edge_def intro: entry_le_trans)
    qed
    moreover have "\<forall>i < length (heap ?q). 0 < i \<and> ParentIndex i = ?pp \<longrightarrow> edge (heap ?q) i"
    proof (intro allI impI)
      fix i assume i: "i < length (heap ?q)" "0 < i \<and> ParentIndex i = ?pp"
      have "i \<noteq> ?pp" using i ParentIndex_less [of i] by auto
      then show "edge (heap ?q) i"
        using i True nth [of i] nth [of ?pp] pp sib [of i] by (auto simp: edge_def intro: entry_less_le entry_le_trans [OF entry_less_le])
    qed
    ultimately show ?thesis using 1(1) [of ?pp] True pp by (subst siftUp.simps) (simp add: Let_def)
  next
    case False
    have "edge ?h i" if i: "i < length ?h" "0 < i" for i
      using False 1(2,4) i by (cases "i = p"; cases "ParentIndex i = p") (auto simp: gap_at_def edge_def entry_le_def)
    then have "heap_ok ?h" by (simp add: heap_ok_def)
    then show ?thesis using False by (subst siftUp.simps) (auto simp: Let_def)
  qed
qed

lemma siftDown_order:
  assumes "gap_at (heap q) p" "p < length (heap q)" "0 < p \<longrightarrow> edge (heap q) p"
  shows "heap_ok (heap (siftDown q p))"
  using assms
proof (induction q p rule: siftDown.induct)
  case (1 q p)
  let ?h = "heap q" and ?m = "smallest_child q p"
  note gap = 1(2) [unfolded gap_at_def]
  have settled: "heap_ok ?h" if "\<forall>i < length ?h. 0 < i \<and> ParentIndex i = p \<longrightarrow> edge ?h i"
    using that 1(2,4) by (auto simp: heap_ok_def gap_at_def)
  show ?case
  proof (cases "length ?h \<le> LeftChildIndex p")
    case True
    have "\<not> i < length ?h" if "0 < i" "ParentIndex i = p" for i
      using True that(1) parent_iff [OF that(1), of p] that(2) by (simp add: LeftChildIndex_def) linarith
    then have "\<forall>i < length ?h. 0 < i \<and> ParentIndex i = p \<longrightarrow> edge ?h i" by blast
    then show ?thesis using settled True by (subst siftDown.simps) simp
  next
    case False
    then have m: "?m < length ?h" "p < ?m" "ParentIndex ?m = p"
      using smallest_child_bound [of p q] smallest_child_greater [of p q]
      by (auto simp: parent_iff smallest_child_def Let_def LeftChildIndex_def)
    have least: "entry_le (?h ! ?m) (?h ! i)" if "i < length ?h" "0 < i" "ParentIndex i = p" for i
    proof -
      have "i = LeftChildIndex p \<or> i = LeftChildIndex p + 1" using that parent_iff [of i p] by simp
      then show ?thesis using that(1) entry_less_le by (auto simp: smallest_child_def Let_def entry_le_def)
    qed
    show ?thesis
    proof (cases "entry_less (?h ! ?m) (?h ! p)")
      case True
      let ?q = "swapEntries q p ?m"
      note nth = heap_swapEntries [OF 1(3) m(1)]
      have bound: "ParentIndex i < length ?h" if "i < length ?h" "0 < i" for i using that ParentIndex_less [of i] by linarith
      have "gap_at (heap ?q) ?m" unfolding gap_at_def
      proof (intro conjI allI impI)
        fix i assume i: "i < length (heap ?q)" "0 < i \<and> i \<noteq> ?m \<and> ParentIndex i \<noteq> ?m"
        have ch: "entry_le (?h ! ParentIndex p) (?h ! ?m)" if "0 < p" using gap m that by (metis less_trans)
        show "edge (heap ?q) i"
        proof (cases "i = p")
          case True
          then show ?thesis using i ch nth [of p] nth [of "ParentIndex p"] 1(3) m ParentIndex_less [of p] bound [of p] by (auto simp: edge_def)
        next
          case False
          then show ?thesis using i gap least [of i] nth [of i] nth [of "ParentIndex i"] bound [of i] m
            by (cases "ParentIndex i = p") (auto simp: edge_def)
        qed
      next
        fix i assume i: "i < length (heap ?q)" "0 < i \<and> ParentIndex i = ?m \<and> 0 < ?m"
        then have "?m < i" using ParentIndex_less [of i] by auto
        moreover have "edge ?h i" using gap i m \<open>?m < i\<close> by auto
        ultimately show "entry_le (heap ?q ! ParentIndex ?m) (heap ?q ! i)"
          using i nth [of i] nth [of p] 1(3) m by (auto simp: edge_def)
      qed
      moreover have "edge (heap ?q) ?m" using True nth [of ?m] nth [of p] m 1(3) by (simp add: edge_def entry_less_le)
      ultimately have "heap_ok (heap (siftDown ?q ?m))" using 1(1) [OF False refl] True m by simp
      then show ?thesis using False True by (subst siftDown.simps) (simp add: Let_def)
    next
      case stop: False
      have "\<forall>i < length ?h. 0 < i \<and> ParentIndex i = p \<longrightarrow> edge ?h i"
      proof (intro allI impI)
        fix i assume i: "i < length ?h" "0 < i \<and> ParentIndex i = p"
        have "entry_le (?h ! p) (?h ! ?m)" using stop by (simp add: entry_le_def)
        then show "edge ?h i" using entry_le_trans [OF _ least [of i]] i by (simp add: edge_def)
      qed
      then show ?thesis using settled False stop by (subst siftDown.simps) (simp add: Let_def)
    qed
  qed
qed

lemma restoreHeapAt_order:
  assumes "gap_at (heap q) p" "p < length (heap q)"
  shows "heap_ok (heap (restoreHeapAt q p))"
proof (cases "0 < p \<and> entry_less (heap q ! p) (heap q ! ParentIndex p)")
  case True
  have "edge (heap q) i" if "i < length (heap q)" "0 < i" "ParentIndex i = p" for i
    using assms(1) True that entry_le_trans [OF entry_less_le, of "heap q ! p" "heap q ! ParentIndex p" "heap q ! i"]
    by (simp add: edge_def gap_at_def)
  then show ?thesis using siftUp_order [OF assms] True by (simp add: restoreHeapAt_def)
next
  case False
  then show ?thesis using siftDown_order [OF assms] by (auto simp: restoreHeapAt_def edge_def entry_le_def)
qed

lemma heap_root_least: "heap_ok h \<Longrightarrow> i < length h \<Longrightarrow> entry_le (h ! 0) (h ! i)"
proof (induction i rule: less_induct)
  case (less i)
  show ?case
  proof (cases "i = 0")
    case False
    then have "ParentIndex i < i" "edge h i" using less.prems by (auto simp: heap_ok_def)
    then show ?thesis using less.IH [of "ParentIndex i"] less.prems by (auto simp: edge_def intro: entry_le_trans)
  qed simp
qed

section \<open>Back pointers\<close>

definition index_ok :: "DeadlineQueue \<Rightarrow> bool" where
  "index_ok q \<longleftrightarrow> distinct (map pState (heap q)) \<and> length (heap q) \<le> kNoKeepAliveDeadlineIndex
     \<and> (\<forall>i < length (heap q). deadlineIndex q (pState (heap q ! i)) = i)
     \<and> (\<forall>s. s \<notin> pState ` set (heap q) \<longrightarrow> deadlineIndex q s = kNoKeepAliveDeadlineIndex)"

lemma index_ok_inj: "index_ok q \<Longrightarrow> i < length (heap q) \<Longrightarrow> j < length (heap q) \<Longrightarrow> pState (heap q ! i) = pState (heap q ! j) \<Longrightarrow> i = j"
  by (metis index_ok_def)

lemma swap_mset: "i < length (heap q) \<Longrightarrow> j < length (heap q) \<Longrightarrow> mset (heap (swapEntries q i j)) = mset (heap q)"
  by (simp add: swapEntries_def Let_def mset_swap)

lemma swap_index:
  assumes "index_ok q" "i < length (heap q)" "j < length (heap q)"
  shows "index_ok (swapEntries q i j)"
proof -
  let ?q = "swapEntries q i j"
  have m: "mset (heap ?q) = mset (heap q)" by (rule swap_mset [OF assms(2,3)])
  then have states: "mset (map pState (heap ?q)) = mset (map pState (heap q))" by simp
  have dist: "distinct (map pState (heap ?q))" using assms(1) mset_eq_imp_distinct_iff [OF states] by (simp add: index_ok_def)
  have img: "pState ` set (heap ?q) = pState ` set (heap q)" using mset_eq_setD [OF m] by simp
  note nth = heap_swapEntries [OF assms(2,3)]
  have dix: "deadlineIndex ?q = (deadlineIndex q)(pState (heap ?q ! i) := i, pState (heap ?q ! j) := j)"
    by (simp add: swapEntries_def Let_def)
  have ix: "deadlineIndex ?q (pState (heap ?q ! k)) = k" if k: "k < length (heap q)" for k
  proof (cases "k = i \<or> k = j")
    case True
    then show ?thesis using nth [of i] nth [of j] assms index_ok_inj [OF assms(1), of i j] unfolding dix by auto
  next
    case False
    then have "pState (heap ?q ! k) \<noteq> pState (heap ?q ! i)" "pState (heap ?q ! k) \<noteq> pState (heap ?q ! j)"
      using dist k assms(2,3) by (auto simp: distinct_conv_nth)
    then show ?thesis using False nth [OF k] k assms(1) unfolding dix by (simp add: index_ok_def)
  qed
  moreover have "deadlineIndex ?q s = kNoKeepAliveDeadlineIndex" if "s \<notin> pState ` set (heap ?q)" for s
  proof -
    have "heap ?q ! i \<in> set (heap ?q)" "heap ?q ! j \<in> set (heap ?q)" using assms(2,3) by simp_all
    then have "s \<noteq> pState (heap ?q ! i)" "s \<noteq> pState (heap ?q ! j)" using that by auto
    then show ?thesis using that assms(1) unfolding dix img by (simp add: index_ok_def)
  qed
  ultimately show ?thesis using dist assms(1) by (simp add: index_ok_def)
qed

definition same_entries :: "DeadlineQueue \<Rightarrow> DeadlineQueue \<Rightarrow> bool" where
  "same_entries q q' \<longleftrightarrow> index_ok q' \<and> mset (heap q') = mset (heap q)"

lemma siftUp_entries: "index_ok q \<Longrightarrow> p < length (heap q) \<Longrightarrow> same_entries q (siftUp q p)"
proof (induction q p rule: siftUp.induct)
  case (1 q p)
  show ?case
  proof (cases "0 < p \<and> entry_less (heap q ! p) (heap q ! ParentIndex p)")
    case True
    then have pp: "ParentIndex p < length (heap q)" using 1(3) ParentIndex_less [of p] by linarith
    have "same_entries (swapEntries q p (ParentIndex p)) (siftUp (swapEntries q p (ParentIndex p)) (ParentIndex p))"
      using 1(1) [OF _ refl] True swap_index [OF 1(2,3) pp] pp by simp
    then show ?thesis using True swap_mset [OF 1(3) pp] by (subst siftUp.simps) (simp add: Let_def same_entries_def)
  next
    case False
    then show ?thesis using 1(2) by (subst siftUp.simps) (auto simp: Let_def same_entries_def)
  qed
qed

lemma siftDown_entries: "index_ok q \<Longrightarrow> p < length (heap q) \<Longrightarrow> same_entries q (siftDown q p)"
proof (induction q p rule: siftDown.induct)
  case (1 q p)
  let ?m = "smallest_child q p"
  show ?case
  proof (cases "\<not> length (heap q) \<le> LeftChildIndex p \<and> entry_less (heap q ! ?m) (heap q ! p)")
    case True
    then have m: "?m < length (heap q)" by (simp add: smallest_child_bound)
    have "same_entries (swapEntries q p ?m) (siftDown (swapEntries q p ?m) ?m)"
      using 1(1) [OF _ refl] True swap_index [OF 1(2,3) m] m by simp
    then show ?thesis using True swap_mset [OF 1(3) m] by (subst siftDown.simps) (simp add: Let_def same_entries_def)
  next
    case False
    then show ?thesis using 1(2) by (subst siftDown.simps) (auto simp: Let_def same_entries_def)
  qed
qed

lemma restoreHeapAt_entries: "index_ok q \<Longrightarrow> p < length (heap q) \<Longrightarrow> same_entries q (restoreHeapAt q p)"
  by (simp add: restoreHeapAt_def siftUp_entries siftDown_entries)

section \<open>The queue as a map\<close>

text \<open>The abstract value: each connection that is scheduled, with its deadline and descriptor.\<close>

definition entry_pair :: "Entry \<Rightarrow> nat \<times> int \<times> int" where
  "entry_pair e = (pState e, (expiresAt e, fd e))"

definition deadlines :: "DeadlineQueue \<Rightarrow> nat \<rightharpoonup> int \<times> int" where
  "deadlines q = map_of (map entry_pair (heap q))"

definition queue_inv :: "DeadlineQueue \<Rightarrow> bool" where
  "queue_inv q \<longleftrightarrow> index_ok q \<and> heap_ok (heap q)"

lemma map_fst_entry_pair [simp]: "map fst (map entry_pair h) = map pState h"
  by (simp add: entry_pair_def comp_def)

lemma deadlines_Some: "index_ok q \<Longrightarrow> deadlines q s = Some v \<longleftrightarrow> (\<exists>e \<in> set (heap q). entry_pair e = (s, v))"
  unfolding deadlines_def by (subst map_of_eq_Some_iff) (auto simp: index_ok_def image_iff simp del: map_map, metis)

lemma map_eqI: "(\<And>s v. m s = Some v \<longleftrightarrow> m' s = Some v) \<Longrightarrow> m = m'"
  by (rule ext) (metis not_Some_eq)

lemma deadlines_same: "index_ok q \<Longrightarrow> same_entries q q' \<Longrightarrow> deadlines q' = deadlines q"
  by (rule map_eqI) (auto simp: deadlines_Some same_entries_def dest!: mset_eq_setD)

lemma scheduled_iff: "index_ok q \<Longrightarrow> deadlineIndex q s \<noteq> kNoKeepAliveDeadlineIndex \<longleftrightarrow> s \<in> pState ` set (heap q)"
  by (auto simp: index_ok_def in_set_conv_nth)

lemma scheduled_entry:
  assumes "index_ok q" "deadlineIndex q s \<noteq> kNoKeepAliveDeadlineIndex"
  shows "deadlineIndex q s < length (heap q)" "pState (heap q ! deadlineIndex q s) = s"
proof -
  obtain i where "i < length (heap q)" "s = pState (heap q ! i)"
    using assms by (auto simp: scheduled_iff in_set_conv_nth)
  then show "deadlineIndex q s < length (heap q)" "pState (heap q ! deadlineIndex q s) = s" using assms(1) by (simp_all add: index_ok_def)
qed

lemma gap_after_update:
  assumes "heap_ok h" "p < length h"
  shows "gap_at (h[p := e]) p"
proof -
  have edges: "edge h i" if "i < length h" "0 < i" for i using assms(1) that by (simp add: heap_ok_def)
  have "edge (h[p := e]) i" if "i < length h" "0 < i" "i \<noteq> p" "ParentIndex i \<noteq> p" for i
    using edges [of i] that by (simp add: edge_def)
  moreover have "entry_le (h[p := e] ! ParentIndex p) (h[p := e] ! i)" if "i < length h" "0 < i" "ParentIndex i = p" "0 < p" for i
  proof -
    have "i \<noteq> p" "ParentIndex p \<noteq> p" using ParentIndex_less [OF that(2)] ParentIndex_less [OF that(4)] that(3) by linarith+
    moreover have "entry_le (h ! ParentIndex p) (h ! p)" "entry_le (h ! p) (h ! i)"
      using edges [of i] edges [of p] that assms(2) by (simp_all add: edge_def)
    ultimately show ?thesis by (auto intro: entry_le_trans)
  qed
  ultimately show ?thesis by (simp add: gap_at_def)
qed

lemma restored:
  assumes "index_ok q" "gap_at (heap q) p" "p < length (heap q)"
  shows "queue_inv (restoreHeapAt q p)" "deadlines (restoreHeapAt q p) = deadlines q" "length (heap (restoreHeapAt q p)) = length (heap q)"
proof -
  note same = restoreHeapAt_entries [OF assms(1,3)]
  show "queue_inv (restoreHeapAt q p)" using same restoreHeapAt_order [OF assms(2,3)] by (simp add: queue_inv_def same_entries_def)
  show "deadlines (restoreHeapAt q p) = deadlines q" by (rule deadlines_same [OF assms(1) same])
  show "length (heap (restoreHeapAt q p)) = length (heap q)" using same by (metis same_entries_def size_mset)
qed

lemma upsert_new:
  assumes inv: "queue_inv q" and new: "deadlineIndex q s = kNoKeepAliveDeadlineIndex" and room: "length (heap q) < kNoKeepAliveDeadlineIndex"
  shows "queue_inv (upsert q s f t) \<and> deadlines (upsert q s f t) = (deadlines q)(s \<mapsto> (t, f))"
proof -
  let ?e = "\<lparr>expiresAt = t, pState = s, fd = f\<rparr>" and ?n = "length (heap q)"
  let ?q = "q\<lparr>heap := heap q @ [?e], deadlineIndex := (deadlineIndex q)(s := ?n)\<rparr>"
  have fresh: "s \<notin> pState ` set (heap q)" using inv new scheduled_iff [of q s] by (simp add: queue_inv_def)
  have ix: "index_ok ?q" using inv fresh room
    by (auto simp: queue_inv_def index_ok_def nth_append less_Suc_eq)
  have gap: "gap_at (heap ?q) ?n"
  proof -
    have "edge (heap q @ [?e]) i" if "i < ?n" "0 < i" for i
    proof -
      have "ParentIndex i < ?n" using that ParentIndex_less [of i] by linarith
      then show ?thesis using inv that by (simp add: queue_inv_def heap_ok_def edge_def nth_append)
    qed
    moreover have "ParentIndex i \<noteq> ?n" if "i < Suc ?n" "0 < i" for i using that ParentIndex_less [of i] by linarith
    ultimately show ?thesis by (auto simp: gap_at_def less_Suc_eq)
  qed
  have leaf: "ParentIndex i \<noteq> ?n" if "i < length (heap ?q)" "0 < i" for i
    using ParentIndex_less [OF that(2)] that(1) by simp
  have up: "upsert q s f t = siftUp ?q ?n" using new by (simp add: upsert_def Let_def)
  have "heap_ok (heap (siftUp ?q ?n))" by (rule siftUp_order [OF gap]) (use leaf in auto)
  moreover have same: "same_entries ?q (siftUp ?q ?n)" by (rule siftUp_entries [OF ix]) simp
  moreover have "deadlines ?q = (deadlines q)(s \<mapsto> (t, f))"
  proof (rule map_eqI)
    fix x v
    have "index_ok q" using inv by (simp add: queue_inv_def)
    then show "deadlines ?q x = Some v \<longleftrightarrow> ((deadlines q)(s \<mapsto> (t, f))) x = Some v"
      using fresh by (auto simp: deadlines_Some [OF ix] deadlines_Some entry_pair_def)
  qed
  ultimately show ?thesis unfolding up using deadlines_same [OF ix same] by (simp add: queue_inv_def same_entries_def)
qed

lemma upsert_old:
  assumes inv: "queue_inv q" and old: "deadlineIndex q s \<noteq> kNoKeepAliveDeadlineIndex"
  shows "queue_inv (upsert q s f t) \<and> deadlines (upsert q s f t) = (deadlines q)(s \<mapsto> (t, f))"
proof -
  let ?i = "deadlineIndex q s"
  let ?e = "(heap q ! ?i)\<lparr>expiresAt := t, fd := f\<rparr>"
  let ?q = "q\<lparr>heap := (heap q)[?i := ?e]\<rparr>"
  have ok: "index_ok q" "heap_ok (heap q)" using inv by (simp_all add: queue_inv_def)
  note at = scheduled_entry [OF ok(1) old]
  have states: "map pState ((heap q)[?i := ?e]) = map pState (heap q)"
    using at by (simp add: map_update list_update_same_conv)
  have img: "pState ` set ((heap q)[?i := ?e]) = pState ` set (heap q)" using arg_cong [OF states, of set] by simp
  have ix: "index_ok ?q" unfolding index_ok_def using ok(1) states img at by (simp add: index_ok_def nth_list_update)
  note rest = restored [OF ix, of ?i]
  have g: "gap_at (heap ?q) ?i" using gap_after_update [OF ok(2) at(1)] by simp
  have "deadlines ?q = (deadlines q)(s \<mapsto> (t, f))"
  proof (rule map_eqI)
    fix x v
    have others: "e \<in> set ((heap q)[?i := ?e]) \<longleftrightarrow> e = ?e \<or> (e \<in> set (heap q) \<and> pState e \<noteq> s)" for e
      using at index_ok_inj [OF ok(1), of ?i] by (auto simp: in_set_conv_nth nth_list_update) (metis at(2))+
    have new: "entry_pair ?e = (s, (t, f))" using at by (simp add: entry_pair_def)
    have "deadlines ?q x = Some v \<longleftrightarrow> (\<exists>e. (e = ?e \<or> (e \<in> set (heap q) \<and> pState e \<noteq> s)) \<and> entry_pair e = (x, v))"
      using deadlines_Some [OF ix, of x v] others by auto
    also have "\<dots> \<longleftrightarrow> (x = s \<and> v = (t, f)) \<or> (x \<noteq> s \<and> (\<exists>e \<in> set (heap q). entry_pair e = (x, v)))"
      using new by (auto simp: entry_pair_def)
    finally show "deadlines ?q x = Some v \<longleftrightarrow> ((deadlines q)(s \<mapsto> (t, f))) x = Some v"
      using deadlines_Some [OF ok(1), of x v] by auto
  qed
  moreover have "upsert q s f t = restoreHeapAt ?q ?i" using old by (simp add: upsert_def Let_def)
  ultimately show ?thesis using rest g at(1) by simp
qed

lemma butlast_swap:
  assumes "i < length h - 1"
  shows "butlast (h[i := h ! (length h - 1), length h - 1 := h ! i]) = (butlast h)[i := h ! (length h - 1)]"
  using assms by (intro nth_equalityI) (auto simp: nth_butlast nth_list_update)

lemma heap_ok_butlast: "heap_ok h \<Longrightarrow> heap_ok (butlast h)"
proof -
  assume ok: "heap_ok h"
  have "edge (butlast h) i" if "i < length (butlast h)" "0 < i" for i
  proof -
    have "ParentIndex i < length (butlast h)" using that ParentIndex_less [of i] by linarith
    then show ?thesis using ok that by (simp add: heap_ok_def edge_def nth_butlast)
  qed
  then show ?thesis by (simp add: heap_ok_def)
qed

lemma drop_last_index:
  assumes ok: "index_ok q" and ne: "heap q \<noteq> []" and s: "pState (last (heap q)) = s"
  shows "index_ok (q\<lparr>deadlineIndex := (deadlineIndex q)(s := kNoKeepAliveDeadlineIndex), heap := butlast (heap q)\<rparr>)"
    "deadlines (q\<lparr>deadlineIndex := (deadlineIndex q)(s := kNoKeepAliveDeadlineIndex), heap := butlast (heap q)\<rparr>) = (deadlines q)(s := None)"
proof -
  let ?q = "q\<lparr>deadlineIndex := (deadlineIndex q)(s := kNoKeepAliveDeadlineIndex), heap := butlast (heap q)\<rparr>"
  obtain h e where h: "heap q = h @ [e]" using ne by (cases "heap q" rule: rev_cases) auto
  have e: "pState e = s" using s h by simp
  have fresh: "s \<notin> pState ` set h" "distinct (map pState h)" using ok e by (auto simp: index_ok_def h)
  have "deadlineIndex q (pState (h ! i)) = i" if "i < length h" for i
  proof -
    have "deadlineIndex q (pState ((h @ [e]) ! i)) = i" using ok that unfolding index_ok_def h by (metis length_append_singleton less_SucI)
    then show ?thesis using that by (simp add: nth_append)
  qed
  moreover have "pState (h ! i) \<noteq> s" if "i < length h" for i using fresh(1) nth_mem [OF that] by auto
  moreover have "deadlineIndex q x = kNoKeepAliveDeadlineIndex" if "x \<notin> pState ` set h" "x \<noteq> s" for x
    using ok that e by (auto simp: index_ok_def h)
  ultimately show ix: "index_ok ?q" using ok fresh(2) by (auto simp: index_ok_def h)
  show "deadlines ?q = (deadlines q)(s := None)"
  proof (rule map_eqI)
    fix x v
    show "deadlines ?q x = Some v \<longleftrightarrow> ((deadlines q)(s := None)) x = Some v"
      using fresh(1) e deadlines_Some [OF ix, of x v] deadlines_Some [OF ok, of x v] by (auto simp: entry_pair_def h image_iff)
  qed
qed

lemma remove_law:
  assumes inv: "queue_inv q"
  shows "queue_inv (remove q s) \<and> deadlines (remove q s) = (deadlines q)(s := None)
    \<and> length (heap (remove q s)) = length (heap q) - (if s \<in> dom (deadlines q) then 1 else 0)"
proof -
  have ok: "index_ok q" "heap_ok (heap q)" using inv by (simp_all add: queue_inv_def)
  have dom: "s \<in> dom (deadlines q) \<longleftrightarrow> deadlineIndex q s \<noteq> kNoKeepAliveDeadlineIndex"
    using deadlines_Some [OF ok(1), of s] scheduled_iff [OF ok(1), of s] by (auto simp: entry_pair_def)
  show ?thesis
  proof (cases "deadlineIndex q s = kNoKeepAliveDeadlineIndex")
    case True
    then have "deadlines q s = None" using dom by auto
    then show ?thesis using True inv by (simp add: remove_def fun_upd_idem domIff)
  next
    case False
    let ?i = "deadlineIndex q s" and ?l = "length (heap q) - 1"
    note at = scheduled_entry [OF ok(1) False]
    have l: "?l < length (heap q)" "heap q \<noteq> []" using at(1) by auto
    define q1 where "q1 = (if ?i \<noteq> ?l then swapEntries q ?i ?l else q)"
    have ix1: "index_ok q1" using swap_index [OF ok(1) at(1) l(1)] ok(1) by (simp add: q1_def)
    have same1: "same_entries q q1" using ix1 swap_mset [OF at(1) l(1)] by (simp add: same_entries_def q1_def)
    have len1: "length (heap q1) = length (heap q)" by (simp add: q1_def)
    have ne1: "heap q1 \<noteq> []" using l(2) len1 by auto
    have last1: "pState (last (heap q1)) = s"
      unfolding last_conv_nth [OF ne1] len1 using at heap_swapEntries [OF at(1) l(1) l(1)] by (auto simp: q1_def)
    define q2 where "q2 = q1\<lparr>deadlineIndex := (deadlineIndex q1)(pState (last (heap q1)) := kNoKeepAliveDeadlineIndex), heap := butlast (heap q1)\<rparr>"
    note q2 = drop_last_index [OF ix1 ne1 last1] 
    have ix2: "index_ok q2" and abs2: "deadlines q2 = (deadlines q)(s := None)"
      using q2 deadlines_same [OF ok(1) same1] by (simp_all add: q2_def last1)
    have len2: "length (heap q2) = length (heap q) - 1" by (simp add: q2_def len1)
    have rem: "remove q s = (if ?i < length (heap q2) then restoreHeapAt q2 ?i else q2)"
      unfolding remove_def Let_def q2_def q1_def if_not_P [OF False] by (rule refl)
    have dom': "s \<in> dom (deadlines q)" using dom False by simp
    show ?thesis
    proof (cases "?i < ?l")
      case True
      have "heap q2 = (butlast (heap q))[?i := heap q ! ?l]"
        using True butlast_swap [OF True] by (simp add: q2_def q1_def swapEntries_def Let_def)
      then have "gap_at (heap q2) ?i" using gap_after_update [OF heap_ok_butlast [OF ok(2)], of ?i] True by simp
      then show ?thesis using restored [OF ix2, of ?i] True len2 abs2 dom' unfolding rem by simp
    next
      case last: False
      then have "?i = ?l" using at(1) by linarith
      then have "heap q2 = butlast (heap q)" by (simp add: q2_def q1_def)
      then have "queue_inv q2" using ix2 heap_ok_butlast [OF ok(2)] by (simp add: queue_inv_def)
      then show ?thesis using last len2 abs2 dom' unfolding rem by simp
    qed
  qed
qed

lemma pop_law:
  assumes inv: "queue_inv q" and ne: "heap q \<noteq> []" and pop: "pop q = (e, q')"
  shows "queue_inv q' \<and> length (heap q') < length (heap q) \<and> deadlines q (pState e) = Some (expiresAt e, fd e)
    \<and> deadlines q' = (deadlines q)(pState e := None) \<and> (\<forall>s t f. deadlines q s = Some (t, f) \<longrightarrow> expiresAt e \<le> t)"
proof -
  have e: "e = heap q ! 0" "e \<in> set (heap q)" "q' = remove q (pState e)" using pop ne by (auto simp: pop_def hd_conv_nth Let_def)
  have ok: "index_ok q" "heap_ok (heap q)" using inv by (simp_all add: queue_inv_def)
  have here: "deadlines q (pState e) = Some (expiresAt e, fd e)" using e(2) by (auto simp: deadlines_Some [OF ok(1)] entry_pair_def)
  have least: "expiresAt e \<le> expiresAt e'" if mem: "e' \<in> set (heap q)" for e'
  proof -
    obtain i where "i < length (heap q)" "e' = heap q ! i" using mem by (auto simp: in_set_conv_nth)
    then show ?thesis using heap_root_least [OF ok(2), of i] e(1) by (auto simp: entry_le_def entry_less_def split: if_splits)
  qed
  have "expiresAt e \<le> t" if "deadlines q s = Some (t, f)" for s t f
    using that least by (auto simp: deadlines_Some [OF ok(1)] entry_pair_def)
  then show ?thesis using here remove_law [OF inv, of "pState e"] ne by (auto simp: e(3) dom_def)
qed

lemma clear_law: "index_ok q \<Longrightarrow> queue_inv (clear_queue q) \<and> deadlines (clear_queue q) = Map.empty"
proof -
  assume ok: "index_ok q"
  have fold: "foldl (\<lambda>ix e. ix(pState e := kNoKeepAliveDeadlineIndex)) ix h
      = (\<lambda>s. if s \<in> pState ` set h then kNoKeepAliveDeadlineIndex else ix s)" for ix h
    by (induction h arbitrary: ix) (auto simp: fun_eq_iff)
  show ?thesis using ok by (auto simp: clear_queue_def fold queue_inv_def index_ok_def heap_ok_def deadlines_def)
qed

lemma empty_law: "queue_inv empty_queue" "deadlines empty_queue = Map.empty"
  by (simp_all add: empty_queue_def queue_inv_def index_ok_def heap_ok_def deadlines_def)

text \<open>
  C18. The heap with back pointers implements a map from connections to deadlines: the empty queue is the empty map; inserting or updating a deadline, removing one and clearing the
  queue are the updates of the map; popping removes an entry with the earliest deadline of all; and every one of these operations keeps the heap ordered and the back pointers exact.\<close>

theorem deadline_queue_refines_map:
  "queue_inv empty_queue \<and> deadlines empty_queue = Map.empty
   \<and> (queue_inv q \<longrightarrow>
       (length (heap q) < kNoKeepAliveDeadlineIndex \<longrightarrow>
          queue_inv (upsert q s f t) \<and> deadlines (upsert q s f t) = (deadlines q)(s \<mapsto> (t, f)))
     \<and> queue_inv (remove q s) \<and> deadlines (remove q s) = (deadlines q)(s := None)
     \<and> queue_inv (clear_queue q) \<and> deadlines (clear_queue q) = Map.empty
     \<and> (heap q \<noteq> [] \<longrightarrow>
          (case pop q of (e, q') \<Rightarrow> queue_inv q' \<and> deadlines q (pState e) = Some (expiresAt e, fd e)
             \<and> deadlines q' = (deadlines q)(pState e := None) \<and> (\<forall>x u g. deadlines q x = Some (u, g) \<longrightarrow> expiresAt e \<le> u))))"
proof (intro conjI impI)
  show "queue_inv empty_queue" "deadlines empty_queue = Map.empty" by (rule empty_law)+
  assume inv: "queue_inv q"
  then have ok: "index_ok q" by (simp add: queue_inv_def)
  show "queue_inv (remove q s)" "deadlines (remove q s) = (deadlines q)(s := None)" using remove_law [OF inv] by simp_all
  show "queue_inv (clear_queue q)" "deadlines (clear_queue q) = Map.empty" using clear_law [OF ok] by simp_all
  show "case pop q of (e, q') \<Rightarrow> queue_inv q' \<and> deadlines q (pState e) = Some (expiresAt e, fd e)
      \<and> deadlines q' = (deadlines q)(pState e := None) \<and> (\<forall>x u g. deadlines q x = Some (u, g) \<longrightarrow> expiresAt e \<le> u)" if "heap q \<noteq> []"
    using pop_law [OF inv that] by (auto split: prod.splits)
  assume room: "length (heap q) < kNoKeepAliveDeadlineIndex"
  show "queue_inv (upsert q s f t)" "deadlines (upsert q s f t) = (deadlines q)(s \<mapsto> (t, f))"
    using upsert_new [OF inv _ room, of s f t] upsert_old [OF inv, of s f t] by blast+
qed

text \<open>A queue with two entries gives the earlier one first.\<close>

theorem deadline_queue_refines_map_witness:
  "deadlines (upsert (upsert empty_queue 1 3 50) 2 4 20) = [1 \<mapsto> (50, 3), 2 \<mapsto> (20, 4)]
    \<and> expiresAt (fst (pop (upsert (upsert empty_queue 1 3 50) 2 4 20))) \<le> 20"
proof -
  let ?q1 = "upsert empty_queue 1 3 50" and ?q2 = "upsert (upsert empty_queue 1 3 50) 2 4 20"
  have len: "length (heap empty_queue) = 0" "length (heap ?q1) = 1" "heap ?q2 \<noteq> []"
    by (simp_all add: upsert_def empty_queue_def siftUp.simps swapEntries_def entry_less_def ParentIndex_def Let_def)
  have room: "length (heap empty_queue) < kNoKeepAliveDeadlineIndex" "length (heap ?q1) < kNoKeepAliveDeadlineIndex"
    unfolding len kNoKeepAliveDeadlineIndex_def by simp_all
  note first = deadline_queue_refines_map [of empty_queue 1 3 50]
  have inv1: "queue_inv ?q1" "deadlines ?q1 = [1 \<mapsto> (50, 3)]" using first room(1) by auto
  have inv2: "queue_inv ?q2" "deadlines ?q2 = [1 \<mapsto> (50, 3), 2 \<mapsto> (20, 4)]"
    using deadline_queue_refines_map [of ?q1 2 4 20] inv1 room(2) by auto
  have "deadlines ?q2 2 = Some (20, 4)" unfolding inv2(2) by simp
  then have "expiresAt (fst (pop ?q2)) \<le> 20"
    using deadline_queue_refines_map [of ?q2 0 0 0] inv2(1) len(3) by (auto split: prod.splits)
  then show ?thesis unfolding inv2(2) by simp
qed

section \<open>The interface for the sweep\<close>

text \<open>
  What the sweep relies on: a map of deadlines from which the earliest can be taken and into which a later one can be put. The connections whose deadline
  has passed become fewer when one is taken, and do not become more when one is put back for later; with these two facts the sweep ends.
\<close>

locale deadline_map =
  fixes inv :: "'q \<Rightarrow> bool" and scheduled :: "'q \<Rightarrow> nat \<rightharpoonup> int \<times> int" and is_empty :: "'q \<Rightarrow> bool" and has_room :: "'q \<Rightarrow> bool"
    and put :: "'q \<Rightarrow> nat \<Rightarrow> int \<Rightarrow> int \<Rightarrow> 'q" and take_first :: "'q \<Rightarrow> Entry \<times> 'q" and first_deadline :: "'q \<Rightarrow> int"
  assumes finite_scheduled: "inv q \<Longrightarrow> finite (dom (scheduled q))"
    and empty_scheduled: "inv q \<Longrightarrow> is_empty q \<longleftrightarrow> scheduled q = Map.empty"
    and put_scheduled: "inv q \<Longrightarrow> has_room q \<Longrightarrow> inv (put q s f t) \<and> scheduled (put q s f t) = (scheduled q)(s \<mapsto> (t, f))"
    and take_scheduled: "inv q \<Longrightarrow> \<not> is_empty q \<Longrightarrow> take_first q = (e, q') \<Longrightarrow>
      inv q' \<and> has_room q' \<and> expiresAt e = first_deadline q \<and> scheduled q (pState e) = Some (expiresAt e, fd e) \<and> scheduled q' = (scheduled q)(pState e := None)"
    and first_least: "inv q \<Longrightarrow> scheduled q s = Some (t, f) \<Longrightarrow> first_deadline q \<le> t"
begin

definition expired :: "int \<Rightarrow> 'q \<Rightarrow> nat set" where
  "expired now q = {s. \<exists>t f. scheduled q s = Some (t, f) \<and> t \<le> now}"

lemma finite_expired: "inv q \<Longrightarrow> finite (expired now q)"
  by (rule finite_subset [OF _ finite_scheduled]) (auto simp: expired_def)

lemma none_expired:
  assumes "inv q" "is_empty q \<or> first_deadline q > now"
  shows "expired now q = {}"
  using assms empty_scheduled [OF assms(1)] first_least [OF assms(1)] by (fastforce simp: expired_def)

lemma some_expired: "inv q \<Longrightarrow> s \<in> expired now q \<Longrightarrow> \<not> is_empty q \<and> first_deadline q \<le> now"
  using none_expired [of q now] by fastforce

lemma take_expired:
  assumes "inv q" "\<not> is_empty q" "first_deadline q \<le> now" "take_first q = (e, q')"
  shows "expired now q' = expired now q - {pState e}" "card (expired now q') < card (expired now q)"
proof -
  note law = take_scheduled [OF assms(1,2,4)]
  show eq: "expired now q' = expired now q - {pState e}" using law by (auto simp: expired_def)
  have "pState e \<in> expired now q" using law assms(3) by (auto simp: expired_def)
  then show "card (expired now q') < card (expired now q)" unfolding eq by (intro card_Diff1_less finite_expired assms(1))
qed

lemma put_back_expired:
  assumes "inv q" "has_room q" "now < t"
  shows "expired now (put q s f t) = expired now q - {s}" "card (expired now (put q s f t)) \<le> card (expired now q)"
proof -
  show eq: "expired now (put q s f t) = expired now q - {s}" using put_scheduled [OF assms(1,2), of s f t] assms(3) by (auto simp: expired_def)
  show "card (expired now (put q s f t)) \<le> card (expired now q)" unfolding eq by (intro card_mono finite_expired assms(1)) auto
qed

end

interpretation dq: deadline_map queue_inv deadlines "\<lambda>q. heap q = []" "\<lambda>q. length (heap q) < kNoKeepAliveDeadlineIndex"
  upsert pop "\<lambda>q. expiresAt (heap q ! 0)"
proof (unfold_locales, goal_cases)
  case (1 q)
  then show ?case by (simp add: deadlines_def finite_dom_map_of)
next
  case (2 q)
  then show ?case by (auto simp: deadlines_def)
next
  case (3 q s f t)
  then show ?case using upsert_new [of q s f t] upsert_old [of q s f t] by blast
next
  case (4 q e q')
  then show ?case using pop_law [of q e q'] by (auto simp: queue_inv_def index_ok_def pop_def hd_conv_nth Let_def)
next
  case (5 q s t f)
  have ne: "heap q \<noteq> []" using 5(2) by (auto simp: deadlines_def)
  then show ?case using pop_law [OF 5(1) ne, of "fst (pop q)" "snd (pop q)"] 5(2) by (auto simp: pop_def hd_conv_nth Let_def)
qed

section \<open>The sweep\<close>

text \<open>
  \<^verbatim>\<open>closeExpiredKeepAliveConnections\<close> on the connection table. Closing a connection removes it from the table and from the queue; connections with a peer are skipped
  before that point, so the tear-down of peers in \<^verbatim>\<open>closeConnection\<close> does not come into play.
\<close>

record Conn =
  conn_state :: nat
  tunneling :: bool
  sendingFile :: bool
  lastActivity :: int

record Sweep =
  sw_queue :: DeadlineQueue
  sw_conns :: "int \<rightharpoonup> Conn"
  sw_closed :: "int list"

definition close_connection :: "int \<Rightarrow> nat \<Rightarrow> Sweep \<Rightarrow> Sweep" where
  "close_connection f state sw =
     sw\<lparr>sw_queue := remove (sw_queue sw) state, sw_conns := (sw_conns sw)(f := None), sw_closed := sw_closed sw @ [f]\<rparr>"

text \<open>One round of the loop; \<open>None\<close> is the \<^verbatim>\<open>break\<close>.\<close>

definition sweep_round :: "int \<Rightarrow> int \<Rightarrow> bool \<Rightarrow> Sweep \<Rightarrow> Sweep option" where
  "sweep_round now keepAliveTimeout enableKeepAlive sw =
     (if heap (sw_queue sw) = [] \<or> expiresAt (heap (sw_queue sw) ! 0) > now then None
      else
        (let (e, q1) = pop (sw_queue sw); sw1 = sw\<lparr>sw_queue := q1\<rparr> in
         case sw_conns sw (fd e) of
           None \<Rightarrow> Some sw1
         | Some c \<Rightarrow>
             if conn_state c \<noteq> pState e then Some sw1
             else if \<not> enableKeepAlive \<or> tunneling c then Some sw1
             else if sendingFile c then Some (sw1\<lparr>sw_queue := upsert q1 (pState e) (fd e) (now + keepAliveTimeout)\<rparr>)
             else if lastActivity c + keepAliveTimeout > now
             then Some (sw1\<lparr>sw_queue := upsert q1 (pState e) (fd e) (lastActivity c + keepAliveTimeout)\<rparr>)
             else Some (close_connection (fd e) (pState e) sw1)))"

partial_function (option) closeExpiredKeepAliveConnections :: "int \<Rightarrow> int \<Rightarrow> bool \<Rightarrow> Sweep \<Rightarrow> Sweep option" where
  "closeExpiredKeepAliveConnections now keepAliveTimeout enableKeepAlive sw =
     (case sweep_round now keepAliveTimeout enableKeepAlive sw of
        None \<Rightarrow> Some sw
      | Some sw1 \<Rightarrow> closeExpiredKeepAliveConnections now keepAliveTimeout enableKeepAlive sw1)"

text \<open>The descriptors to close: scheduled for a time that has passed, and idle for the whole time-out.\<close>

definition idle_conn :: "int \<Rightarrow> int \<Rightarrow> bool \<Rightarrow> Conn \<Rightarrow> bool" where
  "idle_conn now timeout enable c \<longleftrightarrow> enable \<and> \<not> tunneling c \<and> \<not> sendingFile c \<and> lastActivity c + timeout \<le> now"

definition idle_set :: "int \<Rightarrow> int \<Rightarrow> bool \<Rightarrow> (nat \<rightharpoonup> int \<times> int) \<Rightarrow> (int \<rightharpoonup> Conn) \<Rightarrow> int set" where
  "idle_set now timeout enable dl conns =
     {f. \<exists>c t. conns f = Some c \<and> dl (conn_state c) = Some (t, f) \<and> t \<le> now \<and> idle_conn now timeout enable c}"

abbreviation idle_fds :: "int \<Rightarrow> int \<Rightarrow> bool \<Rightarrow> Sweep \<Rightarrow> int set" where
  "idle_fds now timeout enable sw \<equiv> idle_set now timeout enable (deadlines (sw_queue sw)) (sw_conns sw)"

lemma idle_take:
  assumes "dl s = Some (t, f)" "t \<le> now"
  shows "idle_set now timeout enable dl conns = idle_set now timeout enable (dl(s := None)) conns
    \<union> {g. g = f \<and> (\<exists>c. conns f = Some c \<and> conn_state c = s \<and> idle_conn now timeout enable c)}"
proof (rule set_eqI)
  fix g
  have "(\<exists>c u. conns g = Some c \<and> dl (conn_state c) = Some (u, g) \<and> u \<le> now \<and> idle_conn now timeout enable c) \<longleftrightarrow>
      (\<exists>c u. conns g = Some c \<and> conn_state c \<noteq> s \<and> dl (conn_state c) = Some (u, g) \<and> u \<le> now \<and> idle_conn now timeout enable c)
      \<or> (g = f \<and> (\<exists>c. conns g = Some c \<and> conn_state c = s \<and> idle_conn now timeout enable c))"
    using assms by (cases "conns g") auto
  then show "g \<in> idle_set now timeout enable dl conns \<longleftrightarrow> g \<in> idle_set now timeout enable (dl(s := None)) conns
      \<union> {g. g = f \<and> (\<exists>c. conns f = Some c \<and> conn_state c = s \<and> idle_conn now timeout enable c)}"
    by (auto simp: idle_set_def)
qed

lemma idle_put: "now < t \<Longrightarrow> idle_set now timeout enable (dl(s \<mapsto> (t, f))) conns = idle_set now timeout enable (dl(s := None)) conns"
  by (auto simp: idle_set_def)

lemma idle_close: "idle_set now timeout enable dl (conns(f := None)) = idle_set now timeout enable dl conns - {f}"
  by (auto simp: idle_set_def)

lemma restrict_all [simp]: "m |` UNIV = m"
  by (rule ext) (simp add: restrict_map_def)

lemma sweep_round_end:
  assumes "queue_inv (sw_queue sw)" "sweep_round now timeout enable sw = None"
  shows "dq.expired now (sw_queue sw) = {}"
proof (rule dq.none_expired [OF assms(1)])
  show "heap (sw_queue sw) = [] \<or> expiresAt (heap (sw_queue sw) ! 0) > now"
    using assms(2) by (auto simp: sweep_round_def Let_def split: if_splits option.splits prod.splits)
qed

lemma sweep_round_step:
  assumes inv: "queue_inv (sw_queue sw)" and pos: "0 < timeout" and step: "sweep_round now timeout enable sw = Some sw1"
  shows "queue_inv (sw_queue sw1)" "card (dq.expired now (sw_queue sw1)) < card (dq.expired now (sw_queue sw))"
    "\<exists>xs. sw_closed sw1 = sw_closed sw @ xs \<and> distinct xs \<and> sw_conns sw1 = sw_conns sw |` (- set xs)
       \<and> set xs \<inter> idle_fds now timeout enable sw1 = {} \<and> idle_fds now timeout enable sw = set xs \<union> idle_fds now timeout enable sw1"
proof -
  let ?q = "sw_queue sw"
  obtain e q1 where pop: "pop ?q = (e, q1)" by fastforce
  have go: "heap ?q \<noteq> []" "expiresAt (heap ?q ! 0) \<le> now" using step by (auto simp: sweep_round_def split: if_splits)
  note law = dq.take_scheduled [OF inv go(1) pop]
  note fewer = dq.take_expired [OF inv go pop]
  have taken: "deadlines ?q (pState e) = Some (expiresAt e, fd e)" "deadlines q1 = (deadlines ?q)(pState e := None)" "expiresAt e \<le> now"
    using law go(2) by auto
  have room: "length (heap q1) < kNoKeepAliveDeadlineIndex" and inv1: "queue_inv q1" using law by simp_all
  note split = idle_take [where dl = "deadlines ?q" and conns = "sw_conns sw" and timeout = timeout and enable = enable, OF taken(1,3)]
  define c where "c = sw_conns sw (fd e)"
  define keep where "keep = (case c of None \<Rightarrow> True | Some c \<Rightarrow> conn_state c \<noteq> pState e \<or> \<not> enable \<or> tunneling c)"
  consider (skip) "keep" "sw1 = sw\<lparr>sw_queue := q1\<rparr>"
    | (requeue) t d where "\<not> keep" "c = Some d" "now < t" "sendingFile d \<or> now < lastActivity d + timeout" "sw1 = sw\<lparr>sw_queue := upsert q1 (pState e) (fd e) t\<rparr>"
    | (close) d where "\<not> keep" "c = Some d" "\<not> sendingFile d" "lastActivity d + timeout \<le> now"
        "sw1 = close_connection (fd e) (pState e) (sw\<lparr>sw_queue := q1\<rparr>)"
  proof (cases keep)
    case True
    then show ?thesis using step go pop that(1) by (auto simp: sweep_round_def c_def keep_def Let_def split: if_splits option.splits)
  next
    case False
    then obtain d where d: "c = Some d" "conn_state d = pState e" "enable" "\<not> tunneling d" by (auto simp: keep_def split: option.splits)
    have "sw1 = (if sendingFile d then sw\<lparr>sw_queue := upsert q1 (pState e) (fd e) (now + timeout)\<rparr>
        else if lastActivity d + timeout > now then sw\<lparr>sw_queue := upsert q1 (pState e) (fd e) (lastActivity d + timeout)\<rparr>
        else close_connection (fd e) (pState e) (sw\<lparr>sw_queue := q1\<rparr>))"
      using step go pop d by (auto simp: sweep_round_def c_def Let_def split: if_splits)
    then show ?thesis using False d(1) pos that(2) [of d "now + timeout"] that(2) [of d "lastActivity d + timeout"] that(3) [of d]
      by (auto split: if_splits)
  qed
  then have all: "queue_inv (sw_queue sw1) \<and> card (dq.expired now (sw_queue sw1)) < card (dq.expired now ?q)
    \<and> (\<exists>xs. sw_closed sw1 = sw_closed sw @ xs \<and> distinct xs \<and> sw_conns sw1 = sw_conns sw |` (- set xs)
       \<and> set xs \<inter> idle_fds now timeout enable sw1 = {} \<and> idle_fds now timeout enable sw = set xs \<union> idle_fds now timeout enable sw1)"
  proof cases
    case skip
    then have "idle_fds now timeout enable sw = idle_fds now timeout enable sw1"
      using split by (auto simp: taken(2) keep_def c_def idle_conn_def split: option.splits)
    then show ?thesis using skip inv1 fewer by (intro conjI exI [of _ "[]"]) simp_all
  next
    case (requeue t d)
    note put = dq.put_scheduled [OF inv1 room, of "pState e" "fd e" t]
    note less = dq.put_back_expired [OF inv1 room requeue(3), of "pState e" "fd e"]
    have "idle_fds now timeout enable sw1 = idle_set now timeout enable (deadlines q1) (sw_conns sw)"
      using requeue(3,5) put idle_put [OF requeue(3), of timeout enable "deadlines ?q" "pState e" "fd e" "sw_conns sw"] by (simp add: taken(2))
    moreover have "\<not> idle_conn now timeout enable d" using requeue(4) by (auto simp: idle_conn_def)
    ultimately have "idle_fds now timeout enable sw = idle_fds now timeout enable sw1"
      using split requeue(2) by (auto simp: c_def taken(2))
    then show ?thesis using requeue(5) put less fewer by (intro conjI exI [of _ "[]"]) simp_all
  next
    case (close d)
    note rem = remove_law [OF inv1, of "pState e"]
    have q1: "deadlines (remove q1 (pState e)) = deadlines q1" using rem taken(2) by simp
    have same: "dq.expired now (remove q1 (pState e)) = dq.expired now q1" by (simp add: dq.expired_def q1)
    have d: "idle_conn now timeout enable d" "conn_state d = pState e"
      using close(1-4) by (simp_all add: keep_def idle_conn_def)
    have "idle_fds now timeout enable sw1 = idle_set now timeout enable (deadlines q1) (sw_conns sw) - {fd e}"
      using close(5) by (simp add: close_connection_def q1 idle_close)
    then have "idle_fds now timeout enable sw = {fd e} \<union> idle_fds now timeout enable sw1" "fd e \<notin> idle_fds now timeout enable sw1"
      using split close(2) d by (auto simp: c_def taken(2))
    moreover have "(sw_conns sw)(fd e := None) = sw_conns sw |` (- {fd e})" by (auto simp: restrict_map_def)
    ultimately show ?thesis using close(5) rem fewer same
      by (intro conjI exI [of _ "[fd e]"]) (simp_all add: close_connection_def)
  qed
  then show "queue_inv (sw_queue sw1)" "card (dq.expired now (sw_queue sw1)) < card (dq.expired now (sw_queue sw))"
    "\<exists>xs. sw_closed sw1 = sw_closed sw @ xs \<and> distinct xs \<and> sw_conns sw1 = sw_conns sw |` (- set xs)
       \<and> set xs \<inter> idle_fds now timeout enable sw1 = {} \<and> idle_fds now timeout enable sw = set xs \<union> idle_fds now timeout enable sw1" by simp_all
qed


text \<open>A connection that is idle and one that is sending a file.\<close>

definition sample_sweep :: Sweep where
  "sample_sweep = \<lparr>sw_queue = upsert (upsert empty_queue 1 3 50) 2 4 20,
     sw_conns = [3 \<mapsto> \<lparr>conn_state = 1, tunneling = False, sendingFile = False, lastActivity = 40\<rparr>,
                 4 \<mapsto> \<lparr>conn_state = 2, tunneling = False, sendingFile = True, lastActivity = 10\<rparr>],
     sw_closed = []\<rparr>"

lemma sample_sweep_queue:
  "queue_inv (sw_queue sample_sweep)" "deadlines (sw_queue sample_sweep) = [1 \<mapsto> (50, 3), 2 \<mapsto> (20, 4)]"
proof -
  let ?q = "upsert empty_queue 1 3 50"
  have room: "length (heap empty_queue) < kNoKeepAliveDeadlineIndex" by (simp add: empty_queue_def kNoKeepAliveDeadlineIndex_def)
  note one = dq.put_scheduled [OF empty_law(1) room, of 1 3 50]
  have "length (heap ?q) = 1" by (simp add: upsert_def empty_queue_def siftUp.simps Let_def)
  then have room1: "length (heap ?q) < kNoKeepAliveDeadlineIndex" unfolding kNoKeepAliveDeadlineIndex_def by simp
  note two = dq.put_scheduled [OF conjunct1 [OF one] room1, of 2 4 20]
  show "queue_inv (sw_queue sample_sweep)" using two by (simp add: sample_sweep_def)
  have "deadlines (sw_queue sample_sweep) = (deadlines ?q)(2 \<mapsto> (20, 4))" using two by (simp add: sample_sweep_def)
  then show "deadlines (sw_queue sample_sweep) = [1 \<mapsto> (50, 3), 2 \<mapsto> (20, 4)]" using one empty_law(2) by simp
qed


text \<open>
  With a time-out of zero, a connection that is sending a file and whose deadline has passed is put back with a deadline that has passed again: the sweep does not return.
\<close>

definition stuck :: "int \<Rightarrow> int \<Rightarrow> Conn \<Rightarrow> Sweep \<Rightarrow> bool" where
  "stuck now f c sw \<longleftrightarrow> queue_inv (sw_queue sw) \<and> sw_conns sw f = Some c \<and> (\<exists>t \<le> now. deadlines (sw_queue sw) (conn_state c) = Some (t, f))"

lemma stuck_step:
  assumes "stuck now f c sw" "sendingFile c" "\<not> tunneling c"
  shows "\<exists>sw1. sweep_round now 0 True sw = Some sw1 \<and> stuck now f c sw1"
proof -
  let ?q = "sw_queue sw"
  have inv: "queue_inv ?q" and conn: "sw_conns sw f = Some c" using assms(1) by (simp_all add: stuck_def)
  obtain t where t: "t \<le> now" "deadlines ?q (conn_state c) = Some (t, f)" using assms(1) by (auto simp: stuck_def)
  have go: "heap ?q \<noteq> []" "expiresAt (heap ?q ! 0) \<le> now"
    using dq.some_expired [OF inv, of "conn_state c" now] t by (auto simp: dq.expired_def)
  obtain e q1 where pop: "pop ?q = (e, q1)" by fastforce
  note law = dq.take_scheduled [OF inv go(1) pop]
  have other: "deadlines q1 (conn_state c) = Some (t, f)" if "conn_state c \<noteq> pState e" using law t that by simp
  have put: "queue_inv (upsert q1 (pState e) g u)" "deadlines (upsert q1 (pState e) g u) = (deadlines q1)(pState e \<mapsto> (u, g))" for g u
    using dq.put_scheduled [of q1 "pState e" g u] law by simp_all
  have rem: "queue_inv (remove q1 (pState e))" "deadlines (remove q1 (pState e)) = deadlines q1"
    using remove_law [of q1 "pState e"] law by simp_all
  show ?thesis
  proof (cases "conn_state c = pState e")
    case True
    then have "fd e = f" using law t by simp
    then show ?thesis using True go pop conn assms(2,3) put by (auto simp: sweep_round_def stuck_def Let_def)
  next
    case False
    show ?thesis
    proof (cases "sw_conns sw (fd e)")
      case None
      then show ?thesis using False go pop conn law other [OF False] t(1) by (auto simp: sweep_round_def stuck_def Let_def)
    next
      case (Some d)
      have "fd e \<noteq> f" if "conn_state d = pState e" using that Some conn False by auto
      then show ?thesis using False Some go pop conn law other [OF False] t(1) put rem
        by (auto simp: sweep_round_def stuck_def close_connection_def Let_def)
    qed
  qed
qed

lemma keep_alive_sweep_hangs:
  assumes "stuck now f c sw" "sendingFile c" "\<not> tunneling c"
  shows "closeExpiredKeepAliveConnections now 0 True sw = None"
proof -
  have "timeout = 0 \<and> enable \<longrightarrow> \<not> stuck now f c sw" if "closeExpiredKeepAliveConnections now timeout enable sw = Some r" for now timeout enable sw r
  proof (rule closeExpiredKeepAliveConnections.raw_induct [where P = "\<lambda>now timeout enable sw r. timeout = 0 \<and> enable \<longrightarrow> \<not> stuck now f c sw", OF _ that])
    fix loop now timeout enable sw r
    assume ih: "\<And>now timeout enable sw r. loop now timeout enable sw = Some r \<Longrightarrow> timeout = 0 \<and> enable \<longrightarrow> \<not> stuck now f c sw"
      and run: "(case sweep_round now timeout enable sw of None \<Rightarrow> Some sw | Some sw1 \<Rightarrow> loop now timeout enable sw1) = Some (r :: Sweep)"
    have False if zero: "timeout = 0 \<and> enable" and st: "stuck now f c sw"
    proof -
      obtain sw1 where "sweep_round now timeout enable sw = Some sw1" "stuck now f c sw1" using stuck_step [OF st assms(2,3)] zero by auto
      then show False using ih [of now timeout enable sw1 r] run zero by simp
    qed
    then show "timeout = 0 \<and> enable \<longrightarrow> \<not> stuck now f c sw" by blast
  qed
  then show ?thesis using assms(1) by (cases "closeExpiredKeepAliveConnections now 0 True sw") blast+
qed

end
