(* ===== verification/Ws_Upgrade.thy ===== *)
theory Ws_Upgrade
  imports Sha1 Codecs Concat_Strings
begin

text \<open>
  Protocol upgrades: the handshake functions of \<^verbatim>\<open>websocket-upgrade.cpp\<close>, the negotiation of \<^verbatim>\<open>permessage-deflate\<close> in
  \<^verbatim>\<open>websocket-deflate.cpp\<close> (in a build with zlib), and \<^verbatim>\<open>upgrade-handler.cpp\<close>. A header map is an association list that is searched
  ignoring case. Two things can go wrong in C++ terms and are faults of the model: a read outside the table of base64 characters, and the
  exception that \<^verbatim>\<open>ConcatenatedStrings::append\<close> throws.
\<close>

datatype UpgradeFault = OutOfBoundsRead | InvalidArgument

section \<open>The key of the handshake\<close>

definition kGUID :: bytes where
  "kGUID = bytes_of ''258EAFA5-E914-47DA-95CA-C5AB0DC85B11''"

definition kIsBase64CharTable :: "bool list" where
  "kIsBase64CharTable =
     map (\<lambda>ch. 65 \<le> ch \<and> ch \<le> 90 \<or> 97 \<le> ch \<and> ch \<le> 122 \<or> 48 \<le> ch \<and> ch \<le> 57 \<or> ch = 43 \<or> ch = 47 \<or> ch = 61) [0..<127]"

definition IsBase64Char :: "u8 \<Rightarrow> bool option" where
  "IsBase64Char ch = (if unat ch < length kIsBase64CharTable then Some (kIsBase64CharTable ! unat ch) else None)"

text \<open>\<^verbatim>\<open>std::ranges::all_of\<close>, which stops at the first character that is not one.\<close>

fun all_base64 :: "bytes \<Rightarrow> bool option" where
  "all_base64 [] = Some True"
| "all_base64 (ch # rest) = (case IsBase64Char ch of None \<Rightarrow> None | Some b \<Rightarrow> if b then all_base64 rest else Some False)"

definition IsValidWebSocketKey :: "bytes \<Rightarrow> bool option" where
  "IsValidWebSocketKey key =
     (if length key \<noteq> 24 then Some False
      else case all_base64 key of
             None \<Rightarrow> None
           | Some b \<Rightarrow> if \<not> b then Some False else Some (key ! 22 = 0x3D \<and> key ! 23 = 0x3D))"

text \<open>The digest context on the stack starts with an indeterminate buffer, \<open>garbage\<close>.\<close>

definition ComputeWebSocketAccept :: "(nat \<Rightarrow> u8) \<Rightarrow> bytes \<Rightarrow> bytes" where
  "ComputeWebSocketAccept garbage key =
     (let sha1Ctx = sha_update (sha_update (newSHA1 garbage) key) kGUID;
          hash = fst (sha_final sha1Ctx)
      in B64Encode hash (B64EncodedLen 20))"

section \<open>Negotiating compression\<close>

record DeflateConfig =
  cfg_enabled :: bool
  compressionLevel :: int
  cfg_serverMaxWindowBits :: u8
  cfg_clientMaxWindowBits :: u8
  cfg_serverNoContextTakeover :: bool
  cfg_clientNoContextTakeover :: bool
  minCompressSize :: u32

record DeflateNegotiatedParams =
  serverMaxWindowBits :: u8
  clientMaxWindowBits :: u8
  serverNoContextTakeover :: bool
  clientNoContextTakeover :: bool

text \<open>\<^verbatim>\<open>validate\<close>: the message of the exception, if any.\<close>

definition DeflateConfig_validate :: "DeflateConfig \<Rightarrow> string option" where
  "DeflateConfig_validate c =
     (if compressionLevel c < 0 \<or> compressionLevel c > 9 then Some ''DeflateConfig: compressionLevel must be between 0 and 9''
      else if cfg_serverMaxWindowBits c < 8 \<or> cfg_serverMaxWindowBits c > 15
      then Some ''DeflateConfig: serverMaxWindowBits must be between 8 and 15''
      else if cfg_clientMaxWindowBits c < 8 \<or> cfg_clientMaxWindowBits c > 15
      then Some ''DeflateConfig: clientMaxWindowBits must be between 8 and 15''
      else if minCompressSize c < 16 then Some ''DeflateConfig: minCompressSize must be at least 16 bytes''
      else None)"

definition kPermessageDeflate :: bytes where "kPermessageDeflate = bytes_of ''permessage-deflate''"
definition kServerNoContextTakeover :: bytes where "kServerNoContextTakeover = bytes_of ''server_no_context_takeover''"
definition kClientNoContextTakeover :: bytes where "kClientNoContextTakeover = bytes_of ''client_no_context_takeover''"
definition kServerMaxWindowBits :: bytes where "kServerMaxWindowBits = bytes_of ''server_max_window_bits''"
definition kClientMaxWindowBits :: bytes where "kClientMaxWindowBits = bytes_of ''client_max_window_bits''"

text \<open>What is before the first separator, and what is after it if there is one.\<close>

definition split_at :: "u8 \<Rightarrow> bytes \<Rightarrow> bytes \<times> bytes option" where
  "split_at sep s =
     (takeWhile (\<lambda>c. c \<noteq> sep) s, case dropWhile (\<lambda>c. c \<noteq> sep) s of [] \<Rightarrow> None | _ # rest \<Rightarrow> Some rest)"

definition ParseExtensionParam :: "bytes \<Rightarrow> bytes \<times> bytes option" where
  "ParseExtensionParam param =
     (case split_at 0x3D param of
        (_, None) \<Rightarrow> (TrimOws param, None)
      | (n, Some v) \<Rightarrow>
          (let name = TrimOws n; val = TrimOws v
           in (name, Some (if length val \<ge> 2 \<and> hd val = 0x22 \<and> last val = 0x22 then butlast (tl val) else val))))"

text \<open>\<^verbatim>\<open>std::from_chars\<close> into a \<^verbatim>\<open>uint8_t\<close>: the value and the rest of the text, or an error.\<close>

definition is_digit :: "u8 \<Rightarrow> bool" where
  "is_digit ch \<longleftrightarrow> 0x30 \<le> ch \<and> ch \<le> 0x39"

definition from_chars_u8 :: "bytes \<Rightarrow> (u8 \<times> bytes) option" where
  "from_chars_u8 s =
     (let digits = takeWhile is_digit s; n = foldl (\<lambda>n d. n * 10 + (uint d - 48)) 0 digits
      in if digits = [] \<or> n > 255 then None else Some (of_int n, dropWhile is_digit s))"

definition ParseWindowBits :: "bytes \<Rightarrow> u8" where
  "ParseWindowBits val =
     (case from_chars_u8 val of
        None \<Rightarrow> 0
      | Some (bits, rest) \<Rightarrow> if rest \<noteq> [] \<or> bits < 8 \<or> bits > 15 then 0 else bits)"

text \<open>The loop that the parsers share: the tokens between separators, where a separator at the very end starts no token.\<close>

function tokens :: "u8 \<Rightarrow> bytes \<Rightarrow> bytes list" where
  "tokens sep s =
     (if s = [] then []
      else takeWhile (\<lambda>c. c \<noteq> sep) s # tokens sep (tl (dropWhile (\<lambda>c. c \<noteq> sep) s)))"
  by pat_completeness auto
termination
proof (relation "measure (\<lambda>(sep, s). length s)", goal_cases)
  case (2 sep s)
  then have "0 < length s" by simp
  then have "length (dropWhile (\<lambda>c. c \<noteq> sep) s) - 1 < length s"
    using length_dropWhile_le [of "\<lambda>c. c \<noteq> sep" s] by linarith
  then show ?case by simp
qed simp

declare tokens.simps [simp del]

definition offer_param :: "DeflateConfig \<Rightarrow> DeflateNegotiatedParams \<Rightarrow> bytes \<Rightarrow> DeflateNegotiatedParams option" where
  "offer_param serverConfig params paramStr =
     (let (name, val) = ParseExtensionParam paramStr in
      if CaseInsensitiveEqual name kServerNoContextTakeover then Some (params\<lparr>serverNoContextTakeover := True\<rparr>)
      else if CaseInsensitiveEqual name kClientNoContextTakeover then Some (params\<lparr>clientNoContextTakeover := True\<rparr>)
      else if CaseInsensitiveEqual name kServerMaxWindowBits then
        (case val of
           None \<Rightarrow> Some params
         | Some v \<Rightarrow> (let bits = ParseWindowBits v in
             if bits = 0 then None else Some (params\<lparr>serverMaxWindowBits := min bits (cfg_serverMaxWindowBits serverConfig)\<rparr>)))
      else if CaseInsensitiveEqual name kClientMaxWindowBits then
        (case val of
           None \<Rightarrow> Some params
         | Some v \<Rightarrow> (let bits = ParseWindowBits v in
             if bits = 0 then None else Some (params\<lparr>clientMaxWindowBits := min bits (cfg_clientMaxWindowBits serverConfig)\<rparr>)))
      else Some params)"

fun offer_params :: "DeflateConfig \<Rightarrow> DeflateNegotiatedParams \<Rightarrow> bytes list \<Rightarrow> DeflateNegotiatedParams option" where
  "offer_params serverConfig params [] = Some params"
| "offer_params serverConfig params (p # ps) =
     (case offer_param serverConfig params p of None \<Rightarrow> None | Some params1 \<Rightarrow> offer_params serverConfig params1 ps)"

definition ParseDeflateOffer :: "bytes \<Rightarrow> DeflateConfig \<Rightarrow> DeflateNegotiatedParams option" where
  "ParseDeflateOffer extensionOffer serverConfig =
     (let params = \<lparr>serverMaxWindowBits = cfg_serverMaxWindowBits serverConfig,
                    clientMaxWindowBits = cfg_clientMaxWindowBits serverConfig,
                    serverNoContextTakeover = cfg_serverNoContextTakeover serverConfig,
                    clientNoContextTakeover = cfg_clientNoContextTakeover serverConfig\<rparr>;
          (extensionName, rest) = split_at 0x3B extensionOffer
      in if \<not> CaseInsensitiveEqual (TrimOws extensionName) kPermessageDeflate then None
         else case rest of None \<Rightarrow> Some params | Some r \<Rightarrow> offer_params serverConfig params (tokens 0x3B r))"

definition kSemicolonSpace :: bytes where
  "kSemicolonSpace = bytes_of ''; ''"

definition ComputeDeflateResponseSize :: "DeflateNegotiatedParams \<Rightarrow> nat" where
  "ComputeDeflateResponseSize params =
     length kPermessageDeflate
     + (if serverNoContextTakeover params then length kSemicolonSpace + length kServerNoContextTakeover else 0)
     + (if clientNoContextTakeover params then length kSemicolonSpace + length kClientNoContextTakeover else 0)
     + (if serverMaxWindowBits params < 15
        then length kSemicolonSpace + length kServerMaxWindowBits + 1 + unat (nchars (ucast (serverMaxWindowBits params))) else 0)
     + (if clientMaxWindowBits params < 15
        then length kSemicolonSpace + length kClientMaxWindowBits + 1 + unat (nchars (ucast (clientMaxWindowBits params))) else 0)"

definition BuildDeflateResponse :: "DeflateNegotiatedParams \<Rightarrow> bytes \<Rightarrow> bytes" where
  "BuildDeflateResponse params out =
     out @ kPermessageDeflate
     @ (if serverNoContextTakeover params then kSemicolonSpace @ kServerNoContextTakeover else [])
     @ (if clientNoContextTakeover params then kSemicolonSpace @ kClientNoContextTakeover else [])
     @ (if serverMaxWindowBits params < 15
        then kSemicolonSpace @ kServerMaxWindowBits @ [0x3D] @ to_chars (unat (serverMaxWindowBits params)) else [])
     @ (if clientMaxWindowBits params < 15
        then kSemicolonSpace @ kClientMaxWindowBits @ [0x3D] @ to_chars (unat (clientMaxWindowBits params)) else [])"

section \<open>Validating an upgrade request\<close>

text \<open>The messages of a refused upgrade.\<close>

datatype UpgradeError =
  MissingUpgradeHeader | UpgradeHeaderIsNotWebsocket | ConnectionHeaderDoesNotContainUpgrade | MissingVersionHeader | UnsupportedVersion
| MissingKeyHeader | InvalidKeyFormat | UpgradeHeaderIsNotH2c | MissingConnectionHeader | MissingHttp2SettingsHeader | EmptyHttp2SettingsHeader

datatype ProtocolType = Http11 | WebSocket | Http2

text \<open>\<^verbatim>\<open>HeadersViewMap::find\<close>: the map compares names ignoring case.\<close>

type_synonym headers = "(bytes \<times> bytes) list"

definition headers_find :: "headers \<Rightarrow> bytes \<Rightarrow> bytes option" where
  "headers_find hs name = map_option snd (find (\<lambda>h. CaseInsensitiveEqual (fst h) name) hs)"

record WebSocketUpgradeConfig =
  supportedProtocols :: bytes
  deflateConfig :: DeflateConfig

record UpgradeValidationResult =
  res_valid :: bool
  targetProtocol :: ProtocolType
  secWebSocketAccept :: bytes
  deflateParams :: "DeflateNegotiatedParams option"
  errorMessage :: "UpgradeError option"
  selectedProtocol :: bytes
  offeredProtocols :: bytes
  offeredExtensions :: bytes

definition emptyResult :: UpgradeValidationResult where
  "emptyResult = \<lparr>res_valid = False, targetProtocol = Http11, secWebSocketAccept = replicate 28 0, deflateParams = None,
     errorMessage = None, selectedProtocol = [], offeredProtocols = [], offeredExtensions = []\<rparr>"

abbreviation hdr_upgrade :: bytes where "hdr_upgrade \<equiv> bytes_of ''upgrade''"
abbreviation hdr_connection :: bytes where "hdr_connection \<equiv> bytes_of ''connection''"
abbreviation SecWebSocketKey :: bytes where "SecWebSocketKey \<equiv> bytes_of ''Sec-WebSocket-Key''"
abbreviation SecWebSocketAccept :: bytes where "SecWebSocketAccept \<equiv> bytes_of ''Sec-WebSocket-Accept''"
abbreviation SecWebSocketVersion :: bytes where "SecWebSocketVersion \<equiv> bytes_of ''Sec-WebSocket-Version''"
abbreviation SecWebSocketProtocol :: bytes where "SecWebSocketProtocol \<equiv> bytes_of ''Sec-WebSocket-Protocol''"
abbreviation SecWebSocketExtensions :: bytes where "SecWebSocketExtensions \<equiv> bytes_of ''Sec-WebSocket-Extensions''"
abbreviation UpgradeValue :: bytes where "UpgradeValue \<equiv> bytes_of ''websocket''"
abbreviation kAlpnH2c :: bytes where "kAlpnH2c \<equiv> bytes_of ''h2c''"

abbreviation cs_sep :: bytes where "cs_sep \<equiv> sep_of ConcatenatedStrings"

fun append_tokens :: "bytes \<Rightarrow> bytes list \<Rightarrow> UpgradeFault + bytes" where
  "append_tokens result [] = Inr result"
| "append_tokens result (tok # toks) =
     (let token = TrimOws tok in
      if token = [] then append_tokens result toks
      else case cs_append cs_sep result token of None \<Rightarrow> Inl InvalidArgument | Some r \<Rightarrow> append_tokens r toks)"

definition ParseTokenList :: "bytes \<Rightarrow> UpgradeFault + bytes" where
  "ParseTokenList hdr = append_tokens [] (tokens 0x2C hdr)"

text \<open>The parts of a list, which are always there (\<open>[]\<close> for a buffer that is no list).\<close>

definition cs_list :: "bytes \<Rightarrow> bytes list" where
  "cs_list buf = (case cs_parts cs_sep buf of None \<Rightarrow> [] | Some ps \<Rightarrow> ps)"

definition NegotiateSubprotocol :: "bytes \<Rightarrow> bytes \<Rightarrow> bytes" where
  "NegotiateSubprotocol offered supported =
     (case find (\<lambda>serverProto. cs_containsCI cs_sep offered serverProto = Some True) (cs_list supported) of
        Some p \<Rightarrow> p
      | None \<Rightarrow> [])"

definition ConnectionContainsUpgrade :: "bytes \<Rightarrow> bool" where
  "ConnectionContainsUpgrade connectionValue =
     list_ex (\<lambda>token. CaseInsensitiveEqual (TrimOws token) hdr_upgrade) (tokens 0x2C connectionValue)"

fun first_offer :: "DeflateConfig \<Rightarrow> bytes list \<Rightarrow> DeflateNegotiatedParams option" where
  "first_offer c [] = None"
| "first_offer c (ext # exts) = (case ParseDeflateOffer ext c of Some params \<Rightarrow> Some params | None \<Rightarrow> first_offer c exts)"

text \<open>
  The negotiation after the key was accepted: subprotocols, then extensions.
\<close>

definition negotiate_protocol :: "headers \<Rightarrow> WebSocketUpgradeConfig \<Rightarrow> UpgradeValidationResult \<Rightarrow> UpgradeFault + UpgradeValidationResult" where
  "negotiate_protocol headers config result =
     (case headers_find headers SecWebSocketProtocol of
        None \<Rightarrow> Inr result
      | Some v \<Rightarrow>
          if v = [] then Inr result
          else case ParseTokenList v of
                 Inl e \<Rightarrow> Inl e
               | Inr offered \<Rightarrow> Inr (result\<lparr>offeredProtocols := offered,
                   selectedProtocol := NegotiateSubprotocol offered (supportedProtocols config)\<rparr>))"

definition negotiate_extensions :: "headers \<Rightarrow> WebSocketUpgradeConfig \<Rightarrow> UpgradeValidationResult \<Rightarrow> UpgradeFault + UpgradeValidationResult" where
  "negotiate_extensions headers config result =
     (case headers_find headers SecWebSocketExtensions of
        None \<Rightarrow> Inr result
      | Some v \<Rightarrow>
          if v = [] then Inr result
          else case ParseTokenList v of
                 Inl e \<Rightarrow> Inl e
               | Inr offered \<Rightarrow> Inr (result\<lparr>offeredExtensions := offered,
                   deflateParams := (if cfg_enabled (deflateConfig config)
                     then first_offer (deflateConfig config) (cs_list offered) else None)\<rparr>))"

definition ValidateWebSocketUpgrade ::
    "(nat \<Rightarrow> u8) \<Rightarrow> headers \<Rightarrow> WebSocketUpgradeConfig \<Rightarrow> UpgradeFault + UpgradeValidationResult" where
  "ValidateWebSocketUpgrade garbage headers config =
     (let refuse = (\<lambda>msg. Inr (emptyResult\<lparr>errorMessage := Some msg\<rparr>)) in
      case headers_find headers hdr_upgrade of
        None \<Rightarrow> refuse MissingUpgradeHeader
      | Some up \<Rightarrow>
      if \<not> CaseInsensitiveEqual up UpgradeValue then refuse UpgradeHeaderIsNotWebsocket
      else if \<not> (case headers_find headers hdr_connection of None \<Rightarrow> False | Some v \<Rightarrow> ConnectionContainsUpgrade v)
      then refuse ConnectionHeaderDoesNotContainUpgrade
      else case headers_find headers SecWebSocketVersion of
        None \<Rightarrow> refuse MissingVersionHeader
      | Some version \<Rightarrow>
      if version \<noteq> bytes_of ''13'' then refuse UnsupportedVersion
      else case headers_find headers SecWebSocketKey of
        None \<Rightarrow> refuse MissingKeyHeader
      | Some key \<Rightarrow>
      (case IsValidWebSocketKey key of
         None \<Rightarrow> Inl OutOfBoundsRead
       | Some False \<Rightarrow> refuse InvalidKeyFormat
       | Some True \<Rightarrow>
           (case negotiate_protocol headers config (emptyResult\<lparr>secWebSocketAccept := ComputeWebSocketAccept garbage key\<rparr>) of
              Inl e \<Rightarrow> Inl e
            | Inr r1 \<Rightarrow>
                (case negotiate_extensions headers config r1 of
                   Inl e \<Rightarrow> Inl e
                 | Inr r2 \<Rightarrow> Inr (r2\<lparr>res_valid := True, targetProtocol := WebSocket\<rparr>)))))"

definition ValidateHttp2Upgrade :: "headers \<Rightarrow> UpgradeValidationResult" where
  "ValidateHttp2Upgrade headers =
     (let refuse = (\<lambda>msg. emptyResult\<lparr>errorMessage := Some msg\<rparr>) in
      case headers_find headers hdr_upgrade of
        None \<Rightarrow> refuse MissingUpgradeHeader
      | Some up \<Rightarrow>
      if \<not> CaseInsensitiveEqual up kAlpnH2c then refuse UpgradeHeaderIsNotH2c
      else case headers_find headers hdr_connection of
        None \<Rightarrow> refuse MissingConnectionHeader
      | Some v \<Rightarrow>
      if \<not> ConnectionContainsUpgrade v then refuse ConnectionHeaderDoesNotContainUpgrade
      else case headers_find headers (bytes_of ''HTTP2-Settings'') of
        None \<Rightarrow> refuse MissingHttp2SettingsHeader
      | Some settings \<Rightarrow>
      if settings = [] then refuse EmptyHttp2SettingsHeader
      else emptyResult\<lparr>res_valid := True, targetProtocol := Http2\<rparr>)"

definition DetectUpgradeTarget :: "bytes \<Rightarrow> ProtocolType" where
  "DetectUpgradeTarget upgradeHeaderValue =
     (if CaseInsensitiveEqual upgradeHeaderValue kAlpnH2c then Http2
      else if CaseInsensitiveEqual upgradeHeaderValue UpgradeValue then WebSocket else Http11)"

section \<open>The response\<close>

abbreviation http_crlf :: bytes where "http_crlf \<equiv> [0x0D, 0x0A]"
abbreviation HeaderSep :: bytes where "HeaderSep \<equiv> [0x3A, 0x20]"

definition kSwitchingProtocolsHttp11HeaderLine :: bytes where
  "kSwitchingProtocolsHttp11HeaderLine = bytes_of ''HTTP/1.1 101 Switching Protocols'' @ http_crlf"

definition AppendHeaderCRLF :: "bytes \<Rightarrow> bytes \<Rightarrow> bytes \<Rightarrow> bytes" where
  "AppendHeaderCRLF name val buf = buf @ name @ HeaderSep @ val @ http_crlf"

definition BuildWebSocketUpgradeResponse :: "UpgradeValidationResult \<Rightarrow> bytes" where
  "BuildWebSocketUpgradeResponse v =
     (let r0 = kSwitchingProtocolsHttp11HeaderLine;
          r1 = AppendHeaderCRLF hdr_upgrade UpgradeValue r0;
          r2 = AppendHeaderCRLF hdr_connection hdr_upgrade r1;
          r3 = AppendHeaderCRLF SecWebSocketAccept (secWebSocketAccept v) r2;
          r4 = (if selectedProtocol v \<noteq> [] then AppendHeaderCRLF SecWebSocketProtocol (selectedProtocol v) r3 else r3);
          r5 = (case deflateParams v of
                  None \<Rightarrow> r4
                | Some p \<Rightarrow> BuildDeflateResponse p (r4 @ SecWebSocketExtensions @ HeaderSep) @ http_crlf)
      in r5 @ http_crlf)"

definition BuildHttp2UpgradeResponse :: bytes where
  "BuildHttp2UpgradeResponse =
     kSwitchingProtocolsHttp11HeaderLine @ hdr_upgrade @ HeaderSep @ kAlpnH2c @ http_crlf
     @ hdr_connection @ HeaderSep @ hdr_upgrade @ http_crlf @ http_crlf"

section \<open>What is negotiated\<close>

definition good_params :: "DeflateConfig \<Rightarrow> DeflateNegotiatedParams \<Rightarrow> bool" where
  "good_params c p \<longleftrightarrow>
     8 \<le> serverMaxWindowBits p \<and> serverMaxWindowBits p \<le> 15 \<and> serverMaxWindowBits p \<le> cfg_serverMaxWindowBits c
     \<and> 8 \<le> clientMaxWindowBits p \<and> clientMaxWindowBits p \<le> 15 \<and> clientMaxWindowBits p \<le> cfg_clientMaxWindowBits c
     \<and> (cfg_serverNoContextTakeover c \<longrightarrow> serverNoContextTakeover p)
     \<and> (cfg_clientNoContextTakeover c \<longrightarrow> clientNoContextTakeover p)"

lemma ParseWindowBits_range: "ParseWindowBits v = 0 \<or> 8 \<le> ParseWindowBits v \<and> ParseWindowBits v \<le> 15"
  by (auto simp: ParseWindowBits_def not_less split: option.split)

lemma good_window_bits:
  assumes "good_params c p" "ParseWindowBits v \<noteq> 0"
  shows "good_params c (p\<lparr>serverMaxWindowBits := min (ParseWindowBits v) (cfg_serverMaxWindowBits c)\<rparr>)"
    "good_params c (p\<lparr>clientMaxWindowBits := min (ParseWindowBits v) (cfg_clientMaxWindowBits c)\<rparr>)"
proof -
  have v: "8 \<le> ParseWindowBits v" "ParseWindowBits v \<le> 15" using ParseWindowBits_range [of v] assms(2) by auto
  have c: "8 \<le> cfg_serverMaxWindowBits c" "8 \<le> cfg_clientMaxWindowBits c"
    using assms(1) unfolding good_params_def by (meson order_trans)+
  show "good_params c (p\<lparr>serverMaxWindowBits := min (ParseWindowBits v) (cfg_serverMaxWindowBits c)\<rparr>)"
    "good_params c (p\<lparr>clientMaxWindowBits := min (ParseWindowBits v) (cfg_clientMaxWindowBits c)\<rparr>)"
    using assms(1) v c by (auto simp: good_params_def min_le_iff_disj)
qed

lemma good_flags:
  "good_params c p \<Longrightarrow> good_params c (p\<lparr>serverNoContextTakeover := True\<rparr>)"
  "good_params c p \<Longrightarrow> good_params c (p\<lparr>clientNoContextTakeover := True\<rparr>)"
  by (simp_all add: good_params_def)

lemma offer_param_good: "good_params c p \<Longrightarrow> offer_param c p s = Some q \<Longrightarrow> good_params c q"
  by (auto simp: offer_param_def Let_def good_window_bits good_flags split: prod.splits option.splits if_splits)

lemma offer_params_good: "good_params c p \<Longrightarrow> offer_params c p ss = Some q \<Longrightarrow> good_params c q"
  by (induction ss arbitrary: p) (auto split: option.splits intro: offer_param_good)

lemma ParseDeflateOffer_good:
  assumes "DeflateConfig_validate c = None" "ParseDeflateOffer s c = Some q"
  shows "good_params c q"
proof -
  let ?p = "\<lparr>serverMaxWindowBits = cfg_serverMaxWindowBits c, clientMaxWindowBits = cfg_clientMaxWindowBits c,
    serverNoContextTakeover = cfg_serverNoContextTakeover c, clientNoContextTakeover = cfg_clientNoContextTakeover c\<rparr>"
  have "good_params c ?p" using assms(1) by (auto simp: DeflateConfig_validate_def good_params_def not_less split: if_splits)
  then show ?thesis using assms(2)
    by (auto simp: ParseDeflateOffer_def Let_def split: prod.splits option.splits if_splits intro: offer_params_good)
qed

lemma first_offer_good: "DeflateConfig_validate c = None \<Longrightarrow> first_offer c exts = Some q \<Longrightarrow> good_params c q"
  by (induction exts) (auto split: option.splits intro: ParseDeflateOffer_good)

text \<open>The digest is twenty bytes, the accept value its base64 of twenty-eight characters.\<close>

lemma length_fips_sha1: "length (fips_sha1 m) = 20"
proof -
  have "length (foldl fips_block H Ms) = 5" if "length H = 5" for H Ms
    using that by (induction Ms arbitrary: H) (auto simp: fips_block_def split: prod.split)
  then have "length (foldl fips_block kInitialDigest Ms) = 5" for Ms by (simp add: kInitialDigest_def)
  moreover have "length (digest_bytes ws) = 4 * length ws" for ws by (induction ws) (simp_all add: digest_bytes_def)
  ultimately show ?thesis by (simp add: fips_sha1_def)
qed

lemma accept_value:
  "ComputeWebSocketAccept garbage key = rfc4648 kB64Table [of_char CHR ''=''] (fips_sha1 (key @ kGUID))"
proof -
  have "fst (sha_final (sha_update (sha_update (newSHA1 garbage) key) kGUID)) = fips_sha1 (key @ kGUID)"
    using sha1_correct [of garbage "[key, kGUID]"] by simp
  then show ?thesis using base64_correct [of "fips_sha1 (key @ kGUID)"]
    by (simp add: ComputeWebSocketAccept_def length_fips_sha1)
qed


section \<open>The response of the negotiation\<close>

text \<open>A configuration without restrictions.\<close>

definition open_config :: DeflateConfig where
  "open_config = \<lparr>cfg_enabled = True, compressionLevel = 6, cfg_serverMaxWindowBits = 15, cfg_clientMaxWindowBits = 15,
     cfg_serverNoContextTakeover = False, cfg_clientNoContextTakeover = False, minCompressSize = 256\<rparr>"

text \<open>The names as byte lists, for evaluation.\<close>

lemma deflate_names [code]:
  "kPermessageDeflate = [0x70, 0x65, 0x72, 0x6D, 0x65, 0x73, 0x73, 0x61, 0x67, 0x65, 0x2D, 0x64, 0x65, 0x66, 0x6C, 0x61, 0x74, 0x65]"
  "kServerNoContextTakeover = [0x73, 0x65, 0x72, 0x76, 0x65, 0x72, 0x5F, 0x6E, 0x6F, 0x5F, 0x63, 0x6F, 0x6E, 0x74, 0x65, 0x78, 0x74, 0x5F, 0x74, 0x61, 0x6B, 0x65, 0x6F, 0x76, 0x65, 0x72]"
  "kClientNoContextTakeover = [0x63, 0x6C, 0x69, 0x65, 0x6E, 0x74, 0x5F, 0x6E, 0x6F, 0x5F, 0x63, 0x6F, 0x6E, 0x74, 0x65, 0x78, 0x74, 0x5F, 0x74, 0x61, 0x6B, 0x65, 0x6F, 0x76, 0x65, 0x72]"
  "kServerMaxWindowBits = [0x73, 0x65, 0x72, 0x76, 0x65, 0x72, 0x5F, 0x6D, 0x61, 0x78, 0x5F, 0x77, 0x69, 0x6E, 0x64, 0x6F, 0x77, 0x5F, 0x62, 0x69, 0x74, 0x73]"
  "kClientMaxWindowBits = [0x63, 0x6C, 0x69, 0x65, 0x6E, 0x74, 0x5F, 0x6D, 0x61, 0x78, 0x5F, 0x77, 0x69, 0x6E, 0x64, 0x6F, 0x77, 0x5F, 0x62, 0x69, 0x74, 0x73]"
  by - code_simp+

declare CaseInsensitiveEqual_iff [code]

text \<open>The parameters of a response, each of which the offer parser reads back.\<close>

definition window_item :: "bytes \<Rightarrow> u8 \<Rightarrow> bytes" where
  "window_item name bits = name @ [0x3D] @ to_chars (unat bits)"

definition response_items :: "DeflateNegotiatedParams \<Rightarrow> bytes list" where
  "response_items p =
     (if serverNoContextTakeover p then [kServerNoContextTakeover] else [])
     @ (if clientNoContextTakeover p then [kClientNoContextTakeover] else [])
     @ (if serverMaxWindowBits p < 15 then [window_item kServerMaxWindowBits (serverMaxWindowBits p)] else [])
     @ (if clientMaxWindowBits p < 15 then [window_item kClientMaxWindowBits (clientMaxWindowBits p)] else [])"

lemma BuildDeflateResponse_items:
  "BuildDeflateResponse p out = out @ kPermessageDeflate @ concat (map (\<lambda>x. 0x3B # 0x20 # x) (response_items p))"
proof -
  have "kSemicolonSpace = [0x3B, 0x20]" by code_simp
  then show ?thesis by (simp add: BuildDeflateResponse_def response_items_def window_item_def)
qed

definition window_ok :: "u8 \<Rightarrow> bool" where
  "window_ok b \<longleftrightarrow> list_all (\<lambda>name. ParseExtensionParam (0x20 # window_item name b) = (name, Some (to_chars (unat b)))
     \<and> 0x3B \<notin> set (window_item name b)) [kServerMaxWindowBits, kClientMaxWindowBits] \<and> ParseWindowBits (to_chars (unat b)) = b"

lemma window_ok_all: "list_all window_ok [8, 9, 10, 11, 12, 13, 14]"
  by code_simp

lemma name_items:
  "ParseExtensionParam (0x20 # kServerNoContextTakeover) = (kServerNoContextTakeover, None)"
  "ParseExtensionParam (0x20 # kClientNoContextTakeover) = (kClientNoContextTakeover, None)"
  "0x3B \<notin> set kServerNoContextTakeover" "0x3B \<notin> set kClientNoContextTakeover" "0x3B \<notin> set kPermessageDeflate"
  "TrimOws kPermessageDeflate = kPermessageDeflate"
  by - code_simp+

lemma names_differ:
  "\<not> CaseInsensitiveEqual kServerMaxWindowBits kServerNoContextTakeover"
  "\<not> CaseInsensitiveEqual kServerMaxWindowBits kClientNoContextTakeover"
  "\<not> CaseInsensitiveEqual kClientMaxWindowBits kServerNoContextTakeover"
  "\<not> CaseInsensitiveEqual kClientMaxWindowBits kClientNoContextTakeover"
  "\<not> CaseInsensitiveEqual kClientMaxWindowBits kServerMaxWindowBits"
  "\<not> CaseInsensitiveEqual kClientNoContextTakeover kServerNoContextTakeover"
  by - code_simp+

lemma names_equal [simp]: "CaseInsensitiveEqual x x"
  by (simp add: CaseInsensitiveEqual_iff)

lemma window_ok: "8 \<le> b \<Longrightarrow> b < 15 \<Longrightarrow> window_ok b"
proof -
  assume "8 \<le> b" "b < 15"
  then have "unat b \<in> {8..<15}" by (simp add: word_le_nat_alt word_less_nat_alt)
  then have "unat b \<in> {8, 9, 10, 11, 12, 13, 14}" by auto
  then have "b \<in> set [8, 9, 10, 11, 12, 13, 14]" by (auto simp: word_unat_eq_iff)
  then show ?thesis using window_ok_all by (auto simp: list_all_iff)
qed

lemma tokens_items:
  assumes "list_all (\<lambda>x. 0x3B \<notin> set x) (x # xs)"
  shows "tokens 0x3B (0x20 # x @ concat (map (\<lambda>x. 0x3B # 0x20 # x) xs)) = map ((#) 0x20) (x # xs)"
  using assms
proof (induction xs arbitrary: x)
  case Nil
  then have "takeWhile (\<lambda>c. c \<noteq> 0x3B) x = x" "dropWhile (\<lambda>c. c \<noteq> 0x3B) x = []"
    by (auto simp: takeWhile_eq_all_conv dropWhile_eq_Nil_conv)
  then show ?case by (subst tokens.simps) (simp add: tokens.simps [of _ "[]"] del: dropWhile_eq_Nil_conv takeWhile_eq_all_conv)
next
  case (Cons y ys)
  have no: "c \<noteq> 0x3B" if "c \<in> set (0x20 # x)" for c using Cons.prems that by auto
  have "takeWhile (\<lambda>c. c \<noteq> 0x3B) ((0x20 # x) @ 0x3B # r) = 0x20 # x" "dropWhile (\<lambda>c. c \<noteq> 0x3B) ((0x20 # x) @ 0x3B # r) = 0x3B # r"
    for r using no by (subst takeWhile_append2 dropWhile_append2; auto)+
  then show ?case using Cons by (subst tokens.simps) simp
qed

lemma response_items_clean:
  assumes "good_params open_config p"
  shows "list_all (\<lambda>x. 0x3B \<notin> set x) (response_items p)"
  using assms window_ok [of "serverMaxWindowBits p"] window_ok [of "clientMaxWindowBits p"]
  by (simp add: response_items_def good_params_def window_ok_def name_items)

lemma ParseDeflateOffer_response:
  assumes "good_params open_config p"
  shows "ParseDeflateOffer (BuildDeflateResponse p []) open_config =
    offer_params open_config \<lparr>serverMaxWindowBits = 15, clientMaxWindowBits = 15, serverNoContextTakeover = False, clientNoContextTakeover = False\<rparr>
      (map ((#) 0x20) (response_items p))"
proof -
  have no: "c \<noteq> 0x3B" if "c \<in> set kPermessageDeflate" for c using name_items(5) that by auto
  show ?thesis
  proof (cases "response_items p")
    case Nil
    have "takeWhile (\<lambda>c. c \<noteq> 0x3B) kPermessageDeflate = kPermessageDeflate" "dropWhile (\<lambda>c. c \<noteq> 0x3B) kPermessageDeflate = []"
      using no by (auto simp: takeWhile_eq_all_conv dropWhile_eq_Nil_conv)
    then have "split_at 0x3B (BuildDeflateResponse p []) = (kPermessageDeflate, None)"
      using Nil by (simp add: BuildDeflateResponse_items split_at_def del: dropWhile_eq_Nil_conv takeWhile_eq_all_conv)
    then show ?thesis using Nil by (simp add: ParseDeflateOffer_def open_config_def name_items)
  next
    case (Cons x xs)
    have "split_at 0x3B (BuildDeflateResponse p []) = (kPermessageDeflate, Some (0x20 # x @ concat (map (\<lambda>x. 0x3B # 0x20 # x) xs)))"
      using no by (simp add: BuildDeflateResponse_items split_at_def Cons takeWhile_append2 dropWhile_append2)
    then show ?thesis using tokens_items [of x xs] response_items_clean [OF assms] Cons
      by (simp add: ParseDeflateOffer_def open_config_def name_items)
  qed
qed

text \<open>
  C24. The extension header of the response says what was negotiated: read by the same grammar, with nothing restricted on the reading side, it
  gives back the parameters, and it has exactly the size that was reserved for it.\<close>

theorem deflate_response_roundtrip:
  assumes "good_params open_config p"
  shows "ParseDeflateOffer (BuildDeflateResponse p []) open_config = Some p
    \<and> length (BuildDeflateResponse p out) = length out + ComputeDeflateResponseSize p"
proof
  let ?s = "serverMaxWindowBits p" and ?c = "clientMaxWindowBits p"
  have bits: "8 \<le> ?s" "?s \<le> 15" "8 \<le> ?c" "?c \<le> 15" using assms by (simp_all add: good_params_def)
  have s: "?s < 15 \<Longrightarrow> window_ok ?s" and c: "?c < 15 \<Longrightarrow> window_ok ?c" using bits window_ok by blast+
  have nz: "?s \<noteq> 0" "?c \<noteq> 0" using bits by auto
  have "\<not> ?s < 15 \<Longrightarrow> ?s = 15" "\<not> ?c < 15 \<Longrightarrow> ?c = 15" using bits by auto
  moreover have "min ?s 15 = ?s" "min ?c 15 = ?c" using bits by (simp_all add: min_def)
  ultimately show "ParseDeflateOffer (BuildDeflateResponse p []) open_config = Some p"
    unfolding ParseDeflateOffer_response [OF assms] using s c nz
    by (cases p) (auto simp: response_items_def offer_param_def window_ok_def name_items names_differ open_config_def)
  show "length (BuildDeflateResponse p out) = length out + ComputeDeflateResponseSize p"
    by (simp add: BuildDeflateResponse_def ComputeDeflateResponseSize_def nchars_def ndigits_length)
qed

text \<open>A negotiated window of nine bits, with one context reset.\<close>

definition sample_params :: DeflateNegotiatedParams where
  "sample_params = \<lparr>serverMaxWindowBits = 9, clientMaxWindowBits = 15, serverNoContextTakeover = True, clientNoContextTakeover = False\<rparr>"

theorem deflate_response_roundtrip_witness:
  "ParseDeflateOffer (BuildDeflateResponse sample_params []) open_config = Some sample_params
    \<and> length (BuildDeflateResponse sample_params [1, 2]) = length [1, 2 :: u8] + ComputeDeflateResponseSize sample_params"
  by (rule deflate_response_roundtrip) code_simp

text \<open>
  C23. Whatever the client offers, a valid configuration only ever negotiates parameters of the right shape: both windows between 8 and 15 bits and no greater than the configured
  ones, and context takeover never granted where the configuration forbids it.\<close>

theorem deflate_negotiation_typed:
  assumes "DeflateConfig_validate c = None"
  shows "pred_option (\<lambda>p.
     8 \<le> serverMaxWindowBits p \<and> serverMaxWindowBits p \<le> min 15 (cfg_serverMaxWindowBits c)
     \<and> 8 \<le> clientMaxWindowBits p \<and> clientMaxWindowBits p \<le> min 15 (cfg_clientMaxWindowBits c)
     \<and> (serverNoContextTakeover p \<or> serverNoContextTakeover p = cfg_serverNoContextTakeover c)
     \<and> (clientNoContextTakeover p \<or> clientNoContextTakeover p = cfg_clientNoContextTakeover c)) (ParseDeflateOffer offer c)"
  using ParseDeflateOffer_good [OF assms, of offer]
  by (cases "ParseDeflateOffer offer c") (auto simp: good_params_def)

theorem deflate_negotiation_typed_witness:
  "\<exists>p. ParseDeflateOffer (bytes_of ''permessage-deflate; server_max_window_bits=10'') open_config = Some p
     \<and> 8 \<le> serverMaxWindowBits p \<and> serverMaxWindowBits p \<le> min 15 (cfg_serverMaxWindowBits open_config)"
proof -
  have "DeflateConfig_validate open_config = None" by code_simp
  note typed = deflate_negotiation_typed [OF this, of "bytes_of ''permessage-deflate; server_max_window_bits=10''"]
  have "ParseDeflateOffer (bytes_of ''permessage-deflate; server_max_window_bits=10'') open_config
      = Some \<lparr>serverMaxWindowBits = 10, clientMaxWindowBits = 15, serverNoContextTakeover = False, clientNoContextTakeover = False\<rparr>"
    by code_simp
  then show ?thesis using typed by simp
qed

section \<open>Accepted upgrades\<close>

definition b64_code :: "nat \<Rightarrow> bool" where
  "b64_code ch \<longleftrightarrow> 65 \<le> ch \<and> ch \<le> 90 \<or> 97 \<le> ch \<and> ch \<le> 122 \<or> 48 \<le> ch \<and> ch \<le> 57 \<or> ch = 43 \<or> ch = 47 \<or> ch = 61"

lemma kB64Table_bytes:
  "kB64Table = [0x41, 0x42, 0x43, 0x44, 0x45, 0x46, 0x47, 0x48, 0x49, 0x4A, 0x4B, 0x4C, 0x4D, 0x4E, 0x4F, 0x50, 0x51, 0x52, 0x53, 0x54, 0x55, 0x56, 0x57, 0x58, 0x59, 0x5A, 0x61, 0x62, 0x63, 0x64, 0x65, 0x66, 0x67, 0x68, 0x69, 0x6A, 0x6B, 0x6C, 0x6D, 0x6E, 0x6F, 0x70, 0x71, 0x72, 0x73, 0x74, 0x75, 0x76, 0x77, 0x78, 0x79, 0x7A, 0x30, 0x31, 0x32, 0x33, 0x34, 0x35, 0x36, 0x37, 0x38, 0x39, 0x2B, 0x2F]"
  by code_simp

lemma b64_code_table:
  assumes "b64_code (unat ch)"
  shows "ch \<in> set kB64Table \<or> ch = 0x3D"
proof -
  have "list_all (\<lambda>n. word_of_nat n \<in> set kB64Table) ([65..<91] @ [97..<123] @ [48..<58] @ [43, 47])"
    unfolding kB64Table_bytes by (simp add: upt_rec)
  moreover have "unat ch \<in> set ([65..<91] @ [97..<123] @ [48..<58] @ [43, 47]) \<or> unat ch = 61"
    using assms unfolding b64_code_def set_append set_upt by auto
  ultimately have "word_of_nat (unat ch) \<in> set kB64Table \<or> unat ch = 61" unfolding list_all_iff by blast
  then show ?thesis by (auto simp: word_unat_eq_iff)
qed

lemma all_base64_chars:
  "all_base64 key = Some True \<Longrightarrow> c \<in> set key \<Longrightarrow> c \<in> set kB64Table \<or> c = 0x3D"
proof (induction key)
  case (Cons ch rest)
  have "IsBase64Char ch = Some True \<Longrightarrow> b64_code (unat ch)"
    by (auto simp: IsBase64Char_def kIsBase64CharTable_def b64_code_def split: if_splits)
  then show ?case using Cons b64_code_table [of ch] by (auto split: option.splits if_splits)
qed simp

lemma append_tokens_parts:
  assumes "append_tokens (layout cs_sep ps) toks = Inr buf" "list_all (\<lambda>p. \<not> sv_contains p cs_sep) ps"
  shows "\<exists>qs. buf = layout cs_sep qs \<and> list_all (\<lambda>p. \<not> sv_contains p cs_sep) qs \<and> qs = ps @ filter (\<lambda>t. t \<noteq> []) (map TrimOws toks)"
  using assms
proof (induction toks arbitrary: ps)
  case (Cons tok toks)
  show ?case
  proof (cases "TrimOws tok = []")
    case True
    then show ?thesis using Cons by simp
  next
    case False
    then have ok: "\<not> sv_contains (TrimOws tok) cs_sep"
      using Cons.prems(1) by (auto simp: cs_append_def split: if_splits)
    then have "append_tokens (layout cs_sep (ps @ [TrimOws tok])) toks = Inr buf"
      using Cons.prems(1) False by (simp add: sep.append_layout del: sep_of.simps layout_simps)
    from Cons.IH [OF this] show ?thesis using Cons.prems(2) ok False by simp
  qed
qed simp

lemma ParseTokenList_parts:
  assumes "ParseTokenList hdr = Inr buf"
  shows "cs_list buf = filter (\<lambda>t. t \<noteq> []) (map TrimOws (tokens 0x2C hdr))"
    "cs_containsCI cs_sep buf part = Some (list_ex (\<lambda>p. map tolower p = map tolower part) (cs_list buf))"
proof -
  obtain qs where qs: "buf = layout cs_sep qs" "list_all (\<lambda>p. \<not> sv_contains p cs_sep) qs"
    "qs = filter (\<lambda>t. t \<noteq> []) (map TrimOws (tokens 0x2C hdr))"
    using append_tokens_parts [of "[]" "tokens 0x2C hdr" buf] assms by (auto simp: ParseTokenList_def simp del: sep_of.simps)
  have parts: "cs_list buf = qs" unfolding cs_list_def qs(1) sep.parts_layout [OF qs(2)] by simp
  then show "cs_list buf = filter (\<lambda>t. t \<noteq> []) (map TrimOws (tokens 0x2C hdr))" using qs(3) by simp
  show "cs_containsCI cs_sep buf part = Some (list_ex (\<lambda>p. map tolower p = map tolower part) (cs_list buf))"
    unfolding parts unfolding qs(1) by (rule sep.containsCI_layout [OF qs(2)])
qed

lemma NegotiateSubprotocol_sound:
  assumes "ParseTokenList hdr = Inr offered" "NegotiateSubprotocol offered supported \<noteq> []"
  shows "NegotiateSubprotocol offered supported \<in> set (cs_list supported)
    \<and> list_ex (\<lambda>t. map tolower (TrimOws t) = map tolower (NegotiateSubprotocol offered supported)) (tokens 0x2C hdr)"
proof -
  obtain p where find: "find (\<lambda>serverProto. cs_containsCI cs_sep offered serverProto = Some True) (cs_list supported) = Some p"
    and p: "NegotiateSubprotocol offered supported = p"
    using assms(2) by (auto simp: NegotiateSubprotocol_def split: option.splits)
  have "p \<in> set (cs_list supported)" "cs_containsCI cs_sep offered p = Some True"
    using find by (auto simp: find_Some_iff in_set_conv_nth)
  then show ?thesis unfolding p ParseTokenList_parts [OF assms(1)] by (auto simp: list_ex_iff)
qed

text \<open>The steps an accepted request has passed.\<close>

lemma upgrade_accepted_steps:
  assumes "ValidateWebSocketUpgrade garbage headers config = Inr r" "res_valid r"
  obtains key r1 r2 where "headers_find headers SecWebSocketKey = Some key" "IsValidWebSocketKey key = Some True"
    "headers_find headers SecWebSocketVersion = Some (bytes_of ''13'')"
    "pred_option ConnectionContainsUpgrade (headers_find headers hdr_connection)"
    "negotiate_protocol headers config (emptyResult\<lparr>secWebSocketAccept := ComputeWebSocketAccept garbage key\<rparr>) = Inr r1"
    "negotiate_extensions headers config r1 = Inr r2" "r = r2\<lparr>res_valid := True, targetProtocol := WebSocket\<rparr>"
  using assms unfolding ValidateWebSocketUpgrade_def Let_def
  by (auto simp: emptyResult_def split: option.splits if_splits bool.splits sum.splits)

lemma valid_key:
  assumes "IsValidWebSocketKey key = Some True"
  shows "length key = 24" "list_all (\<lambda>c. c \<in> set kB64Table \<or> c = 0x3D) key" "drop 22 key = [0x3D, 0x3D]"
proof -
  have key: "length key = 24" "all_base64 key = Some True" "key ! 22 = 0x3D" "key ! 23 = 0x3D"
    using assms by (auto simp: IsValidWebSocketKey_def split: option.splits if_splits)
  show "length key = 24" by (rule key(1))
  show "list_all (\<lambda>c. c \<in> set kB64Table \<or> c = 0x3D) key" using all_base64_chars [OF key(2)] by (auto simp: list_all_iff)
  have "drop 22 key = key ! 22 # key ! 23 # drop 24 key"
    using key(1) Cons_nth_drop_Suc [of 22 key] Cons_nth_drop_Suc [of 23 key] by simp
  then show "drop 22 key = [0x3D, 0x3D]" using key by simp
qed

lemma negotiate_protocol_result:
  assumes "negotiate_protocol headers config (emptyResult\<lparr>secWebSocketAccept := a\<rparr>) = Inr r1"
  shows "secWebSocketAccept r1 = a" "deflateParams r1 = None"
    "selectedProtocol r1 = [] \<or> selectedProtocol r1 \<in> set (cs_list (supportedProtocols config))
       \<and> pred_option (\<lambda>v. list_ex (\<lambda>t. map tolower (TrimOws t) = map tolower (selectedProtocol r1)) (tokens 0x2C v))
           (headers_find headers SecWebSocketProtocol)"
  using assms NegotiateSubprotocol_sound
  by (auto simp: negotiate_protocol_def emptyResult_def split: option.splits if_splits sum.splits)

lemma negotiate_extensions_result:
  assumes "negotiate_extensions headers config r1 = Inr r2" "deflateParams r1 = None"
  shows "secWebSocketAccept r2 = secWebSocketAccept r1" "selectedProtocol r2 = selectedProtocol r1"
    "DeflateConfig_validate (deflateConfig config) = None \<Longrightarrow> pred_option (good_params (deflateConfig config)) (deflateParams r2)"
  using assms first_offer_good
  by (auto simp: negotiate_extensions_def split: option.splits if_splits sum.splits)
    (metis option.pred_inject option.exhaust)+


text \<open>The request of the standard's example, from a client that knows the subprotocols \<^verbatim>\<open>chat\<close> and \<^verbatim>\<open>superchat\<close>.\<close>

definition sample_key :: bytes where
  "sample_key = bytes_of ''dGhlIHNhbXBsZSBub25jZQ==''"

definition sample_headers :: headers where
  "sample_headers = [(bytes_of ''Upgrade'', UpgradeValue), (bytes_of ''Connection'', bytes_of ''keep-alive, Upgrade''),
     (SecWebSocketVersion, bytes_of ''13''), (SecWebSocketKey, sample_key), (SecWebSocketProtocol, bytes_of ''chat, superchat'')]"

definition sample_config :: WebSocketUpgradeConfig where
  "sample_config = \<lparr>supportedProtocols = bytes_of ''superchat'' @ [0], deflateConfig = open_config\<rparr>"

definition sample_result :: "bytes \<Rightarrow> UpgradeValidationResult" where
  "sample_result a = emptyResult\<lparr>secWebSocketAccept := a, offeredProtocols := bytes_of ''chat'' @ 0 # bytes_of ''superchat'' @ [0],
     selectedProtocol := bytes_of ''superchat''\<rparr>"

lemma sample_steps:
  "headers_find sample_headers hdr_upgrade = Some UpgradeValue"
  "(case headers_find sample_headers hdr_connection of None \<Rightarrow> False | Some v \<Rightarrow> ConnectionContainsUpgrade v) = True"
  "headers_find sample_headers SecWebSocketVersion = Some (bytes_of ''13'')"
  "headers_find sample_headers SecWebSocketKey = Some sample_key"
  "IsValidWebSocketKey sample_key = Some True"
  "headers_find sample_headers SecWebSocketProtocol = Some (bytes_of ''chat, superchat'')"
  "headers_find sample_headers SecWebSocketExtensions = None"
  "bytes_of ''chat, superchat'' \<noteq> []"
  "ParseTokenList (bytes_of ''chat, superchat'') = Inr (bytes_of ''chat'' @ 0 # bytes_of ''superchat'' @ [0])"
  "NegotiateSubprotocol (bytes_of ''chat'' @ 0 # bytes_of ''superchat'' @ [0]) (supportedProtocols sample_config) = bytes_of ''superchat''"
  by - code_simp+


text \<open>A key of the right length with a byte above the table makes the check read outside it.\<close>

lemma key_check_out_of_bounds: "IsValidWebSocketKey (0xFF # tl sample_key) = None"
  by code_simp

text \<open>A subprotocol list with a zero byte ends in an exception.\<close>

lemma token_list_exception: "ParseTokenList [0x61, 0] = Inl InvalidArgument"
  by code_simp

end
