(* ===== verification/Spec2Isabelle.thy ===== *)
theory Spec2Isabelle
  imports Prelude Http2_Frame_Types Http2_Frame Http2_Stream Ascii Hpack_Huffman Hpack_Tables Hpack Http2_Connection
    Http2_Connection_Inv Http2_Serve Http2_Transfer Ws_Frame Ws_Utf8 Ws_Handler Ws_Session Ws_Serve Ws_Reach Ws_Delivery
    Sha1 Codecs Url Decimal Https_Redirect Concat_Strings Http1_Head Http1_Body Route_Constraint Deadline_Queue Ws_Upgrade
begin

text \<open>
  A verification development of \<^verbatim>\<open>aeronet\<close>, a C++ library for HTTP/1.1, HTTP/2 and WebSocket servers. All paths below are relative to
  \<^verbatim>\<open>src/aeronet/\<close>.

  \<^bold>\<open>The program.\<close> A server (\<^verbatim>\<open>server/\<close>) owns connections. The bytes of a connection go to one of three protocol engines. HTTP/1 requests are
  parsed in the connection buffer (\<^verbatim>\<open>http/src/http-request-view.cpp\<close>, \<^verbatim>\<open>server/src/http-parser.cpp\<close>). A request may switch the protocol
  (\<^verbatim>\<open>http/src/upgrade-handler.cpp\<close>, \<^verbatim>\<open>websocket/src/websocket-upgrade.cpp\<close>) or be redirected to https (\<^verbatim>\<open>tech/src/https-redirect.cpp\<close>). From then on a
  protocol handler, the HTTP/2 connection (\<^verbatim>\<open>http2/\<close>) or the WebSocket handler (\<^verbatim>\<open>websocket/\<close>), consumes the input and fills an output buffer that the server
  drains. HTTP/2 uses the header compression of \<^verbatim>\<open>http2/src/hpack.cpp\<close>, and all of them the text routines of \<^verbatim>\<open>tech/\<close> and \<^verbatim>\<open>objects/\<close>.

  \<^bold>\<open>How the code is modelled.\<close> A C++ class is a record, a member function that changes it a function that returns the new record (with its result, if any), an
  enumeration a datatype, an error code or exception a value of a sum or option type, a buffer a list of bytes, a pointer or \<^verbatim>\<open>std::string_view\<close> into a buffer
  that is rewritten in place a position with a length. Integers keep their width where it matters: they are words, or integers brought back into range by
  the casts of the code. Callbacks of the application are a list of events. SIMD code is modelled lane by lane, next to its scalar form. Loops are recursive functions with a
  termination proof. Definitions have the names of the code where a name is free; a definition that models a loop or a branch of a function is named for it.

  \<^bold>\<open>The theories.\<close>

  \<^item> \<^verbatim>\<open>Prelude\<close>: words, big-endian access, the collections of simplification rules, and two interfaces. The locale \<open>codec\<close> is a self-delimiting encoding, with
    the round trip of sequences and of prefixes proved once; \<open>invariant_of\<close> is an invariant of a step relation.

  \<^item> \<^verbatim>\<open>Http2_Frame_Types\<close>, \<^verbatim>\<open>Http2_Frame\<close> (\<^verbatim>\<open>http2/include/aeronet/http2-frame-types.hpp\<close>, \<^verbatim>\<open>http2/src/http2-frame.cpp\<close>): all frame writers and parsers. Every sequence of
    written frames is read back (an interpretation of \<open>codec\<close>).

  \<^item> \<^verbatim>\<open>Http2_Stream\<close> (\<^verbatim>\<open>http2/src/http2-stream.cpp\<close>): the state machine of a stream and its windows. It refines two half channels, the windows stay in range in
    every reachable state, and the send window is the sum of what was granted less what was sent.

  \<^item> \<^verbatim>\<open>Ascii\<close> (\<^verbatim>\<open>tech/include/aeronet/toupperlower.hpp\<close>, \<^verbatim>\<open>tolower-str.hpp\<close>, \<^verbatim>\<open>string-equal-ignore-case.hpp\<close>, \<^verbatim>\<open>http/include/aeronet/mergeable-headers.hpp\<close>): the block-wise routines
    equal their byte-wise reference, and the binary search in the table of merge policies equals a linear search.

  \<^item> \<^verbatim>\<open>Hpack_Huffman\<close>, \<^verbatim>\<open>Hpack_Tables\<close>, \<^verbatim>\<open>Hpack\<close> (\<^verbatim>\<open>http2/src/hpack.cpp\<close>): the table-driven Huffman decoder accepts exactly the encodings and inverts the encoder, within the
    buffer allocated for it; the dynamic table keeps its accounts and evicts no more than it must; the hash index finds what a search of the static table finds; a session of header blocks through
    encoder and decoder returns the headers, with the two dynamic tables equal.

  \<^item> \<^verbatim>\<open>Http2_Connection\<close>, \<^verbatim>\<open>Http2_Connection_Inv\<close> (\<^verbatim>\<open>http2/src/http2-connection.cpp\<close>): every member function that changes the connection, and an invariant of the stream table, windows, settings, buffers
    and compression contexts that all of them keep.

  \<^item> \<^verbatim>\<open>Http2_Serve\<close> (\<^verbatim>\<open>processSpecialProtocolHandler\<close> of \<^verbatim>\<open>server/src/single-http-server.cpp\<close>): the input loop. Its outcome does not depend on how the input is cut, output is sent once and in order, and a
    protocol error closes the connection after a GOAWAY.

  \<^item> \<^verbatim>\<open>Http2_Transfer\<close>: two connections end to end. Requests, responses and data that one side sends are the events of the other.

  \<^item> \<^verbatim>\<open>Ws_Frame\<close>, \<^verbatim>\<open>Ws_Utf8\<close>, \<^verbatim>\<open>Ws_Handler\<close> (\<^verbatim>\<open>websocket/src/websocket-frame.cpp\<close>, \<^verbatim>\<open>websocket-handler.cpp\<close>): framing, the vectorised masking and UTF-8 validation against their definitions, and the handler. The compressor is a parameter.

  \<^item> \<^verbatim>\<open>Ws_Session\<close>, \<^verbatim>\<open>Ws_Reach\<close>, \<^verbatim>\<open>Ws_Delivery\<close>, \<^verbatim>\<open>Ws_Serve\<close>: the handler over many calls. It is independent of how its input is cut, its output follows the closing handshake in every reachable state, the message
    limit holds, and messages sent on one side are delivered on the other. \<^verbatim>\<open>Ws_Serve\<close> shows what the server's loop makes of a frame that arrives in two parts.

  \<^item> \<^verbatim>\<open>Sha1\<close>, \<^verbatim>\<open>Codecs\<close>, \<^verbatim>\<open>Concat_Strings\<close>, \<^verbatim>\<open>Decimal\<close>, \<^verbatim>\<open>Url\<close> (\<^verbatim>\<open>tech/\<close>, \<^verbatim>\<open>objects/\<close>): the hash of the handshake against its definition, base64 and base64url, lists of strings in one buffer, digit counts, percent-encoding and
    the in-place decoding of targets and queries, which always ends.

  \<^item> \<^verbatim>\<open>Ws_Upgrade\<close>, \<^verbatim>\<open>Https_Redirect\<close>: the validation of upgrades and the negotiation of compression; a redirect leads to the request it answers.

  \<^item> \<^verbatim>\<open>Http1_Head\<close>, \<^verbatim>\<open>Http1_Body\<close>: parsing a request head and a body in place. A rendered request is parsed to what it says, repeated headers are joined in the buffer as their values are, a chunked body as the
    writer emits it is decoded, and no proper part of it is taken for a body or an error.

  \<^item> \<^verbatim>\<open>Route_Constraint\<close> (\<^verbatim>\<open>http/src/route-constraint.cpp\<close>): the pattern parser and the backtracking matcher for path parameters. The matcher ends and accepts exactly the language of the pattern.

  \<^item> \<^verbatim>\<open>Deadline_Queue\<close> (\<^verbatim>\<open>server/src/keep-alive-deadline-queue.cpp\<close>, \<^verbatim>\<open>closeExpiredKeepAliveConnections\<close> of \<^verbatim>\<open>connection-manager.cpp\<close>): the indexed heap implements a map of deadlines; the locale \<open>deadline_map\<close> is what the sweep relies on, and
    the sweep, a loop that need not end, is a partial function that is shown to return and to close the right connections when the time-out is positive.

  \<^bold>\<open>Bounds and fuel.\<close> Two functions on the static header table probe a hash table of 64 slots with a fuel of 64, and it is proved that this finds a free slot or the name. Where the code adds sizes as 64-bit numbers, the theorems ask that the
  buffers be shorter than \<open>2 ^ 64\<close>, which every buffer in memory is. No other definition has a bound that is not in the code.

  \<^bold>\<open>Hypotheses.\<close> The WebSocket theorems on compressed messages assume of the compressor that decompression inverts it and that messages are compressed independently of one another (the mode without context takeover); the witness instantiates it. The theorem on request heads
  leaves out headers whose repetition replaces the value or is forbidden and headers with an empty value; an example in the same theory shows why. That on chunked bodies is about bodies without a content coding.

  \<^bold>\<open>What modelling showed.\<close> Several theories end with examples where the code does not do what it means to: a request or frame that arrives in two parts (\<^verbatim>\<open>Http1_Head\<close>, \<^verbatim>\<open>Ws_Serve\<close>), trailers that are parsed twice (\<^verbatim>\<open>Http1_Body\<close>), a sweep that does not end (\<^verbatim>\<open>Deadline_Queue\<close>), query parameters
  with empty pairs or encoded separators (\<^verbatim>\<open>Url\<close>), a handshake key with bytes outside the table it is looked up in (\<^verbatim>\<open>Ws_Upgrade\<close>).

  \<^bold>\<open>Not modelled.\<close> Sockets, the event loop, timers, files and TLS are calls into the operating system and OpenSSL; compression, telemetry and signatures are third-party libraries behind thin wrappers. The router, the response
  builder, static files, multipart forms, CORS, rate limits, content negotiation and the HTTP client are further components around the protocol core; they are left out for their size, and some of them for their use of clocks and floating-point numbers. Of
  the server's main loop, the dispatch to user handlers is left out; the steps that interpret input are in the theories above. Application callbacks that call back into the connection are not covered, nor is the order in which a hash map lists its entries.
\<close>

end
